(* ===== verification/GclPrelude.thy ===== *)
theory GclPrelude
  imports Main "HOL-Library.Word"
begin

section \<open>Shared types, faults and arithmetic\<close>

text \<open>
  What every component theory shares: the machine types of \<open>include/gcldef.h\<close>, the faults
  that stand for the undefined behaviour of C++ (an access outside an object, a null
  dereference, a division by zero, a read of an unset variable, a signed overflow, a use of a dead
  object or handle) and for calls that never return, the sequencing of
  fallible steps, and the generic facts on words, byte blocks and ring indices on which the
  component proofs rest. The collection \<open>res_simps\<close> holds the rewrite rules that run a
  fallible step once its outcome is known.
\<close>

named_theorems res_simps \<open>running fallible steps\<close>
named_theorems word_norm \<open>unsigned readings of word operations that do not wrap\<close>

subsection \<open>Machine types (\<open>include/gcldef.h\<close>, LP64)\<close>

type_synonym u8_t = "8 word"
type_synonym u16_t = "16 word"
type_synonym u32_t = "32 word"
type_synonym u64_t = "64 word"
type_synonym ptr = "64 word"

abbreviation (input) null_ptr :: ptr where
  "null_ptr \<equiv> 0"

subsection \<open>Faults and fallible steps\<close>

datatype fault = OutOfBounds | NullDeref | DivByZero | Uninit | Overflow | Diverges | Deadlock
  | UseAfterFree | BadHandle

type_synonym 'a res = "fault + 'a"

definition rbind :: "'a res \<Rightarrow> ('a \<Rightarrow> 'b res) \<Rightarrow> 'b res" where
  "rbind r f = (case r of Inl e \<Rightarrow> Inl e | Inr x \<Rightarrow> f x)"

lemma rbind_Inr [simp, res_simps]: "rbind (Inr x) f = f x"
  and rbind_Inl [simp, res_simps]: "rbind (Inl e) f = Inl e"
  by (simp_all add: rbind_def)

lemma rbind_eq_Inr: "rbind r f = Inr y \<longleftrightarrow> (\<exists>x. r = Inr x \<and> f x = Inr y)"
  by (cases r) simp_all

lemma rbind_eq_Inl: "rbind r f = Inl e \<longleftrightarrow> r = Inl e \<or> (\<exists>x. r = Inr x \<and> f x = Inl e)"
  by (cases r) auto

text \<open>\<open>a / b\<close> on unsigned operands; a zero divisor is undefined behaviour.\<close>

definition udiv :: "u32_t \<Rightarrow> u32_t \<Rightarrow> u32_t res" where
  "udiv a b = (if b = 0 then Inl DivByZero else Inr (a div b))"

lemma udiv_Inr [res_simps]: "b \<noteq> 0 \<Longrightarrow> udiv a b = Inr (a div b)"
  by (simp add: udiv_def)

text \<open>
  Signed results, as mathematical integers that must fit in \<open>w\<close> bits, and single bytes of a
  buffer. Both fault where C++ leaves the behaviour undefined.
\<close>

definition signed_fit :: "nat \<Rightarrow> int \<Rightarrow> int res" where
  "signed_fit w k = (if - (2 ^ (w - 1)) \<le> k \<and> k < 2 ^ (w - 1) then Inr k else Inl Overflow)"

definition load :: "'a list \<Rightarrow> nat \<Rightarrow> 'a res" where
  "load bs i = (if i < length bs then Inr (bs ! i) else Inl OutOfBounds)"

definition store :: "'a list \<Rightarrow> nat \<Rightarrow> 'a \<Rightarrow> 'a list res" where
  "store bs i b = (if i < length bs then Inr (bs[i := b]) else Inl OutOfBounds)"

lemma signed_fit_Inr [res_simps]: "- (2 ^ (w - 1)) \<le> k \<Longrightarrow> k < 2 ^ (w - 1) \<Longrightarrow> signed_fit w k = Inr k"
  by (simp add: signed_fit_def)

lemma load_Inr [res_simps]: "i < length bs \<Longrightarrow> load bs i = Inr (bs ! i)"
  and store_Inr [res_simps]: "i < length bs \<Longrightarrow> store bs i b = Inr (bs[i := b])"
  by (simp_all add: load_def store_def)

subsection \<open>Unsigned word arithmetic that does not wrap\<close>

lemma unat_add_nowrap [word_norm]:
  fixes x y :: "'a::len word"
  assumes "unat x + unat y < 2 ^ LENGTH('a)"
  shows "unat (x + y) = unat x + unat y"
  using assms by (simp add: unat_word_ariths)

lemma unat_sub_nowrap [word_norm]:
  fixes x y :: "'a::len word"
  assumes "unat y \<le> unat x"
  shows "unat (x - y) = unat x - unat y"
  using assms by (simp add: unat_sub word_le_nat_alt)

lemma unat_mult_nowrap [word_norm]:
  fixes x y :: "'a::len word"
  assumes "unat x * unat y < 2 ^ LENGTH('a)"
  shows "unat (x * y) = unat x * unat y"
  using assms by (simp add: unat_word_ariths)

lemma unat_div_word [word_norm]: "unat (x div y) = unat x div unat (y :: 'a::len word)"
  by (rule unat_div)

lemma unat_lt_32: "unat (x :: u32_t) < 4294967296"
  using unsigned_less [of x, where ?'a = nat] by simp

lemma unat_lt_64: "unat (x :: u64_t) < 18446744073709551616"
  using unsigned_less [of x, where ?'a = nat] by simp

lemma unat_ucast_32_64 [word_norm]: "unat (ucast (x :: u32_t) :: u64_t) = unat x"
  by (simp add: unsigned_ucast_eq take_bit_nat_eq_self order.strict_trans [OF unat_lt_32])

lemma word_eq_unat: "x = y \<longleftrightarrow> unat x = unat (y :: 'a::len word)"
  by (simp add: word_unat_eq_iff)

subsection \<open>Words as bytes, least significant first\<close>

primrec le_bytes :: "nat \<Rightarrow> u64_t \<Rightarrow> u8_t list" where
  "le_bytes 0 w = []"
| "le_bytes (Suc n) w = ucast w # le_bytes n (w div 256)"

primrec le_val :: "u8_t list \<Rightarrow> u64_t" where
  "le_val [] = 0"
| "le_val (b # bs) = ucast b + 256 * le_val bs"

lemma length_le_bytes [simp]: "length (le_bytes n w) = n"
  by (induction n arbitrary: w) simp_all

lemma unat_le_val: "n \<le> 8 \<Longrightarrow> unat (le_val (le_bytes n w)) = unat w mod 256 ^ n"
proof (induction n arbitrary: w)
  case (Suc n)
  have b: "unat (ucast (ucast w :: u8_t) :: u64_t) = unat w mod 256"
    by (simp add: unsigned_ucast_eq take_bit_eq_mod unat_mod)
  have v: "unat (le_val (le_bytes n (w div 256))) = unat w div 256 mod 256 ^ n"
    using Suc by (simp add: unat_div_word)
  have m: "unat w mod 256 + 256 * (unat w div 256 mod 256 ^ n) = unat w mod 256 ^ Suc n"
    by (simp add: mod_mult2_eq)
  have lt: "unat w mod 256 ^ Suc n < 2 ^ 64"
    using order.strict_trans1 [OF mod_less_eq_dividend unat_lt_64 [of w]] by simp
  have "unat (256 * le_val (le_bytes n (w div 256))) = 256 * (unat w div 256 mod 256 ^ n)"
    using lt m by (subst unat_mult_nowrap) (simp_all add: v)
  then show ?case using lt m b by (simp only: le_bytes.simps le_val.simps) (subst unat_add_nowrap, simp_all)
qed simp

lemma le_val_le_bytes [simp]: "le_val (le_bytes 8 w) = w"
  using unat_le_val [of 8 w] unat_lt_64 [of w] by (simp add: word_eq_unat)

subsection \<open>Byte blocks\<close>

text \<open>
  \<open>chunk n i bs\<close> is the \<open>i\<close>-th block of \<open>n\<close> bytes of \<open>bs\<close>; \<open>overwrite k cs bs\<close> is
  what \<open>memcpy(bs + k, cs, |cs|)\<close> leaves.
\<close>

definition chunk :: "nat \<Rightarrow> nat \<Rightarrow> 'a list \<Rightarrow> 'a list" where
  "chunk n i bs = take n (drop (i * n) bs)"

definition overwrite :: "nat \<Rightarrow> 'a list \<Rightarrow> 'a list \<Rightarrow> 'a list" where
  "overwrite k cs bs = take k bs @ cs @ drop (k + length cs) bs"

lemma length_overwrite [simp]: "k + length cs \<le> length bs \<Longrightarrow> length (overwrite k cs bs) = length bs"
  by (simp add: overwrite_def)

lemma block_end: "i < m \<Longrightarrow> i * n + n \<le> m * (n :: nat)"
proof -
  assume "i < m"
  then have "Suc i * n \<le> m * n" by (intro mult_le_mono1) simp
  then show ?thesis by simp
qed

lemma length_chunk [simp]: "length bs = m * n \<Longrightarrow> i < m \<Longrightarrow> length (chunk n i bs) = n"
  using block_end [of i m n] by (simp add: chunk_def)

lemma chunk_overwrite_same:
  assumes "length bs = m * n" "i < m" "length cs = n"
  shows "chunk n i (overwrite (i * n) cs bs) = cs"
  using assms block_end [of i m n] by (simp add: chunk_def overwrite_def)

lemma chunk_overwrite_other:
  assumes "length bs = m * n" "i < m" "j < m" "i \<noteq> j" "length cs = n"
  shows "chunk n i (overwrite (j * n) cs bs) = chunk n i bs"
proof (cases "i < j")
  case True
  then have "i * n + n \<le> j * n" by (rule block_end)
  moreover have "j * n \<le> length bs" using assms block_end [of j m n] by simp
  ultimately show ?thesis by (simp add: chunk_def overwrite_def take_drop min_def)
next
  case False
  with \<open>i \<noteq> j\<close> have "j < i" by simp
  then have "j * n + n \<le> i * n" by (rule block_end)
  moreover have "j * n \<le> length bs" using assms block_end [of j m n] by simp
  ultimately have "overwrite (j * n) cs bs = (take (j * n) bs @ cs) @ drop (j * n + n) bs"
    and "length (take (j * n) bs @ cs) = j * n + n"
    using \<open>length cs = n\<close> by (simp_all add: overwrite_def)
  then show ?thesis
    using \<open>j * n + n \<le> i * n\<close> by (simp add: chunk_def del: append_assoc)
qed

subsection \<open>Ring indices\<close>

text \<open>
  \<open>ring n h t\<close> lists the slots from \<open>h\<close> up to but not including \<open>t\<close> of a ring of \<open>n\<close>
  slots, wrapping at \<open>n\<close>. \<open>rsuc\<close> and \<open>rpred\<close> step one slot forwards and backwards.
\<close>

definition rsuc :: "nat \<Rightarrow> nat \<Rightarrow> nat" where
  "rsuc n i = (if Suc i = n then 0 else Suc i)"

definition rpred :: "nat \<Rightarrow> nat \<Rightarrow> nat" where
  "rpred n i = (if i = 0 then n - 1 else i - 1)"

definition rlen :: "nat \<Rightarrow> nat \<Rightarrow> nat \<Rightarrow> nat" where
  "rlen n h t = (if h \<le> t then t - h else n - h + t)"

definition ring :: "nat \<Rightarrow> nat \<Rightarrow> nat \<Rightarrow> nat list" where
  "ring n h t = (if h \<le> t then [h..<t] else [h..<n] @ [0..<t])"

lemma rsuc_lt [simp]: "i < n \<Longrightarrow> rsuc n i < n"
  and rpred_lt [simp]: "i < n \<Longrightarrow> rpred n i < n"
  and rsuc_rpred [simp]: "i < n \<Longrightarrow> rsuc n (rpred n i) = i"
  and rpred_rsuc [simp]: "i < n \<Longrightarrow> rpred n (rsuc n i) = i"
  by (auto simp: rsuc_def rpred_def split: if_splits)

lemma rsuc_neq: "i < n \<Longrightarrow> 1 < n \<Longrightarrow> rsuc n i \<noteq> i"
  by (auto simp: rsuc_def split: if_splits)

lemma length_ring [simp]: "length (ring n h t) = rlen n h t"
  by (simp add: ring_def rlen_def)

lemma set_ring: "h < n \<Longrightarrow> t < n \<Longrightarrow> i \<in> set (ring n h t) \<Longrightarrow> i < n \<and> i \<noteq> t"
  by (auto simp: ring_def split: if_splits)

lemma ring_same [simp]: "ring n h h = []"
  by (simp add: ring_def)

lemma ring_eq_Nil [simp]: "h < n \<Longrightarrow> t < n \<Longrightarrow> ring n h t = [] \<longleftrightarrow> h = t"
  by (auto simp: ring_def)

lemma distinct_ring: "h < n \<Longrightarrow> t < n \<Longrightarrow> distinct (ring n h t)"
  by (auto simp: ring_def)

lemma ring_snoc:
  assumes "h < n" "t < n" "rsuc n t \<noteq> h"
  shows "ring n h (rsuc n t) = ring n h t @ [t]"
  using assms by (auto simp: ring_def rsuc_def split: if_splits)

lemma ring_cons:
  assumes "h < n" "t < n" "h \<noteq> t"
  shows "ring n h t = h # ring n (rsuc n h) t"
  using assms by (auto simp: ring_def rsuc_def upt_conv_Cons split: if_splits)

lemma ring_pred_snoc:
  assumes "h < n" "t < n" "h \<noteq> t"
  shows "ring n h t = ring n h (rpred n t) @ [rpred n t]"
  using assms ring_snoc [of h n "rpred n t"] by simp

lemma ring_pred_cons:
  assumes "h < n" "t < n" "rpred n h \<noteq> t"
  shows "ring n (rpred n h) t = rpred n h # ring n h t"
  using assms ring_cons [of "rpred n h" n t] by simp

lemma rlen_full: "h < n \<Longrightarrow> t < n \<Longrightarrow> rlen n h t = n - 1 \<longleftrightarrow> rsuc n t = h"
  by (auto simp: rlen_def rsuc_def split: if_splits)

lemma rlen_lt: "h < n \<Longrightarrow> t < n \<Longrightarrow> rlen n h t < n"
  by (auto simp: rlen_def)

lemma rlen_eq_0: "h < n \<Longrightarrow> t < n \<Longrightarrow> rlen n h t = 0 \<longleftrightarrow> h = t"
  by (auto simp: rlen_def)

text \<open>Slot \<open>k\<close> of a ring, and the slot after it.\<close>

lemma ring_nth_Suc:
  assumes "h < n" "t < n" "Suc k < rlen n h t"
  shows "ring n h t ! Suc k = rsuc n (ring n h t ! k)"
  using assms by (auto simp: ring_def rlen_def rsuc_def nth_append split: if_splits)

lemma ring_last_rsuc:
  assumes "h < n" "t < n" "h \<noteq> t"
  shows "rsuc n (ring n h t ! (rlen n h t - 1)) = t"
  using assms by (auto simp: ring_def rlen_def rsuc_def nth_append split: if_splits)

subsection \<open>Decimal numbers\<close>

text \<open>The digits that \<open>sprintf\<close> writes for \<open>%d\<close> and a number that is not negative.\<close>

fun decimal :: "nat \<Rightarrow> u8_t list" where
  "decimal n = (if n < 10 then [of_nat (48 + n)] else decimal (n div 10) @ [of_nat (48 + n mod 10)])"

declare decimal.simps [simp del]

lemma length_decimal: "n < 10 ^ Suc d \<Longrightarrow> length (decimal n) \<le> Suc d"
proof (induction d arbitrary: n)
  case 0
  then show ?case by (simp add: decimal.simps)
next
  case (Suc d)
  show ?case
  proof (cases "n < 10")
    case False
    have "n div 10 < 10 ^ Suc d" using Suc.prems by (simp add: less_mult_imp_div_less)
    then show ?thesis using Suc.IH [of "n div 10"] False by (simp add: decimal.simps [of n])
  qed (simp add: decimal.simps)
qed

lemma decimal_not_Nil: "decimal n \<noteq> []"
  by (subst decimal.simps) simp

lemma digit_not_0: "d < 10 \<Longrightarrow> (of_nat (48 + d) :: u8_t) \<noteq> 0"
proof
  assume "d < 10" "(of_nat (48 + d) :: u8_t) = 0"
  then have "unat (of_nat (48 + d) :: u8_t) = 0" by (simp only: unat_0)
  then show False using \<open>d < 10\<close> by (simp only: unsigned_of_nat take_bit_eq_mod) simp
qed

lemma decimal_no_0: "0 \<notin> set (decimal n)"
proof (induction n rule: decimal.induct)
  case (1 n)
  show ?case
    using 1 digit_not_0 [of n] digit_not_0 [of "n mod 10"] by (subst decimal.simps) auto
qed

end
