(* ===== verification/GclQue.thy ===== *)
theory GclQue
  imports GclPrelude
begin

section \<open>CircularQueue: the model of \<open>include/gque.h\<close> and \<open>src/gque.cpp\<close>\<close>

text \<open>
  \<open>CircularQueue\<close> owns one heap block: the control block \<open>cque_t\<close> (five unsigned fields,
  twenty bytes) followed by the item bytes. Positions are byte offsets from the start of
  the block, kept in 32-bit unsigned fields, and the methods hand out pointers into the
  block. The model keeps all of it: the address \<open>m_q\<close> (0 for the null pointer), the fields
  of the control block at their width, and the bytes after it. A copy into or out of the
  block that leaves the item bytes is the fault \<open>OutOfBounds\<close>. A copy at an offset below
  the item bytes would read or write the control block or the memory before the block; it
  is the same fault. An item is the list of its bytes; a null item pointer is \<open>None\<close>
  (or \<open>False\<close> for an output pointer). The theory holds the operations only;
  \<open>GclQueFacts\<close> proves what they do.
\<close>

record cque_t =
  q_begin :: u32_t
  q_end :: u32_t
  q_head :: u32_t
  q_tail :: u32_t
  q_item_size :: u32_t

record cqueue =
  m_q :: ptr
  ctl :: cque_t
  dat :: "u8_t list"

abbreviation (input) sizeof_cque :: nat where
  "sizeof_cque \<equiv> 20"

text \<open>The default constructor: no block.\<close>

definition cq_new :: cqueue where
  "cq_new = \<lparr>m_q = 0,
             ctl = \<lparr>q_begin = 0, q_end = 0, q_head = 0, q_tail = 0, q_item_size = 0\<rparr>,
             dat = []\<rparr>"

definition cq_set_head :: "u32_t \<Rightarrow> cqueue \<Rightarrow> cqueue" where
  "cq_set_head p q = q\<lparr>ctl := (ctl q)\<lparr>q_head := p\<rparr>\<rparr>"

definition cq_set_tail :: "u32_t \<Rightarrow> cqueue \<Rightarrow> cqueue" where
  "cq_set_tail p q = q\<lparr>ctl := (ctl q)\<lparr>q_tail := p\<rparr>\<rparr>"

subsection \<open>Memory of the block\<close>

definition cq_ptr :: "cqueue \<Rightarrow> u32_t \<Rightarrow> ptr" where
  "cq_ptr q offs = m_q q + ucast offs"

definition cq_load :: "cqueue \<Rightarrow> nat \<Rightarrow> nat \<Rightarrow> u8_t list res" where
  "cq_load q offs n =
     (if sizeof_cque \<le> offs \<and> offs + n \<le> sizeof_cque + length (dat q)
      then Inr (take n (drop (offs - sizeof_cque) (dat q)))
      else Inl OutOfBounds)"

definition cq_store :: "nat \<Rightarrow> u8_t list \<Rightarrow> cqueue \<Rightarrow> cqueue res" where
  "cq_store offs bs q =
     (if sizeof_cque \<le> offs \<and> offs + length bs \<le> sizeof_cque + length (dat q)
      then Inr (q\<lparr>dat := overwrite (offs - sizeof_cque) bs (dat q)\<rparr>)
      else Inl OutOfBounds)"

text \<open>\<open>memcpy(_ptr(offs), item, item_size)\<close>, reading \<open>item_size\<close> bytes of the caller's item.\<close>

definition cq_copy_in :: "u32_t \<Rightarrow> u8_t list \<Rightarrow> cqueue \<Rightarrow> cqueue res" where
  "cq_copy_in offs item q =
     (let n = unat (q_item_size (ctl q))
      in if length item < n then Inl OutOfBounds
         else cq_store (unat offs) (take n item) q)"

text \<open>\<open>memcpy(item, _ptr(offs), item_size)\<close>.\<close>

definition cq_copy_out :: "u32_t \<Rightarrow> cqueue \<Rightarrow> u8_t list res" where
  "cq_copy_out offs q = cq_load q (unat offs) (unat (q_item_size (ctl q)))"

subsection \<open>Inspection\<close>

definition cq_is_empty :: "cqueue \<Rightarrow> bool" where
  "cq_is_empty q \<longleftrightarrow> m_q q = 0 \<or> q_head (ctl q) = q_tail (ctl q)"

definition cq_is_full :: "cqueue \<Rightarrow> bool" where
  "cq_is_full q \<longleftrightarrow>
     (if m_q q = 0 then True
      else let npos = q_tail (ctl q) + q_item_size (ctl q);
               npos = (if npos = q_end (ctl q) then q_begin (ctl q) else npos)
           in npos = q_head (ctl q))"

definition cq_length :: "cqueue \<Rightarrow> u32_t res" where
  "cq_length q =
     (if m_q q = 0 then Inr 0
      else let c = ctl q;
               n = (if q_head c \<le> q_tail c then q_tail c - q_head c
                    else (q_end c - q_head c) + (q_tail c - q_begin c))
           in udiv n (q_item_size c))"

definition cq_available :: "cqueue \<Rightarrow> u32_t res" where
  "cq_available q =
     (if m_q q = 0 then Inr 0
      else let c = ctl q;
               n = (if q_head c > q_tail c then q_head c - q_tail c
                    else (q_end c - q_tail c) + (q_head c - q_begin c))
           in rbind (udiv n (q_item_size c)) (\<lambda>k. Inr (k - 1)))"

definition cq_capacity :: "cqueue \<Rightarrow> u32_t res" where
  "cq_capacity q =
     (if m_q q = 0 then Inr 0
      else rbind (udiv (q_end (ctl q) - q_begin (ctl q)) (q_item_size (ctl q))) (\<lambda>k. Inr (k - 1)))"

definition cq_item_size :: "cqueue \<Rightarrow> u32_t" where
  "cq_item_size q = (if m_q q \<noteq> 0 then q_item_size (ctl q) else 0)"

definition cq_head :: "cqueue \<Rightarrow> ptr" where
  "cq_head q = (if m_q q \<noteq> 0 then cq_ptr q (q_head (ctl q)) else 0)"

definition cq_tail :: "cqueue \<Rightarrow> ptr" where
  "cq_tail q = (if m_q q \<noteq> 0 then cq_ptr q (q_tail (ctl q)) else 0)"

definition cq_begin :: "cqueue \<Rightarrow> ptr" where
  "cq_begin q = (if m_q q \<noteq> 0 then cq_ptr q (q_begin (ctl q)) else 0)"

definition cq_end :: "cqueue \<Rightarrow> ptr" where
  "cq_end q = (if m_q q \<noteq> 0 then cq_ptr q (q_end (ctl q)) else 0)"

definition cq_peek :: "cqueue \<Rightarrow> ptr" where
  "cq_peek q = (if cq_is_empty q then 0 else cq_ptr q (q_head (ctl q)))"

definition cq_first :: "cqueue \<Rightarrow> ptr" where
  "cq_first q = cq_peek q"

definition cq_last :: "cqueue \<Rightarrow> ptr" where
  "cq_last q =
     (if cq_is_empty q then 0
      else let c = ctl q
           in cq_ptr q ((if q_tail c = q_begin c then q_end c else q_tail c) - q_item_size c))"

definition cq_peek_next :: "ptr \<Rightarrow> cqueue \<Rightarrow> ptr" where
  "cq_peek_next peek q =
     (if cq_is_empty q then 0
      else if peek = 0 then cq_ptr q (q_head (ctl q))
      else if peek < cq_ptr q (q_begin (ctl q)) \<or> peek \<ge> cq_ptr q (q_end (ctl q)) then 0
      else let peek = peek + ucast (q_item_size (ctl q));
               peek = (if peek = cq_ptr q (q_end (ctl q)) then cq_ptr q (q_begin (ctl q)) else peek)
           in if peek = cq_ptr q (q_tail (ctl q)) then 0 else peek)"

definition cq_peek_prev :: "ptr \<Rightarrow> cqueue \<Rightarrow> ptr" where
  "cq_peek_prev peek q =
     (if cq_is_empty q then 0
      else if peek = 0 then cq_ptr q (q_tail (ctl q) - q_item_size (ctl q))
      else if peek < cq_ptr q (q_begin (ctl q)) \<or> peek \<ge> cq_ptr q (q_end (ctl q)) then 0
      else if peek = cq_ptr q (q_head (ctl q)) then 0
      else let peek = (if peek = cq_ptr q (q_begin (ctl q)) then cq_ptr q (q_end (ctl q)) else peek)
           in peek - ucast (q_item_size (ctl q)))"

subsection \<open>Initialisation\<close>

definition cq_clear :: "cqueue \<Rightarrow> cqueue" where
  "cq_clear q =
     (if m_q q \<noteq> 0 then cq_set_head (q_begin (ctl q)) (cq_set_tail (q_begin (ctl q)) q) else q)"

text \<open>
  \<open>new char[buf_size]\<close> is the argument \<open>blk\<close>: the address it returns and the bytes the fresh
  block happens to hold. The set \<open>live\<close> records the blocks that were allocated and not
  deleted. A block smaller than the control block makes the field writes a fault.
\<close>

definition cq_init ::
    "u32_t \<Rightarrow> u32_t \<Rightarrow> ptr \<times> (nat \<Rightarrow> u8_t) \<Rightarrow> cqueue \<Rightarrow> ptr set \<Rightarrow> (bool \<times> cqueue \<times> ptr set) res"
where
  "cq_init capacity item_size blk q live =
     rbind (cq_capacity q) (\<lambda>c.
       if c = capacity then Inr (True, cq_clear q, live)
       else if capacity = 0
       then Inr (True, q\<lparr>m_q := 0\<rparr>, if m_q q \<noteq> 0 then live - {m_q q} else live)
       else let buf_size = 20 + (capacity + 1) * item_size
            in if fst blk = 0 then Inr (False, q\<lparr>m_q := 0\<rparr>, live)
               else if unat buf_size < sizeof_cque then Inl OutOfBounds
               else let b = 20
                    in Inr (True,
                            \<lparr>m_q = fst blk,
                             ctl = \<lparr>q_begin = b, q_end = b + item_size * (capacity + 1),
                                    q_head = b, q_tail = b, q_item_size = item_size\<rparr>,
                             dat = map (snd blk) [0..<unat buf_size - sizeof_cque]\<rparr>,
                            insert (fst blk) live))"

text \<open>The destructor.\<close>

definition cq_destroy :: "cqueue \<Rightarrow> ptr set \<Rightarrow> cqueue \<times> ptr set" where
  "cq_destroy q live = (q\<lparr>m_q := 0\<rparr>, if m_q q \<noteq> 0 then live - {m_q q} else live)"

subsection \<open>The four queue operations\<close>

definition cq_put :: "u8_t list option \<Rightarrow> cqueue \<Rightarrow> (bool \<times> cqueue) res" where
  "cq_put item q =
     (if m_q q = 0 then Inr (False, q)
      else let npos = q_tail (ctl q) + q_item_size (ctl q);
               npos = (if npos = q_end (ctl q) then q_begin (ctl q) else npos)
           in if npos = q_head (ctl q) then Inr (False, q)
              else rbind (case item of None \<Rightarrow> Inr q
                          | Some bs \<Rightarrow> cq_copy_in (q_tail (ctl q)) bs q)
                     (\<lambda>q. Inr (True, cq_set_tail npos q)))"

definition cq_get :: "bool \<Rightarrow> cqueue \<Rightarrow> (bool \<times> u8_t list option \<times> cqueue) res" where
  "cq_get item q =
     (if m_q q = 0 \<or> q_head (ctl q) = q_tail (ctl q) then Inr (False, None, q)
      else rbind (if item then rbind (cq_copy_out (q_head (ctl q)) q) (\<lambda>bs. Inr (Some bs))
                  else Inr None)
             (\<lambda>out. let npos = q_head (ctl q) + q_item_size (ctl q)
                    in Inr (True, out,
                         cq_set_head (if npos = q_end (ctl q) then q_begin (ctl q) else npos) q)))"

definition cq_push :: "u8_t list option \<Rightarrow> cqueue \<Rightarrow> (bool \<times> cqueue) res" where
  "cq_push item q =
     (if m_q q = 0 then Inr (False, q)
      else let pos = q_head (ctl q) - q_item_size (ctl q);
               pos = (if pos < q_begin (ctl q) then q_end (ctl q) - q_item_size (ctl q) else pos)
           in if pos = q_head (ctl q) then Inr (False, q)
              else rbind (case item of None \<Rightarrow> Inr q | Some bs \<Rightarrow> cq_copy_in pos bs q)
                     (\<lambda>q. Inr (True, cq_set_head pos q)))"

definition cq_pop :: "bool \<Rightarrow> cqueue \<Rightarrow> (bool \<times> u8_t list option \<times> cqueue) res" where
  "cq_pop item q =
     (if m_q q = 0 \<or> q_head (ctl q) = q_tail (ctl q) then Inr (False, None, q)
      else rbind (if item
                  then rbind (cq_copy_out (q_tail (ctl q) - q_item_size (ctl q)) q) (\<lambda>bs. Inr (Some bs))
                  else Inr None)
             (\<lambda>out. Inr (True, out, cq_set_tail (q_tail (ctl q) - q_item_size (ctl q)) q)))"

subsection \<open>Queue of T: the typed wrapper and its iterators\<close>

text \<open>
  The class template \<open>Queue\<close> with element type \<open>T\<close> passes \<open>sizeof(T)\<close> to the untyped
  queue and forwards every method; its elements are the byte images of the \<open>T\<close> values.
  An iterator is the pair of its queue and the current pointer; only the pointer changes.
\<close>

definition queue_init ::
    "u32_t \<Rightarrow> u32_t \<Rightarrow> ptr \<times> (nat \<Rightarrow> u8_t) \<Rightarrow> cqueue \<Rightarrow> ptr set \<Rightarrow> (bool \<times> cqueue \<times> ptr set) res"
where
  "queue_init sizeof_T capacity blk q live = cq_init capacity sizeof_T blk q live"

definition iter_begin :: "cqueue \<Rightarrow> ptr" where
  "iter_begin q = cq_head q"

definition iter_end :: "cqueue \<Rightarrow> ptr" where
  "iter_end q = 0"

definition iter_rbegin :: "cqueue \<Rightarrow> ptr" where
  "iter_rbegin q = cq_last q"

definition iter_rend :: "cqueue \<Rightarrow> ptr" where
  "iter_rend q = 0"

definition iter_inc :: "cqueue \<Rightarrow> ptr \<Rightarrow> ptr" where
  "iter_inc q p = cq_peek_next p q"

definition iter_dec :: "cqueue \<Rightarrow> ptr \<Rightarrow> ptr" where
  "iter_dec q p = cq_peek_prev p q"

text \<open>The bytes an element pointer designates.\<close>

definition cq_deref :: "cqueue \<Rightarrow> ptr \<Rightarrow> u8_t list res" where
  "cq_deref q p =
     (if p = 0 then Inl NullDeref
      else cq_load q (unat (p - m_q q)) (unat (q_item_size (ctl q))))"

end
