(* ===== verification/GclQueFacts.thy ===== *)
theory GclQueFacts
  imports GclQue
begin

section \<open>CircularQueue: representation, invariant and operations\<close>

text \<open>
  The representation relation \<open>cq_rep q s n h t\<close> reads the 32-bit fields of an initialised
  queue as slot numbers: items of \<open>s\<close> bytes, \<open>n\<close> slots, head slot \<open>h\<close>, tail slot \<open>t\<close>. It is the
  invariant of the class: every operation is shown to step it to another representation,
  with the slots moved by \<open>rsuc\<close> or \<open>rpred\<close>. The abstract value of a queue is the list
  \<open>cq_items\<close> of the byte images between head and tail.
\<close>

definition cq_rep :: "cqueue \<Rightarrow> nat \<Rightarrow> nat \<Rightarrow> nat \<Rightarrow> nat \<Rightarrow> bool" where
  "cq_rep q s n h t \<longleftrightarrow>
     m_q q \<noteq> 0 \<and> 0 < s \<and> 2 \<le> n \<and> h < n \<and> t < n \<and>
     unat (q_item_size (ctl q)) = s \<and> unat (q_begin (ctl q)) = 20 \<and>
     unat (q_end (ctl q)) = 20 + n * s \<and>
     unat (q_head (ctl q)) = 20 + h * s \<and> unat (q_tail (ctl q)) = 20 + t * s \<and>
     length (dat q) = n * s \<and> unat (m_q q) + (20 + n * s) < 2 ^ 64"

definition cq_slots :: "cqueue \<Rightarrow> nat" where
  "cq_slots q = length (dat q) div unat (q_item_size (ctl q))"

definition cq_hidx :: "cqueue \<Rightarrow> nat" where
  "cq_hidx q = (unat (q_head (ctl q)) - 20) div unat (q_item_size (ctl q))"

definition cq_tidx :: "cqueue \<Rightarrow> nat" where
  "cq_tidx q = (unat (q_tail (ctl q)) - 20) div unat (q_item_size (ctl q))"

definition cq_wf :: "cqueue \<Rightarrow> bool" where
  "cq_wf q \<longleftrightarrow>
     m_q q = 0 \<or> cq_rep q (unat (q_item_size (ctl q))) (cq_slots q) (cq_hidx q) (cq_tidx q)"

definition cq_items :: "cqueue \<Rightarrow> u8_t list list" where
  "cq_items q =
     (if m_q q = 0 then []
      else map (\<lambda>i. chunk (unat (q_item_size (ctl q))) i (dat q))
             (ring (cq_slots q) (cq_hidx q) (cq_tidx q)))"

definition cq_cap :: "cqueue \<Rightarrow> nat" where
  "cq_cap q = (if m_q q = 0 then 0 else cq_slots q - 1)"

definition cq_size :: "cqueue \<Rightarrow> nat" where
  "cq_size q = (if m_q q = 0 then 0 else unat (q_item_size (ctl q)))"

subsection \<open>Reading the representation\<close>

lemma cq_repD:
  assumes "cq_rep q s n h t"
  shows "m_q q \<noteq> 0" "0 < s" "2 \<le> n" "h < n" "t < n"
    "unat (q_item_size (ctl q)) = s" "unat (q_begin (ctl q)) = 20"
    "unat (q_end (ctl q)) = 20 + n * s" "unat (q_head (ctl q)) = 20 + h * s"
    "unat (q_tail (ctl q)) = 20 + t * s" "length (dat q) = n * s"
    "unat (m_q q) + (20 + n * s) < 2 ^ 64"
  using assms by (simp_all add: cq_rep_def)

lemma cq_rep_slots: "cq_rep q s n h t \<Longrightarrow> cq_slots q = n"
  and cq_rep_hidx: "cq_rep q s n h t \<Longrightarrow> cq_hidx q = h"
  and cq_rep_tidx: "cq_rep q s n h t \<Longrightarrow> cq_tidx q = t"
  by (auto simp: cq_rep_def cq_slots_def cq_hidx_def cq_tidx_def)

lemma cq_rep_wf: "cq_rep q s n h t \<Longrightarrow> cq_wf q"
  by (simp add: cq_wf_def cq_rep_slots cq_rep_hidx cq_rep_tidx cq_repD(6))

lemma cq_wf_cases:
  assumes "cq_wf q"
  obtains (empty) "m_q q = 0" | (rep) s n h t where "cq_rep q s n h t"
  using assms by (auto simp: cq_wf_def)

lemma cq_rep_items: "cq_rep q s n h t \<Longrightarrow> cq_items q = map (\<lambda>i. chunk s i (dat q)) (ring n h t)"
  by (simp add: cq_items_def cq_rep_slots cq_rep_hidx cq_rep_tidx cq_repD(1,6))

lemma cq_rep_cap: "cq_rep q s n h t \<Longrightarrow> cq_cap q = n - 1"
  by (simp add: cq_cap_def cq_rep_slots cq_repD(1))

lemma cq_rep_size: "cq_rep q s n h t \<Longrightarrow> cq_size q = s"
  by (simp add: cq_size_def cq_repD(1,6))

lemma cq_rep_length: "cq_rep q s n h t \<Longrightarrow> length (cq_items q) = rlen n h t"
  by (simp add: cq_rep_items)

lemmas cq_rep_views = cq_rep_slots cq_rep_hidx cq_rep_tidx cq_rep_items cq_rep_cap cq_rep_size

lemma cq_rep_bound:
  assumes "cq_rep q s n h t"
  shows "20 + n * s < 2 ^ 32"
  using unat_lt_32 [of "q_end (ctl q)"] cq_repD(8) [OF assms] by simp

text \<open>Offsets of slots are equal exactly when the slots are.\<close>

lemma slot_eq: "0 < s \<Longrightarrow> 20 + i * s = 20 + j * (s :: nat) \<longleftrightarrow> i = j"
  by simp

lemma cq_rep_offs_eq:
  assumes "cq_rep q s n h t" "unat p = 20 + i * s" "unat r = 20 + j * s"
  shows "p = (r :: u32_t) \<longleftrightarrow> i = j"
  using assms by (simp add: word_eq_unat cq_rep_def)

text \<open>One item forwards, as \<open>put\<close>, \<open>get\<close> and \<open>is_full\<close> compute it.\<close>

lemma cq_rep_advance:
  assumes "cq_rep q s n h t" "unat p = 20 + i * s" "i < n"
  shows "unat (if p + q_item_size (ctl q) = q_end (ctl q) then q_begin (ctl q)
               else p + q_item_size (ctl q)) = 20 + rsuc n i * s"
proof -
  have "unat (p + q_item_size (ctl q)) = 20 + Suc i * s"
    using cq_rep_bound [OF assms(1)] block_end [OF assms(3), of s] assms(1,2)
    by (subst unat_add_nowrap) (simp_all add: cq_rep_def)
  then have "p + q_item_size (ctl q) = q_end (ctl q) \<longleftrightarrow> Suc i = n"
    using cq_rep_offs_eq [OF assms(1), of _ "Suc i" _ n] cq_repD(8) [OF assms(1)] by simp
  with \<open>unat (p + q_item_size (ctl q)) = 20 + Suc i * s\<close> show ?thesis
    using cq_repD(7) [OF assms(1)] by (simp add: rsuc_def)
qed

lemma cq_rep_before_end:
  assumes "cq_rep q s n h t"
  shows "unat (q_end (ctl q) - q_item_size (ctl q)) = 20 + (n - 1) * s"
proof -
  obtain m where m: "n = Suc m" using cq_repD(3) [OF assms] by (cases n) auto
  then show ?thesis
    using cq_repD(6,8) [OF assms] by (subst unat_sub_nowrap) simp_all
qed

text \<open>
  One item backwards, as \<open>push\<close> computes it. The test \<open>pos < begin\<close> notices that the
  subtraction left the item bytes only while it does not wrap below zero, that is for an
  item no larger than the control block or for a head that is not the first slot.
\<close>

lemma cq_rep_retreat:
  assumes "cq_rep q s n h t" "unat p = 20 + i * s" "i < n" "i \<noteq> 0 \<or> s \<le> 20"
  shows "unat (if p - q_item_size (ctl q) < q_begin (ctl q)
               then q_end (ctl q) - q_item_size (ctl q)
               else p - q_item_size (ctl q)) = 20 + rpred n i * s"
proof (cases "i = 0")
  case True
  then have "s \<le> 20" using assms(4) by simp
  have "unat (p - q_item_size (ctl q)) = 20 - s"
    using assms(1,2) True \<open>s \<le> 20\<close> by (subst unat_sub_nowrap) (simp_all add: cq_rep_def)
  then have "p - q_item_size (ctl q) < q_begin (ctl q)"
    using assms(1) by (simp add: word_less_nat_alt cq_rep_def)
  moreover have "unat (q_end (ctl q) - q_item_size (ctl q)) = 20 + (n - 1) * s"
    by (rule cq_rep_before_end [OF assms(1)])
  ultimately show ?thesis using True by (simp add: rpred_def)
next
  case False
  then obtain k where k: "i = Suc k" by (cases i) auto
  have "unat (p - q_item_size (ctl q)) = 20 + k * s"
    using assms(1,2) k by (subst unat_sub_nowrap) (simp_all add: cq_rep_def)
  moreover from this have "\<not> p - q_item_size (ctl q) < q_begin (ctl q)"
    using assms(1) by (simp add: word_less_nat_alt cq_rep_def)
  ultimately show ?thesis using k by (simp add: rpred_def)
qed

subsection \<open>Loads and stores of a slot\<close>

lemma cq_rep_copy_in:
  assumes "cq_rep q s n h t" "unat p = 20 + i * s" "i < n" "s \<le> length bs"
  shows "cq_copy_in p bs q = Inr (q\<lparr>dat := overwrite (i * s) (take s bs) (dat q)\<rparr>)"
  using assms block_end [OF assms(3), of s]
  by (simp add: cq_copy_in_def cq_store_def cq_rep_def min_absorb2)

lemma cq_rep_copy_out:
  assumes "cq_rep q s n h t" "unat p = 20 + i * s" "i < n"
  shows "cq_copy_out p q = Inr (chunk s i (dat q))"
  using assms block_end [OF assms(3), of s]
  by (simp add: cq_copy_out_def cq_load_def cq_rep_def chunk_def)

lemma cq_rep_set_tail:
  "cq_rep q s n h t \<Longrightarrow> t' < n \<Longrightarrow> unat p = 20 + t' * s \<Longrightarrow> cq_rep (cq_set_tail p q) s n h t'"
  by (simp add: cq_rep_def cq_set_tail_def)

lemma cq_rep_set_head:
  "cq_rep q s n h t \<Longrightarrow> h' < n \<Longrightarrow> unat p = 20 + h' * s \<Longrightarrow> cq_rep (cq_set_head p q) s n h' t"
  by (simp add: cq_rep_def cq_set_head_def)

lemma cq_rep_store:
  "cq_rep q s n h t \<Longrightarrow> i < n \<Longrightarrow> length bs = s \<Longrightarrow>
     cq_rep (q\<lparr>dat := overwrite (i * s) bs (dat q)\<rparr>) s n h t"
  using block_end [of i n s] by (simp add: cq_rep_def)

lemma dat_set [simp]: "dat (cq_set_tail p q) = dat q" "dat (cq_set_head p q) = dat q"
  "m_q (cq_set_tail p q) = m_q q" "m_q (cq_set_head p q) = m_q q"
  by (simp_all add: cq_set_tail_def cq_set_head_def)

lemma ctl_set [simp]:
  "ctl (cq_set_tail p q) = (ctl q)\<lparr>q_tail := p\<rparr>" "ctl (cq_set_head p q) = (ctl q)\<lparr>q_head := p\<rparr>"
  by (simp_all add: cq_set_tail_def cq_set_head_def)

text \<open>Slots other than the written one keep their bytes.\<close>

lemma map_chunk_other:
  assumes "length bs = n * s" "length cs = s" "j < n" "\<And>i. i \<in> set is \<Longrightarrow> i < n \<and> i \<noteq> j"
  shows "map (\<lambda>i. chunk s i (overwrite (j * s) cs bs)) is = map (\<lambda>i. chunk s i bs) is"
  using assms by (auto intro!: chunk_overwrite_other)

subsection \<open>put\<close>

lemma cq_put_full:
  assumes "cq_rep q s n h t" "rsuc n t = h"
  shows "cq_put item q = Inr (False, q)"
proof -
  have "(if q_tail (ctl q) + q_item_size (ctl q) = q_end (ctl q) then q_begin (ctl q)
         else q_tail (ctl q) + q_item_size (ctl q)) = q_head (ctl q)"
    using cq_rep_advance [OF assms(1) cq_repD(10,5) [OF assms(1)]] cq_repD(9) [OF assms(1)] assms(2)
    by (simp add: word_eq_unat)
  then show ?thesis using cq_repD(1) [OF assms(1)] by (simp add: cq_put_def Let_def)
qed

lemma cq_put_rep:
  assumes "cq_rep q s n h t" "rsuc n t \<noteq> h" "s \<le> length bs"
  obtains q' where "cq_put (Some bs) q = Inr (True, q')" "cq_rep q' s n h (rsuc n t)"
    "cq_items q' = cq_items q @ [take s bs]" "m_q q' = m_q q"
proof -
  let ?np = "if q_tail (ctl q) + q_item_size (ctl q) = q_end (ctl q) then q_begin (ctl q)
             else q_tail (ctl q) + q_item_size (ctl q)"
  let ?q1 = "q\<lparr>dat := overwrite (t * s) (take s bs) (dat q)\<rparr>"
  note rep = assms(1) and D = cq_repD [OF assms(1)]
  have np: "unat ?np = 20 + rsuc n t * s" by (rule cq_rep_advance [OF rep D(10,5)])
  then have "?np \<noteq> q_head (ctl q)"
    using cq_rep_offs_eq [OF rep _ D(9)] assms(2) by blast
  then have ok: "cq_put (Some bs) q = Inr (True, cq_set_tail ?np ?q1)"
    using cq_rep_copy_in [OF rep D(10,5) assms(3)] D(1)
    by (simp add: cq_put_def Let_def)
  have r1: "cq_rep ?q1 s n h t"
    using D(5) assms(3) by (intro cq_rep_store [OF rep]) simp_all
  have r2: "cq_rep (cq_set_tail ?np ?q1) s n h (rsuc n t)"
    by (rule cq_rep_set_tail [OF r1 rsuc_lt [OF D(5)] np])
  have "cq_items (cq_set_tail ?np ?q1)
      = map (\<lambda>i. chunk s i (overwrite (t * s) (take s bs) (dat q))) (ring n h t @ [t])"
    using cq_rep_items [OF r2] ring_snoc [OF D(4,5) assms(2)] by simp
  also have "\<dots> = cq_items q @ [take s bs]"
    using map_chunk_other [OF D(11) _ D(5), of "take s bs" "ring n h t"] set_ring [OF D(4,5)]
      chunk_overwrite_same [OF D(11,5), of "take s bs"] assms(3) cq_rep_items [OF rep]
    by simp
  finally show thesis using ok r2 by (intro that [of "cq_set_tail ?np ?q1"]) simp_all
qed

subsection \<open>get\<close>

lemma cq_get_empty: "cq_wf q \<Longrightarrow> cq_items q = [] \<Longrightarrow> cq_get item q = Inr (False, None, q)"
proof (erule cq_wf_cases)
  fix s n h t assume "cq_rep q s n h t" "cq_items q = []"
  then show ?thesis
    using cq_rep_items [of q s n h t] cq_repD [of q s n h t]
    by (simp add: cq_get_def word_eq_unat)
qed (simp add: cq_get_def)

lemma cq_get_rep:
  assumes "cq_rep q s n h t" "h \<noteq> t"
  obtains q' where "cq_get item q = Inr (True, if item then Some (hd (cq_items q)) else None, q')"
    "cq_rep q' s n (rsuc n h) t" "cq_items q' = tl (cq_items q)" "m_q q' = m_q q" "dat q' = dat q"
proof -
  let ?np = "if q_head (ctl q) + q_item_size (ctl q) = q_end (ctl q) then q_begin (ctl q)
             else q_head (ctl q) + q_item_size (ctl q)"
  note rep = assms(1) and D = cq_repD [OF assms(1)]
  have ne: "q_head (ctl q) \<noteq> q_tail (ctl q)"
    using cq_rep_offs_eq [OF rep D(9,10)] assms(2) by simp
  have items: "cq_items q = chunk s h (dat q) # map (\<lambda>i. chunk s i (dat q)) (ring n (rsuc n h) t)"
    using cq_rep_items [OF rep] ring_cons [OF D(4,5) assms(2)] by simp
  have r2: "cq_rep (cq_set_head ?np q) s n (rsuc n h) t"
    by (rule cq_rep_set_head [OF rep rsuc_lt [OF D(4)] cq_rep_advance [OF rep D(9,4)]])
  have "cq_get item q
      = Inr (True, if item then Some (chunk s h (dat q)) else None, cq_set_head ?np q)"
    using ne D(1) cq_rep_copy_out [OF rep D(9,4)] by (simp add: cq_get_def Let_def)
  then show thesis
    using r2 items cq_rep_items [OF r2] by (intro that [of "cq_set_head ?np q"]) simp_all
qed

subsection \<open>push\<close>

lemma cq_push_step:
  assumes "cq_rep q s n h t" "h \<noteq> 0 \<or> s \<le> 20" "s \<le> length bs"
  obtains q' where "cq_push (Some bs) q = Inr (True, q')" "cq_rep q' s n (rpred n h) t"
    "m_q q' = m_q q" "dat q' = overwrite (rpred n h * s) (take s bs) (dat q)"
proof -
  let ?np = "if q_head (ctl q) - q_item_size (ctl q) < q_begin (ctl q)
             then q_end (ctl q) - q_item_size (ctl q) else q_head (ctl q) - q_item_size (ctl q)"
  let ?q1 = "q\<lparr>dat := overwrite (rpred n h * s) (take s bs) (dat q)\<rparr>"
  note rep = assms(1) and D = cq_repD [OF assms(1)]
  have np: "unat ?np = 20 + rpred n h * s" by (rule cq_rep_retreat [OF rep D(9,4) assms(2)])
  have "rpred n h \<noteq> h" using D(3,4) by (auto simp: rpred_def)
  then have "?np \<noteq> q_head (ctl q)" using cq_rep_offs_eq [OF rep np D(9)] by blast
  then have ok: "cq_push (Some bs) q = Inr (True, cq_set_head ?np ?q1)"
    using cq_rep_copy_in [OF rep np rpred_lt [OF D(4)] assms(3)] D(1)
    by (simp add: cq_push_def Let_def)
  have r1: "cq_rep ?q1 s n h t"
    using D(4) assms(3) by (intro cq_rep_store [OF rep]) simp_all
  show thesis
    using ok cq_rep_set_head [OF r1 rpred_lt [OF D(4)] np]
    by (intro that [of "cq_set_head ?np ?q1"]) simp_all
qed

lemma cq_push_rep:
  assumes "cq_rep q s n h t" "rsuc n t \<noteq> h" "h \<noteq> 0 \<or> s \<le> 20" "s \<le> length bs"
  obtains q' where "cq_push (Some bs) q = Inr (True, q')" "cq_rep q' s n (rpred n h) t"
    "cq_items q' = take s bs # cq_items q" "m_q q' = m_q q"
proof -
  note rep = assms(1) and D = cq_repD [OF assms(1)]
  obtain q' where q': "cq_push (Some bs) q = Inr (True, q')" "cq_rep q' s n (rpred n h) t"
    "m_q q' = m_q q" "dat q' = overwrite (rpred n h * s) (take s bs) (dat q)"
    by (rule cq_push_step [OF rep assms(3,4)])
  have nt: "rpred n h \<noteq> t" using assms(2) D(4) by auto
  note cons = ring_pred_cons [OF D(4,5) nt]
  have notin: "i < n \<and> i \<noteq> rpred n h" if "i \<in> set (ring n h t)" for i
    using distinct_ring [of "rpred n h" n t] that set_ring [OF D(4,5) that] D(4,5) cons by auto
  have "cq_items q' = take s bs # cq_items q"
    using cq_rep_items [OF q'(2)] cons q'(4) cq_rep_items [OF rep] assms(4)
      chunk_overwrite_same [OF D(11) rpred_lt [OF D(4)], of "take s bs"]
      map_chunk_other [OF D(11) _ rpred_lt [OF D(4)] notin, of "take s bs"]
    by simp
  then show thesis using q' that by blast
qed

subsection \<open>pop\<close>

lemma cq_pop_empty: "cq_wf q \<Longrightarrow> cq_items q = [] \<Longrightarrow> cq_pop item q = Inr (False, None, q)"
proof (erule cq_wf_cases)
  fix s n h t assume "cq_rep q s n h t" "cq_items q = []"
  then show ?thesis
    using cq_rep_items [of q s n h t] cq_repD [of q s n h t]
    by (simp add: cq_pop_def word_eq_unat)
qed (simp add: cq_pop_def)

lemma cq_pop_rep:
  assumes "cq_rep q s n h t" "h \<noteq> t" "t \<noteq> 0"
  obtains q' where "cq_pop item q = Inr (True, if item then Some (last (cq_items q)) else None, q')"
    "cq_rep q' s n h (t - 1)" "cq_items q' = butlast (cq_items q)" "m_q q' = m_q q"
proof -
  let ?np = "q_tail (ctl q) - q_item_size (ctl q)"
  note rep = assms(1) and D = cq_repD [OF assms(1)]
  obtain k where k: "t = Suc k" using assms(3) by (cases t) auto
  have np: "unat ?np = 20 + k * s"
    using D(6,10) k by (subst unat_sub_nowrap) simp_all
  have pk: "rpred n t = k" "k < n" using k D(5) by (simp_all add: rpred_def)
  have ne: "q_head (ctl q) \<noteq> q_tail (ctl q)"
    using cq_rep_offs_eq [OF rep D(9,10)] assms(2) by simp
  have items: "cq_items q = map (\<lambda>i. chunk s i (dat q)) (ring n h k) @ [chunk s k (dat q)]"
    using cq_rep_items [OF rep] ring_pred_snoc [OF D(4,5) assms(2)] pk by simp
  have r2: "cq_rep (cq_set_tail ?np q) s n h k"
    by (rule cq_rep_set_tail [OF rep pk(2) np])
  have "cq_pop item q
      = Inr (True, if item then Some (chunk s k (dat q)) else None, cq_set_tail ?np q)"
    using ne D(1) cq_rep_copy_out [OF rep np pk(2)] by (simp add: cq_pop_def)
  then show thesis
    using r2 items cq_rep_items [OF r2] k by (intro that [of "cq_set_tail ?np q"]) simp_all
qed

subsection \<open>Counting\<close>

lemma cq_rep_len_word:
  assumes "cq_rep q s n h t"
  obtains k where "cq_length q = Inr k" "unat k = rlen n h t"
proof -
  note D = cq_repD [OF assms] and b = cq_rep_bound [OF assms]
  let ?c = "ctl q"
  let ?n = "if q_head ?c \<le> q_tail ?c then q_tail ?c - q_head ?c
            else (q_end ?c - q_head ?c) + (q_tail ?c - q_begin ?c)"
  have le: "q_head ?c \<le> q_tail ?c \<longleftrightarrow> h \<le> t"
    using D(2,9,10) by (simp add: word_le_nat_alt)
  have "unat ?n = rlen n h t * s"
  proof (cases "h \<le> t")
    case True
    then show ?thesis
      using le D by (simp add: rlen_def unat_sub_nowrap diff_mult_distrib)
  next
    case False
    have e: "unat (q_end ?c - q_head ?c) = (n - h) * s"
      using D(4,8,9) by (subst unat_sub_nowrap) (simp_all add: diff_mult_distrib)
    have f: "unat (q_tail ?c - q_begin ?c) = t * s"
      using D(7,10) by (subst unat_sub_nowrap) simp_all
    have "(n - h) * s + t * s = (n - h + t) * s" by (simp add: add_mult_distrib)
    also have "\<dots> \<le> n * s" using False D(4) by (intro mult_le_mono1) simp
    finally have "unat ((q_end ?c - q_head ?c) + (q_tail ?c - q_begin ?c)) = (n - h + t) * s"
      using b e f by (subst unat_add_nowrap) (simp_all add: add_mult_distrib)
    then show ?thesis using False le by (simp add: rlen_def)
  qed
  then have "unat (?n div q_item_size ?c) = rlen n h t"
    using D(2,6) by (simp add: unat_div_word)
  moreover have "cq_length q = Inr (?n div q_item_size ?c)"
    using D(1,2,6) by (auto simp: cq_length_def Let_def udiv_def)
  ultimately show thesis by (rule that [rotated])
qed

lemma cq_rep_capacity_word:
  assumes "cq_rep q s n h t"
  obtains k where "cq_capacity q = Inr k" "unat k = n - 1"
proof -
  note D = cq_repD [OF assms]
  let ?k = "(q_end (ctl q) - q_begin (ctl q)) div q_item_size (ctl q)"
  have "unat (q_end (ctl q) - q_begin (ctl q)) = n * s"
    using D(7,8) by (subst unat_sub_nowrap) simp_all
  then have "unat ?k = n" using D(2,6) by (simp add: unat_div_word)
  then have "unat (?k - 1) = n - 1" using D(3) by (subst unat_sub_nowrap) simp_all
  moreover have "cq_capacity q = Inr (?k - 1)"
    using D(1,2,6) by (auto simp: cq_capacity_def udiv_def)
  ultimately show thesis by (rule that [rotated])
qed

lemma cq_rep_available_word:
  assumes "cq_rep q s n h t"
  obtains k where "cq_available q = Inr k" "unat k = n - 1 - rlen n h t"
proof -
  note D = cq_repD [OF assms] and b = cq_rep_bound [OF assms]
  let ?c = "ctl q"
  let ?n = "if q_head ?c > q_tail ?c then q_head ?c - q_tail ?c
            else (q_end ?c - q_tail ?c) + (q_head ?c - q_begin ?c)"
  have le: "q_head ?c > q_tail ?c \<longleftrightarrow> t < h"
    using D(2,9,10) by (simp add: word_less_nat_alt)
  have "unat ?n = (n - rlen n h t) * s"
  proof (cases "t < h")
    case True
    then have "n - rlen n h t = h - t" using D(4,5) by (simp add: rlen_def)
    then show ?thesis
      using True le D by (simp add: unat_sub_nowrap diff_mult_distrib)
  next
    case False
    then have r: "n - rlen n h t = n - t + h" using D(4,5) by (simp add: rlen_def)
    have e: "unat (q_end ?c - q_tail ?c) = (n - t) * s"
      using D(5,8,10) by (subst unat_sub_nowrap) (simp_all add: diff_mult_distrib)
    have f: "unat (q_head ?c - q_begin ?c) = h * s"
      using D(7,9) by (subst unat_sub_nowrap) simp_all
    have "(n - t) * s + h * s = (n - t + h) * s" by (simp add: add_mult_distrib)
    also have "\<dots> \<le> n * s" using False D(5) by (intro mult_le_mono1) simp
    finally have "unat ((q_end ?c - q_tail ?c) + (q_head ?c - q_begin ?c)) = (n - t + h) * s"
      using b e f by (subst unat_add_nowrap) (simp_all add: add_mult_distrib)
    then show ?thesis using False le r by simp
  qed
  then have k: "unat (?n div q_item_size ?c) = n - rlen n h t"
    using D(2,6) by (simp add: unat_div_word)
  then have "unat (?n div q_item_size ?c - 1) = n - 1 - rlen n h t"
    using rlen_lt [OF D(4,5)] by (subst unat_sub_nowrap) simp_all
  moreover have "cq_available q = Inr (?n div q_item_size ?c - 1)"
    using D(1,2,6) by (auto simp: cq_available_def Let_def udiv_def)
  ultimately show thesis by (rule that [rotated])
qed

lemma cq_rep_is_full: "cq_rep q s n h t \<Longrightarrow> cq_is_full q \<longleftrightarrow> rsuc n t = h"
  using cq_rep_advance [of q s n h t "q_tail (ctl q)" t] cq_repD [of q s n h t]
    cq_rep_offs_eq [of q s n h t _ "rsuc n t" "q_head (ctl q)" h]
  by (simp add: cq_is_full_def Let_def)

lemma cq_rep_is_empty: "cq_rep q s n h t \<Longrightarrow> cq_is_empty q \<longleftrightarrow> h = t"
  using cq_repD [of q s n h t] by (simp add: cq_is_empty_def word_eq_unat)

subsection \<open>Initialisation\<close>

lemma cq_rep_init:
  assumes "m_q q = 0" "capacity \<noteq> 0" "item_size \<noteq> 0"
    and fit: "20 + (unat capacity + 1) * unat item_size < 2 ^ 32"
    and addr: "a \<noteq> 0" "unat a + (20 + (unat capacity + 1) * unat item_size) < 2 ^ 64"
  obtains q' where "cq_init capacity item_size (a, junk) q live = Inr (True, q', insert a live)"
    "cq_rep q' (unat item_size) (unat capacity + 1) 0 0" "m_q q' = a"
proof -
  let ?n = "unat capacity + 1" and ?s = "unat item_size"
  have s: "0 < ?s" using assms(3) by (simp add: unat_gt_0)
  have c: "0 < unat capacity" using assms(2) by (simp add: unat_gt_0)
  have "?n \<le> ?n * ?s" using s by (cases ?s) auto
  then have n: "unat (capacity + 1) = ?n" using fit by (subst unat_add_nowrap) simp_all
  then have m: "unat ((capacity + 1) * item_size) = ?n * ?s"
    using fit by (subst unat_mult_nowrap) simp_all
  then have b: "unat (20 + (capacity + 1) * item_size) = 20 + ?n * ?s"
    using fit by (subst unat_add_nowrap) simp_all
  let ?q = "\<lparr>m_q = a, ctl = \<lparr>q_begin = 20, q_end = 20 + item_size * (capacity + 1),
      q_head = 20, q_tail = 20, q_item_size = item_size\<rparr>,
      dat = map junk [0..<unat (20 + (capacity + 1) * item_size) - 20]\<rparr>"
  have "cq_capacity q = Inr 0" using assms(1) by (simp add: cq_capacity_def)
  then have "cq_init capacity item_size (a, junk) q live = Inr (True, ?q, insert a live)"
    using assms(2) addr(1) b by (simp add: cq_init_def Let_def)
  moreover have "cq_rep ?q ?s ?n 0 0"
    using addr s c b by (simp add: cq_rep_def mult.commute [of item_size])
  ultimately show thesis by (intro that [of ?q]) simp_all
qed

lemma cq_rep_clear: "cq_rep q s n h t \<Longrightarrow> cq_rep (cq_clear q) s n 0 0"
  by (simp add: cq_rep_def cq_clear_def)

end
