(* ===== verification/GclInterfaces.thy ===== *)
theory GclInterfaces
  imports GclPrelude
begin

section \<open>Interfaces between the components\<close>

text \<open>
  The loop shapes that several components share, as functions of the operations they call,
  and the contracts those operations have to meet, as locales. The queue and the list
  provide pointers to their nodes one after the other (\<open>traversal\<close>); the queue is a bounded
  first-in first-out store of items (\<open>fifo\<close>). The lemmas of the clients are proved once,
  inside the locale, and hold for every provider that interprets it.
\<close>

subsection \<open>The loop \<open>while (p) { ...; p = next(p); }\<close>\<close>

text \<open>
  \<open>body p s\<close> runs the loop body at node \<open>p\<close> in state \<open>s\<close>: \<open>Some r\<close> is a \<open>return r\<close> inside the
  loop. The first argument bounds the number of turns; running out of it is \<open>Diverges\<close>.
\<close>

fun each ::
    "nat \<Rightarrow> (ptr \<Rightarrow> 's \<Rightarrow> ptr) \<Rightarrow> (ptr \<Rightarrow> 's \<Rightarrow> ('r option \<times> 's) res) \<Rightarrow> ptr \<Rightarrow> 's \<Rightarrow> ('r option \<times> 's) res"
where
  "each 0 nxt body p s = (if p = 0 then Inr (None, s) else Inl Diverges)"
| "each (Suc k) nxt body p s =
     (if p = 0 then Inr (None, s)
      else rbind (body p s) (\<lambda>(r, s').
             case r of Some x \<Rightarrow> Inr (Some x, s')
             | None \<Rightarrow> each k nxt body (nxt p s') s'))"

text \<open>The same loop over the list of the nodes it visits.\<close>

fun each_list ::
    "(ptr \<Rightarrow> 's \<Rightarrow> ('r option \<times> 's) res) \<Rightarrow> ptr list \<Rightarrow> 's \<Rightarrow> ('r option \<times> 's) res"
where
  "each_list body [] s = Inr (None, s)"
| "each_list body (p # ps) s =
     rbind (body p s) (\<lambda>(r, s').
       case r of Some x \<Rightarrow> Inr (Some x, s') | None \<Rightarrow> each_list body ps s')"

text \<open>A loop that returns at the first node with a property, after a last action there.\<close>

lemma each_list_first:
  assumes "\<And>p. p \<in> set ps \<Longrightarrow> Q p \<Longrightarrow> body p s = Inr (Some (g p), f p)"
    and "\<And>p. p \<in> set ps \<Longrightarrow> \<not> Q p \<Longrightarrow> body p s = Inr (None, s)"
  shows "each_list body ps s = (case find Q ps of None \<Rightarrow> Inr (None, s) | Some p \<Rightarrow> Inr (Some (g p), f p))"
  using assms by (induction ps) auto

locale traversal =
  fixes ok :: "'s \<Rightarrow> bool"
    and nodes :: "'s \<Rightarrow> ptr list"
    and start :: "'s \<Rightarrow> ptr"
    and nxt :: "ptr \<Rightarrow> 's \<Rightarrow> ptr"
  assumes start_empty: "ok s \<Longrightarrow> nodes s = [] \<Longrightarrow> start s = 0"
    and start_first: "ok s \<Longrightarrow> nodes s \<noteq> [] \<Longrightarrow> start s = nodes s ! 0"
    and nxt_inner: "ok s \<Longrightarrow> Suc i < length (nodes s) \<Longrightarrow> nxt (nodes s ! i) s = nodes s ! Suc i"
    and nxt_last: "ok s \<Longrightarrow> nodes s \<noteq> [] \<Longrightarrow> nxt (nodes s ! (length (nodes s) - 1)) s = 0"
    and nodes_nonnull: "ok s \<Longrightarrow> p \<in> set (nodes s) \<Longrightarrow> p \<noteq> 0"
begin

lemma nxt_nth:
  assumes "ok s" "i < length (nodes s)"
  shows "nxt (nodes s ! i) s = (if Suc i < length (nodes s) then nodes s ! Suc i else 0)"
proof (cases "Suc i < length (nodes s)")
  case True
  with assms show ?thesis by (simp add: nxt_inner)
next
  case False
  with assms(2) have "i = length (nodes s) - 1" by simp
  with assms show ?thesis using nxt_last [OF assms(1)] by force
qed

text \<open>The \<open>k\<close>-th pointer of a walk from the start; past the end it is null.\<close>

lemma walk_nth: "ok s \<Longrightarrow> k < length (nodes s) \<Longrightarrow> ((\<lambda>p. nxt p s) ^^ k) (start s) = nodes s ! k"
proof (induction k)
  case 0
  then show ?case by (auto simp: start_first)
next
  case (Suc k)
  then show ?case by (simp add: nxt_inner)
qed

lemma walk_end: "ok s \<Longrightarrow> nodes s \<noteq> [] \<Longrightarrow> ((\<lambda>p. nxt p s) ^^ length (nodes s)) (start s) = 0"
proof -
  assume a: "ok s" "nodes s \<noteq> []"
  then obtain k where k: "length (nodes s) = Suc k" by (cases "nodes s") auto
  then show ?thesis using walk_nth [OF a(1), of k] nxt_last [OF a] by simp
qed

text \<open>
  A loop over a larger state \<open>z\<close>, of which \<open>v z\<close> is the traversed structure. When the body
  keeps the chain of nodes, the loop visits the nodes in order, and enough turns are the
  number of nodes.
\<close>

lemma each_drop:
  assumes body: "\<And>p z z'. ok (v z) \<Longrightarrow> P z \<Longrightarrow> nodes (v z) = ns \<Longrightarrow> p \<in> set ns \<Longrightarrow>
      body p z = Inr (None :: 'r option, z') \<Longrightarrow> ok (v z') \<and> P z' \<and> nodes (v z') = ns"
  shows "ok (v z) \<Longrightarrow> P z \<Longrightarrow> nodes (v z) = ns \<Longrightarrow> i \<le> length ns \<Longrightarrow> length ns - i \<le> k \<Longrightarrow>
    each k (\<lambda>p z. nxt p (v z)) body (if i < length ns then ns ! i else 0) z
      = each_list body (drop i ns) z"
proof (induction k arbitrary: i z)
  case 0
  then show ?case by simp
next
  case (Suc k)
  show ?case
  proof (cases "i < length ns")
    case False
    with Suc.prems show ?thesis by simp
  next
    case True
    have nn: "ns ! i \<noteq> 0" using nodes_nonnull [OF Suc.prems(1)] True Suc.prems(3) by auto
    have step: "each k (\<lambda>p z. nxt p (v z)) body (nxt (ns ! i) (v z')) z'
        = each_list body (drop (Suc i) ns) z'"
      if "body (ns ! i) z = Inr (None, z')" for z'
    proof -
      from body [OF Suc.prems(1-3) _ that] True
      have z': "ok (v z')" "P z'" "nodes (v z') = ns" by auto
      then have "nxt (ns ! i) (v z') = (if Suc i < length ns then ns ! Suc i else 0)"
        using nxt_nth [of "v z'" i] True by simp
      then show ?thesis using Suc.IH [OF z', of "Suc i"] Suc.prems(5) True by simp
    qed
    have "drop i ns = ns ! i # drop (Suc i) ns" using True by (simp add: Cons_nth_drop_Suc)
    then show ?thesis
      using True nn step by (cases "body (ns ! i) z") (auto split: option.splits)
  qed
qed

lemma each_nodes:
  assumes "ok (v z)" "P z" "length (nodes (v z)) \<le> k"
    and "\<And>p z' z''. ok (v z') \<Longrightarrow> P z' \<Longrightarrow> nodes (v z') = nodes (v z) \<Longrightarrow> p \<in> set (nodes (v z)) \<Longrightarrow>
      body p z' = Inr (None :: 'r option, z'') \<Longrightarrow> ok (v z'') \<and> P z'' \<and> nodes (v z'') = nodes (v z)"
  shows "each k (\<lambda>p z. nxt p (v z)) body (start (v z)) z = each_list body (nodes (v z)) z"
proof -
  have "start (v z) = (if 0 < length (nodes (v z)) then nodes (v z) ! 0 else 0)"
    using start_empty [OF assms(1)] start_first [OF assms(1)] by auto
  moreover have "each k (\<lambda>p z. nxt p (v z)) body
      (if 0 < length (nodes (v z)) then nodes (v z) ! 0 else 0) z
      = each_list body (drop 0 (nodes (v z))) z"
  proof (rule each_drop [where P = P])
    fix p z' z''
    assume "ok (v z')" "P z'" "nodes (v z') = nodes (v z)" "p \<in> set (nodes (v z))"
      "body p z' = Inr (None, z'')"
    then show "ok (v z'') \<and> P z'' \<and> nodes (v z'') = nodes (v z)" by (rule assms(4))
  qed (use assms(1-3) in simp_all)
  ultimately show ?thesis by simp
qed

text \<open>A search: the body only looks at the state until it returns.\<close>

lemma each_search:
  assumes "ok (v z)" "length (nodes (v z)) \<le> k"
    and "\<And>p. p \<in> set (nodes (v z)) \<Longrightarrow> Q p \<Longrightarrow> body p z = Inr (Some (g p), f p)"
    and "\<And>p. p \<in> set (nodes (v z)) \<Longrightarrow> \<not> Q p \<Longrightarrow> body p z = Inr (None, z)"
  shows "each k (\<lambda>p z. nxt p (v z)) body (start (v z)) z
    = (case find Q (nodes (v z)) of None \<Rightarrow> Inr (None, z) | Some p \<Rightarrow> Inr (Some (g p), f p))"
proof -
  have "each k (\<lambda>p z. nxt p (v z)) body (start (v z)) z = each_list body (nodes (v z)) z"
  proof (rule each_nodes [where P = "\<lambda>y. y = z"])
    fix p z' z''
    assume "z' = z" "p \<in> set (nodes (v z))" "body p z' = Inr (None, z'')"
    then show "ok (v z'') \<and> z'' = z \<and> nodes (v z'') = nodes (v z)"
      using assms(1) assms(3,4) [of p] by (cases "Q p") auto
  qed (use assms(1,2) in simp_all)
  also have "\<dots> = (case find Q (nodes (v z)) of None \<Rightarrow> Inr (None, z) | Some p \<Rightarrow> Inr (Some (g p), f p))"
    using assms(3,4) by (rule each_list_first)
  finally show ?thesis .
qed

text \<open>A loop that reads a value at every node and collects the values.\<close>

lemma each_collect:
  assumes "ok s" "length (nodes s) \<le> k" "map rd (nodes s) = map Inr vs"
  shows "each k (\<lambda>p acc. nxt p s) (\<lambda>p acc. rbind (rd p) (\<lambda>x. Inr (None, acc @ [x]))) (start s) []
    = Inr (None :: unit option, vs)"
proof -
  have "each_list (\<lambda>p acc. rbind (rd p) (\<lambda>x. Inr (None :: unit option, acc @ [x]))) ns acc
      = Inr (None, acc @ vs)" if "map rd ns = map Inr vs" for ns vs acc
    using that by (induction ns arbitrary: vs acc) auto
  note collect = this
  have "each k (\<lambda>p acc. nxt p s) (\<lambda>p acc. rbind (rd p) (\<lambda>x. Inr (None :: unit option, acc @ [x]))) (start s) []
      = each_list (\<lambda>p acc. rbind (rd p) (\<lambda>x. Inr (None, acc @ [x]))) (nodes s) []"
    by (rule each_nodes [where P = "\<lambda>_. True" and v = "\<lambda>_. s"]) (use assms in auto)
  then show ?thesis using collect [OF assms(3)] by simp
qed

end

subsection \<open>Bounded first-in first-out stores\<close>

text \<open>A program of queue calls, its run on an implementation and on the abstract store.\<close>

datatype 'a qop = Enq 'a | Deq

datatype 'a qout = Done bool | Got "'a option"

fun run_qops ::
    "('a \<Rightarrow> 'q \<Rightarrow> (bool \<times> 'q) res) \<Rightarrow> ('q \<Rightarrow> ('a option \<times> 'q) res) \<Rightarrow>
     'a qop list \<Rightarrow> 'q \<Rightarrow> ('a qout list \<times> 'q) res"
where
  "run_qops enq deq [] q = Inr ([], q)"
| "run_qops enq deq (Enq x # ops) q =
     rbind (enq x q) (\<lambda>(b, q). rbind (run_qops enq deq ops q) (\<lambda>(os, q). Inr (Done b # os, q)))"
| "run_qops enq deq (Deq # ops) q =
     rbind (deq q) (\<lambda>(x, q). rbind (run_qops enq deq ops q) (\<lambda>(os, q). Inr (Got x # os, q)))"

fun spec_qops :: "nat \<Rightarrow> 'a qop list \<Rightarrow> 'a list \<Rightarrow> 'a qout list \<times> 'a list" where
  "spec_qops c [] xs = ([], xs)"
| "spec_qops c (Enq x # ops) xs =
     (if length xs < c
      then (let (os, ys) = spec_qops c ops (xs @ [x]) in (Done True # os, ys))
      else (let (os, ys) = spec_qops c ops xs in (Done False # os, ys)))"
| "spec_qops c (Deq # ops) xs =
     (case xs of [] \<Rightarrow> (let (os, ys) = spec_qops c ops [] in (Got None # os, ys))
      | x # xs' \<Rightarrow> (let (os, ys) = spec_qops c ops xs' in (Got (Some x) # os, ys)))"

fun enqs :: "'a qop list \<Rightarrow> 'a list" where
  "enqs [] = []"
| "enqs (Enq x # ops) = x # enqs ops"
| "enqs (Deq # ops) = enqs ops"

text \<open>
  The loop \<open>while (len-- > 0) { get(x); if (...) continue; put(x); }\<close>: \<open>step x acc\<close> says whether
  \<open>x\<close> is put back and updates the variables of the loop. A failing \<open>get\<close> leaves \<open>x\<close> unset.
\<close>

fun requeue ::
    "('a \<Rightarrow> 'q \<Rightarrow> (bool \<times> 'q) res) \<Rightarrow> ('q \<Rightarrow> ('a option \<times> 'q) res) \<Rightarrow>
     ('a \<Rightarrow> 'b \<Rightarrow> bool \<times> 'b) \<Rightarrow> nat \<Rightarrow> 'b \<Rightarrow> 'q \<Rightarrow> ('b \<times> 'q) res"
where
  "requeue enq deq step 0 acc q = Inr (acc, q)"
| "requeue enq deq step (Suc len) acc q =
     rbind (deq q) (\<lambda>(x, q).
       case x of None \<Rightarrow> Inl Uninit
       | Some x \<Rightarrow>
         (case step x acc of (keep, acc') \<Rightarrow>
            if keep then rbind (enq x q) (\<lambda>(_, q). requeue enq deq step len acc' q)
            else requeue enq deq step len acc' q))"

fun sift :: "('a \<Rightarrow> 'b \<Rightarrow> bool \<times> 'b) \<Rightarrow> 'a list \<Rightarrow> 'b \<Rightarrow> 'a list \<times> 'b" where
  "sift step [] acc = ([], acc)"
| "sift step (x # xs) acc =
     (case step x acc of (keep, acc') \<Rightarrow>
       (case sift step xs acc' of (ys, acc'') \<Rightarrow> (if keep then x # ys else ys, acc'')))"

lemma length_sift: "length (fst (sift step xs acc)) \<le> length xs"
  by (induction xs arbitrary: acc) (auto split: prod.splits, (metis fst_conv le_SucI)+)

lemma sift_filter: "(\<And>x. step x () = (f x, ())) \<Longrightarrow> fst (sift step xs ()) = filter f xs"
  by (induction xs) (auto split: prod.splits)

locale fifo =
  fixes inv :: "'q \<Rightarrow> bool"
    and items :: "'q \<Rightarrow> 'a list"
    and cap :: "'q \<Rightarrow> nat"
    and fits :: "'q \<Rightarrow> 'a \<Rightarrow> bool"
    and enq :: "'a \<Rightarrow> 'q \<Rightarrow> (bool \<times> 'q) res"
    and deq :: "'q \<Rightarrow> ('a option \<times> 'q) res"
  assumes enq_room: "inv q \<Longrightarrow> fits q x \<Longrightarrow> length (items q) < cap q \<Longrightarrow>
      \<exists>q'. enq x q = Inr (True, q') \<and> inv q' \<and> items q' = items q @ [x] \<and> cap q' = cap q
        \<and> fits q' = fits q"
    and enq_full: "inv q \<Longrightarrow> fits q x \<Longrightarrow> length (items q) = cap q \<Longrightarrow> enq x q = Inr (False, q)"
    and deq_empty: "inv q \<Longrightarrow> items q = [] \<Longrightarrow> deq q = Inr (None, q)"
    and deq_item: "inv q \<Longrightarrow> items q = x # xs \<Longrightarrow>
      \<exists>q'. deq q = Inr (Some x, q') \<and> inv q' \<and> items q' = xs \<and> cap q' = cap q \<and> fits q' = fits q"
    and items_cap: "inv q \<Longrightarrow> length (items q) \<le> cap q"
    and items_fit: "inv q \<Longrightarrow> x \<in> set (items q) \<Longrightarrow> fits q x"
begin

lemma run_qops_spec:
  assumes "inv q" "\<forall>x \<in> set (enqs ops). fits q x"
  shows "\<exists>q'. run_qops enq deq ops q = Inr (fst (spec_qops (cap q) ops (items q)), q') \<and> inv q'
    \<and> items q' = snd (spec_qops (cap q) ops (items q)) \<and> cap q' = cap q"
  using assms
proof (induction ops arbitrary: q)
  case Nil
  then show ?case by simp
next
  case (Cons op ops)
  show ?case
  proof (cases op)
    case (Enq x)
    show ?thesis
    proof (cases "length (items q) < cap q")
      case True
      with Cons.prems Enq obtain q1 where q1: "enq x q = Inr (True, q1)" "inv q1"
        "items q1 = items q @ [x]" "cap q1 = cap q" "fits q1 = fits q"
        using enq_room [of q x] by auto
      with Cons.IH [of q1] Cons.prems Enq True show ?thesis by (auto split: prod.splits)
    next
      case False
      then have "length (items q) = cap q" using items_cap [OF Cons.prems(1)] by simp
      with Cons.prems Enq have "enq x q = Inr (False, q)" by (simp add: enq_full)
      with Cons.IH [of q] Cons.prems Enq False show ?thesis by (auto split: prod.splits)
    qed
  next
    case Deq
    show ?thesis
    proof (cases "items q")
      case Nil
      then have "deq q = Inr (None, q)" by (rule deq_empty [OF Cons.prems(1)])
      with Cons.IH [of q] Cons.prems Deq Nil show ?thesis by (auto split: prod.splits)
    next
      case (Cons x xs)
      with deq_item [OF Cons.prems(1)] obtain q1 where q1: "deq q = Inr (Some x, q1)" "inv q1"
        "items q1 = xs" "cap q1 = cap q" "fits q1 = fits q" by blast
      with Cons.IH [of q1] Cons.prems Deq \<open>items q = x # xs\<close> show ?thesis
        by (auto split: prod.splits)
    qed
  qed
qed

text \<open>The requeue loop visits the first \<open>len\<close> items once and puts the kept ones at the back.\<close>

lemma requeue_sift:
  assumes "inv q" "items q = xs @ ys"
  shows "\<exists>q'. requeue enq deq step (length xs) acc q = Inr (snd (sift step xs acc), q') \<and> inv q'
    \<and> items q' = ys @ fst (sift step xs acc) \<and> cap q' = cap q \<and> fits q' = fits q"
  using assms
proof (induction xs arbitrary: q acc ys)
  case Nil
  then show ?case by simp
next
  case (Cons x xs)
  then obtain q1 where q1: "deq q = Inr (Some x, q1)" "inv q1" "items q1 = xs @ ys"
    "cap q1 = cap q" "fits q1 = fits q"
    using deq_item [of q x "xs @ ys"] by auto
  obtain keep acc' where st: "step x acc = (keep, acc')" by (cases "step x acc")
  show ?case
  proof (cases keep)
    case False
    with Cons.IH [OF q1(2,3), of acc'] q1 st show ?thesis by (auto split: prod.splits)
  next
    case True
    have "length (items q1) < cap q1" using items_cap [OF Cons.prems(1)] Cons.prems(2) q1 by simp
    moreover have "fits q1 x" using items_fit [OF Cons.prems(1)] Cons.prems(2) q1(5) by simp
    ultimately obtain q2 where q2: "enq x q1 = Inr (True, q2)" "inv q2"
      "items q2 = xs @ (ys @ [x])" "cap q2 = cap q1" "fits q2 = fits q1"
      using enq_room [OF q1(2)] q1(3) by auto
    with Cons.IH [OF q2(2,3), of acc'] q1 st True show ?thesis by (auto split: prod.splits)
  qed
qed

end

end
