(* ===== verification/GclQueIter.thy ===== *)
theory GclQueIter
  imports GclQueFacts GclInterfaces
begin

section \<open>CircularQueue: pointers, traversal and the store contract\<close>

text \<open>
  The pointers that \<open>peek\<close>, \<open>peek_next\<close>, \<open>last\<close> and \<open>peek_prev\<close> hand out are the addresses
  of the slots between head and tail. This theory interprets the two interfaces of
  \<open>GclInterfaces\<close> on the queue: the traversals in both directions, and the bounded
  first-in first-out store that \<open>put\<close> and \<open>get\<close> implement.
\<close>

subsection \<open>Slot addresses\<close>

definition cq_slot :: "cqueue \<Rightarrow> nat \<Rightarrow> ptr" where
  "cq_slot q i = m_q q + of_nat (20 + i * unat (q_item_size (ctl q)))"

definition cq_nodes :: "cqueue \<Rightarrow> ptr list" where
  "cq_nodes q =
     (if m_q q = 0 then [] else map (cq_slot q) (ring (cq_slots q) (cq_hidx q) (cq_tidx q)))"

lemma cq_rep_nodes: "cq_rep q s n h t \<Longrightarrow> cq_nodes q = map (cq_slot q) (ring n h t)"
  by (simp add: cq_nodes_def cq_rep_views cq_repD(1))

lemma unat_cq_slot:
  assumes "cq_rep q s n h t" "i \<le> n"
  shows "unat (cq_slot q i) = unat (m_q q) + (20 + i * s)"
proof -
  have le: "i * s \<le> n * s" using assms(2) by (rule mult_le_mono1)
  have lt: "unat (m_q q) + (20 + i * s) < 2 ^ 64" using le cq_repD(12) [OF assms(1)] by linarith
  then have "unat (of_nat (20 + i * s) :: ptr) = 20 + i * s"
    by (simp add: unat_of_nat take_bit_nat_eq_self del: of_nat_add of_nat_mult)
  then show ?thesis
    using cq_repD(6) [OF assms(1)] lt unfolding cq_slot_def
    by (subst unat_add_nowrap) simp_all
qed

lemma cq_slot_eq:
  assumes "cq_rep q s n h t" "i \<le> n" "j \<le> n"
  shows "cq_slot q i = cq_slot q j \<longleftrightarrow> i = j"
  using unat_cq_slot [OF assms(1,2)] unat_cq_slot [OF assms(1,3)] cq_repD(2) [OF assms(1)]
  by (auto simp: word_eq_unat)

lemma cq_slot_nonnull: "cq_rep q s n h t \<Longrightarrow> i \<le> n \<Longrightarrow> cq_slot q i \<noteq> 0"
  using unat_cq_slot [of q s n h t i] by (auto simp: word_eq_unat)

lemma cq_ptr_slot:
  assumes "cq_rep q s n h t" "i \<le> n" "unat p = 20 + i * s"
  shows "cq_ptr q p = cq_slot q i"
proof -
  have le: "i * s \<le> n * s" using assms(2) by (rule mult_le_mono1)
  have lt: "unat (m_q q) + (20 + i * s) < 2 ^ 64" using le cq_repD(12) [OF assms(1)] by linarith
  have "unat (cq_ptr q p) = unat (m_q q) + (20 + i * s)"
    using assms(3) lt unfolding cq_ptr_def
    by (subst unat_add_nowrap) (simp_all add: unat_ucast_32_64)
  then show ?thesis using unat_cq_slot [OF assms(1,2)] by (simp add: word_eq_unat)
qed

lemma cq_rep_ptrs:
  assumes "cq_rep q s n h t"
  shows "cq_ptr q (q_begin (ctl q)) = cq_slot q 0" "cq_ptr q (q_end (ctl q)) = cq_slot q n"
    "cq_ptr q (q_head (ctl q)) = cq_slot q h" "cq_ptr q (q_tail (ctl q)) = cq_slot q t"
  using cq_repD [OF assms] by (auto intro!: cq_ptr_slot [OF assms])

lemma cq_slot_Suc:
  assumes "cq_rep q s n h t" "i < n"
  shows "cq_slot q i + ucast (q_item_size (ctl q)) = cq_slot q (Suc i)"
proof -
  have le: "Suc i * s \<le> n * s" using assms(2) by (intro mult_le_mono1) simp
  have "unat (m_q q) + (20 + Suc i * s) < 2 ^ 64" using le cq_repD(12) [OF assms(1)] by linarith
  then have "unat (cq_slot q i + ucast (q_item_size (ctl q))) = unat (m_q q) + (20 + Suc i * s)"
    using unat_cq_slot [OF assms(1), of i] cq_repD(6) [OF assms(1)] assms(2)
    by (subst unat_add_nowrap) (simp_all add: unat_ucast_32_64)
  then show ?thesis using unat_cq_slot [OF assms(1), of "Suc i"] assms(2) by (simp add: word_eq_unat)
qed

lemma cq_slot_pred:
  "cq_rep q s n h t \<Longrightarrow> i < n \<Longrightarrow> cq_slot q (Suc i) - ucast (q_item_size (ctl q)) = cq_slot q i"
  using cq_slot_Suc [of q s n h t i] by (simp add: algebra_simps)

lemma cq_slot_range:
  assumes "cq_rep q s n h t" "i < n"
  shows "\<not> (cq_slot q i < cq_slot q 0 \<or> cq_slot q i \<ge> cq_slot q n)"
proof -
  have "i * s < n * s" using assms(2) cq_repD(2) [OF assms(1)] by simp
  then show ?thesis
    using unat_cq_slot [OF assms(1), of i] unat_cq_slot [OF assms(1), of 0]
      unat_cq_slot [OF assms(1), of n] assms(2)
    by (simp add: word_less_nat_alt word_le_nat_alt)
qed

lemma cq_deref_slot:
  assumes "cq_rep q s n h t" "i < n"
  shows "cq_deref q (cq_slot q i) = Inr (chunk s i (dat q))"
proof -
  have le: "i * s \<le> n * s" using assms(2) by (intro mult_le_mono1) simp
  then have "unat (cq_slot q i - m_q q) = 20 + i * s"
    using unat_cq_slot [OF assms(1), of i] assms(2) by (subst unat_sub_nowrap) simp_all
  then show ?thesis
    using cq_slot_nonnull [OF assms(1), of i] assms block_end [OF assms(2), of s]
    by (simp add: cq_deref_def cq_load_def chunk_def cq_rep_def)
qed

subsection \<open>Stepping from slot to slot\<close>

lemma cq_peek_next_slot:
  assumes "cq_rep q s n h t" "i < n" "h \<noteq> t"
  shows "cq_peek_next (cq_slot q i) q = (if rsuc n i = t then 0 else cq_slot q (rsuc n i))"
proof -
  note D = cq_repD [OF assms(1)]
  have s: "cq_slot q (Suc i) = cq_slot q n \<longleftrightarrow> Suc i = n"
    using cq_slot_eq [OF assms(1), of "Suc i" n] assms(2) by simp
  have t: "cq_slot q (rsuc n i) = cq_slot q t \<longleftrightarrow> rsuc n i = t"
    using cq_slot_eq [OF assms(1), of "rsuc n i" t] rsuc_lt [OF assms(2)] D(5) by simp
  have "\<not> cq_is_empty q" "cq_slot q i \<noteq> 0"
    using cq_rep_is_empty [OF assms(1)] assms(2,3) cq_slot_nonnull [OF assms(1), of i] by simp_all
  then have "cq_peek_next (cq_slot q i) q
      = (let p = (if Suc i = n then cq_slot q 0 else cq_slot q (Suc i))
         in if p = cq_slot q t then 0 else p)"
    using cq_slot_range [OF assms(1,2)] cq_slot_Suc [OF assms(1,2)] s
    by (simp add: cq_peek_next_def cq_rep_ptrs [OF assms(1)])
  also have "\<dots> = (let p = cq_slot q (rsuc n i) in if p = cq_slot q t then 0 else p)"
    by (simp add: rsuc_def)
  finally show ?thesis using t by simp
qed

lemma cq_peek_prev_slot:
  assumes "cq_rep q s n h t" "i < n" "h \<noteq> t"
  shows "cq_peek_prev (cq_slot q i) q = (if i = h then 0 else cq_slot q (rpred n i))"
proof -
  note D = cq_repD [OF assms(1)]
  have h: "cq_slot q i = cq_slot q h \<longleftrightarrow> i = h" "cq_slot q i = cq_slot q 0 \<longleftrightarrow> i = 0"
    using cq_slot_eq [OF assms(1), of i] assms(2) D(4) by simp_all
  have "(if i = 0 then cq_slot q n else cq_slot q i) - ucast (q_item_size (ctl q))
      = cq_slot q (rpred n i)"
  proof (cases i)
    case 0
    then show ?thesis
      using cq_slot_pred [OF assms(1), of "n - 1"] assms(2) by (simp add: rpred_def)
  next
    case (Suc k)
    then show ?thesis
      using cq_slot_pred [OF assms(1), of k] assms(2) by (simp add: rpred_def)
  qed
  moreover have "\<not> cq_is_empty q" "cq_slot q i \<noteq> 0"
    using cq_rep_is_empty [OF assms(1)] assms(2,3) cq_slot_nonnull [OF assms(1), of i] by simp_all
  then have "cq_peek_prev (cq_slot q i) q
      = (if i = h then 0
         else (if i = 0 then cq_slot q n else cq_slot q i) - ucast (q_item_size (ctl q)))"
    using cq_slot_range [OF assms(1,2)] h
    by (simp add: cq_peek_prev_def cq_rep_ptrs [OF assms(1)])
  ultimately show ?thesis by (simp only:)
qed

lemma cq_last_slot:
  assumes "cq_rep q s n h t" "h \<noteq> t"
  shows "cq_last q = cq_slot q (rpred n t)"
proof -
  note D = cq_repD [OF assms(1)]
  have e: "q_tail (ctl q) = q_begin (ctl q) \<longleftrightarrow> t = 0"
    using cq_rep_offs_eq [OF assms(1) D(10), of "q_begin (ctl q)" 0] D(7) by simp
  have "unat ((if t = 0 then q_end (ctl q) else q_tail (ctl q)) - q_item_size (ctl q))
      = 20 + rpred n t * s"
  proof (cases t)
    case 0
    then show ?thesis using cq_rep_before_end [OF assms(1)] by (simp add: rpred_def)
  next
    case (Suc k)
    then show ?thesis using D(6,10) by (subst unat_sub_nowrap) (simp_all add: rpred_def)
  qed
  then have "cq_ptr q ((if t = 0 then q_end (ctl q) else q_tail (ctl q)) - q_item_size (ctl q))
      = cq_slot q (rpred n t)"
    using rpred_lt [OF D(5)] by (intro cq_ptr_slot [OF assms(1)]) simp_all
  then show ?thesis
    using cq_rep_is_empty [OF assms(1)] assms(2) e by (simp add: cq_last_def Let_def)
qed

lemma cq_peek_slot: "cq_rep q s n h t \<Longrightarrow> h \<noteq> t \<Longrightarrow> cq_peek q = cq_slot q h"
  by (simp add: cq_peek_def cq_rep_is_empty cq_rep_ptrs)

subsection \<open>The two traversals\<close>

lemma cq_nodes_nth:
  "cq_rep q s n h t \<Longrightarrow> i < rlen n h t \<Longrightarrow> cq_nodes q ! i = cq_slot q (ring n h t ! i)"
  by (simp add: cq_rep_nodes)

lemma ring_nth_lt: "h < n \<Longrightarrow> t < n \<Longrightarrow> i < rlen n h t \<Longrightarrow> ring n h t ! i < n \<and> ring n h t ! i \<noteq> t"
  using set_ring [of h n t "ring n h t ! i"] by (simp add: nth_mem)

lemma ring_nth_0: "h < n \<Longrightarrow> t < n \<Longrightarrow> h \<noteq> t \<Longrightarrow> ring n h t ! 0 = h"
  by (simp add: ring_cons)

lemma cq_wf_nonempty:
  assumes "cq_wf q" "cq_nodes q \<noteq> []"
  obtains s n h t where "cq_rep q s n h t" "h \<noteq> t" "length (cq_nodes q) = rlen n h t"
    "0 < rlen n h t"
proof (rule cq_wf_cases [OF assms(1)])
  assume "m_q q = 0"
  with assms(2) show thesis by (simp add: cq_nodes_def)
next
  fix s n h t assume r: "cq_rep q s n h t"
  with assms(2) have "h \<noteq> t" by (auto simp: cq_rep_nodes)
  with r show thesis
    using cq_repD(4,5) [OF r] rlen_eq_0 [of h n t] by (intro that [OF r]) (auto simp: cq_rep_nodes)
qed

lemma cq_nodes_empty: "cq_wf q \<Longrightarrow> cq_nodes q = [] \<longleftrightarrow> cq_is_empty q"
proof (erule cq_wf_cases)
  fix s n h t assume "cq_rep q s n h t"
  then show ?thesis
    using cq_repD(4,5) [of q s n h t] by (simp add: cq_rep_nodes cq_rep_is_empty)
qed (simp add: cq_nodes_def cq_is_empty_def)

interpretation fwd: traversal cq_wf cq_nodes cq_peek cq_peek_next
proof
  fix q assume "cq_wf q" "cq_nodes q = []"
  then show "cq_peek q = 0" by (simp add: cq_nodes_empty cq_peek_def)
next
  fix q assume "cq_wf q" "cq_nodes q \<noteq> []"
  then show "cq_peek q = cq_nodes q ! 0"
    by (rule cq_wf_nonempty)
      (simp add: cq_peek_slot cq_nodes_nth ring_nth_0 cq_repD(4,5))
next
  fix q i assume "cq_wf q" and i: "Suc i < length (cq_nodes q)"
  then have "cq_nodes q \<noteq> []" by auto
  with \<open>cq_wf q\<close> obtain s n h t where r: "cq_rep q s n h t" "h \<noteq> t"
    "length (cq_nodes q) = rlen n h t" by (rule cq_wf_nonempty)
  note D = cq_repD [OF r(1)]
  have "ring n h t ! Suc i \<noteq> t" using ring_nth_lt [OF D(4,5), of "Suc i"] i r(3) by simp
  then show "cq_peek_next (cq_nodes q ! i) q = cq_nodes q ! Suc i"
    using i r(3) ring_nth_lt [OF D(4,5), of i] cq_peek_next_slot [OF r(1) _ r(2)]
      ring_nth_Suc [OF D(4,5), of i]
    by (simp add: cq_nodes_nth [OF r(1)])
next
  fix q assume "cq_wf q" "cq_nodes q \<noteq> []"
  then obtain s n h t where r: "cq_rep q s n h t" "h \<noteq> t"
    "length (cq_nodes q) = rlen n h t" "0 < rlen n h t" by (rule cq_wf_nonempty)
  note D = cq_repD [OF r(1)]
  show "cq_peek_next (cq_nodes q ! (length (cq_nodes q) - 1)) q = 0"
    using r(3,4) ring_nth_lt [OF D(4,5), of "rlen n h t - 1"] cq_peek_next_slot [OF r(1) _ r(2)]
      ring_last_rsuc [OF D(4,5) r(2)]
    by (simp add: cq_nodes_nth [OF r(1)])
next
  fix q p assume "cq_wf q" "p \<in> set (cq_nodes q)"
  moreover from this have "cq_nodes q \<noteq> []" by auto
  ultimately obtain s n h t where r: "cq_rep q s n h t" by (metis cq_wf_nonempty)
  with \<open>p \<in> set (cq_nodes q)\<close> show "p \<noteq> 0"
    using set_ring [OF cq_repD(4,5) [OF r]] cq_slot_nonnull [OF r]
    by (auto simp: cq_rep_nodes [OF r] dest: less_imp_le)
qed

interpretation bwd: traversal cq_wf "\<lambda>q. rev (cq_nodes q)" cq_last cq_peek_prev
proof
  fix q assume "cq_wf q" "rev (cq_nodes q) = []"
  then show "cq_last q = 0" by (simp add: cq_nodes_empty cq_last_def)
next
  fix q assume "cq_wf q" "rev (cq_nodes q) \<noteq> []"
  then have "cq_nodes q \<noteq> []" by simp
  with \<open>cq_wf q\<close> obtain s n h t where r: "cq_rep q s n h t" "h \<noteq> t"
    "length (cq_nodes q) = rlen n h t" "0 < rlen n h t" by (rule cq_wf_nonempty)
  then show "cq_last q = rev (cq_nodes q) ! 0"
    using ring_pred_snoc [OF cq_repD(4,5) [OF r(1)] r(2)]
    by (simp add: cq_last_slot cq_rep_nodes [OF r(1)])
next
  fix q i assume "cq_wf q" and i: "Suc i < length (rev (cq_nodes q))"
  then have "cq_nodes q \<noteq> []" by auto
  with \<open>cq_wf q\<close> obtain s n h t where r: "cq_rep q s n h t" "h \<noteq> t"
    "length (cq_nodes q) = rlen n h t" by (rule cq_wf_nonempty)
  note D = cq_repD [OF r(1)]
  define k where "k = rlen n h t - Suc (Suc i)"
  have k: "Suc k < rlen n h t" "rlen n h t - Suc i = Suc k" using i r(3) by (simp_all add: k_def)
  have "ring n h t ! Suc k \<noteq> h"
    using distinct_ring [OF D(4,5)] ring_nth_0 [OF D(4,5) r(2)] k(1)
      nth_eq_iff_index_eq [of "ring n h t" "Suc k" 0] by simp
  moreover have "rpred n (ring n h t ! Suc k) = ring n h t ! k"
    using ring_nth_Suc [OF D(4,5) k(1)] ring_nth_lt [OF D(4,5), of k] k(1) by simp
  ultimately have "cq_peek_prev (cq_nodes q ! Suc k) q = cq_nodes q ! k"
    using cq_peek_prev_slot [OF r(1) _ r(2), of "ring n h t ! Suc k"]
      ring_nth_lt [OF D(4,5), of "Suc k"] k(1) by (simp add: cq_nodes_nth [OF r(1)])
  then show "cq_peek_prev (rev (cq_nodes q) ! i) q = rev (cq_nodes q) ! Suc i"
    using i r(3) k(2) by (simp add: rev_nth k_def)
next
  fix q assume "cq_wf q" "rev (cq_nodes q) \<noteq> []"
  then have "cq_nodes q \<noteq> []" by simp
  with \<open>cq_wf q\<close> obtain s n h t where r: "cq_rep q s n h t" "h \<noteq> t"
    "length (cq_nodes q) = rlen n h t" "0 < rlen n h t" by (rule cq_wf_nonempty)
  then show "cq_peek_prev (rev (cq_nodes q) ! (length (rev (cq_nodes q)) - 1)) q = 0"
    using cq_peek_prev_slot [OF r(1) cq_repD(4) [OF r(1)] r(2)] ring_nth_0 [OF cq_repD(4,5) [OF r(1)] r(2)]
    by (simp add: rev_nth cq_nodes_nth [OF r(1)])
next
  fix q p assume "cq_wf q" "p \<in> set (rev (cq_nodes q))"
  then show "p \<noteq> 0" using fwd.nodes_nonnull by simp
qed

text \<open>Dereferencing the nodes gives the items.\<close>

lemma cq_deref_nodes:
  assumes "cq_wf q"
  shows "map (cq_deref q) (cq_nodes q) = map Inr (cq_items q)"
proof (rule cq_wf_cases [OF assms])
  assume "m_q q = 0"
  then show ?thesis by (simp add: cq_nodes_def cq_items_def)
next
  fix s n h t assume r: "cq_rep q s n h t"
  then show ?thesis
    using set_ring [OF cq_repD(4,5) [OF r]] cq_deref_slot [OF r]
    by (auto simp: cq_rep_nodes cq_rep_items)
qed

lemma length_cq_nodes: "cq_wf q \<Longrightarrow> length (cq_nodes q) = length (cq_items q)"
  by (metis cq_deref_nodes length_map)

subsection \<open>The store contract\<close>

definition cq_enq :: "u8_t list \<Rightarrow> cqueue \<Rightarrow> (bool \<times> cqueue) res" where
  "cq_enq bs q = cq_put (Some bs) q"

definition cq_deq :: "cqueue \<Rightarrow> (u8_t list option \<times> cqueue) res" where
  "cq_deq q = rbind (cq_get True q) (\<lambda>(ok, out, q'). Inr (out, q'))"

definition cq_fits :: "cqueue \<Rightarrow> u8_t list \<Rightarrow> bool" where
  "cq_fits q bs \<longleftrightarrow> length bs = cq_size q"

lemma cq_wf_len: "cq_wf q \<Longrightarrow> length (cq_items q) \<le> cq_cap q"
proof (erule cq_wf_cases)
  fix s n h t assume r: "cq_rep q s n h t"
  then show ?thesis
    using rlen_lt [OF cq_repD(4,5) [OF r]] by (simp add: cq_rep_items cq_rep_cap)
qed (simp add: cq_items_def cq_cap_def)

lemma cq_rep_full_iff:
  "cq_rep q s n h t \<Longrightarrow> length (cq_items q) = cq_cap q \<longleftrightarrow> rsuc n t = h"
  using cq_repD(4,5) [of q s n h t] rlen_full [of h n t] by (simp add: cq_rep_items cq_rep_cap)

lemma cq_items_size: "cq_wf q \<Longrightarrow> bs \<in> set (cq_items q) \<Longrightarrow> length bs = cq_size q"
proof (erule cq_wf_cases)
  fix s n h t assume r: "cq_rep q s n h t" and "bs \<in> set (cq_items q)"
  then show ?thesis
    using set_ring [OF cq_repD(4,5) [OF r]] length_chunk [OF cq_repD(11) [OF r]]
    by (auto simp: cq_rep_items cq_rep_size)
qed (simp add: cq_items_def)

interpretation que: fifo cq_wf cq_items cq_cap cq_fits cq_enq cq_deq
proof
  fix q x assume q: "cq_wf q" "cq_fits q x" "length (cq_items q) < cq_cap q"
  then obtain s n h t where r: "cq_rep q s n h t"
    by (metis cq_wf_cases cq_cap_def less_nat_zero_code)
  have "rsuc n t \<noteq> h" using q(3) cq_rep_full_iff [OF r] by auto
  moreover have x: "length x = s" using q(2) r by (simp add: cq_fits_def cq_rep_size)
  ultimately obtain q' where q': "cq_put (Some x) q = Inr (True, q')" "cq_rep q' s n h (rsuc n t)"
    "cq_items q' = cq_items q @ [take s x]" by (metis cq_put_rep [OF r] order_refl)
  then show "\<exists>q'. cq_enq x q = Inr (True, q') \<and> cq_wf q' \<and> cq_items q' = cq_items q @ [x]
      \<and> cq_cap q' = cq_cap q \<and> cq_fits q' = cq_fits q"
    using x r by (auto simp: cq_enq_def cq_rep_cap cq_rep_size cq_fits_def fun_eq_iff intro: cq_rep_wf)
next
  fix q x assume "cq_wf q" "cq_fits q x" and full: "length (cq_items q) = cq_cap q"
  then show "cq_enq x q = Inr (False, q)"
    by (elim cq_wf_cases)
      (simp add: cq_enq_def cq_put_def, simp add: cq_enq_def cq_put_full cq_rep_full_iff)
next
  fix q assume "cq_wf q" "cq_items q = []"
  then show "cq_deq q = Inr (None, q)" by (simp add: cq_deq_def cq_get_empty)
next
  fix q x xs assume q: "cq_wf q" "cq_items q = x # xs"
  then obtain s n h t where r: "cq_rep q s n h t"
    by (auto elim!: cq_wf_cases simp: cq_items_def)
  with q(2) have "h \<noteq> t" by (auto simp: cq_rep_items)
  with r obtain q' where q': "cq_get True q = Inr (True, Some (hd (cq_items q)), q')"
    "cq_rep q' s n (rsuc n h) t" "cq_items q' = tl (cq_items q)"
    by (metis cq_get_rep [where item = True])
  then show "\<exists>q'. cq_deq q = Inr (Some x, q') \<and> cq_wf q' \<and> cq_items q' = xs
      \<and> cq_cap q' = cq_cap q \<and> cq_fits q' = cq_fits q"
    using q(2) r
    by (auto simp: cq_deq_def cq_rep_cap cq_rep_size cq_fits_def fun_eq_iff intro: cq_rep_wf)
next
  fix q assume "cq_wf q"
  then show "length (cq_items q) \<le> cq_cap q" by (rule cq_wf_len)
next
  fix q x assume "cq_wf q" "x \<in> set (cq_items q)"
  then show "cq_fits q x" by (simp add: cq_fits_def cq_items_size)
qed

end
