(* ===== verification/GclQueProps.thy ===== *)
theory GclQueProps
  imports GclQueIter
begin

section \<open>CircularQueue: what the class promises\<close>

text \<open>
  The loops of \<open>samples/ex-que.cpp\<close> over a queue, and the properties of the class: it refines
  a bounded first-in first-out list for every sequence of \<open>put\<close> and \<open>get\<close>, its counters
  count, both traversals list the items, and \<open>push\<close> and \<open>pop\<close> work at the other end as long
  as head and tail stay off the ends of the buffer. The last part shows the cases where
  the code leaves that contract.
\<close>

subsection \<open>The loops over a queue\<close>

text \<open>
  The turn bound is the number of item bytes, which is at least the number of items of a
  well-formed queue.
\<close>

definition que_walk :: "cqueue \<Rightarrow> u8_t list list res" where
  "que_walk q =
     rbind (each (length (dat q)) (\<lambda>p acc. cq_peek_next p q)
              (\<lambda>p acc. rbind (cq_deref q p) (\<lambda>x. Inr (None :: unit option, acc @ [x])))
              (cq_peek q) [])
       (\<lambda>(_, acc). Inr acc)"

definition que_walk_reverse :: "cqueue \<Rightarrow> u8_t list list res" where
  "que_walk_reverse q =
     rbind (each (length (dat q)) (\<lambda>p acc. cq_peek_prev p q)
              (\<lambda>p acc. rbind (cq_deref q p) (\<lambda>x. Inr (None :: unit option, acc @ [x])))
              (cq_last q) [])
       (\<lambda>(_, acc). Inr acc)"

definition que_iterate :: "cqueue \<Rightarrow> u8_t list list res" where
  "que_iterate q =
     rbind (each (length (dat q)) (\<lambda>p acc. iter_inc q p)
              (\<lambda>p acc. rbind (cq_deref q p) (\<lambda>x. Inr (None :: unit option, acc @ [x])))
              (iter_begin q) [])
       (\<lambda>(_, acc). Inr acc)"

definition que_iterate_reverse :: "cqueue \<Rightarrow> u8_t list list res" where
  "que_iterate_reverse q =
     rbind (each (length (dat q)) (\<lambda>p acc. iter_dec q p)
              (\<lambda>p acc. rbind (cq_deref q p) (\<lambda>x. Inr (None :: unit option, acc @ [x])))
              (iter_rbegin q) [])
       (\<lambda>(_, acc). Inr acc)"

lemma cq_fuel: "cq_wf q \<Longrightarrow> length (cq_nodes q) \<le> length (dat q)"
proof (erule cq_wf_cases)
  fix s n h t assume r: "cq_rep q s n h t"
  have "n \<le> n * s" using cq_repD(2) [OF r] by (cases s) auto
  moreover have "length (cq_nodes q) < n"
    using rlen_lt [OF cq_repD(4,5) [OF r]] r by (simp add: cq_rep_nodes)
  ultimately show ?thesis using cq_repD(11) [OF r] by linarith
qed (simp add: cq_nodes_def)

lemma que_walk_eq: "cq_wf q \<Longrightarrow> que_walk q = Inr (cq_items q)"
  using fwd.each_collect [OF _ cq_fuel cq_deref_nodes] by (simp add: que_walk_def)

lemma que_walk_reverse_eq:
  assumes "cq_wf q"
  shows "que_walk_reverse q = Inr (rev (cq_items q))"
proof -
  have "map (cq_deref q) (rev (cq_nodes q)) = map Inr (rev (cq_items q))"
    using cq_deref_nodes [OF assms] by (simp flip: rev_map)
  then show ?thesis
    using bwd.each_collect [OF assms, of "length (dat q)" "cq_deref q" "rev (cq_items q)"]
      cq_fuel [OF assms]
    by (simp add: que_walk_reverse_def)
qed

lemma que_iterate_eq: "cq_wf q \<Longrightarrow> \<not> cq_is_empty q \<Longrightarrow> que_iterate q = que_walk q"
  by (simp add: que_iterate_def que_walk_def iter_inc_def iter_begin_def cq_peek_def cq_head_def
      cq_is_empty_def)

lemma que_iterate_reverse_eq: "que_iterate_reverse q = que_walk_reverse q"
  by (simp add: que_iterate_reverse_def que_walk_reverse_def iter_dec_def iter_rbegin_def)

text \<open>A queue of three slots of four bytes, with the tail wrapped to the first slot.\<close>

definition sample_que :: cqueue where
  "sample_que = \<lparr>m_q = 4096,
     ctl = \<lparr>q_begin = 20, q_end = 32, q_head = 24, q_tail = 20, q_item_size = 4\<rparr>,
     dat = [9, 9, 9, 9, 1, 2, 3, 4, 5, 6, 7, 8]\<rparr>"

lemma sample_que_rep: "cq_rep sample_que 4 3 1 0"
  by (simp add: cq_rep_def sample_que_def)

lemmas sample_que_facts =
  cq_rep_wf [OF sample_que_rep] cq_rep_views [OF sample_que_rep]

lemma sample_que_items: "cq_items sample_que = [[1, 2, 3, 4], [5, 6, 7, 8]]"
  using cq_rep_items [OF sample_que_rep]
  by (simp add: ring_def chunk_def sample_que_def upt_rec)

lemma sample_que_got:
  "cq_rep (cq_set_head 28 sample_que) 4 3 2 0"
  by (simp add: cq_rep_def sample_que_def cq_set_head_def)

lemma sample_que_got_items: "cq_items (cq_set_head 28 sample_que) = [[5, 6, 7, 8]]"
  using cq_rep_items [OF sample_que_got]
  by (simp add: ring_def chunk_def sample_que_def upt_rec)

subsection \<open>Refinement of a bounded list\<close>

lemma cq_new_null: "m_q cq_new = 0"
  by (simp add: cq_new_def)

text \<open>
  C1: A queue initialised with a capacity and an item size whose block fits the address
  space behaves, under every sequence of \<open>put\<close> and \<open>get\<close> calls, like a bounded list: every
  call returns the value the list operation returns (\<open>put\<close> fails exactly when the queue
  holds \<open>capacity\<close> items, \<open>get\<close> hands out the oldest item or fails on the empty queue), no
  access leaves the block, and the final content is the final list.
\<close>

theorem queue_fifo_refines:
  assumes "capacity \<noteq> 0" "item_size \<noteq> 0"
    and "20 + (unat capacity + 1) * unat item_size < 2 ^ 32"
    and "a \<noteq> 0" "unat a + (20 + (unat capacity + 1) * unat item_size) < 2 ^ 64"
    and "\<forall>x \<in> set (enqs ops). length x = unat item_size"
  shows "\<exists>q q'. cq_init capacity item_size (a, junk) cq_new live = Inr (True, q, insert a live)
    \<and> run_qops cq_enq cq_deq ops q = Inr (fst (spec_qops (unat capacity) ops []), q')
    \<and> cq_wf q' \<and> cq_items q' = snd (spec_qops (unat capacity) ops [])"
proof -
  obtain q where q: "cq_init capacity item_size (a, junk) cq_new live = Inr (True, q, insert a live)"
    "cq_rep q (unat item_size) (unat capacity + 1) 0 0"
    by (rule cq_rep_init [OF cq_new_null assms(1-5)]) simp
  have "cq_items q = []" "cq_cap q = unat capacity"
    using q(2) by (simp_all add: cq_rep_items cq_rep_cap)
  moreover have "\<forall>x \<in> set (enqs ops). cq_fits q x"
    using assms(6) q(2) by (simp add: cq_fits_def cq_rep_size)
  ultimately show ?thesis
    using que.run_qops_spec [OF cq_rep_wf [OF q(2)], of ops] q(1) by auto
qed

theorem queue_fifo_refines_witness:
  "\<exists>q q'. cq_init 1 2 (4096, \<lambda>_. 0) cq_new {} = Inr (True, q, {4096})
    \<and> run_qops cq_enq cq_deq [Enq [1, 2], Enq [3, 4], Deq, Enq [5, 6], Deq, Deq] q
      = Inr ([Done True, Done False, Got (Some [1, 2]), Done True, Got (Some [5, 6]), Got None], q')
    \<and> cq_wf q' \<and> cq_items q' = []"
  using queue_fifo_refines [of 1 2 4096 "[Enq [1, 2], Enq [3, 4], Deq, Enq [5, 6], Deq, Deq]" "\<lambda>_. 0" "{}"]
  by simp

subsection \<open>The operations one by one\<close>

text \<open>
  \<open>put\<close> on a well-formed queue always returns, keeps it well formed with the same
  capacity and item size, succeeds exactly when there is room, then appends the first
  \<open>item_size\<close> bytes of the item, and leaves the queue untouched otherwise.
\<close>

theorem queue_put_spec:
  assumes "cq_wf q" "cq_size q \<le> length bs"
  shows "\<exists>q'. cq_put (Some bs) q = Inr (length (cq_items q) < cq_cap q, q')
    \<and> cq_wf q' \<and> cq_cap q' = cq_cap q \<and> cq_size q' = cq_size q
    \<and> (if length (cq_items q) < cq_cap q
        then cq_items q' = cq_items q @ [take (cq_size q) bs] else q' = q)"
proof (rule cq_wf_cases [OF assms(1)])
  assume "m_q q = 0"
  then show ?thesis using assms(1) by (simp add: cq_put_def cq_cap_def)
next
  fix s n h t assume r: "cq_rep q s n h t"
  show ?thesis
  proof (cases "rsuc n t = h")
    case True
    then show ?thesis
      using cq_put_full [OF r True] assms(1) cq_rep_full_iff [OF r] by simp
  next
    case False
    have "s \<le> length bs" using assms(2) r by (simp add: cq_rep_size)
    from cq_put_rep [OF r False this] obtain q' where
      "cq_put (Some bs) q = Inr (True, q')" "cq_rep q' s n h (rsuc n t)"
      "cq_items q' = cq_items q @ [take s bs]" .
    then show ?thesis
      using False cq_rep_full_iff [OF r] cq_wf_len [OF assms(1)] r
      by (auto simp: cq_rep_cap cq_rep_size intro: cq_rep_wf)
  qed
qed

theorem queue_put_spec_witness:
  "\<exists>q'. cq_put (Some [7, 7, 7, 7]) (cq_set_head 28 sample_que) = Inr (True, q') \<and> cq_wf q'
    \<and> cq_items q' = [[5, 6, 7, 8], [7, 7, 7, 7]]"
  using queue_put_spec [of "cq_set_head 28 sample_que" "[7, 7, 7, 7]"]
  by (auto simp: cq_rep_wf [OF sample_que_got] cq_rep_cap [OF sample_que_got]
      cq_rep_size [OF sample_que_got] sample_que_got_items)

text \<open>
  \<open>get\<close> on a well-formed queue always returns; on the empty queue it fails and changes
  nothing; otherwise it hands out the oldest item (when an output pointer is given),
  removes it and keeps the rest in order.
\<close>

theorem queue_get_spec:
  assumes "cq_wf q"
  shows "\<exists>q'. cq_get item q = Inr (cq_items q \<noteq> [],
      if item \<and> cq_items q \<noteq> [] then Some (hd (cq_items q)) else None, q')
    \<and> cq_wf q' \<and> cq_items q' = tl (cq_items q) \<and> cq_cap q' = cq_cap q \<and> cq_size q' = cq_size q"
proof (cases "cq_items q = []")
  case True
  then show ?thesis using cq_get_empty [OF assms True] assms by simp
next
  case False
  then obtain s n h t where r: "cq_rep q s n h t" "h \<noteq> t"
    using assms by (metis cq_items_def cq_rep_items cq_wf_cases list.map(1) ring_same)
  from cq_get_rep [OF r, of item] obtain q' where
    "cq_get item q = Inr (True, if item then Some (hd (cq_items q)) else None, q')"
    "cq_rep q' s n (rsuc n h) t" "cq_items q' = tl (cq_items q)" .
  then show ?thesis
    using False r by (auto simp: cq_rep_cap cq_rep_size intro: cq_rep_wf)
qed

theorem queue_get_spec_witness:
  "\<exists>q'. cq_get True sample_que = Inr (True, Some [1, 2, 3, 4], q') \<and> cq_wf q'
    \<and> cq_items q' = [[5, 6, 7, 8]]"
  using queue_get_spec [of sample_que True] by (auto simp: sample_que_facts(1) sample_que_items)

text \<open>
  The counters of a well-formed queue agree with its content: \<open>length\<close>, \<open>available\<close> and
  \<open>capacity\<close> return the number of items, of free places and their sum without wrapping,
  and \<open>is_empty\<close> and \<open>is_full\<close> answer accordingly.
\<close>

theorem queue_counters:
  assumes "cq_wf q"
  shows "\<exists>l a c. cq_length q = Inr l \<and> cq_available q = Inr a \<and> cq_capacity q = Inr c
    \<and> unat l = length (cq_items q) \<and> unat a = cq_cap q - length (cq_items q) \<and> unat c = cq_cap q
    \<and> unat l + unat a = unat c
    \<and> (cq_is_empty q \<longleftrightarrow> cq_items q = []) \<and> (cq_is_full q \<longleftrightarrow> length (cq_items q) = cq_cap q)"
proof (rule cq_wf_cases [OF assms])
  assume "m_q q = 0"
  then show ?thesis
    by (simp add: cq_length_def cq_available_def cq_capacity_def cq_items_def cq_cap_def
        cq_is_empty_def cq_is_full_def)
next
  fix s n h t assume r: "cq_rep q s n h t"
  obtain l where l: "cq_length q = Inr l" "unat l = rlen n h t" by (rule cq_rep_len_word [OF r])
  obtain a where a: "cq_available q = Inr a" "unat a = n - 1 - rlen n h t"
    by (rule cq_rep_available_word [OF r])
  obtain c where c: "cq_capacity q = Inr c" "unat c = n - 1" by (rule cq_rep_capacity_word [OF r])
  show ?thesis
    using l a c cq_rep_is_empty [OF r] cq_rep_is_full [OF r] cq_rep_full_iff [OF r]
      cq_wf_len [OF assms] cq_rep_cap [OF r] cq_rep_length [OF r] rlen_eq_0 [OF cq_repD(4,5) [OF r]]
    by (simp flip: length_0_conv)
qed

theorem queue_counters_witness:
  "\<exists>l a c. cq_length sample_que = Inr l \<and> cq_available sample_que = Inr a
    \<and> cq_capacity sample_que = Inr c \<and> unat l = 2 \<and> unat a = 0 \<and> unat c = 2
    \<and> \<not> cq_is_empty sample_que \<and> cq_is_full sample_que"
  using queue_counters [of sample_que] by (auto simp: sample_que_facts(1,6) sample_que_items)

text \<open>
  On a well-formed queue the loop from \<open>peek()\<close> with \<open>peek_next\<close> ends, stays inside the
  block and reads exactly the items in order; the loop from \<open>last()\<close> with \<open>peek_prev\<close> reads
  them in reverse order.
\<close>

theorem queue_traversals:
  assumes "cq_wf q"
  shows "que_walk q = Inr (cq_items q) \<and> que_walk_reverse q = Inr (rev (cq_items q))"
  using que_walk_eq [OF assms] que_walk_reverse_eq [OF assms] by simp

theorem queue_traversals_witness:
  "que_walk sample_que = Inr [[1, 2, 3, 4], [5, 6, 7, 8]]
    \<and> que_walk_reverse sample_que = Inr [[5, 6, 7, 8], [1, 2, 3, 4]]"
  using queue_traversals [of sample_que] by (simp add: sample_que_facts(1) sample_que_items)

text \<open>
  \<open>push\<close> on a queue with room prepends the item, provided the head is not the first
  slot or the item is no larger than the control block; \<open>get\<close> then returns it.
\<close>

theorem queue_push_spec:
  assumes "cq_wf q" "length (cq_items q) < cq_cap q" "cq_size q \<le> length bs"
    and "q_head (ctl q) \<noteq> q_begin (ctl q) \<or> cq_size q \<le> 20"
  shows "\<exists>q' q''. cq_push (Some bs) q = Inr (True, q') \<and> cq_wf q'
    \<and> cq_items q' = take (cq_size q) bs # cq_items q
    \<and> cq_get True q' = Inr (True, Some (take (cq_size q) bs), q'') \<and> cq_items q'' = cq_items q"
proof -
  obtain s n h t where r: "cq_rep q s n h t"
    using assms(1,2) by (metis cq_cap_def cq_wf_cases less_nat_zero_code)
  have nf: "rsuc n t \<noteq> h" using assms(2) cq_rep_full_iff [OF r] by auto
  have g: "h \<noteq> 0 \<or> s \<le> 20"
    using assms(4) cq_rep_offs_eq [OF r cq_repD(9) [OF r], of "q_begin (ctl q)" 0] cq_repD(7) [OF r]
    by (auto simp: cq_rep_size [OF r])
  have "s \<le> length bs" using assms(3) r by (simp add: cq_rep_size)
  from cq_push_rep [OF r nf g this] obtain q' where q': "cq_push (Some bs) q = Inr (True, q')"
    "cq_rep q' s n (rpred n h) t" "cq_items q' = take s bs # cq_items q" .
  moreover have "rpred n h \<noteq> t" using nf cq_repD(4) [OF r] by auto
  from cq_get_rep [OF q'(2) this, of True] obtain q'' where
    "cq_get True q' = Inr (True, Some (hd (cq_items q')), q'')" "cq_items q'' = tl (cq_items q')"
    by auto
  ultimately show ?thesis using cq_rep_size [OF r] by (auto intro: cq_rep_wf)
qed

theorem queue_push_spec_witness:
  "\<exists>q' q''. cq_push (Some [0, 0, 0, 1]) (cq_set_head 28 sample_que) = Inr (True, q') \<and> cq_wf q'
    \<and> cq_items q' = [[0, 0, 0, 1], [5, 6, 7, 8]]
    \<and> cq_get True q' = Inr (True, Some [0, 0, 0, 1], q'') \<and> cq_items q'' = [[5, 6, 7, 8]]"
  using queue_push_spec [of "cq_set_head 28 sample_que" "[0, 0, 0, 1]"]
  by (simp add: cq_rep_wf [OF sample_que_got] cq_rep_cap [OF sample_que_got]
      cq_rep_size [OF sample_que_got] sample_que_got_items)

text \<open>
  \<open>pop\<close> on a non-empty queue whose tail is not the first slot hands out and removes the
  newest item; in particular it undoes a \<open>put\<close> that did not wrap.
\<close>

theorem queue_pop_spec:
  assumes "cq_wf q" "cq_items q \<noteq> []" "q_tail (ctl q) \<noteq> q_begin (ctl q)"
  shows "\<exists>q'. cq_pop item q = Inr (True, if item then Some (last (cq_items q)) else None, q')
    \<and> cq_wf q' \<and> cq_items q' = butlast (cq_items q) \<and> cq_cap q' = cq_cap q"
proof -
  obtain s n h t where r: "cq_rep q s n h t" "h \<noteq> t"
    using assms(1,2) by (metis cq_items_def cq_rep_items cq_wf_cases list.map(1) ring_same)
  have "t \<noteq> 0"
    using assms(3) cq_rep_offs_eq [OF r(1) cq_repD(10) [OF r(1)], of "q_begin (ctl q)" 0]
      cq_repD(7) [OF r(1)] by simp
  from cq_pop_rep [OF r this, of item] obtain q' where
    "cq_pop item q = Inr (True, if item then Some (last (cq_items q)) else None, q')"
    "cq_rep q' s n h (t - 1)" "cq_items q' = butlast (cq_items q)" .
  then show ?thesis using r by (auto simp: cq_rep_cap intro: cq_rep_wf)
qed

definition sample_que2 :: cqueue where
  "sample_que2 = cq_set_head 20 (cq_set_tail 28 sample_que)"

lemma sample_que2_rep: "cq_rep sample_que2 4 3 0 2"
  by (simp add: cq_rep_def sample_que_def sample_que2_def cq_set_head_def cq_set_tail_def)

lemma sample_que2_items: "cq_items sample_que2 = [[9, 9, 9, 9], [1, 2, 3, 4]]"
  using cq_rep_items [OF sample_que2_rep]
  by (simp add: ring_def chunk_def sample_que_def sample_que2_def upt_rec)

theorem queue_pop_spec_witness:
  "\<exists>q'. cq_pop True sample_que2 = Inr (True, Some [1, 2, 3, 4], q') \<and> cq_wf q'
    \<and> cq_items q' = [[9, 9, 9, 9]]"
proof -
  have "q_tail (ctl sample_que2) \<noteq> q_begin (ctl sample_que2)"
    by (simp add: sample_que2_def sample_que_def)
  then show ?thesis
    using queue_pop_spec [of sample_que2 True] by (auto simp: cq_rep_wf [OF sample_que2_rep] sample_que2_items)
qed

subsection \<open>Where the code leaves the contract\<close>

text \<open>
  \<open>push\<close> tests the new head against the old head instead of the tail, so it does not
  notice a full queue: it reports success and the queue is empty afterwards, all items
  lost.
\<close>

theorem queue_push_full_loses_items:
  assumes "cq_wf q" "cq_items q \<noteq> []" "length (cq_items q) = cq_cap q" "cq_size q \<le> length bs"
    and "q_head (ctl q) \<noteq> q_begin (ctl q) \<or> cq_size q \<le> 20"
  shows "\<exists>q'. cq_push (Some bs) q = Inr (True, q') \<and> cq_wf q' \<and> cq_items q' = []"
proof -
  obtain s n h t where r: "cq_rep q s n h t"
    using assms(1,2) by (metis cq_items_def cq_wf_cases)
  have f: "rsuc n t = h" using assms(3) cq_rep_full_iff [OF r] by simp
  then have p: "rpred n h = t" using cq_repD(5) [OF r] by auto
  have g: "h \<noteq> 0 \<or> s \<le> 20"
    using assms(5) cq_rep_offs_eq [OF r cq_repD(9) [OF r], of "q_begin (ctl q)" 0] cq_repD(7) [OF r]
    by (auto simp: cq_rep_size [OF r])
  have "s \<le> length bs" using assms(4) r by (simp add: cq_rep_size)
  from cq_push_step [OF r g this] obtain q' where
    "cq_push (Some bs) q = Inr (True, q')" "cq_rep q' s n (rpred n h) t" .
  then show ?thesis using p by (auto simp: cq_rep_items intro: cq_rep_wf)
qed

theorem queue_push_full_loses_items_witness:
  "\<exists>q'. cq_push (Some [7, 7, 7, 7]) sample_que = Inr (True, q') \<and> cq_wf q' \<and> cq_items q' = []"
proof -
  have "q_head (ctl sample_que) \<noteq> q_begin (ctl sample_que)" by (simp add: sample_que_def)
  then show ?thesis
    using queue_push_full_loses_items [of sample_que "[7, 7, 7, 7]"]
    by (simp add: sample_que_facts(1,6,7) sample_que_items)
qed

text \<open>
  \<open>pop\<close> does not wrap the tail. On every well-formed non-empty queue whose tail is the
  first slot it accesses memory outside the items when an output is asked for, and moves
  the tail below the first slot otherwise, which no well-formed queue allows.
\<close>

theorem queue_pop_wrapped_tail:
  assumes "cq_wf q" "cq_items q \<noteq> []" "q_tail (ctl q) = q_begin (ctl q)"
  shows "cq_pop True q = Inl OutOfBounds
    \<and> (\<exists>q'. cq_pop False q = Inr (True, None, q') \<and> \<not> cq_wf q')"
proof -
  obtain s n h t where r: "cq_rep q s n h t" "h \<noteq> t"
    using assms(1,2) by (metis cq_items_def cq_rep_items cq_wf_cases list.map(1) ring_same)
  note D = cq_repD [OF r(1)]
  let ?p = "q_tail (ctl q) - q_item_size (ctl q)"
  have t: "unat (q_tail (ctl q)) = 20" using assms(3) D(7) by simp
  have ne: "q_head (ctl q) \<noteq> q_tail (ctl q)" using cq_rep_offs_eq [OF r(1) D(9,10)] r(2) by simp
  have out: "\<not> (20 \<le> unat ?p \<and> unat ?p + s \<le> 20 + n * s)"
  proof (cases "s \<le> 20")
    case True
    then have "unat ?p = 20 - s" using t D(6) by (subst unat_sub_nowrap) simp_all
    then show ?thesis using D(2) True by simp
  next
    case False
    have "unat (?p + q_item_size (ctl q)) = (unat ?p + s) mod 4294967296"
      using D(6) by (simp only: unat_word_ariths) simp
    then have "(unat ?p + s) mod 4294967296 = 20" using t by simp
    then have "\<not> unat ?p + s < 4294967296" using False by auto
    then show ?thesis using cq_rep_bound [OF r(1)] by simp
  qed
  then have "cq_pop True q = Inl OutOfBounds"
    using D(1,6,11) ne by (auto simp: cq_pop_def cq_copy_out_def cq_load_def)
  moreover have "\<not> cq_wf (cq_set_tail ?p q)"
  proof
    assume "cq_wf (cq_set_tail ?p q)"
    then obtain s' n' h' t' where w: "cq_rep (cq_set_tail ?p q) s' n' h' t'"
      using D(1) by (metis cq_wf_cases dat_set(3))
    note W = cq_repD [OF w]
    have "s' = s" "n' = n" using W(2,6,8) D(6,8) by auto
    then show False using W(5,10) out block_end [OF W(5), of s] by simp
  qed
  ultimately show ?thesis using D(1) ne by (simp add: cq_pop_def)
qed

theorem queue_pop_wrapped_tail_witness:
  "cq_pop True sample_que = Inl OutOfBounds
    \<and> (\<exists>q'. cq_pop False sample_que = Inr (True, None, q') \<and> \<not> cq_wf q')"
proof -
  have "q_tail (ctl sample_que) = q_begin (ctl sample_que)" by (simp add: sample_que_def)
  then show ?thesis
    using queue_pop_wrapped_tail [of sample_que] by (simp add: sample_que_facts(1) sample_que_items)
qed

end
