(* ===== verification/GclQueTyped.thy ===== *)
theory GclQueTyped
  imports GclQueProps
begin

section \<open>The typed queue: \<open>Queue<T>\<close> of \<open>include/gque.h\<close>\<close>

text \<open>
  The methods of the template forward to the untyped queue, the variants with references pass the
  address of the element. The elements of a queue of \<open>int\<close> are the four bytes of its values. A
  queue is then seen as a ring of \<open>n\<close> slots that holds \<open>xs\<close> from slot \<open>h\<close> on; \<open>put\<close>, \<open>get\<close>, \<open>pop\<close>
  and the counters are stated on that view.
\<close>

subsection \<open>Forwarding methods\<close>

definition queue_put :: "u8_t list option \<Rightarrow> cqueue \<Rightarrow> (bool \<times> cqueue) res" where
  "queue_put item q = cq_put item q"

definition queue_get :: "bool \<Rightarrow> cqueue \<Rightarrow> (bool \<times> u8_t list option \<times> cqueue) res" where
  "queue_get item q = cq_get item q"

definition queue_push :: "u8_t list option \<Rightarrow> cqueue \<Rightarrow> (bool \<times> cqueue) res" where
  "queue_push item q = cq_push item q"

definition queue_pop :: "bool \<Rightarrow> cqueue \<Rightarrow> (bool \<times> u8_t list option \<times> cqueue) res" where
  "queue_pop item q = cq_pop item q"

text \<open>The reference interface. An element that is not written keeps its value \<open>old\<close>.\<close>

definition queue_put_ref :: "u8_t list \<Rightarrow> cqueue \<Rightarrow> (bool \<times> cqueue) res" where
  "queue_put_ref item q = queue_put (Some item) q"

definition queue_get_ref :: "'v \<Rightarrow> (u8_t list \<Rightarrow> 'v) \<Rightarrow> cqueue \<Rightarrow> (bool \<times> 'v \<times> cqueue) res" where
  "queue_get_ref old dec q =
     rbind (queue_get True q) (\<lambda>(ok, out, q). Inr (ok, case out of Some bs \<Rightarrow> dec bs | None \<Rightarrow> old, q))"

definition queue_push_ref :: "u8_t list \<Rightarrow> cqueue \<Rightarrow> (bool \<times> cqueue) res" where
  "queue_push_ref item q = queue_push (Some item) q"

definition queue_pop_ref :: "'v \<Rightarrow> (u8_t list \<Rightarrow> 'v) \<Rightarrow> cqueue \<Rightarrow> (bool \<times> 'v \<times> cqueue) res" where
  "queue_pop_ref old dec q =
     rbind (queue_pop True q) (\<lambda>(ok, out, q). Inr (ok, case out of Some bs \<Rightarrow> dec bs | None \<Rightarrow> old, q))"

text \<open>The typed pointers: the same addresses, and iterators are equal when they point at the same slot.\<close>

definition queue_first :: "cqueue \<Rightarrow> ptr" where
  "queue_first q = cq_first q"

definition queue_last :: "cqueue \<Rightarrow> ptr" where
  "queue_last q = cq_last q"

definition queue_peek :: "cqueue \<Rightarrow> ptr" where
  "queue_peek q = cq_peek q"

definition queue_peek_next :: "ptr \<Rightarrow> cqueue \<Rightarrow> ptr" where
  "queue_peek_next p q = cq_peek_next p q"

definition queue_peek_prev :: "ptr \<Rightarrow> cqueue \<Rightarrow> ptr" where
  "queue_peek_prev p q = cq_peek_prev p q"

definition queue_head :: "cqueue \<Rightarrow> ptr" where
  "queue_head q = cq_head q"

definition queue_tail :: "cqueue \<Rightarrow> ptr" where
  "queue_tail q = cq_tail q"

definition queue_begin :: "cqueue \<Rightarrow> ptr" where
  "queue_begin q = cq_begin q"

definition queue_end :: "cqueue \<Rightarrow> ptr" where
  "queue_end q = cq_end q"

definition iter_eq :: "ptr \<Rightarrow> ptr \<Rightarrow> bool" where
  "iter_eq it rval \<longleftrightarrow> it = rval"

definition iter_ne :: "ptr \<Rightarrow> ptr \<Rightarrow> bool" where
  "iter_ne it rval \<longleftrightarrow> it \<noteq> rval"

text \<open>A value of type \<open>int\<close> in memory.\<close>

definition int_bytes :: "int \<Rightarrow> u8_t list" where
  "int_bytes k = le_bytes 4 (of_int k)"

definition bytes_int :: "u8_t list \<Rightarrow> int" where
  "bytes_int bs = sint (ucast (le_val (take 4 bs)) :: 32 word)"

lemma length_int_bytes [simp]: "length (int_bytes k) = 4"
  by (simp add: int_bytes_def)

lemma bytes_int_bytes [simp]:
  assumes "- (2 ^ 31) \<le> k" "k < 2 ^ 31"
  shows "bytes_int (int_bytes k) = k"
proof -
  have "unat (le_val (le_bytes 4 (of_int k))) = unat (of_int k :: u64_t) mod 2 ^ 32"
    by (simp add: unat_le_val)
  then have "ucast (le_val (le_bytes 4 (of_int k))) = (ucast (of_int k :: u64_t) :: 32 word)"
    by (simp add: word_eq_unat unsigned_ucast_eq take_bit_eq_mod)
  also have "\<dots> = of_int k" by (rule bit_word_eqI) (simp add: bit_simps)
  finally show ?thesis using assms by (simp add: bytes_int_def int_bytes_def signed_of_int signed_take_bit_int_eq_self)
qed


subsection \<open>A ring that holds \<open>xs\<close> from slot \<open>h\<close> on\<close>

definition ring_view :: "ptr \<Rightarrow> nat \<Rightarrow> nat \<Rightarrow> nat \<Rightarrow> u8_t list list \<Rightarrow> cqueue \<Rightarrow> bool" where
  "ring_view a s n h xs q \<longleftrightarrow> m_q q = a \<and> cq_rep q s n h ((h + length xs) mod n) \<and> cq_items q = xs"

lemma rsuc_mod: "t < n \<Longrightarrow> rsuc n (t mod n) = Suc t mod n"
  by (auto simp: rsuc_def)

lemma rsuc_mod_mod: "0 < n \<Longrightarrow> rsuc n (t mod n) = Suc t mod n"
  using rsuc_mod [of "t mod n" n] by (simp add: mod_Suc_eq)

lemma ring_viewD:
  assumes "ring_view a s n h xs q"
  shows "cq_rep q s n h ((h + length xs) mod n)" "cq_items q = xs" "length xs < n" "h < n" "0 < n" "cq_wf q" "m_q q = a"
proof -
  show r: "cq_rep q s n h ((h + length xs) mod n)" "cq_items q = xs" using assms by (simp_all add: ring_view_def)
  show "length xs < n" using cq_rep_length [OF r(1)] rlen_lt [OF cq_repD(4,5) [OF r(1)]] r(2) by simp
  show h: "h < n" by (rule cq_repD(4) [OF r(1)])
  then show "0 < n" by simp
  show "cq_wf q" by (rule cq_rep_wf [OF r(1)])
  show "m_q q = a" using assms by (simp add: ring_view_def)
qed

lemma ring_mod_neq: "k < n \<Longrightarrow> h < n \<Longrightarrow> (h + k) mod n = h \<longleftrightarrow> k = (0 :: nat)"
  by (cases "h + k < n") (auto simp: mod_if)

lemma ring_view_init:
  assumes "capacity \<noteq> 0" "sizeof_T \<noteq> 0" "20 + (unat capacity + 1) * unat sizeof_T < 2 ^ 32"
    and "a \<noteq> 0" "unat a + (20 + (unat capacity + 1) * unat sizeof_T) < 2 ^ 64"
  obtains q where "queue_init sizeof_T capacity (a, junk) cq_new live = Inr (True, q, insert a live)"
    "ring_view a (unat sizeof_T) (Suc (unat capacity)) 0 [] q"
proof -
  obtain q where q: "cq_init capacity sizeof_T (a, junk) cq_new live = Inr (True, q, insert a live)"
    "cq_rep q (unat sizeof_T) (unat capacity + 1) 0 0" "m_q q = a"
    by (rule cq_rep_init [OF cq_new_null assms])
  then show thesis using cq_rep_items [OF q(2)] by (intro that [of q]) (simp_all add: queue_init_def ring_view_def)
qed

lemma ring_view_put:
  assumes "ring_view a s n h xs q" "Suc (length xs) < n" "length x = s"
  obtains q' where "cq_put (Some x) q = Inr (True, q')" "ring_view a s n h (xs @ [x]) q'"
proof -
  note V = ring_viewD [OF assms(1)]
  have t: "rsuc n ((h + length xs) mod n) = (h + Suc (length xs)) mod n" using V(5) by (simp add: rsuc_mod_mod)
  have "rsuc n ((h + length xs) mod n) \<noteq> h" unfolding t using ring_mod_neq [OF assms(2) V(4)] by simp
  from cq_put_rep [OF V(1) this, of x] assms(3) obtain q' where
    "cq_put (Some x) q = Inr (True, q')" "cq_rep q' s n h (rsuc n ((h + length xs) mod n))"
    "cq_items q' = cq_items q @ [take s x]" "m_q q' = m_q q" by auto
  then show thesis using V(2,7) assms(3) unfolding t by (intro that [of q']) (simp_all add: ring_view_def)
qed

lemma ring_view_get:
  assumes "ring_view a s n h (x # xs) q"
  obtains q' where "cq_get item q = Inr (True, if item then Some x else None, q')"
    "ring_view a s n (Suc h mod n) xs q'"
proof -
  note V = ring_viewD [OF assms]
  have "h \<noteq> (h + length (x # xs)) mod n" using ring_mod_neq [OF V(3,4)] by auto
  from cq_get_rep [OF V(1) this, of item] obtain q' where
    "cq_get item q = Inr (True, if item then Some (hd (cq_items q)) else None, q')"
    "cq_rep q' s n (rsuc n h) ((h + length (x # xs)) mod n)" "cq_items q' = tl (cq_items q)" "m_q q' = m_q q" .
  moreover note V(2,7)
  moreover have "rsuc n h = Suc h mod n" using V(4) rsuc_mod [of h n] by simp
  moreover have "(Suc h mod n + length xs) mod n = (h + length (x # xs)) mod n" by (simp add: mod_add_left_eq)
  ultimately show thesis by (intro that [of q']) (simp_all add: ring_view_def)
qed

lemma ring_view_pop:
  assumes "ring_view a s n h (xs @ [x]) q" "(h + Suc (length xs)) mod n \<noteq> 0"
  obtains q' where "cq_pop item q = Inr (True, if item then Some x else None, q')"
    "ring_view a s n h xs q'"
proof -
  note V = ring_viewD [OF assms(1)]
  let ?t = "(h + length (xs @ [x])) mod n"
  have "h \<noteq> ?t" "?t \<noteq> 0" using ring_mod_neq [OF V(3,4)] assms(2) by auto
  from cq_pop_rep [OF V(1) this, of item] obtain q' where
    q': "cq_pop item q = Inr (True, if item then Some (last (cq_items q)) else None, q')" "cq_rep q' s n h (?t - 1)"
    "cq_items q' = butlast (cq_items q)" "m_q q' = m_q q" .
  have "?t - 1 = (h + length xs) mod n" using assms(2) by (simp add: mod_Suc split: if_splits)
  then show thesis using q' V(2,7) by (intro that [of q']) (simp_all add: ring_view_def)
qed

lemma unat_of_nat_word: "unat w = k \<Longrightarrow> w = of_nat k"
  by auto

lemma ring_view_counts:
  assumes "ring_view a s n h xs q"
  shows "cq_length q = Inr (of_nat (length xs))" "cq_available q = Inr (of_nat (n - 1 - length xs))"
    "cq_capacity q = Inr (of_nat (n - 1))" "cq_is_full q \<longleftrightarrow> Suc (length xs) = n" "cq_is_empty q \<longleftrightarrow> xs = []"
proof -
  note V = ring_viewD [OF assms]
  have len: "rlen n h ((h + length xs) mod n) = length xs" using cq_rep_length [OF V(1)] V(2) by simp
  obtain l where l: "cq_length q = Inr l" "unat l = rlen n h ((h + length xs) mod n)" by (rule cq_rep_len_word [OF V(1)])
  obtain a where a: "cq_available q = Inr a" "unat a = n - 1 - rlen n h ((h + length xs) mod n)"
    by (rule cq_rep_available_word [OF V(1)])
  obtain c where c: "cq_capacity q = Inr c" "unat c = n - 1" by (rule cq_rep_capacity_word [OF V(1)])
  show "cq_length q = Inr (of_nat (length xs))" "cq_available q = Inr (of_nat (n - 1 - length xs))"
    "cq_capacity q = Inr (of_nat (n - 1))"
    using l a c unfolding len by (metis unat_of_nat_word)+
  show "cq_is_full q \<longleftrightarrow> Suc (length xs) = n"
    using cq_rep_is_full [OF V(1)] cq_rep_full_iff [OF V(1)] cq_rep_cap [OF V(1)] V(2,5) by auto
  show "cq_is_empty q \<longleftrightarrow> xs = []"
    using cq_rep_is_empty [OF V(1)] ring_mod_neq [OF V(3,4)] by auto
qed

lemma ring_view_walk:
  assumes "ring_view a s n h xs q"
  shows "que_walk q = Inr xs" "que_walk_reverse q = Inr (rev xs)"
  using que_walk_eq que_walk_reverse_eq ring_viewD(2,6) [OF assms] by simp_all

end
