(* ===== verification/GclQueSample.thy ===== *)
theory GclQueSample
  imports GclQueTyped
begin

section \<open>The programs of \<open>samples/ex-que.cpp\<close>\<close>

text \<open>
  \<open>que_test\<close>, \<open>step_test\<close> and \<open>running_test\<close>, with what they print as a list of lines. Each
  function makes its queue on the block \<open>new\<close> returns and deletes it at the end. A local
  variable that is printed before anything was written to it is the fault \<open>Uninit\<close>.
\<close>

subsection \<open>The functions\<close>

text \<open>The numbers of a line are capacity, entries and rooms.\<close>

datatype que_line =
    QStatus "u32_t \<times> u32_t \<times> u32_t"
  | QAdded int "u32_t \<times> u32_t \<times> u32_t"
  | QPoped int "u32_t \<times> u32_t \<times> u32_t"
  | QTotal u32_t
  | QEntry nat int
  | QRemoved int u32_t

definition que_status :: "cqueue \<Rightarrow> (u32_t \<times> u32_t \<times> u32_t) res" where
  "que_status q = rbind (cq_capacity q) (\<lambda>c. rbind (cq_length q) (\<lambda>l. rbind (cq_available q) (\<lambda>a. Inr (c, l, a))))"

fun que_fill :: "nat \<Rightarrow> int \<Rightarrow> cqueue \<Rightarrow> (que_line list \<times> int \<times> cqueue) res" where
  "que_fill 0 count q = Inl Diverges"
| "que_fill (Suc k) count q =
     (if cq_is_full q then Inr ([], count, q)
      else rbind (queue_put_ref (int_bytes count) q) (\<lambda>(_, q).
           rbind (que_status q) (\<lambda>st.
           rbind (que_fill k (count + 1) q) (\<lambda>(out, r). Inr (QAdded count st # out, r)))))"

fun que_pops :: "nat \<Rightarrow> cqueue \<Rightarrow> (que_line list \<times> cqueue) res" where
  "que_pops 0 q = Inr ([], q)"
| "que_pops (Suc k) q =
     rbind (queue_pop_ref None (\<lambda>bs. Some (bytes_int bs)) q) (\<lambda>(_, val, q).
       case val of None \<Rightarrow> Inl Uninit
       | Some val \<Rightarrow> rbind (que_status q) (\<lambda>st.
                     rbind (que_pops k q) (\<lambda>(out, q). Inr (QPoped val st # out, q))))"

fun que_adds :: "nat \<Rightarrow> int \<Rightarrow> cqueue \<Rightarrow> (que_line list \<times> int \<times> cqueue) res" where
  "que_adds 0 count q = Inr ([], count, q)"
| "que_adds (Suc k) count q =
     rbind (queue_put_ref (int_bytes count) q) (\<lambda>(_, q).
     rbind (que_status q) (\<lambda>st.
     rbind (que_adds k (count + 1) q) (\<lambda>(out, r). Inr (QAdded count st # out, r))))"

definition que_entries :: "u8_t list list \<Rightarrow> que_line list" where
  "que_entries bss = map (\<lambda>(i, bs). QEntry i (bytes_int bs)) (enumerate 0 bss)"

definition que_test :: "ptr \<times> (nat \<Rightarrow> u8_t) \<Rightarrow> ptr set \<Rightarrow> (que_line list \<times> ptr set) res" where
  "que_test blk live =
     rbind (queue_init 4 10 blk cq_new live) (\<lambda>(_, q, live).
     rbind (que_status q) (\<lambda>st.
     rbind (que_fill (Suc (length (dat q))) 0 q) (\<lambda>(filled, count, q).
     rbind (que_pops 5 q) (\<lambda>(poped, q).
     rbind (que_adds 5 count q) (\<lambda>(added, count, q).
     rbind (cq_length q) (\<lambda>total.
     rbind (que_walk q) (\<lambda>fwd.
     rbind (que_walk_reverse q) (\<lambda>bwd.
       Inr (QStatus st # filled @ poped @ added @ QTotal total # que_entries fwd @ QTotal total # que_entries bwd,
            snd (cq_destroy q live))))))))))"

fun que_puts :: "nat \<Rightarrow> int \<Rightarrow> cqueue \<Rightarrow> cqueue res" where
  "que_puts 0 i q = Inr q"
| "que_puts (Suc k) i q = rbind (queue_put_ref (int_bytes i) q) (\<lambda>(_, q). que_puts k (i + 1) q)"

fun que_gets :: "nat \<Rightarrow> cqueue \<Rightarrow> cqueue res" where
  "que_gets 0 q = Inr q"
| "que_gets (Suc k) q = rbind (queue_get False q) (\<lambda>(_, _, q). que_gets k q)"

text \<open>The loop that is meant to remove the entries at even positions.\<close>

fun step_loop :: "nat \<Rightarrow> cqueue \<Rightarrow> (que_line list \<times> cqueue) res" where
  "step_loop 0 q = Inr ([], q)"
| "step_loop (Suc k) q =
     rbind (queue_pop_ref None (\<lambda>bs. Some (bytes_int bs)) q) (\<lambda>(_, val, q).
       case val of None \<Rightarrow> Inl Uninit
       | Some val \<Rightarrow>
         if val mod 2 = 0
         then rbind (cq_length q) (\<lambda>l. rbind (step_loop k q) (\<lambda>(out, q). Inr (QRemoved val l # out, q)))
         else rbind (queue_put_ref (int_bytes val) q) (\<lambda>(_, q). step_loop k q))"

definition step_test :: "ptr \<times> (nat \<Rightarrow> u8_t) \<Rightarrow> ptr set \<Rightarrow> (que_line list \<times> ptr set) res" where
  "step_test blk live =
     rbind (queue_init 4 10 blk cq_new live) (\<lambda>(_, q, live).
     rbind (que_puts 10 0 q) (\<lambda>q.
     rbind (que_gets 5 q) (\<lambda>q.
     rbind (que_puts 5 10 q) (\<lambda>q.
     rbind (que_walk q) (\<lambda>fwd.
     rbind (que_status q) (\<lambda>(c, l, a).
     rbind (step_loop (unat l) q) (\<lambda>(removed, q).
     rbind (que_iterate q) (\<lambda>rest.
       Inr (que_entries fwd @ QStatus (c, l, a) # removed @ que_entries rest, snd (cq_destroy q live))))))))))"

text \<open>The values the calls return are not looked at by the code; they are kept for the statements.\<close>

fun run_puts :: "nat \<Rightarrow> u8_t list \<Rightarrow> cqueue \<Rightarrow> (bool list \<times> cqueue) res" where
  "run_puts 0 val q = Inr ([], q)"
| "run_puts (Suc k) val q =
     rbind (queue_put_ref val q) (\<lambda>(ok, q). rbind (run_puts k val q) (\<lambda>(oks, q). Inr (ok # oks, q)))"

fun run_gets :: "nat \<Rightarrow> u8_t list \<Rightarrow> cqueue \<Rightarrow> (bool list \<times> u8_t list \<times> cqueue) res" where
  "run_gets 0 val q = Inr ([], val, q)"
| "run_gets (Suc k) val q =
     rbind (queue_get_ref val (\<lambda>bs. bs) q) (\<lambda>(ok, val, q). rbind (run_gets k val q) (\<lambda>(oks, r). Inr (ok # oks, r)))"

fun running_loop :: "nat \<Rightarrow> u8_t list \<Rightarrow> cqueue \<Rightarrow> (bool list \<times> u8_t list \<times> cqueue) res" where
  "running_loop 0 val q = Inr ([], val, q)"
| "running_loop (Suc k) val q =
     rbind (run_puts 10 val q) (\<lambda>(puts, q).
     rbind (run_gets 10 val q) (\<lambda>(gets, val, q).
     rbind (running_loop k val q) (\<lambda>(oks, r). Inr (puts @ gets @ oks, r))))"

definition running_test :: "ptr \<times> (nat \<Rightarrow> u8_t) \<Rightarrow> u8_t list \<Rightarrow> ptr set \<Rightarrow> (bool list \<times> u8_t list \<times> ptr set) res" where
  "running_test blk val live =
     rbind (queue_init 20 30 blk cq_new live) (\<lambda>(_, q, live).
     rbind (running_loop 300 val q) (\<lambda>(oks, val, q). Inr (oks, val, snd (cq_destroy q live))))"

subsection \<open>The loops on the ring\<close>

lemmas queue_forwards =
  queue_put_ref_def queue_get_ref_def queue_pop_ref_def queue_put_def queue_get_def queue_pop_def

definition ring_stat :: "nat \<Rightarrow> nat \<Rightarrow> u32_t \<times> u32_t \<times> u32_t" where
  "ring_stat n l = (of_nat (n - 1), of_nat l, of_nat (n - 1 - l))"

lemma ring_view_status: "ring_view a s n h xs q \<Longrightarrow> que_status q = Inr (ring_stat n (length xs))"
  by (simp add: que_status_def ring_view_counts ring_stat_def)

text \<open>One \<open>put\<close> of a number and the line printed for it.\<close>

lemma ring_view_add:
  assumes "ring_view a 4 n h xs q" "Suc (length xs) < n"
  obtains q' where "queue_put_ref (int_bytes c) q = Inr (True, q')" "que_status q' = Inr (ring_stat n (Suc (length xs)))"
    "ring_view a 4 n h (xs @ [int_bytes c]) q'"
proof -
  obtain q' where q': "cq_put (Some (int_bytes c)) q = Inr (True, q')" "ring_view a 4 n h (xs @ [int_bytes c]) q'"
    by (rule ring_view_put [OF assms length_int_bytes [of c]])
  show thesis using q' ring_view_status [OF q'(2)] by (intro that [of q']) (simp_all add: queue_forwards)
qed

fun add_lines :: "nat \<Rightarrow> nat \<Rightarrow> nat \<Rightarrow> int \<Rightarrow> que_line list" where
  "add_lines n l 0 count = []"
| "add_lines n l (Suc k) count = QAdded count (ring_stat n (Suc l)) # add_lines n (Suc l) k (count + 1)"

fun counted :: "nat \<Rightarrow> int \<Rightarrow> int list" where
  "counted 0 i = []"
| "counted (Suc k) i = i # counted k (i + 1)"

lemma length_counted [simp]: "length (counted k i) = k"
  by (induction k arbitrary: i) simp_all

lemma que_fill_view:
  "ring_view a 4 n h xs q \<Longrightarrow> length xs + k = n - 1 \<Longrightarrow> k < fuel \<Longrightarrow>
   \<exists>q'. que_fill fuel count q = Inr (add_lines n (length xs) k count, count + int k, q')
     \<and> ring_view a 4 n h (xs @ map int_bytes (counted k count)) q'"
proof (induction k arbitrary: fuel count xs q)
  case 0
  then have "Suc (length xs) = n" using ring_viewD(3) [OF 0(1)] by simp
  with 0 show ?case by (cases fuel) (simp_all add: ring_view_counts)
next
  case (Suc k)
  then obtain f where f: "fuel = Suc f" by (cases fuel) auto
  have room: "Suc (length xs) < n" using Suc.prems(2) by simp
  obtain q1 where q1: "queue_put_ref (int_bytes count) q = Inr (True, q1)" "que_status q1 = Inr (ring_stat n (Suc (length xs)))"
    "ring_view a 4 n h (xs @ [int_bytes count]) q1"
    by (rule ring_view_add [OF Suc.prems(1) room])
  from Suc.IH [OF q1(3), of f "count + 1"] Suc.prems(2,3) f show ?case
    using q1(1,2) room ring_view_counts(4) [OF Suc.prems(1)] by (auto simp: algebra_simps)
qed

lemma que_adds_view:
  "ring_view a 4 n h xs q \<Longrightarrow> length xs = l \<Longrightarrow> l + k < n \<Longrightarrow>
   \<exists>q'. que_adds k count q = Inr (add_lines n l k count, count + int k, q')
     \<and> ring_view a 4 n h (xs @ map int_bytes (counted k count)) q'"
proof (induction k arbitrary: count xs l q)
  case (Suc k)
  have room: "Suc (length xs) < n" using Suc.prems(2,3) by simp
  obtain q1 where q1: "queue_put_ref (int_bytes count) q = Inr (True, q1)" "que_status q1 = Inr (ring_stat n (Suc (length xs)))"
    "ring_view a 4 n h (xs @ [int_bytes count]) q1"
    by (rule ring_view_add [OF Suc.prems(1) room])
  from Suc.IH [OF q1(3), of "Suc l" "count + 1"] Suc.prems(2,3) show ?case
    using q1(1,2) by (auto simp: algebra_simps)
qed simp

lemma que_puts_view:
  "ring_view a 4 n h xs q \<Longrightarrow> length xs + k < n \<Longrightarrow>
   \<exists>q'. que_puts k i q = Inr q' \<and> ring_view a 4 n h (xs @ map int_bytes (counted k i)) q'"
proof (induction k arbitrary: i xs q)
  case (Suc k)
  have room: "Suc (length xs) < n" using Suc.prems(2) by simp
  obtain q1 where q1: "queue_put_ref (int_bytes i) q = Inr (True, q1)" "ring_view a 4 n h (xs @ [int_bytes i]) q1"
    by (rule ring_view_add [OF Suc.prems(1) room])
  from Suc.IH [OF q1(2), of "i + 1"] Suc.prems(2) show ?case using q1(1) by auto
qed simp

lemma que_gets_list:
  "ring_view a s n h (ys @ xs) q \<Longrightarrow>
   \<exists>q'. que_gets (length ys) q = Inr q' \<and> ring_view a s n ((h + length ys) mod n) xs q'"
proof (induction ys arbitrary: h q)
  case Nil
  then show ?case using ring_viewD(4) [OF Nil] by simp
next
  case (Cons y ys)
  obtain q1 where q1: "cq_get False q = Inr (True, None, q1)" "ring_view a s n (Suc h mod n) (ys @ xs) q1"
    using ring_view_get [of a s n h y "ys @ xs" q False] Cons.prems by auto
  from Cons.IH [OF q1(2)] q1(1) show ?case by (auto simp: queue_forwards mod_add_left_eq)
qed

lemma que_gets_view:
  assumes "ring_view a s n h (ys @ xs) q" "length ys = j"
  obtains q' where "que_gets j q = Inr q'" "ring_view a s n ((h + j) mod n) xs q'"
  using que_gets_list [OF assms(1)] assms(2) by blast

text \<open>Numbers that fit an \<open>int\<close>; popping a run of them from the tail.\<close>

abbreviation (input) in_int :: "int \<Rightarrow> bool" where
  "in_int k \<equiv> - (2 ^ 31) \<le> k \<and> k < 2 ^ 31"

lemma ring_view_pop_int:
  assumes "ring_view a 4 n h (xs @ [int_bytes v]) q" "(h + Suc (length xs)) mod n \<noteq> 0" "in_int v"
  obtains q' where "queue_pop_ref None (\<lambda>bs. Some (bytes_int bs)) q = Inr (True, Some v, q')" "ring_view a 4 n h xs q'"
proof -
  obtain q' where "cq_pop True q = Inr (True, Some (int_bytes v), q')" "ring_view a 4 n h xs q'"
    using ring_view_pop [OF assms(1,2), of True] by auto
  then show thesis using assms(3) by (intro that [of q']) (simp_all add: queue_forwards)
qed

fun pop_lines :: "nat \<Rightarrow> nat \<Rightarrow> int list \<Rightarrow> que_line list" where
  "pop_lines n l [] = []"
| "pop_lines n l (v # vs) = QPoped v (ring_stat n (l + length vs)) # pop_lines n l vs"

lemma que_pops_list:
  "ring_view a 4 n h (xs @ rev (map int_bytes vs)) q \<Longrightarrow> \<forall>v \<in> set vs. in_int v \<Longrightarrow>
   \<forall>k. length xs < k \<and> k \<le> length xs + length vs \<longrightarrow> (h + k) mod n \<noteq> 0 \<Longrightarrow>
   \<exists>q'. que_pops (length vs) q = Inr (pop_lines n (length xs) vs, q') \<and> ring_view a 4 n h xs q'"
proof (induction vs arbitrary: q)
  case (Cons v vs)
  have "ring_view a 4 n h ((xs @ rev (map int_bytes vs)) @ [int_bytes v]) q" using Cons.prems(1) by simp
  moreover have "(h + Suc (length (xs @ rev (map int_bytes vs)))) mod n \<noteq> 0"
    using Cons.prems(3) [rule_format, of "Suc (length xs + length vs)"] by simp
  moreover have "in_int v" using Cons.prems(2) by simp
  ultimately obtain q1 where q1: "queue_pop_ref None (\<lambda>bs. Some (bytes_int bs)) q = Inr (True, Some v, q1)"
    "ring_view a 4 n h (xs @ rev (map int_bytes vs)) q1"
    by (rule ring_view_pop_int)
  from Cons.IH [OF q1(2)] Cons.prems(2,3) q1(1) ring_view_status [OF q1(2)] show ?case by auto
qed simp

lemma que_pops_view:
  assumes "ring_view a 4 n h (xs @ rev (map int_bytes vs)) q" "\<forall>v \<in> set vs. in_int v"
    and "\<forall>k. length xs < k \<and> k \<le> length xs + length vs \<longrightarrow> (h + k) mod n \<noteq> 0" "length vs = j"
  obtains q' where "que_pops j q = Inr (pop_lines n (length xs) vs, q')" "ring_view a 4 n h xs q'"
  using que_pops_list [OF assms(1-3)] assms(4) by blast

text \<open>A turn of the loop of \<open>step_test\<close> on an odd last entry changes nothing.\<close>

lemma step_loop_odd:
  "ring_view a 4 n h (xs @ [int_bytes v]) q \<Longrightarrow> (h + Suc (length xs)) mod n \<noteq> 0 \<Longrightarrow> in_int v \<Longrightarrow> v mod 2 \<noteq> 0 \<Longrightarrow>
   \<exists>q'. step_loop k q = Inr ([], q') \<and> ring_view a 4 n h (xs @ [int_bytes v]) q'"
proof (induction k arbitrary: q)
  case (Suc k)
  obtain q1 where q1: "queue_pop_ref None (\<lambda>bs. Some (bytes_int bs)) q = Inr (True, Some v, q1)" "ring_view a 4 n h xs q1"
    by (rule ring_view_pop_int [OF Suc.prems(1-3)])
  have "Suc (length xs) < n" using ring_viewD(3) [OF Suc.prems(1)] by simp
  then obtain q2 where q2: "queue_put_ref (int_bytes v) q1 = Inr (True, q2)" "ring_view a 4 n h (xs @ [int_bytes v]) q2"
    using ring_view_add [OF q1(2), of v] by blast
  from Suc.IH [OF q2(2) Suc.prems(2-4)] q1(1) q2(1) Suc.prems(4) show ?case by auto
qed simp

lemma step_loop_even:
  assumes "ring_view a 4 n h (xs @ [int_bytes v]) q" "(h + Suc (length xs)) mod n \<noteq> 0" "in_int v" "v mod 2 = 0"
  shows "\<exists>q'. step_loop (Suc k) q = rbind (step_loop k q') (\<lambda>(out, q). Inr (QRemoved v (of_nat (length xs)) # out, q))
    \<and> ring_view a 4 n h xs q'"
proof -
  obtain q1 where q1: "queue_pop_ref None (\<lambda>bs. Some (bytes_int bs)) q = Inr (True, Some v, q1)" "ring_view a 4 n h xs q1"
    by (rule ring_view_pop_int [OF assms(1-3)])
  show ?thesis using q1 ring_view_counts(1) [OF q1(2)] assms(4) by (intro exI [of _ q1]) simp
qed

text \<open>A block of puts and the gets that empty the ring again.\<close>

lemma run_puts_view:
  "ring_view a s n h xs q \<Longrightarrow> length val = s \<Longrightarrow> length xs + k < n \<Longrightarrow>
   \<exists>q'. run_puts k val q = Inr (replicate k True, q') \<and> ring_view a s n h (xs @ replicate k val) q'"
proof (induction k arbitrary: xs q)
  case (Suc k)
  obtain q1 where q1: "cq_put (Some val) q = Inr (True, q1)" "ring_view a s n h (xs @ [val]) q1"
    using ring_view_put [OF Suc.prems(1) _ Suc.prems(2)] Suc.prems(3) by auto
  from Suc.IH [OF q1(2)] Suc.prems(2,3) q1(1) show ?case by (auto simp: queue_forwards)
qed simp

lemma run_gets_view:
  "ring_view a s n h (replicate k val @ xs) q \<Longrightarrow>
   \<exists>q'. run_gets k val q = Inr (replicate k True, val, q') \<and> ring_view a s n ((h + k) mod n) xs q'"
proof (induction k arbitrary: h q)
  case 0
  then show ?case using ring_viewD(4) [OF 0] by simp
next
  case (Suc k)
  obtain q1 where q1: "cq_get True q = Inr (True, Some val, q1)" "ring_view a s n (Suc h mod n) (replicate k val @ xs) q1"
    using ring_view_get [of a s n h val "replicate k val @ xs" q True] Suc.prems by auto
  from Suc.IH [OF q1(2)] q1(1) show ?case by (auto simp: queue_forwards mod_add_left_eq)
qed

lemma running_loop_view:
  "ring_view a s n h [] q \<Longrightarrow> length val = s \<Longrightarrow> 10 < n \<Longrightarrow>
   \<exists>q' h'. running_loop k val q = Inr (replicate (20 * k) True, val, q') \<and> ring_view a s n h' [] q'"
proof (induction k arbitrary: h q)
  case (Suc k)
  obtain q1 where q1: "run_puts 10 val q = Inr (replicate 10 True, q1)" "ring_view a s n h (replicate 10 val @ []) q1"
    using run_puts_view [OF Suc.prems(1,2), of 10] Suc.prems(3) by auto
  obtain q2 where q2: "run_gets 10 val q1 = Inr (replicate 10 True, val, q2)" "ring_view a s n ((h + 10) mod n) [] q2"
    using run_gets_view [OF q1(2)] by blast
  have "replicate (20 * Suc k) True = replicate 10 True @ replicate 10 True @ replicate (20 * k) True"
    by (simp flip: replicate_add)
  with Suc.IH [OF q2(2) Suc.prems(2,3)] q1(1) q2(1) show ?case by auto
qed auto

end
