(* ===== verification/GclQueSampleProps.thy ===== *)
theory GclQueSampleProps
  imports GclQueSample
begin

section \<open>What the queue samples do\<close>

text \<open>
  The programs run to their end on every block that \<open>new\<close> may return, whatever the block held,
  print what is stated here, and give the block back.
\<close>

lemma que_entries_ints:
  "\<forall>v \<in> set vs. in_int v \<Longrightarrow> que_entries (map int_bytes vs) = map (\<lambda>(i, v). QEntry i v) (enumerate 0 vs)"
  by (auto simp: que_entries_def enumerate_eq_zip zip_map2 intro!: map_cong dest!: set_zip_rightD)

lemma counted_5_10: "counted 5 10 = [10, 11, 12, 13, 14]"
  by (simp add: eval_nat_numeral)

lemma int_queue_init:
  assumes "a \<noteq> 0" "unat a + 64 < 2 ^ 64"
  obtains q where "queue_init 4 10 (a, junk) cq_new live = Inr (True, q, insert a live)" "ring_view a 4 11 0 [] q"
  using ring_view_init [of 10 4 a junk live] assms by auto


lemma destroy_live: "ring_view a s n h xs q \<Longrightarrow> a \<noteq> 0 \<Longrightarrow> a \<notin> live \<Longrightarrow> snd (cq_destroy q (insert a live)) = live"
  by (simp add: cq_destroy_def ring_viewD(7))

text \<open>
  C29: \<open>que_test\<close> fills a queue of ten numbers, pops five and adds five: it prints 0 to 9 going in
  with the counters of every step, 9 down to 5 coming back from the tail, and the entries 0 to
  4, 10 to 14 in order and in reverse; the loops end and the block is given back.
\<close>

theorem que_test_prints:
  assumes "a \<noteq> 0" "unat a + 64 < 2 ^ 64" "a \<notin> live"
  shows "que_test (a, junk) live = Inr (
    QStatus (10, 0, 10) # map (\<lambda>i. QAdded (int i) (10, of_nat (i + 1), of_nat (9 - i))) [0..<10]
    @ map (\<lambda>i. QPoped (9 - int i) (10, of_nat (9 - i), of_nat (i + 1))) [0..<5]
    @ map (\<lambda>i. QAdded (10 + int i) (10, of_nat (6 + i), of_nat (4 - i))) [0..<5]
    @ QTotal 10 # map (\<lambda>(i, v). QEntry i v) (enumerate 0 [0, 1, 2, 3, 4, 10, 11, 12, 13, 14])
    @ QTotal 10 # map (\<lambda>(i, v). QEntry i v) (enumerate 0 [14, 13, 12, 11, 10, 4, 3, 2, 1, 0]), live)"
proof -
  obtain q0 where q0: "queue_init 4 10 (a, junk) cq_new live = Inr (True, q0, insert a live)" "ring_view a 4 11 0 [] q0"
    by (rule int_queue_init [OF assms(1,2)])
  have fuel: "10 < Suc (length (dat q0))" using cq_repD(11) [OF ring_viewD(1) [OF q0(2)]] by simp
  obtain q1 where q1: "que_fill (Suc (length (dat q0))) 0 q0 = Inr (add_lines 11 0 10 0, 10, q1)"
    "ring_view a 4 11 0 (map int_bytes (counted 10 0)) q1"
    using que_fill_view [OF q0(2), of 10 "Suc (length (dat q0))" 0] fuel by auto
  have split: "counted 10 0 = [0, 1, 2, 3, 4] @ rev [9, 8, 7, 6, 5]" by (simp add: eval_nat_numeral)
  have "ring_view a 4 11 0 (map int_bytes [0, 1, 2, 3, 4] @ rev (map int_bytes [9, 8, 7, 6, 5])) q1"
    using q1(2) unfolding split by simp
  then obtain q2 where q2: "que_pops 5 q1 = Inr (pop_lines 11 (length (map int_bytes [0, 1, 2, 3, 4])) [9, 8, 7, 6, 5], q2)"
    "ring_view a 4 11 0 (map int_bytes [0, 1, 2, 3, 4]) q2"
    by (rule que_pops_view [where j = 5]) simp_all
  from que_adds_view [OF q2(2), of 5 5 10] obtain q3 where q3: "que_adds 5 10 q2 = Inr (add_lines 11 5 5 10, 15, q3)"
    "ring_view a 4 11 0 (map int_bytes [0, 1, 2, 3, 4] @ map int_bytes (counted 5 10)) q3" by auto
  have all: "ring_view a 4 11 0 (map int_bytes [0, 1, 2, 3, 4, 10, 11, 12, 13, 14]) q3"
    using q3(2) by (simp add: eval_nat_numeral)
  have len: "cq_length q3 = Inr 10" using ring_view_counts(1) [OF all] by simp
  have walks: "que_walk q3 = Inr (map int_bytes [0, 1, 2, 3, 4, 10, 11, 12, 13, 14])"
    "que_walk_reverse q3 = Inr (map int_bytes [14, 13, 12, 11, 10, 4, 3, 2, 1, 0])"
    using ring_view_walk [OF all] by simp_all
  have adds: "add_lines 11 0 10 0 = map (\<lambda>i. QAdded (int i) (10, of_nat (i + 1), of_nat (9 - i))) [0..<10]"
    "pop_lines 11 (length (map int_bytes [0, 1, 2, 3, 4])) [9, 8, 7, 6, 5] = map (\<lambda>i. QPoped (9 - int i) (10, of_nat (9 - i), of_nat (i + 1))) [0..<5]"
    "add_lines 11 5 5 10 = map (\<lambda>i. QAdded (10 + int i) (10, of_nat (6 + i), of_nat (4 - i))) [0..<5]"
    by (simp_all add: eval_nat_numeral ring_stat_def)
  have ents: "que_entries (map int_bytes [0, 1, 2, 3, 4, 10, 11, 12, 13, 14])
      = map (\<lambda>(i, v). QEntry i v) (enumerate 0 [0, 1, 2, 3, 4, 10, 11, 12, 13, 14])"
    "que_entries (map int_bytes [14, 13, 12, 11, 10, 4, 3, 2, 1, 0])
      = map (\<lambda>(i, v). QEntry i v) (enumerate 0 [14, 13, 12, 11, 10, 4, 3, 2, 1, 0])"
    by (rule que_entries_ints, simp)+
  have st: "que_status q0 = Inr (10, 0, 10)" using ring_view_status [OF q0(2)] by (simp add: ring_stat_def)
  show ?thesis
    unfolding que_test_def q0(1) rbind_Inr prod.case st q1(1) q2(1) q3(1) len walks adds ents
    by (simp only: destroy_live [OF all assms(1,3)])
qed

lemma que_test_prints_witness:
  "\<exists>out. que_test (4096, \<lambda>_. 0) {} = Inr (QStatus (10, 0, 10) # QAdded 0 (10, 1, 9) # out, {})"
  using que_test_prints [of 4096 "{}" "\<lambda>_. 0"] by (auto simp: upt_rec)

text \<open>
  \<open>step_test\<close> says it removes the entries at even positions. Its loop takes the last entry
  and puts an odd one back at the same end, so from 5 to 14 it removes only 14 and then looks
  at 13 nine times: all other even entries stay.
\<close>

theorem step_test_removes_one:
  assumes "a \<noteq> 0" "unat a + 64 < 2 ^ 64" "a \<notin> live"
  shows "step_test (a, junk) live = Inr (
    map (\<lambda>(i, v). QEntry i v) (enumerate 0 [5, 6, 7, 8, 9, 10, 11, 12, 13, 14])
    @ QStatus (10, 10, 0) # QRemoved 14 9
    # map (\<lambda>(i, v). QEntry i v) (enumerate 0 [5, 6, 7, 8, 9, 10, 11, 12, 13]), live)"
proof -
  obtain q0 where q0: "queue_init 4 10 (a, junk) cq_new live = Inr (True, q0, insert a live)" "ring_view a 4 11 0 [] q0"
    by (rule int_queue_init [OF assms(1,2)])
  obtain q1 where q1: "que_puts 10 0 q0 = Inr q1" "ring_view a 4 11 0 (map int_bytes (counted 10 0)) q1"
    using que_puts_view [OF q0(2), of 10 0] by auto
  have "ring_view a 4 11 0 (map int_bytes [0, 1, 2, 3, 4] @ map int_bytes [5, 6, 7, 8, 9]) q1"
    using q1(2) by (simp add: eval_nat_numeral)
  then obtain q2 where q2: "que_gets 5 q1 = Inr q2" "ring_view a 4 11 ((0 + 5) mod 11) (map int_bytes [5, 6, 7, 8, 9]) q2"
    by (rule que_gets_view [where j = 5]) simp_all
  obtain q3 where q3: "que_puts 5 10 q2 = Inr q3"
    "ring_view a 4 11 ((0 + 5) mod 11) (map int_bytes [5, 6, 7, 8, 9] @ map int_bytes (counted 5 10)) q3"
    using que_puts_view [OF q2(2), of 5 10] by auto
  have full: "ring_view a 4 11 5 (map int_bytes [5, 6, 7, 8, 9, 10, 11, 12, 13, 14]) q3"
    using q3(2) by (simp add: counted_5_10)
  have st: "que_status q3 = Inr (10, 10, 0)" using ring_view_status [OF full] by (simp add: ring_stat_def)
  have "ring_view a 4 11 5 (map int_bytes [5, 6, 7, 8, 9, 10, 11, 12, 13] @ [int_bytes 14]) q3" using full by simp
  then have "\<exists>q4. step_loop (Suc 9) q3 = rbind (step_loop 9 q4) (\<lambda>(out, q).
      Inr (QRemoved 14 (of_nat (length (map int_bytes [5, 6, 7, 8, 9, 10, 11, 12, 13]))) # out, q))
    \<and> ring_view a 4 11 5 (map int_bytes [5, 6, 7, 8, 9, 10, 11, 12, 13]) q4"
    by (rule step_loop_even) simp_all
  then obtain q4 where q4: "step_loop (Suc 9) q3 = rbind (step_loop 9 q4) (\<lambda>(out, q).
      Inr (QRemoved 14 (of_nat (length (map int_bytes [5, 6, 7, 8, 9, 10, 11, 12, 13]))) # out, q))"
    "ring_view a 4 11 5 (map int_bytes [5, 6, 7, 8, 9, 10, 11, 12, 13]) q4"
    by blast
  have "ring_view a 4 11 5 (map int_bytes [5, 6, 7, 8, 9, 10, 11, 12] @ [int_bytes 13]) q4" using q4(2) by simp
  from step_loop_odd [OF this, of 9] obtain q5 where q5: "step_loop 9 q4 = Inr ([], q5)"
    "ring_view a 4 11 5 (map int_bytes [5, 6, 7, 8, 9, 10, 11, 12] @ [int_bytes 13]) q5" by auto
  have loop: "step_loop (unat (10 :: u32_t)) q3 = Inr ([QRemoved 14 9], q5)" using q4(1) q5(1) by simp
  have rest: "ring_view a 4 11 5 (map int_bytes [5, 6, 7, 8, 9, 10, 11, 12, 13]) q5" using q5(2) by simp
  have "\<not> cq_is_empty q5" using ring_view_counts(5) [OF rest] by simp
  then have it: "que_iterate q5 = Inr (map int_bytes [5, 6, 7, 8, 9, 10, 11, 12, 13])"
    using que_iterate_eq ring_viewD(6) [OF rest] ring_view_walk(1) [OF rest] by simp
  have ents: "que_entries (map int_bytes [5, 6, 7, 8, 9, 10, 11, 12, 13, 14])
      = map (\<lambda>(i, v). QEntry i v) (enumerate 0 [5, 6, 7, 8, 9, 10, 11, 12, 13, 14])"
    "que_entries (map int_bytes [5, 6, 7, 8, 9, 10, 11, 12, 13])
      = map (\<lambda>(i, v). QEntry i v) (enumerate 0 [5, 6, 7, 8, 9, 10, 11, 12, 13])"
    by (rule que_entries_ints, simp)+
  show ?thesis
    unfolding step_test_def q0(1) rbind_Inr prod.case q1(1) q2(1) q3(1) ring_view_walk(1) [OF full] st loop it ents
    by (simp only: destroy_live [OF rest assms(1,3)] append_Cons append_Nil)
qed

lemma step_test_removes_one_witness:
  "\<exists>out. step_test (4096, \<lambda>_. 0) {} = Inr (QEntry 0 5 # out, {}) \<and> QRemoved 14 9 \<in> set out \<and> QEntry 1 6 \<in> set out"
  using step_test_removes_one [of 4096 "{}" "\<lambda>_. 0"] by auto

text \<open>
  \<open>running_test\<close>: in 300 rounds ten puts and ten gets wrap around a ring of 31 slots again and
  again; every call succeeds, the element comes back unchanged and the block is given back.
\<close>

theorem running_test_all_succeed:
  assumes "a \<noteq> 0" "unat a + 640 < 2 ^ 64" "a \<notin> live" "length val = 20"
  shows "running_test (a, junk) val live = Inr (replicate 6000 True, val, live)"
proof -
  obtain q0 where q0: "queue_init 20 30 (a, junk) cq_new live = Inr (True, q0, insert a live)" "ring_view a 20 31 0 [] q0"
    using ring_view_init [of 30 20 a junk live] assms(1,2) by auto
  from running_loop_view [OF q0(2) assms(4), of 300] obtain q h where q:
    "running_loop 300 val q0 = Inr (replicate (20 * 300) True, val, q)" "ring_view a 20 31 h [] q" by auto
  show ?thesis unfolding running_test_def q0(1) rbind_Inr prod.case q(1) destroy_live [OF q(2) assms(1,3)] by simp
qed

lemma running_test_all_succeed_witness:
  "running_test (4096, \<lambda>_. 0) (replicate 20 7) {} = Inr (replicate 6000 True, replicate 20 7, {})"
  using running_test_all_succeed [of 4096 "{}" "replicate 20 7" "\<lambda>_. 0"] by simp

end
