(* ===== verification/GclTime.thy ===== *)
theory GclTime
  imports GclPrelude
begin

section \<open>Time: \<open>include/gtime.h\<close>, \<open>src/gtime.cpp\<close>, \<open>src/gtime_sleep.cpp\<close>\<close>

text \<open>
  Tick counts and nanoseconds are 64-bit words and milliseconds 32-bit words. Microseconds
  are an \<open>unsigned long\<close>, whose width depends on the platform (64 bits on Linux, 32 bits on
  Windows and on 32-bit targets), so the conversions are generic in the width \<open>'l\<close> of it.
\<close>

type_synonym tick_t = u64_t
type_synonym nsec_t = u64_t
type_synonym 'l usec_t = "'l word"
type_synonym msec_t = u32_t

subsection \<open>Conversions\<close>

definition ticks_to_nsec :: "tick_t \<Rightarrow> nsec_t" where
  "ticks_to_nsec t = t"

definition ticks_to_usec :: "tick_t \<Rightarrow> 'l::len usec_t" where
  "ticks_to_usec t = ucast (ticks_to_nsec t div 1000)"

definition ticks_to_msec :: "tick_t \<Rightarrow> msec_t" where
  "ticks_to_msec t = ucast (ticks_to_nsec t div 1000000)"

definition nsec_to_ticks :: "nsec_t \<Rightarrow> tick_t" where
  "nsec_to_ticks n = n"

definition nsec_to_usec :: "nsec_t \<Rightarrow> 'l::len usec_t" where
  "nsec_to_usec n = ucast (n div 1000)"

definition nsec_to_msec :: "nsec_t \<Rightarrow> msec_t" where
  "nsec_to_msec n = ucast (n div 1000000)"

definition usec_to_ticks :: "'l::len usec_t \<Rightarrow> tick_t" where
  "usec_to_ticks u = nsec_to_ticks (ucast u * 1000)"

definition usec_to_nsec :: "'l::len usec_t \<Rightarrow> nsec_t" where
  "usec_to_nsec u = ucast u * 1000"

definition usec_to_msec :: "'l::len usec_t \<Rightarrow> msec_t" where
  "usec_to_msec u = ucast (u div 1000)"

definition msec_to_ticks :: "msec_t \<Rightarrow> tick_t" where
  "msec_to_ticks m = nsec_to_ticks (ucast m * 1000000)"

text \<open>The product is an \<open>unsigned long\<close>, converted to 64 bits afterwards.\<close>

definition msec_to_nsec :: "'l::len itself \<Rightarrow> msec_t \<Rightarrow> nsec_t" where
  "msec_to_nsec _ m = ucast ((ucast m :: 'l usec_t) * 1000000)"

definition msec_to_usec :: "msec_t \<Rightarrow> 'l::len usec_t" where
  "msec_to_usec m = ucast m * 1000"

text \<open>The short names of the conversions.\<close>

definition t2m :: "tick_t \<Rightarrow> msec_t" where
  "t2m v = ticks_to_msec v"

definition t2n :: "tick_t \<Rightarrow> nsec_t" where
  "t2n v = ticks_to_nsec v"

definition t2u :: "tick_t \<Rightarrow> 'l::len usec_t" where
  "t2u v = ticks_to_usec v"

definition n2t :: "nsec_t \<Rightarrow> tick_t" where
  "n2t v = nsec_to_ticks v"

definition n2u :: "nsec_t \<Rightarrow> 'l::len usec_t" where
  "n2u v = nsec_to_usec v"

definition n2m :: "nsec_t \<Rightarrow> msec_t" where
  "n2m v = nsec_to_msec v"

definition u2t :: "'l::len usec_t \<Rightarrow> tick_t" where
  "u2t v = usec_to_ticks v"

definition u2n :: "'l::len usec_t \<Rightarrow> nsec_t" where
  "u2n v = usec_to_nsec v"

definition u2m :: "'l::len usec_t \<Rightarrow> msec_t" where
  "u2m v = usec_to_msec v"

definition m2t :: "msec_t \<Rightarrow> tick_t" where
  "m2t v = msec_to_ticks v"

definition m2n :: "'l::len itself \<Rightarrow> msec_t \<Rightarrow> nsec_t" where
  "m2n l v = msec_to_nsec l v"

definition m2u :: "msec_t \<Rightarrow> 'l::len usec_t" where
  "m2u v = msec_to_usec v"

lemmas short_names = t2m_def t2n_def t2u_def n2t_def n2u_def n2m_def u2t_def u2n_def u2m_def m2t_def m2n_def m2u_def

definition elapsed_ticks :: "tick_t \<Rightarrow> tick_t \<Rightarrow> tick_t" where
  "elapsed_ticks now tm = now - tm"

definition elapsed_nsec :: "tick_t \<Rightarrow> tick_t \<Rightarrow> nsec_t" where
  "elapsed_nsec now tm = ticks_to_nsec (elapsed_ticks now tm)"

definition elapsed_usec :: "tick_t \<Rightarrow> tick_t \<Rightarrow> 'l::len usec_t" where
  "elapsed_usec now tm = ticks_to_usec (elapsed_ticks now tm)"

definition elapsed_msec :: "tick_t \<Rightarrow> tick_t \<Rightarrow> msec_t" where
  "elapsed_msec now tm = ticks_to_msec (elapsed_ticks now tm)"

subsection \<open>Reading the clock\<close>

text \<open>
  POSIX: \<open>clock_gettime\<close> gives seconds and nanoseconds; the sum is signed \<open>w\<close>-bit arithmetic,
  the width of \<open>long\<close>.
\<close>

definition ticks_posix :: "nat \<Rightarrow> int \<Rightarrow> int \<Rightarrow> tick_t res" where
  "ticks_posix w tv_sec tv_nsec =
     rbind (signed_fit w (tv_sec * 1000000000)) (\<lambda>s.
     rbind (signed_fit w (s + tv_nsec)) (\<lambda>t. Inr (word_of_int t)))"

text \<open>
  Windows: the flag \<open>hpc\<close> and the cached frequency are the static variables; the three
  system calls are arguments: the frequency (\<open>None\<close> when there is no such counter), the
  value of the performance counter and the millisecond count.
\<close>

record wclock =
  hpc :: int
  pf :: u64_t

definition wclock0 :: wclock where
  "wclock0 = \<lparr>hpc = 0, pf = 0\<rparr>"

definition ticks2nsec :: "u64_t \<Rightarrow> tick_t \<Rightarrow> nsec_t res" where
  "ticks2nsec freq t = (if freq = 0 then Inl DivByZero else Inr ((t * 1000000000) div freq))"

definition ticks_win :: "u64_t option \<Rightarrow> u64_t \<Rightarrow> u32_t \<Rightarrow> wclock \<Rightarrow> (tick_t \<times> wclock) res" where
  "ticks_win freq counter tickcount c =
     (if hpc c > 0 then rbind (ticks2nsec (pf c) counter) (\<lambda>t. Inr (t, c))
      else let c' = (if hpc c = 0
                     then (case freq of None \<Rightarrow> c\<lparr>hpc := -1\<rparr> | Some f \<Rightarrow> c\<lparr>hpc := 1, pf := f\<rparr>)
                     else c)
           in if hpc c = 0 \<and> hpc c' > 0 then rbind (ticks2nsec (pf c') counter) (\<lambda>t. Inr (t, c'))
              else Inr (ucast tickcount * 1000000, c'))"

subsection \<open>Sleeping\<close>

text \<open>The time specification POSIX \<open>nanosleep\<close> builds; \<open>w\<close> is the width of \<open>long\<close>.\<close>

definition sleep_timespec :: "'l::len itself \<Rightarrow> u64_t \<Rightarrow> int \<times> int" where
  "sleep_timespec _ nsec =
     (sint (ucast (nsec div 1000000000) :: 'l word), sint (ucast (nsec mod 1000000000) :: 'l word))"

definition usleep_nsec :: "'l::len usec_t \<Rightarrow> u64_t" where
  "usleep_nsec usec = ucast usec * 1000"

definition msleep_nsec :: "msec_t \<Rightarrow> u64_t" where
  "msleep_nsec msec = ucast msec * 1000000"

definition sleep_nsec :: "'l::len itself \<Rightarrow> u32_t \<Rightarrow> u64_t" where
  "sleep_nsec _ sec = ucast ((ucast sec :: 'l usec_t) * 1000000000)"

text \<open>
  The Windows wait: \<open>clk k\<close> is what the \<open>k\<close>-th call of \<open>ticks\<close> returns, the first call fixes
  the expiry and the loop returns the number of calls made.
\<close>

fun sleep_loop :: "nat \<Rightarrow> (nat \<Rightarrow> tick_t) \<Rightarrow> tick_t \<Rightarrow> nat \<Rightarrow> nat res" where
  "sleep_loop 0 clk expire k = Inl Diverges"
| "sleep_loop (Suc fuel) clk expire k =
     (if clk k \<le> expire then sleep_loop fuel clk expire (k + 1) else Inr (k + 1))"

definition nanosleep_win :: "nat \<Rightarrow> (nat \<Rightarrow> tick_t) \<Rightarrow> u64_t \<Rightarrow> nat res" where
  "nanosleep_win fuel clk nsec =
     (let tm = clk 0; tm_expire = tm + nsec_to_ticks nsec in sleep_loop fuel clk tm_expire 1)"

text \<open>
  The sample \<open>conversion_test\<close> of \<open>samples/ex-time.cpp\<close>: the four printed lines, each the
  tick count, nanoseconds, microseconds and milliseconds of one clock reading.
\<close>

definition conversion_test ::
    "tick_t \<Rightarrow> (tick_t \<times> nsec_t \<times> 'l::len usec_t \<times> msec_t) list"
where
  "conversion_test tm =
     (let ns = t2n tm; us = t2u tm :: 'l usec_t; ms = t2m tm
      in [(tm, t2n tm, t2u tm, t2m tm),
          (n2t ns, ns, n2u ns, n2m ns),
          (usec_to_ticks us, u2n us, us, u2m us),
          (m2t ms, m2n TYPE('l) ms, m2u ms, ms)])"

end
