(* ===== verification/GclSync.thy ===== *)
theory GclSync
  imports GclPrelude
begin

section \<open>Locks, semaphores and conditions: \<open>include/gthread.h\<close>, \<open>include/gsemaphore.h\<close>\<close>

text \<open>
  The classes wrap the POSIX objects one call at a time. An object is its documented state:
  who holds a lock, the value of a semaphore. A call by thread \<open>self\<close> that has to wait is
  \<open>None\<close>: in a concurrent run it is not enabled, in a single thread it never returns. A call
  POSIX leaves undefined is a fault inside the result. Relocking a held write lock by its
  owner returns \<open>EDEADLK\<close>, as the C library of the tested Linux platform does.
\<close>

type_synonym tid = nat

abbreviation (input) EPERM :: int where "EPERM \<equiv> 1"
abbreviation (input) EAGAIN :: int where "EAGAIN \<equiv> 11"
abbreviation (input) EBUSY :: int where "EBUSY \<equiv> 16"
abbreviation (input) EINVAL :: int where "EINVAL \<equiv> 22"
abbreviation (input) EDEADLK :: int where "EDEADLK \<equiv> 35"
abbreviation (input) ETIMEDOUT :: int where "ETIMEDOUT \<equiv> 110"

subsection \<open>RWLock\<close>

record rwlock =
  rw_readers :: "tid list"
  rw_writer :: "tid option"

definition rw_new :: rwlock where
  "rw_new = \<lparr>rw_readers = [], rw_writer = None\<rparr>"

definition rw_rdlock :: "tid \<Rightarrow> rwlock \<Rightarrow> (int \<times> rwlock) option" where
  "rw_rdlock self l =
     (case rw_writer l of
        None \<Rightarrow> Some (0, l\<lparr>rw_readers := self # rw_readers l\<rparr>)
      | Some w \<Rightarrow> if w = self then Some (EDEADLK, l) else None)"

definition rw_tryrdlock :: "tid \<Rightarrow> rwlock \<Rightarrow> int \<times> rwlock" where
  "rw_tryrdlock self l =
     (case rw_writer l of
        None \<Rightarrow> (0, l\<lparr>rw_readers := self # rw_readers l\<rparr>)
      | Some w \<Rightarrow> (EBUSY, l))"

definition rw_wrlock :: "tid \<Rightarrow> rwlock \<Rightarrow> (int \<times> rwlock) option" where
  "rw_wrlock self l =
     (case rw_writer l of
        None \<Rightarrow> if rw_readers l = [] then Some (0, l\<lparr>rw_writer := Some self\<rparr>) else None
      | Some w \<Rightarrow> if w = self then Some (EDEADLK, l) else None)"

definition rw_trywrlock :: "tid \<Rightarrow> rwlock \<Rightarrow> int \<times> rwlock" where
  "rw_trywrlock self l =
     (if rw_writer l = None \<and> rw_readers l = [] then (0, l\<lparr>rw_writer := Some self\<rparr>) else (EBUSY, l))"

text \<open>Unlocking a lock the thread does not hold is undefined.\<close>

definition rw_unlock :: "tid \<Rightarrow> rwlock \<Rightarrow> (int \<times> rwlock) res" where
  "rw_unlock self l =
     (if rw_writer l = Some self then Inr (0, l\<lparr>rw_writer := None\<rparr>)
      else if self \<in> set (rw_readers l) then Inr (0, l\<lparr>rw_readers := remove1 self (rw_readers l)\<rparr>)
      else Inl Deadlock)"

text \<open>
  \<open>AutoLockRead\<close> and \<open>AutoLockWrite\<close>: the constructor ignores the return code, the destructor
  unlocks. In a run of one thread a call that would wait is the fault \<open>Deadlock\<close>.
\<close>

definition autolock_read :: "tid \<Rightarrow> rwlock \<Rightarrow> rwlock res" where
  "autolock_read self l = (case rw_rdlock self l of None \<Rightarrow> Inl Deadlock | Some (_, l') \<Rightarrow> Inr l')"

definition autolock_write :: "tid \<Rightarrow> rwlock \<Rightarrow> rwlock res" where
  "autolock_write self l = (case rw_wrlock self l of None \<Rightarrow> Inl Deadlock | Some (_, l') \<Rightarrow> Inr l')"

definition autolock_end :: "tid \<Rightarrow> rwlock \<Rightarrow> rwlock res" where
  "autolock_end self l = rbind (rw_unlock self l) (\<lambda>(_, l'). Inr l')"

definition rw_free :: "rwlock \<Rightarrow> bool" where
  "rw_free l \<longleftrightarrow> rw_writer l = None \<and> rw_readers l = []"

lemma autolock_write_free: "rw_free l \<Longrightarrow> autolock_write self l = Inr (l\<lparr>rw_writer := Some self\<rparr>)"
  by (simp add: autolock_write_def rw_wrlock_def rw_free_def)

lemma autolock_end_writer: "rw_writer l = Some self \<Longrightarrow> autolock_end self l = Inr (l\<lparr>rw_writer := None\<rparr>)"
  by (simp add: autolock_end_def rw_unlock_def)

subsection \<open>Mutex and AutoLock\<close>

text \<open>A default mutex: relocking by the owner waits for ever, unlocking by another is undefined.\<close>

type_synonym mutex = "tid option"

definition mtx_lock :: "tid \<Rightarrow> mutex \<Rightarrow> (bool \<times> mutex) option" where
  "mtx_lock self m = (case m of None \<Rightarrow> Some (True, Some self) | Some _ \<Rightarrow> None)"

definition mtx_trylock :: "tid \<Rightarrow> mutex \<Rightarrow> bool \<times> mutex" where
  "mtx_trylock self m = (case m of None \<Rightarrow> (True, Some self) | Some _ \<Rightarrow> (False, m))"

definition mtx_unlock :: "tid \<Rightarrow> mutex \<Rightarrow> (bool \<times> mutex) res" where
  "mtx_unlock self m = (if m = Some self then Inr (True, None) else Inl Deadlock)"

text \<open>\<open>AutoLock\<close>: the constructor locks, the destructor unlocks; relocking by the owner never returns.\<close>

definition autolock_mtx :: "tid \<Rightarrow> mutex \<Rightarrow> mutex option" where
  "autolock_mtx self m = map_option snd (mtx_lock self m)"

definition autolock_mtx_end :: "tid \<Rightarrow> mutex \<Rightarrow> mutex res" where
  "autolock_mtx_end self m = rbind (mtx_unlock self m) (\<lambda>(_, m'). Inr m')"

subsection \<open>Semaphore\<close>

text \<open>The value of the semaphore; \<open>SEM_VALUE_MAX\<close> is \<open>2 ^ 31 - 1\<close>.\<close>

definition sem_new :: "nat \<Rightarrow> nat" where
  "sem_new val = val"

definition sem_wait :: "nat \<Rightarrow> (int \<times> nat) option" where
  "sem_wait s = (if 0 < s then Some (0, s - 1) else None)"

definition sem_trywait :: "nat \<Rightarrow> int \<times> nat" where
  "sem_trywait s = (if 0 < s then (0, s - 1) else (-1, s))"

definition sem_post :: "nat \<Rightarrow> int \<times> nat" where
  "sem_post s = (if s < 2147483647 then (0, s + 1) else (-1, s))"

definition sem_get_value :: "nat \<Rightarrow> int \<times> nat" where
  "sem_get_value s = (0, s)"

subsection \<open>Condition\<close>

text \<open>
  \<open>timedwait\<close> with milliseconds builds a time specification and passes it on. POSIX takes it
  as an absolute time and returns \<open>ETIMEDOUT\<close> at once when it has passed (\<open>now\<close> in
  nanoseconds); otherwise the outcome is that of the wait, the argument \<open>wait\<close>.
\<close>

definition timedwait_ts :: "u64_t \<Rightarrow> int \<times> int" where
  "timedwait_ts timeout_msec = (uint (timeout_msec div 1000), uint ((timeout_msec mod 1000) * 1000000))"

definition cond_timedwait_abs :: "int \<Rightarrow> (int \<Rightarrow> int) \<Rightarrow> int \<times> int \<Rightarrow> int" where
  "cond_timedwait_abs now wait ts =
     (case ts of (s, n) \<Rightarrow> if s * 1000000000 + n \<le> now then ETIMEDOUT else wait (s * 1000000000 + n - now))"

definition cond_timedwait :: "int \<Rightarrow> (int \<Rightarrow> int) \<Rightarrow> u64_t \<Rightarrow> bool" where
  "cond_timedwait now wait timeout_msec \<longleftrightarrow> cond_timedwait_abs now wait (timedwait_ts timeout_msec) = 0"

end
