(* ===== verification/GclSocket.thy ===== *)
theory GclSocket
  imports GclTime GclSync "HOL-Library.Signed_Division"
begin

unbundle bit_operations_syntax

section \<open>Sockets: \<open>include/gsocket.h\<close>, \<open>src/gsocket.cpp\<close> (POSIX)\<close>

text \<open>
  The functions are thin layers over the socket calls, with two loops, \<open>gsock_read\<close> and
  \<open>gsock_write\<close>, and the class \<open>Socket\<close> that owns a descriptor. The system is a record of
  functions on a state \<open>'k\<close>; a call that fails answers \<open>Inl\<close> of the error number where the code
  looks at it. A \<open>socket_t\<close> is an unsigned 64-bit number; descriptors and lengths are converted
  to and from \<open>int\<close> as the code converts them. Buffers are byte lists, an access outside is a
  fault. The loops take a number of turns as fuel; running out is the fault \<open>Diverges\<close>.
\<close>

type_synonym socket_t = u64_t
type_synonym ipaddr_t = u64_t

abbreviation (input) INVALID_SOCKET :: socket_t where "INVALID_SOCKET \<equiv> -1"
abbreviation (input) EINPROGRESS :: int where "EINPROGRESS \<equiv> 115"
abbreviation (input) INADDR_NONE :: ipaddr_t where "INADDR_NONE \<equiv> 0xFFFFFFFF"
abbreviation (input) FD_SETSIZE :: nat where "FD_SETSIZE \<equiv> 1024"
abbreviation (input) SOCK_STREAM :: int where "SOCK_STREAM \<equiv> 1"

datatype sockopt = SO_RCVBUF | SO_SNDBUF | SO_ERROR | SO_REUSEADDR

record sockaddr_in =
  sin_port :: u16_t
  sin_addr :: u32_t

record 'k sock_os =
  so_socket :: "int \<Rightarrow> 'k \<Rightarrow> int \<times> 'k"
  so_close :: "int \<Rightarrow> 'k \<Rightarrow> int \<times> 'k"
  so_shutdown :: "int \<Rightarrow> int \<Rightarrow> 'k \<Rightarrow> int \<times> 'k"
  so_connect :: "int \<Rightarrow> sockaddr_in \<Rightarrow> 'k \<Rightarrow> (int + unit) \<times> 'k"
  so_bind :: "int \<Rightarrow> sockaddr_in \<Rightarrow> 'k \<Rightarrow> int \<times> 'k"
  so_listen :: "int \<Rightarrow> int \<Rightarrow> 'k \<Rightarrow> int \<times> 'k"
  so_accept :: "int \<Rightarrow> 'k \<Rightarrow> (int \<times> sockaddr_in) \<times> 'k"
  so_recv :: "int \<Rightarrow> nat \<Rightarrow> bool \<Rightarrow> 'k \<Rightarrow> (int + u8_t list) \<times> 'k"
  so_send :: "int \<Rightarrow> u8_t list \<Rightarrow> bool \<Rightarrow> 'k \<Rightarrow> (int + nat) \<times> 'k"
  so_nbio :: "int \<Rightarrow> u64_t \<Rightarrow> 'k \<Rightarrow> int \<times> 'k"
  so_nread :: "int \<Rightarrow> 'k \<Rightarrow> (int + int) \<times> 'k"
  so_getopt :: "int \<Rightarrow> sockopt \<Rightarrow> 'k \<Rightarrow> int option \<times> 'k"
  so_setopt :: "int \<Rightarrow> sockopt \<Rightarrow> int \<Rightarrow> 'k \<Rightarrow> int \<times> 'k"
  so_getname :: "bool \<Rightarrow> int \<Rightarrow> 'k \<Rightarrow> (int \<times> sockaddr_in) \<times> 'k"
  so_select :: "bool \<Rightarrow> int \<Rightarrow> int \<times> int \<Rightarrow> 'k \<Rightarrow> (int \<times> bool \<times> bool) \<times> 'k"
  so_ticks :: "'k \<Rightarrow> tick_t \<times> 'k"
  so_inet_addr :: "u8_t list \<Rightarrow> u32_t"
  so_host :: "u8_t list \<Rightarrow> u8_t list option"

text \<open>A descriptor stored in a \<open>socket_t\<close> and passed to a call; a length passed as \<open>size_t\<close>.\<close>

definition sock_of :: "int \<Rightarrow> socket_t" where
  "sock_of r = word_of_int r"

definition sock_fd :: "socket_t \<Rightarrow> int" where
  "sock_fd sock = sint (ucast sock :: u32_t)"

definition size_of :: "int \<Rightarrow> nat" where
  "size_of n = unat (word_of_int n :: u64_t)"

definition htons :: "u16_t \<Rightarrow> u16_t" where
  "htons x = (push_bit 8 x OR drop_bit 8 x)"

subsection \<open>Creation, connection, closing\<close>

definition gsock_create_socket :: "'k sock_os \<Rightarrow> int \<Rightarrow> u64_t \<Rightarrow> 'k \<Rightarrow> socket_t \<times> 'k" where
  "gsock_create_socket os ty nbio k =
     (case so_socket os ty k of (r, k) \<Rightarrow>
      let sock = sock_of r
      in if sock = INVALID_SOCKET then (INVALID_SOCKET, k)
         else if nbio \<noteq> 0
         then (case so_nbio os (sock_fd sock) nbio k of (r, k) \<Rightarrow>
                 if r \<noteq> 0 then (INVALID_SOCKET, k) else (sock, k))
         else (sock, k))"

definition gsock_close_socket :: "'k sock_os \<Rightarrow> socket_t \<Rightarrow> 'k \<Rightarrow> bool \<times> 'k" where
  "gsock_close_socket os sock k =
     (if sock = INVALID_SOCKET then (False, k)
      else (case so_close os (sock_fd sock) k of (r, k) \<Rightarrow> (r = 0, k)))"

definition gsock_shutdown :: "'k sock_os \<Rightarrow> socket_t \<Rightarrow> int \<Rightarrow> 'k \<Rightarrow> bool \<times> 'k" where
  "gsock_shutdown os sock how k =
     (if sock = INVALID_SOCKET then (False, k)
      else (case so_shutdown os (sock_fd sock) how k of (r, k) \<Rightarrow> (r = 0, k)))"

text \<open>The address both \<open>connect\<close> and \<open>listen\<close> fill in.\<close>

definition gsock_sockaddr :: "ipaddr_t \<Rightarrow> int \<Rightarrow> sockaddr_in" where
  "gsock_sockaddr ipAddr port = \<lparr>sin_port = htons (word_of_int port), sin_addr = ucast ipAddr\<rparr>"

definition gsock_connect :: "'k sock_os \<Rightarrow> socket_t \<Rightarrow> ipaddr_t \<Rightarrow> int \<Rightarrow> 'k \<Rightarrow> bool \<times> 'k" where
  "gsock_connect os sock ipAddr port k =
     (if sock = INVALID_SOCKET then (False, k)
      else (case so_connect os (sock_fd sock) (gsock_sockaddr ipAddr port) k of
              (Inr _, k) \<Rightarrow> (True, k) | (Inl e, k) \<Rightarrow> (e = EINPROGRESS, k)))"

text \<open>\<open>*(u_long * )host->h_addr\<close>: eight bytes of the memory the resolver points to.\<close>

definition load_u_long :: "u8_t list \<Rightarrow> u64_t res" where
  "load_u_long mem = (if length mem < 8 then Inl OutOfBounds else Inr (le_val (take 8 mem)))"

definition gsock_connect_by_name ::
    "'k sock_os \<Rightarrow> socket_t \<Rightarrow> u8_t list \<Rightarrow> int \<Rightarrow> 'k \<Rightarrow> (bool \<times> 'k) res"
where
  "gsock_connect_by_name os sock addr port k =
     (let ipAddr = ucast (so_inet_addr os addr)
      in if ipAddr \<noteq> INADDR_NONE then Inr (gsock_connect os sock ipAddr port k)
         else case so_host os addr of
                None \<Rightarrow> Inr (gsock_connect os sock 0 0 k)
              | Some mem \<Rightarrow> rbind (load_u_long mem) (\<lambda>ip. Inr (gsock_connect os sock ip port k)))"

definition gsock_hostaddr :: "'k sock_os \<Rightarrow> u8_t list \<Rightarrow> ipaddr_t res" where
  "gsock_hostaddr os hostname =
     (let ipAddr = ucast (so_inet_addr os hostname)
      in if ipAddr \<noteq> INADDR_NONE then Inr ipAddr
         else case so_host os hostname of None \<Rightarrow> Inr INADDR_NONE | Some mem \<Rightarrow> load_u_long mem)"

definition gsock_listen :: "'k sock_os \<Rightarrow> socket_t \<Rightarrow> ipaddr_t \<Rightarrow> int \<Rightarrow> int \<Rightarrow> 'k \<Rightarrow> bool \<times> 'k" where
  "gsock_listen os sock ipAddr port backlog k =
     (if sock = INVALID_SOCKET then (False, k)
      else case so_bind os (sock_fd sock) (gsock_sockaddr ipAddr port) k of (r, k) \<Rightarrow>
           if r \<noteq> 0 then (False, k)
           else case so_listen os (sock_fd sock) backlog k of (r, k) \<Rightarrow> (r = 0, k))"

definition gsock_accept :: "'k sock_os \<Rightarrow> socket_t \<Rightarrow> 'k \<Rightarrow> (socket_t \<times> sockaddr_in) \<times> 'k" where
  "gsock_accept os sock k = (case so_accept os (sock_fd sock) k of ((r, sa), k) \<Rightarrow> ((sock_of r, sa), k))"

definition gsock_accept2 :: "'k sock_os \<Rightarrow> socket_t \<Rightarrow> 'k \<Rightarrow> (socket_t \<times> sockaddr_in) \<times> 'k" where
  "gsock_accept2 os sock k = gsock_accept os sock k"

definition gsock_accept1 :: "'k sock_os \<Rightarrow> socket_t \<Rightarrow> 'k \<Rightarrow> socket_t \<times> 'k" where
  "gsock_accept1 os sock k = (case gsock_accept os sock k of ((s, sa), k) \<Rightarrow> (s, k))"

subsection \<open>Attributes\<close>

definition gsock_set_NBIO :: "'k sock_os \<Rightarrow> socket_t \<Rightarrow> int \<Rightarrow> 'k \<Rightarrow> bool \<times> 'k" where
  "gsock_set_NBIO os sock nbio k = (case so_nbio os (sock_fd sock) (word_of_int nbio) k of (r, k) \<Rightarrow> (r = 0, k))"

definition gsock_setopt :: "sockopt \<Rightarrow> 'k sock_os \<Rightarrow> socket_t \<Rightarrow> int \<Rightarrow> 'k \<Rightarrow> bool \<times> 'k" where
  "gsock_setopt opt os sock v k = (case so_setopt os (sock_fd sock) opt v k of (r, k) \<Rightarrow> (r = 0, k))"

definition gsock_set_receive_buffer_size where
  "gsock_set_receive_buffer_size os = gsock_setopt SO_RCVBUF os"

definition gsock_set_send_buffer_size where
  "gsock_set_send_buffer_size os = gsock_setopt SO_SNDBUF os"

definition gsock_setopt_reuse_addr where
  "gsock_setopt_reuse_addr os = gsock_setopt SO_REUSEADDR os"

definition gsock_get_receive_buffer_size :: "'k sock_os \<Rightarrow> socket_t \<Rightarrow> 'k \<Rightarrow> int \<times> 'k" where
  "gsock_get_receive_buffer_size os sock k =
     (case so_getopt os (sock_fd sock) SO_RCVBUF k of (Some n, k) \<Rightarrow> (n, k) | (None, k) \<Rightarrow> (0, k))"

definition gsock_get_send_buffer_size :: "'k sock_os \<Rightarrow> socket_t \<Rightarrow> 'k \<Rightarrow> int \<times> 'k" where
  "gsock_get_send_buffer_size os sock k =
     (case so_getopt os (sock_fd sock) SO_SNDBUF k of (Some n, k) \<Rightarrow> (n, k) | (None, k) \<Rightarrow> (0, k))"

definition gsock_get_readable_count :: "'k sock_os \<Rightarrow> socket_t \<Rightarrow> 'k \<Rightarrow> int \<times> 'k" where
  "gsock_get_readable_count os sock k =
     (case so_nread os (sock_fd sock) k of (Inl _, k) \<Rightarrow> (-1, k) | (Inr n, k) \<Rightarrow> (n, k))"

definition gsock_get_socket_name :: "'k sock_os \<Rightarrow> socket_t \<Rightarrow> 'k \<Rightarrow> (bool \<times> sockaddr_in) \<times> 'k" where
  "gsock_get_socket_name os sock k =
     (case so_getname os False (sock_fd sock) k of ((r, sa), k) \<Rightarrow> ((r = 0, sa), k))"

definition gsock_get_peer_name :: "'k sock_os \<Rightarrow> socket_t \<Rightarrow> 'k \<Rightarrow> (bool \<times> sockaddr_in) \<times> 'k" where
  "gsock_get_peer_name os sock k =
     (case so_getname os True (sock_fd sock) k of ((r, sa), k) \<Rightarrow> ((r = 0, sa), k))"

text \<open>The variable is not set when the call fails.\<close>

definition gsock_get_error :: "'k sock_os \<Rightarrow> socket_t \<Rightarrow> 'k \<Rightarrow> (int \<times> 'k) res" where
  "gsock_get_error os sock k =
     (case so_getopt os (sock_fd sock) SO_ERROR k of (Some e, k) \<Rightarrow> Inr (e, k) | (None, k) \<Rightarrow> Inl Uninit)"

subsection \<open>Readiness\<close>

definition gsock_timeval :: "u64_t \<Rightarrow> int \<times> int" where
  "gsock_timeval timeout = (sint timeout sdiv 1000, sint (timeout mod 1000) * 1000)"

text \<open>\<open>FD_SET\<close> of a number beyond the set writes outside of it.\<close>

definition gsock_check_readable :: "'k sock_os \<Rightarrow> socket_t \<Rightarrow> u64_t \<Rightarrow> 'k \<Rightarrow> (int \<times> 'k) res" where
  "gsock_check_readable os sock timeout k =
     (if FD_SETSIZE \<le> unat sock then Inl OutOfBounds
      else case so_select os False (sock_fd sock) (gsock_timeval timeout) k of ((r, rd, ex), k) \<Rightarrow>
           if r < 0 \<or> ex then Inr (-1, k)
           else rbind (gsock_get_error os sock k) (\<lambda>(err, k).
                  if err \<noteq> 0 then Inr (-1, k) else Inr (if rd then 1 else 0, k)))"

definition gsock_check_writable :: "'k sock_os \<Rightarrow> socket_t \<Rightarrow> u64_t \<Rightarrow> 'k \<Rightarrow> (int \<times> 'k) res" where
  "gsock_check_writable os sock timeout k =
     (if FD_SETSIZE \<le> unat sock then Inl OutOfBounds
      else case so_select os True (sock_fd sock) (gsock_timeval timeout) k of ((r, wr, ex), k) \<Rightarrow>
           if r < 0 \<or> ex then Inr (-1, k)
           else if wr
           then rbind (gsock_get_error os sock k) (\<lambda>(err, k). Inr (if err = 0 then 1 else 0, k))
           else Inr (0, k))"

definition gsock_is_readable :: "'k sock_os \<Rightarrow> socket_t \<Rightarrow> u64_t \<Rightarrow> 'k \<Rightarrow> (bool \<times> 'k) res" where
  "gsock_is_readable os sock timeout k = rbind (gsock_check_readable os sock timeout k) (\<lambda>(r, k). Inr (r > 0, k))"

definition gsock_is_writable :: "'k sock_os \<Rightarrow> socket_t \<Rightarrow> u64_t \<Rightarrow> 'k \<Rightarrow> (bool \<times> 'k) res" where
  "gsock_is_writable os sock timeout k = rbind (gsock_check_writable os sock timeout k) (\<lambda>(r, k). Inr (r > 0, k))"

end
