(* ===== verification/GclSocketIO.thy ===== *)
theory GclSocketIO
  imports GclSocket
begin

section \<open>Sockets: reading, writing, packets and the class\<close>

text \<open>
  The two loops with a deadline, the packets of the V protocol, the class \<open>Socket\<close> and the two
  loops of \<open>samples/ex-socket.cpp\<close>.
\<close>

subsection \<open>Single transfers\<close>

text \<open>\<open>recv\<close> into a buffer at an offset, \<open>send\<close> from a buffer at an offset.\<close>

definition recv_at ::
    "'k sock_os \<Rightarrow> socket_t \<Rightarrow> bool \<Rightarrow> u8_t list \<Rightarrow> nat \<Rightarrow> int \<Rightarrow> 'k \<Rightarrow> ((int + nat) \<times> u8_t list \<times> 'k) res"
where
  "recv_at os sock peek buf off len k =
     (case so_recv os (sock_fd sock) (size_of len) peek k of
        (Inl e, k) \<Rightarrow> Inr (Inl e, buf, k)
      | (Inr bs, k) \<Rightarrow> if off + length bs \<le> length buf
                      then Inr (Inr (length bs), overwrite off bs buf, k) else Inl OutOfBounds)"

definition send_at ::
    "'k sock_os \<Rightarrow> socket_t \<Rightarrow> bool \<Rightarrow> u8_t list \<Rightarrow> nat \<Rightarrow> int \<Rightarrow> 'k \<Rightarrow> ((int + nat) \<times> 'k) res"
where
  "send_at os sock dontwait buf off len k =
     (if off + size_of len \<le> length buf
      then Inr (so_send os (sock_fd sock) (take (size_of len) (drop off buf)) dontwait k)
      else Inl OutOfBounds)"

definition io_result :: "int + nat \<Rightarrow> int" where
  "io_result r = (case r of Inl _ \<Rightarrow> -1 | Inr n \<Rightarrow> int n)"

definition gsock_peek :: "'k sock_os \<Rightarrow> socket_t \<Rightarrow> u8_t list \<Rightarrow> int \<Rightarrow> 'k \<Rightarrow> (int \<times> u8_t list \<times> 'k) res" where
  "gsock_peek os sock buf len k = rbind (recv_at os sock True buf 0 len k) (\<lambda>(r, buf, k). Inr (io_result r, buf, k))"

definition gsock_recv :: "'k sock_os \<Rightarrow> socket_t \<Rightarrow> u8_t list \<Rightarrow> int \<Rightarrow> 'k \<Rightarrow> (int \<times> u8_t list \<times> 'k) res" where
  "gsock_recv os sock buf len k = rbind (recv_at os sock False buf 0 len k) (\<lambda>(r, buf, k). Inr (io_result r, buf, k))"

definition gsock_send :: "'k sock_os \<Rightarrow> socket_t \<Rightarrow> u8_t list \<Rightarrow> int \<Rightarrow> 'k \<Rightarrow> (int \<times> 'k) res" where
  "gsock_send os sock buf len k = rbind (send_at os sock False buf 0 len k) (\<lambda>(r, k). Inr (io_result r, k))"

subsection \<open>Transfers with a deadline\<close>

text \<open>The end of a turn of both loops: enough, out of time, not ready, or go on.\<close>

definition io_continue ::
    "'k sock_os \<Rightarrow> (u64_t \<Rightarrow> 'k \<Rightarrow> (bool \<times> 'k) res) \<Rightarrow> int \<Rightarrow> u64_t \<Rightarrow> tick_t \<Rightarrow> int \<Rightarrow> 'k \<Rightarrow> (bool \<times> 'k) res"
where
  "io_continue os ready n timeout tm1 count k =
     (if count \<ge> n then Inr (False, k)
      else case so_ticks os k of (now, k) \<Rightarrow>
           let tmElapsed = ucast (elapsed_msec now tm1)
           in if tmElapsed > timeout then Inr (False, k) else ready (timeout - tmElapsed) k)"

text \<open>
  The two functions have the same body around a different transfer and a different readiness
  check: \<open>xfer off len\<close> transfers at most \<open>len\<close> bytes at offset \<open>off\<close> of a buffer \<open>'b\<close>.
\<close>

type_synonym ('b, 'k) xfer = "nat \<Rightarrow> int \<Rightarrow> 'b \<times> 'k \<Rightarrow> ((int + nat) \<times> 'b \<times> 'k) res"

fun io_loop ::
    "'k sock_os \<Rightarrow> (u64_t \<Rightarrow> 'k \<Rightarrow> (bool \<times> 'k) res) \<Rightarrow> ('b, 'k) xfer \<Rightarrow> nat \<Rightarrow> int \<Rightarrow> u64_t \<Rightarrow> tick_t \<Rightarrow> int \<Rightarrow>
     'b \<times> 'k \<Rightarrow> (int \<times> 'b \<times> 'k) res"
where
  "io_loop os ready xfer 0 n timeout tm1 count z = Inl Diverges"
| "io_loop os ready xfer (Suc turns) n timeout tm1 count z =
     rbind (xfer (nat count) (n - count) z) (\<lambda>(r, b, k).
       case r of
         Inl e \<Rightarrow> if e \<noteq> EAGAIN then Inr (-1, b, k)
           else rbind (io_continue os ready n timeout tm1 count k) (\<lambda>(go, k).
                  if go then io_loop os ready xfer turns n timeout tm1 count (b, k) else Inr (count, b, k))
       | Inr c \<Rightarrow> rbind (io_continue os ready n timeout tm1 (count + int c) k) (\<lambda>(go, k).
                  if go then io_loop os ready xfer turns n timeout tm1 (count + int c) (b, k)
                  else Inr (count + int c, b, k)))"

definition io_timed ::
    "'k sock_os \<Rightarrow> (u64_t \<Rightarrow> 'k \<Rightarrow> (bool \<times> 'k) res) \<Rightarrow> ('b, 'k) xfer \<Rightarrow> nat \<Rightarrow> int \<Rightarrow> u64_t \<Rightarrow> 'b \<times> 'k \<Rightarrow>
     (int \<times> 'b \<times> 'k) res"
where
  "io_timed os ready xfer turns n timeout z =
     rbind (xfer 0 n z) (\<lambda>(r, b, k).
       let rest = (\<lambda>count. if count = n \<or> timeout = 0 then Inr (count, b, k)
                    else case so_ticks os k of (tm1, k) \<Rightarrow> io_loop os ready xfer turns n timeout tm1 count (b, k))
       in case r of Inl e \<Rightarrow> if e \<noteq> EAGAIN then Inr (-1, b, k) else rest 0 | Inr c \<Rightarrow> rest (int c))"

definition recv_xfer :: "'k sock_os \<Rightarrow> socket_t \<Rightarrow> (u8_t list, 'k) xfer" where
  "recv_xfer os sock off len z = (case z of (buf, k) \<Rightarrow> recv_at os sock False buf off len k)"

definition send_xfer :: "'k sock_os \<Rightarrow> socket_t \<Rightarrow> u8_t list \<Rightarrow> (unit, 'k) xfer" where
  "send_xfer os sock buf off len z = rbind (send_at os sock True buf off len (snd z)) (\<lambda>(r, k). Inr (r, (), k))"

definition gsock_read ::
    "'k sock_os \<Rightarrow> nat \<Rightarrow> socket_t \<Rightarrow> u8_t list \<Rightarrow> int \<Rightarrow> u64_t \<Rightarrow> 'k \<Rightarrow> (int \<times> u8_t list \<times> 'k) res"
where
  "gsock_read os turns sock buf n timeout k =
     io_timed os (gsock_is_readable os sock) (recv_xfer os sock) turns n timeout (buf, k)"

definition gsock_write ::
    "'k sock_os \<Rightarrow> nat \<Rightarrow> socket_t \<Rightarrow> u8_t list \<Rightarrow> int \<Rightarrow> u64_t \<Rightarrow> 'k \<Rightarrow> (int \<times> 'k) res"
where
  "gsock_write os turns sock buf n timeout k =
     rbind (io_timed os (gsock_is_writable os sock) (send_xfer os sock buf) turns n timeout ((), k))
       (\<lambda>(r, _, k). Inr (r, k))"

definition gsock_readn ::
    "'k sock_os \<Rightarrow> nat \<Rightarrow> socket_t \<Rightarrow> u8_t list \<Rightarrow> int \<Rightarrow> u64_t \<Rightarrow> 'k \<Rightarrow> (bool \<times> u8_t list \<times> 'k) res"
where
  "gsock_readn os turns sock buf n timeout k =
     rbind (gsock_read os turns sock buf n timeout k) (\<lambda>(r, buf, k). Inr (r = n, buf, k))"

definition gsock_writen ::
    "'k sock_os \<Rightarrow> nat \<Rightarrow> socket_t \<Rightarrow> u8_t list \<Rightarrow> int \<Rightarrow> u64_t \<Rightarrow> 'k \<Rightarrow> (bool \<times> 'k) res"
where
  "gsock_writen os turns sock buf n timeout k =
     rbind (gsock_write os turns sock buf n timeout k) (\<lambda>(r, k). Inr (r = n, k))"

subsection \<open>V protocol\<close>

record vpacket_t =
  vp_type :: u8_t
  vp_code :: u8_t
  vp_dlen :: u16_t

abbreviation (input) VPT_REPLY :: u8_t where "VPT_REPLY \<equiv> 2"
abbreviation (input) VNET_TIMEOUT :: u64_t where "VNET_TIMEOUT \<equiv> 5000"

text \<open>The packed structure in memory, which is also what is sent.\<close>

definition vp_bytes :: "vpacket_t \<Rightarrow> u8_t list" where
  "vp_bytes vp = [vp_type vp, vp_code vp, ucast (vp_dlen vp), ucast (vp_dlen vp div 256)]"

definition vp_of_bytes :: "u8_t list \<Rightarrow> vpacket_t" where
  "vp_of_bytes bs = \<lparr>vp_type = bs ! 0, vp_code = bs ! 1, vp_dlen = ucast (bs ! 2) + 256 * ucast (bs ! 3)\<rparr>"

definition gsock_readvp ::
    "'k sock_os \<Rightarrow> nat \<Rightarrow> socket_t \<Rightarrow> vpacket_t \<Rightarrow> u64_t \<Rightarrow> 'k \<Rightarrow> (bool \<times> vpacket_t \<times> 'k) res"
where
  "gsock_readvp os turns sock vp timeout k =
     rbind (gsock_readn os turns sock (vp_bytes vp) 4 timeout k) (\<lambda>(ok, bs, k). Inr (ok, vp_of_bytes bs, k))"

definition gsock_writevp ::
    "'k sock_os \<Rightarrow> nat \<Rightarrow> socket_t \<Rightarrow> vpacket_t \<Rightarrow> u64_t \<Rightarrow> 'k \<Rightarrow> (bool \<times> 'k) res"
where
  "gsock_writevp os turns sock vp timeout k = gsock_writen os turns sock (vp_bytes vp) 4 timeout k"

text \<open>\<open>len\<close> bytes from the packet on, the packet and the data the caller has put behind it.\<close>

definition gsock_writevpn ::
    "'k sock_os \<Rightarrow> nat \<Rightarrow> socket_t \<Rightarrow> vpacket_t \<Rightarrow> u8_t list \<Rightarrow> int \<Rightarrow> u64_t \<Rightarrow> 'k \<Rightarrow> (bool \<times> 'k) res"
where
  "gsock_writevpn os turns sock vp data len timeout k =
     gsock_writen os turns sock (vp_bytes vp @ data) len timeout k"

definition gsock_simple_reply ::
    "'k sock_os \<Rightarrow> nat \<Rightarrow> socket_t \<Rightarrow> u32_t \<Rightarrow> u64_t \<Rightarrow> 'k \<Rightarrow> (bool \<times> 'k) res"
where
  "gsock_simple_reply os turns sock code timeout k =
     gsock_writevp os turns sock \<lparr>vp_type = VPT_REPLY, vp_code = ucast code, vp_dlen = 0\<rparr> timeout k"

subsection \<open>The class Socket\<close>

record socket_obj =
  m_sock :: socket_t

definition sk_new :: socket_obj where
  "sk_new = \<lparr>m_sock = INVALID_SOCKET\<rparr>"

definition sk_of :: "socket_t \<Rightarrow> socket_obj" where
  "sk_of sock = \<lparr>m_sock = sock\<rparr>"

definition sk_is_valid :: "socket_obj \<Rightarrow> bool" where
  "sk_is_valid s \<longleftrightarrow> m_sock s \<noteq> INVALID_SOCKET"

definition sk_create_socket :: "'k sock_os \<Rightarrow> int \<Rightarrow> u64_t \<Rightarrow> socket_obj \<Rightarrow> 'k \<Rightarrow> bool \<times> socket_obj \<times> 'k" where
  "sk_create_socket os ty nbio s k =
     (case (if m_sock s \<noteq> INVALID_SOCKET then so_close os (sock_fd (m_sock s)) k else (0, k)) of (_, k) \<Rightarrow>
      case so_socket os ty k of (r, k) \<Rightarrow>
      let s = s\<lparr>m_sock := sock_of r\<rparr>
      in if m_sock s = INVALID_SOCKET then (False, s, k)
         else if nbio \<noteq> 0
         then (case so_nbio os (sock_fd (m_sock s)) nbio k of (r, k) \<Rightarrow> (r = 0, s, k))
         else (True, s, k))"

definition sk_create_stream :: "'k sock_os \<Rightarrow> u64_t \<Rightarrow> socket_obj \<Rightarrow> 'k \<Rightarrow> bool \<times> socket_obj \<times> 'k" where
  "sk_create_stream os nbio s k = sk_create_socket os SOCK_STREAM nbio s k"

definition sk_close_socket :: "'k sock_os \<Rightarrow> socket_obj \<Rightarrow> 'k \<Rightarrow> bool \<times> socket_obj \<times> 'k" where
  "sk_close_socket os s k =
     (if m_sock s = INVALID_SOCKET then (False, s, k)
      else case so_close os (sock_fd (m_sock s)) k of (r, k) \<Rightarrow>
           if r \<noteq> 0 then (False, s, k) else (True, s\<lparr>m_sock := INVALID_SOCKET\<rparr>, k))"

definition sk_attach :: "'k sock_os \<Rightarrow> socket_t \<Rightarrow> socket_obj \<Rightarrow> 'k \<Rightarrow> bool \<times> socket_obj \<times> 'k" where
  "sk_attach os sock s k =
     (if sock = INVALID_SOCKET then (False, s, k)
      else if m_sock s = sock then (True, s, k)
      else case (if m_sock s \<noteq> INVALID_SOCKET then so_close os (sock_fd (m_sock s)) k else (0, k)) of (_, k) \<Rightarrow>
           (True, s\<lparr>m_sock := sock\<rparr>, k))"

definition sk_detach :: "socket_obj \<Rightarrow> bool \<times> socket_obj" where
  "sk_detach s = (True, s\<lparr>m_sock := INVALID_SOCKET\<rparr>)"

definition sk_destroy :: "'k sock_os \<Rightarrow> socket_obj \<Rightarrow> 'k \<Rightarrow> 'k" where
  "sk_destroy os s k = (case sk_close_socket os s k of (_, _, k) \<Rightarrow> k)"

definition sk_shutdown where
  "sk_shutdown os how s k = gsock_shutdown os (m_sock s) how k"

definition sk_connect where
  "sk_connect os ipAddr port s k = gsock_connect os (m_sock s) ipAddr port k"

definition sk_connect_by_name where
  "sk_connect_by_name os addr port s k = gsock_connect_by_name os (m_sock s) addr port k"

definition sk_listen where
  "sk_listen os ipAddr port backlog s k = gsock_listen os (m_sock s) ipAddr port backlog k"

definition sk_accept_addr where
  "sk_accept_addr os s k = gsock_accept os (m_sock s) k"

definition sk_accept where
  "sk_accept os s k = gsock_accept2 os (m_sock s) k"

definition sk_accept1 where
  "sk_accept1 os s k = gsock_accept1 os (m_sock s) k"

definition sk_peek where
  "sk_peek os buf len s k = gsock_peek os (m_sock s) buf len k"

definition sk_recv where
  "sk_recv os buf len s k = gsock_recv os (m_sock s) buf len k"

definition sk_send where
  "sk_send os buf len s k = gsock_send os (m_sock s) buf len k"

definition sk_read where
  "sk_read os turns buf n timeout s k = gsock_read os turns (m_sock s) buf n timeout k"

definition sk_write where
  "sk_write os turns buf n timeout s k = gsock_write os turns (m_sock s) buf n timeout k"

definition sk_readn where
  "sk_readn os turns buf n timeout s k = gsock_readn os turns (m_sock s) buf n timeout k"

definition sk_writen where
  "sk_writen os turns buf n timeout s k = gsock_writen os turns (m_sock s) buf n timeout k"

definition sk_readvp where
  "sk_readvp os turns vp timeout s k = gsock_readvp os turns (m_sock s) vp timeout k"

definition sk_writevp where
  "sk_writevp os turns vp timeout s k = gsock_writevp os turns (m_sock s) vp timeout k"

definition sk_writevpn where
  "sk_writevpn os turns vp data len timeout s k = gsock_writevpn os turns (m_sock s) vp data len timeout k"

definition sk_simple_reply where
  "sk_simple_reply os turns code timeout s k = gsock_simple_reply os turns (m_sock s) code timeout k"

definition sk_set_NBIO where
  "sk_set_NBIO os nbio s k = gsock_set_NBIO os (m_sock s) (if nbio then 1 else 0) k"

definition sk_set_receive_buffer_size where
  "sk_set_receive_buffer_size os n s k = gsock_set_receive_buffer_size os (m_sock s) n k"

definition sk_set_send_buffer_size where
  "sk_set_send_buffer_size os n s k = gsock_set_send_buffer_size os (m_sock s) n k"

definition sk_get_socket_name where
  "sk_get_socket_name os s k = gsock_get_socket_name os (m_sock s) k"

definition sk_get_peer_name where
  "sk_get_peer_name os s k = gsock_get_peer_name os (m_sock s) k"

definition sk_get_receive_buffer_size where
  "sk_get_receive_buffer_size os s k = gsock_get_receive_buffer_size os (m_sock s) k"

definition sk_get_send_buffer_size where
  "sk_get_send_buffer_size os s k = gsock_get_send_buffer_size os (m_sock s) k"

definition sk_get_readable_count where
  "sk_get_readable_count os s k = gsock_get_readable_count os (m_sock s) k"

definition sk_get_error where
  "sk_get_error os s k = gsock_get_error os (m_sock s) k"

definition sk_check_readable where
  "sk_check_readable os timeout s k = gsock_check_readable os (m_sock s) timeout k"

definition sk_check_writable where
  "sk_check_writable os timeout s k = gsock_check_writable os (m_sock s) timeout k"

definition sk_setopt_reuse_addr where
  "sk_setopt_reuse_addr os reuse s k = gsock_setopt_reuse_addr os (m_sock s) (if reuse then 1 else 0) k"

definition sk_get_socket :: "socket_obj \<Rightarrow> socket_t" where
  "sk_get_socket s = m_sock s"

definition sk_is_readable where
  "sk_is_readable os timeout s k = gsock_is_readable os (m_sock s) timeout k"

definition sk_is_writable where
  "sk_is_writable os timeout s k = gsock_is_writable os (m_sock s) timeout k"

subsection \<open>The loops of the sample\<close>

text \<open>The message \<open>"%d Hello!\n"\<close>.\<close>

definition hello_msg :: "nat \<Rightarrow> u8_t list" where
  "hello_msg count = decimal count @ [32, 72, 101, 108, 108, 111, 33, 10]"

text \<open>
  The loop of the server thread, with the number of messages written, and the loop of the client,
  with the texts it has printed: \<open>%s\<close> ends at the first null byte. The number of the message is an
  \<open>int\<close> in the code; here it is a natural number, the same as long as less than 2 to the 31 messages
  are written. The thread function \<open>_serv_d\<close> also deletes its thread object before it returns, which
  belongs to the model of threads and not to that of the socket: \<open>serv_d\<close> leaves it out.
\<close>

fun serve_loop :: "'k sock_os \<Rightarrow> nat \<Rightarrow> nat \<Rightarrow> nat \<Rightarrow> socket_obj \<Rightarrow> 'k \<Rightarrow> (nat \<times> 'k) res" where
  "serve_loop os turns 0 count s k = Inl Diverges"
| "serve_loop os turns (Suc n) count s k =
     rbind (sk_is_writable os 1000 s k) (\<lambda>(ok, k).
       if \<not> ok then Inr (count, k)
       else let buf = hello_msg count; slen = int (length buf)
            in rbind (sk_write os turns buf slen 1000 s k) (\<lambda>(r, k).
                 if r \<noteq> slen then Inr (count + 1, k) else serve_loop os turns n (count + 1) s k))"

definition serv_d :: "'k sock_os \<Rightarrow> nat \<Rightarrow> nat \<Rightarrow> socket_t \<Rightarrow> 'k \<Rightarrow> (nat \<times> 'k) res" where
  "serv_d os turns n sock k =
     (let gs = sk_of sock
      in if \<not> sk_is_valid gs then Inr (0, sk_destroy os gs k)
         else case sk_set_NBIO os True gs k of (_, k) \<Rightarrow>
              rbind (serve_loop os turns n 0 gs k) (\<lambda>(count, k).
                case sk_close_socket os gs k of (_, gs, k) \<Rightarrow> Inr (count, sk_destroy os gs k)))"

fun client_loop ::
    "'k sock_os \<Rightarrow> nat \<Rightarrow> nat \<Rightarrow> u8_t list \<Rightarrow> socket_obj \<Rightarrow> u8_t list list \<Rightarrow> 'k \<Rightarrow> (u8_t list list \<times> 'k) res"
where
  "client_loop os turns 0 buf s out k = Inl Diverges"
| "client_loop os turns (Suc n) buf s out k =
     rbind (sk_is_readable os 1000 s k) (\<lambda>(ok, k).
       if \<not> ok then Inr (out, k)
       else rbind (sk_read os turns buf (int (length buf) - 1) 0 s k) (\<lambda>(rc, buf, k).
            if rc \<le> 0 then Inr (out, k)
            else rbind (store buf (nat rc) 0) (\<lambda>buf.
                 client_loop os turns n buf s (out @ [takeWhile (\<lambda>b. b \<noteq> 0) buf]) k)))"

definition localhost :: "u8_t list" where
  "localhost = [108, 111, 99, 97, 108, 104, 111, 115, 116]"

definition client_run :: "'k sock_os \<Rightarrow> nat \<Rightarrow> nat \<Rightarrow> u8_t list \<Rightarrow> 'k \<Rightarrow> (u8_t list list \<times> 'k) res" where
  "client_run os turns n buf k =
     (case sk_create_stream os 1 sk_new k of (_, gs, k) \<Rightarrow>
      rbind (sk_connect_by_name os localhost 5100 gs k) (\<lambda>(_, k).
      rbind (sk_is_writable os 1000 gs k) (\<lambda>(ok, k).
        if \<not> ok then Inr ([], sk_destroy os gs k)
        else rbind (client_loop os turns n buf gs [] k) (\<lambda>(out, k). Inr (out, sk_destroy os gs k)))))"

text \<open>
  The accept loop of the server. A new thread gets the address of the local variable with the
  accepted socket and reads it when it first runs: \<open>sched n\<close> of the waiting threads do so at the
  begin of a turn with \<open>n\<close> turns to go. The result says whether the loop has ended.
\<close>

record handover =
  ho_sock :: socket_t
  ho_waiting :: nat
  ho_served :: "socket_t list"
  ho_accepted :: "socket_t list"

definition ho_new :: handover where
  "ho_new = \<lparr>ho_sock = INVALID_SOCKET, ho_waiting = 0, ho_served = [], ho_accepted = []\<rparr>"

definition ho_accept :: "socket_t \<Rightarrow> handover \<Rightarrow> handover" where
  "ho_accept sock h = h\<lparr>ho_sock := sock, ho_waiting := ho_waiting h + 1, ho_accepted := ho_accepted h @ [sock]\<rparr>"

definition ho_read :: "nat \<Rightarrow> handover \<Rightarrow> handover" where
  "ho_read m h = h\<lparr>ho_waiting := ho_waiting h - m, ho_served := ho_served h @ replicate (min m (ho_waiting h)) (ho_sock h)\<rparr>"

fun server_loop ::
    "'k sock_os \<Rightarrow> (nat \<Rightarrow> nat) \<Rightarrow> nat \<Rightarrow> socket_obj \<Rightarrow> handover \<Rightarrow> 'k \<Rightarrow> (bool \<times> handover \<times> 'k) res"
where
  "server_loop os sched 0 s h k = Inr (False, h, k)"
| "server_loop os sched (Suc n) s h k =
     rbind (sk_check_readable os 10 s k) (\<lambda>(r, k).
       let h = ho_read (sched n) h
       in if r < 0 then Inr (True, h, k)
          else if r = 0 then server_loop os sched n s h k
          else case sk_accept os s k of ((sock, _), k) \<Rightarrow>
               if sock = INVALID_SOCKET then server_loop os sched n s h k
               else server_loop os sched n s (ho_accept sock h) k)"

definition server_run :: "'k sock_os \<Rightarrow> (nat \<Rightarrow> nat) \<Rightarrow> nat \<Rightarrow> 'k \<Rightarrow> (bool \<times> handover \<times> 'k) res" where
  "server_run os sched n k =
     (case sk_create_stream os 1 sk_new k of (ok, gs, k) \<Rightarrow>
      if \<not> ok then Inr (True, ho_new, sk_destroy os gs k)
      else case sk_listen os 0 5100 5 gs k of (ok, k) \<Rightarrow>
      if \<not> ok then Inr (True, ho_new, sk_destroy os gs k)
      else rbind (server_loop os sched n gs ho_new k) (\<lambda>(ended, h, k).
             Inr (ended, h, if ended then sk_destroy os gs k else k)))"

end
