(* ===== verification/GclSocketFacts.thy ===== *)
theory GclSocketFacts
  imports GclSocketIO
begin

section \<open>Sockets: facts\<close>

text \<open>
  The documented behaviour of a connected stream socket, as a predicate on the system: \<open>rx\<close> is
  the stream that is still to be received, \<open>tx\<close> what has been sent. Then one lemma on the
  shared loop for what it transfers and one for its return, from which reading and writing
  follow.
\<close>

definition sock_stream :: "'k sock_os \<Rightarrow> int \<Rightarrow> ('k \<Rightarrow> u8_t list) \<Rightarrow> ('k \<Rightarrow> u8_t list) \<Rightarrow> bool" where
  "sock_stream os fd rx tx \<longleftrightarrow>
     (\<forall>len k r k'. so_recv os fd len False k = (r, k') \<longrightarrow> tx k' = tx k \<and>
        (case r of Inl _ \<Rightarrow> rx k' = rx k | Inr bs \<Rightarrow> length bs \<le> len \<and> rx k = bs @ rx k')) \<and>
     (\<forall>data k r k'. so_send os fd data True k = (r, k') \<longrightarrow> rx k' = rx k \<and>
        (case r of Inl _ \<Rightarrow> tx k' = tx k | Inr n \<Rightarrow> n \<le> length data \<and> tx k' = tx k @ take n data)) \<and>
     (\<forall>k t k'. so_ticks os k = (t, k') \<longrightarrow> rx k' = rx k \<and> tx k' = tx k) \<and>
     (\<forall>wr tv k r k'. so_select os wr fd tv k = (r, k') \<longrightarrow> rx k' = rx k \<and> tx k' = tx k) \<and>
     (\<forall>k r k'. so_getopt os fd SO_ERROR k = (r, k') \<longrightarrow> r \<noteq> None \<and> rx k' = rx k \<and> tx k' = tx k)"

lemma sock_streamD:
  assumes "sock_stream os fd rx tx"
  shows "so_recv os fd len False k = (r, k') \<Longrightarrow> tx k' = tx k \<and>
        (case r of Inl _ \<Rightarrow> rx k' = rx k | Inr bs \<Rightarrow> length bs \<le> len \<and> rx k = bs @ rx k')"
    "so_send os fd data True k = (r', k') \<Longrightarrow> rx k' = rx k \<and>
        (case r' of Inl _ \<Rightarrow> tx k' = tx k | Inr n \<Rightarrow> n \<le> length data \<and> tx k' = tx k @ take n data)"
    "so_ticks os k = (t, k') \<Longrightarrow> rx k' = rx k \<and> tx k' = tx k"
    "so_select os wr fd tv k = (q, k') \<Longrightarrow> rx k' = rx k \<and> tx k' = tx k"
    "so_getopt os fd SO_ERROR k = (e, k') \<Longrightarrow> e \<noteq> None \<and> rx k' = rx k \<and> tx k' = tx k"
proof -
  note D = assms [unfolded sock_stream_def]
  show "so_recv os fd len False k = (r, k') \<Longrightarrow> tx k' = tx k \<and>
        (case r of Inl _ \<Rightarrow> rx k' = rx k | Inr bs \<Rightarrow> length bs \<le> len \<and> rx k = bs @ rx k')"
    using D [THEN conjunct1] by blast
  show "so_send os fd data True k = (r', k') \<Longrightarrow> rx k' = rx k \<and>
        (case r' of Inl _ \<Rightarrow> tx k' = tx k | Inr n \<Rightarrow> n \<le> length data \<and> tx k' = tx k @ take n data)"
    using D [THEN conjunct2, THEN conjunct1] by blast
  show "so_ticks os k = (t, k') \<Longrightarrow> rx k' = rx k \<and> tx k' = tx k"
    using D [THEN conjunct2, THEN conjunct2, THEN conjunct1] by blast
  show "so_select os wr fd tv k = (q, k') \<Longrightarrow> rx k' = rx k \<and> tx k' = tx k"
    using D [THEN conjunct2, THEN conjunct2, THEN conjunct2, THEN conjunct1] by blast
  show "so_getopt os fd SO_ERROR k = (e, k') \<Longrightarrow> e \<noteq> None \<and> rx k' = rx k \<and> tx k' = tx k"
    using D [THEN conjunct2, THEN conjunct2, THEN conjunct2, THEN conjunct2] by blast
qed

subsection \<open>The readiness checks\<close>

lemma ready_spec:
  assumes "sock_stream os (sock_fd sock) rx tx" "unat sock < 1024"
  obtains b k' where "gsock_is_readable os sock timeout k = Inr (b, k')" "rx k' = rx k" "tx k' = tx k"
proof -
  obtain r rd ex k1 where s: "so_select os False (sock_fd sock) (gsock_timeval timeout) k = ((r, rd, ex), k1)"
    by (metis prod.exhaust)
  obtain e k2 where e: "so_getopt os (sock_fd sock) SO_ERROR k1 = (e, k2)" by fastforce
  note D = sock_streamD(4) [OF assms(1) s] sock_streamD(5) [OF assms(1) e]
  show thesis
    using that D s e assms(2)
    by (cases e; cases "r < 0 \<or> ex"; cases "e = Some 0"; cases rd)
      (auto simp: gsock_is_readable_def gsock_check_readable_def gsock_get_error_def)
qed

lemma write_ready_spec:
  assumes "sock_stream os (sock_fd sock) rx tx" "unat sock < 1024"
  obtains b k' where "gsock_is_writable os sock timeout k = Inr (b, k')" "rx k' = rx k" "tx k' = tx k"
proof -
  obtain r wr ex k1 where s: "so_select os True (sock_fd sock) (gsock_timeval timeout) k = ((r, wr, ex), k1)"
    by (metis prod.exhaust)
  obtain e k2 where e: "so_getopt os (sock_fd sock) SO_ERROR k1 = (e, k2)" by fastforce
  note D = sock_streamD(4) [OF assms(1) s] sock_streamD(5) [OF assms(1) e]
  show thesis
    using that D s e assms(2)
    by (cases e; cases "r < 0 \<or> ex"; cases wr)
      (auto simp: gsock_is_writable_def gsock_check_writable_def gsock_get_error_def)
qed

lemma fd_setsize: "1024 \<le> unat sock \<Longrightarrow> gsock_is_readable os sock timeout k = Inl OutOfBounds
    \<and> gsock_is_writable os sock timeout k = Inl OutOfBounds"
  by (simp add: gsock_is_readable_def gsock_check_readable_def gsock_is_writable_def gsock_check_writable_def)

subsection \<open>The shared loop: what is transferred\<close>

text \<open>
  \<open>I count z\<close> holds after \<open>count\<close> bytes. The transfer moves it on, and the clock and the
  readiness check keep it.
\<close>

definition io_keeps :: "'k sock_os \<Rightarrow> (u64_t \<Rightarrow> 'k \<Rightarrow> (bool \<times> 'k) res) \<Rightarrow> ('b, 'k) xfer \<Rightarrow> int \<Rightarrow>
    (int \<Rightarrow> 'b \<times> 'k \<Rightarrow> bool) \<Rightarrow> bool" where
  "io_keeps os ready xfer n I \<longleftrightarrow>
     (\<forall>c z. 0 \<le> c \<and> c \<le> n \<and> I c z \<longrightarrow> (\<exists>r z'. xfer (nat c) (n - c) z = Inr (r, z') \<and>
        (case r of Inl _ \<Rightarrow> I c z' | Inr m \<Rightarrow> c + int m \<le> n \<and> I (c + int m) z'))) \<and>
     (\<forall>c b k t k'. so_ticks os k = (t, k') \<longrightarrow> I c (b, k) \<longrightarrow> I c (b, k')) \<and>
     (\<forall>c b k timeout. I c (b, k) \<longrightarrow> (\<exists>go k'. ready timeout k = Inr (go, k') \<and> I c (b, k')))"

lemma io_keepsD:
  assumes "io_keeps os ready xfer n I"
  shows "0 \<le> c \<Longrightarrow> c \<le> n \<Longrightarrow> I c z \<Longrightarrow> \<exists>r z'. xfer (nat c) (n - c) z = Inr (r, z') \<and>
        (case r of Inl _ \<Rightarrow> I c z' | Inr m \<Rightarrow> c + int m \<le> n \<and> I (c + int m) z')"
    "so_ticks os k = (t, k') \<Longrightarrow> I c (b, k) \<Longrightarrow> I c (b, k')"
    "I c (b, k) \<Longrightarrow> \<exists>go k'. ready timeout k = Inr (go, k') \<and> I c (b, k')"
  using assms unfolding io_keeps_def by blast+

lemma io_continue_keeps:
  assumes "io_keeps os ready xfer n I" "I c (b, k)"
  obtains go k' where "io_continue os ready n timeout tm1 c k = Inr (go, k')" "I c (b, k')"
proof (cases "n \<le> c")
  case True
  then show thesis using that [of False k] assms(2) by (simp add: io_continue_def)
next
  case False
  obtain now k1 where t: "so_ticks os k = (now, k1)" by fastforce
  have k1: "I c (b, k1)" by (rule io_keepsD(2) [OF assms(1) t assms(2)])
  let ?e = "ucast (elapsed_msec now tm1) :: u64_t"
  show thesis
  proof (cases "timeout < ?e")
    case True
    then show thesis using that [of False k1] False t k1 by (simp add: io_continue_def Let_def)
  next
    case out: False
    obtain go k2 where "ready (timeout - ?e) k1 = Inr (go, k2)" "I c (b, k2)" using io_keepsD(3) [OF assms(1) k1] by blast
    then show thesis using that [of go k2] False out t by (simp add: io_continue_def Let_def)
  qed
qed

text \<open>A result: an error, or a count with the invariant; running out of turns is the only fault.\<close>

definition io_good :: "int \<Rightarrow> (int \<Rightarrow> 'b \<times> 'k \<Rightarrow> bool) \<Rightarrow> (int \<times> 'b \<times> 'k) res \<Rightarrow> bool" where
  "io_good n I x \<longleftrightarrow> (case x of Inl e \<Rightarrow> e = Diverges
     | Inr (r, z) \<Rightarrow> (r = -1 \<and> (\<exists>c. 0 \<le> c \<and> c \<le> n \<and> I c z)) \<or> (0 \<le> r \<and> r \<le> n \<and> I r z))"

lemma io_loop_keeps:
  assumes "io_keeps os ready xfer n I"
  shows "0 \<le> c \<Longrightarrow> c \<le> n \<Longrightarrow> I c z \<Longrightarrow> io_good n I (io_loop os ready xfer turns n timeout tm1 c z)"
proof (induction turns arbitrary: c z)
  case 0
  then show ?case by (simp add: io_good_def)
next
  case (Suc turns)
  obtain r z' where "xfer (nat c) (n - c) z = Inr (r, z')"
    "case r of Inl _ \<Rightarrow> I c z' | Inr m \<Rightarrow> c + int m \<le> n \<and> I (c + int m) z'"
    using io_keepsD(1) [OF assms Suc.prems] by (elim exE conjE) (rule that)
  then obtain b k where x: "xfer (nat c) (n - c) z = Inr (r, b, k)"
    "case r of Inl _ \<Rightarrow> I c (b, k) | Inr m \<Rightarrow> c + int m \<le> n \<and> I (c + int m) (b, k)"
    using that by (cases z'; cases r) auto
  have go: "io_good n I (rbind (io_continue os ready n timeout tm1 d k) (\<lambda>(go, k).
      if go then io_loop os ready xfer turns n timeout tm1 d (b, k) else Inr (d, b, k)))"
    if d: "I d (b, k)" "0 \<le> d" "d \<le> n" for d
  proof -
    obtain go k' where "io_continue os ready n timeout tm1 d k = Inr (go, k')" "I d (b, k')"
      by (rule io_continue_keeps [OF assms d(1)])
    then show ?thesis using Suc.IH [OF d(2,3)] d(2,3) by (simp add: io_good_def)
  qed
  show ?case
  proof (cases r)
    case (Inl e)
    then show ?thesis using x go [of c] Suc.prems(1,2) by (auto simp: io_good_def)
  next
    case (Inr m)
    then show ?thesis using x go [of "c + int m"] Suc.prems(1) by simp
  qed
qed

lemma io_timed_keeps:
  assumes "io_keeps os ready xfer n I" "0 \<le> n" "I 0 z"
  shows "io_good n I (io_timed os ready xfer turns n timeout z)"
proof -
  obtain r z' where "xfer (nat 0) (n - 0) z = Inr (r, z')"
    "case r of Inl _ \<Rightarrow> I 0 z' | Inr m \<Rightarrow> 0 + int m \<le> n \<and> I (0 + int m) z'"
    using io_keepsD(1) [OF assms(1) order_refl assms(2,3)] by (elim exE conjE) (rule that)
  then obtain b k where x: "xfer 0 n z = Inr (r, b, k)"
    "case r of Inl _ \<Rightarrow> I 0 (b, k) | Inr m \<Rightarrow> int m \<le> n \<and> I (int m) (b, k)"
    using that by (cases z'; cases r) auto
  have go: "io_good n I (if d = n \<or> timeout = 0 then Inr (d, b, k)
      else case so_ticks os k of (tm1, k) \<Rightarrow> io_loop os ready xfer turns n timeout tm1 d (b, k))"
    if "I d (b, k)" "0 \<le> d" "d \<le> n" for d
    using that io_loop_keeps [OF assms(1) that(2,3)] io_keepsD(2) [OF assms(1) _ that(1)]
    by (auto simp: io_good_def split: prod.splits)
  show ?thesis
    using x go [of 0] go [of "int m" for m] assms(2) by (cases r) (auto simp: io_timed_def Let_def io_good_def)
qed

subsection \<open>The shared loop: its return\<close>

text \<open>
  A clock in nanoseconds: \<open>now k\<close> is the time, every call takes at most \<open>call_time\<close> (2 to the 29
  milliseconds, six days), reading the clock takes at least a nanosecond.
\<close>

definition call_time :: nat where
  "call_time = 536870912000000"

definition io_clock :: "'k sock_os \<Rightarrow> (u64_t \<Rightarrow> 'k \<Rightarrow> (bool \<times> 'k) res) \<Rightarrow> ('b, 'k) xfer \<Rightarrow> ('k \<Rightarrow> nat) \<Rightarrow> bool" where
  "io_clock os ready xfer now \<longleftrightarrow>
     (\<forall>off len b k r b' k'. xfer off len (b, k) = Inr (r, b', k') \<longrightarrow> now k \<le> now k' \<and> now k' \<le> now k + call_time) \<and>
     (\<forall>timeout k go k'. ready timeout k = Inr (go, k') \<longrightarrow> now k \<le> now k' \<and> now k' \<le> now k + 2 * call_time) \<and>
     (\<forall>k t k'. so_ticks os k = (t, k') \<longrightarrow> t = of_nat (now k') \<and> now k < now k' \<and> now k' \<le> now k + call_time)"

lemma io_clockD:
  assumes "io_clock os ready xfer now"
  shows "xfer off len (b, k) = Inr (r, b', k') \<Longrightarrow> now k \<le> now k' \<and> now k' \<le> now k + call_time"
    "ready timeout k = Inr (go, k') \<Longrightarrow> now k \<le> now k' \<and> now k' \<le> now k + 2 * call_time"
    "so_ticks os k = (t, k') \<Longrightarrow> t = of_nat (now k') \<and> now k < now k' \<and> now k' \<le> now k + call_time"
proof -
  note D = assms [unfolded io_clock_def]
  show "xfer off len (b, k) = Inr (r, b', k') \<Longrightarrow> now k \<le> now k' \<and> now k' \<le> now k + call_time"
    using D [THEN conjunct1] by blast
  show "ready timeout k = Inr (go, k') \<Longrightarrow> now k \<le> now k' \<and> now k' \<le> now k + 2 * call_time"
    using D [THEN conjunct2, THEN conjunct1] by blast
  show "so_ticks os k = (t, k') \<Longrightarrow> t = of_nat (now k') \<and> now k < now k' \<and> now k' \<le> now k + call_time"
    using D [THEN conjunct2, THEN conjunct2] by blast
qed

lemma elapsed_msec_of_nat:
  assumes "a \<le> b" "b - a < 4294967296 * 1000000"
  shows "unat (ucast (elapsed_msec (of_nat b) (of_nat a)) :: u64_t) = (b - a) div 1000000"
proof -
  have w: "(of_nat b :: u64_t) - of_nat a = of_nat (b - a)" using assms(1) by simp
  have d: "(b - a) div 1000000 < 4294967296" using assms(2) by linarith
  show ?thesis
    using assms(2) d
    by (simp add: elapsed_msec_def elapsed_ticks_def ticks_to_msec_def ticks_to_nsec_def w unat_ucast_32_64
      unsigned_ucast_eq unsigned_take_bit_eq unsigned_of_nat take_bit_nat_eq_self unat_div_word)
qed

text \<open>The time left over in a turn that goes on; a call takes no more than the deadline can be.\<close>

definition deadline :: "u64_t \<Rightarrow> nat" where
  "deadline timeout = (unat timeout + 1) * 1000000"

lemma io_continue_clock:
  assumes clk: "io_clock os ready xfer now" and "unat timeout \<le> 536870912"
    and k: "t0 + i \<le> now k" "now k \<le> t0 + deadline timeout + 3 * call_time"
    and go: "io_continue os ready n timeout (of_nat t0) c k = Inr (True, k')"
  shows "i + 1 < deadline timeout" "t0 + (i + 1) \<le> now k'" "now k' \<le> t0 + deadline timeout + 2 * call_time"
proof -
  obtain t k1 where t: "so_ticks os k = (t, k1)" by fastforce
  note T = io_clockD(3) [OF clk t]
  have "now k1 \<le> t0 + (unat timeout * 1000000 + 1000000) + 4 * 536870912000000"
    using T k unfolding deadline_def call_time_def by simp
  then have "now k1 < t0 + 4294967296 * 1000000" using assms(2) by simp
  then have le: "t0 \<le> now k1" "now k1 - t0 < 4294967296 * 1000000"
    using T k by (simp_all add: less_diff_conv2)
  let ?e = "ucast (elapsed_msec t (of_nat t0)) :: u64_t"
  have e: "unat ?e = (now k1 - t0) div 1000000"
    using elapsed_msec_of_nat [OF le] T by simp
  have r: "\<not> timeout < ?e" "ready (timeout - ?e) k1 = Inr (True, k')"
    using go t by (auto simp: io_continue_def Let_def split: if_splits)
  have "(now k1 - t0) div 1000000 < unat timeout + 1" using r(1) e by (simp add: word_less_nat_alt)
  then have d: "now k1 - t0 < deadline timeout" by (simp only: deadline_def div_less_iff_less_mult [of 1000000, simplified])
  show "i + 1 < deadline timeout" "t0 + (i + 1) \<le> now k'" "now k' \<le> t0 + deadline timeout + 2 * call_time"
    using d T k le(1) io_clockD(2) [OF clk r(2)] by linarith+
qed

lemma io_loop_returns:
  assumes clk: "io_clock os ready xfer now" and keep: "io_keeps os ready xfer n I" and out: "unat timeout \<le> 536870912"
  shows "0 \<le> c \<Longrightarrow> c \<le> n \<Longrightarrow> I c (b, k) \<Longrightarrow> i < deadline timeout \<Longrightarrow> deadline timeout \<le> i + turns \<Longrightarrow>
    t0 + i \<le> now k \<Longrightarrow> now k \<le> t0 + deadline timeout + 2 * call_time \<Longrightarrow>
    io_loop os ready xfer turns n timeout (of_nat t0) c (b, k) \<noteq> Inl Diverges"
proof (induction turns arbitrary: c b k i)
  case 0
  then show ?case by simp
next
  case (Suc turns)
  obtain r z' where z': "xfer (nat c) (n - c) (b, k) = Inr (r, z')"
    "case r of Inl _ \<Rightarrow> I c z' | Inr m \<Rightarrow> c + int m \<le> n \<and> I (c + int m) z'"
    using io_keepsD(1) [OF keep Suc.prems(1-3)] by (elim exE conjE) (rule that)
  obtain b1 k1 where b1: "z' = (b1, k1)" by (cases z')
  have T: "t0 + i \<le> now k1" "now k1 \<le> t0 + deadline timeout + 3 * call_time"
    using io_clockD(1) [OF clk, of "nat c" "n - c" b k r b1 k1] z'(1) b1 Suc.prems(6,7) by simp_all
  have go: "rbind (io_continue os ready n timeout (of_nat t0) d k1) (\<lambda>(go, k).
      if go then io_loop os ready xfer turns n timeout (of_nat t0) d (b1, k) else Inr (d, b1, k)) \<noteq> Inl Diverges"
    if d: "I d (b1, k1)" "0 \<le> d" "d \<le> n" for d
  proof -
    obtain go k2 where g: "io_continue os ready n timeout (of_nat t0) d k1 = Inr (go, k2)" "I d (b1, k2)"
      by (rule io_continue_keeps [OF keep d(1)])
    show ?thesis
    proof (cases go)
      case True
      note C = io_continue_clock [OF clk out T, of n d k2]
      show ?thesis
        using Suc.IH [OF d(2,3) g(2), of "i + 1"] C g(1) Suc.prems(5) True by simp
    qed (simp add: g(1))
  qed
  show ?case
    using z' b1 go [of c] go [of "c + int m" for m] Suc.prems(1,2) by (cases r) auto
qed

lemma io_timed_returns:
  assumes clk: "io_clock os ready xfer now" and keep: "io_keeps os ready xfer n I" and "unat timeout \<le> 536870912"
    "0 \<le> n" "I 0 z" "deadline timeout \<le> turns"
  obtains r b k c where "io_timed os ready xfer turns n timeout z = Inr (r, b, k)"
    "0 \<le> c" "c \<le> n" "I c (b, k)" "r = -1 \<or> r = c"
proof -
  have good: "io_good n I (io_timed os ready xfer turns n timeout z)"
    by (rule io_timed_keeps [OF keep assms(4,5)])
  obtain r z' where "xfer (nat 0) (n - 0) z = Inr (r, z')"
    "case r of Inl _ \<Rightarrow> I 0 z' | Inr m \<Rightarrow> 0 + int m \<le> n \<and> I (0 + int m) z'"
    using io_keepsD(1) [OF keep order_refl assms(4,5)] by (elim exE conjE) (rule that)
  then obtain b k where x: "xfer 0 n z = Inr (r, b, k)"
    "case r of Inl _ \<Rightarrow> I 0 (b, k) | Inr m \<Rightarrow> int m \<le> n \<and> I (int m) (b, k)"
    using that by (cases z'; cases r) auto
  have go: "(case so_ticks os k of (tm1, k) \<Rightarrow> io_loop os ready xfer turns n timeout tm1 d (b, k)) \<noteq> Inl Diverges"
    if d: "I d (b, k)" "0 \<le> d" "d \<le> n" for d
  proof -
    obtain t k1 where t: "so_ticks os k = (t, k1)" by fastforce
    then show ?thesis
      using io_loop_returns [OF clk keep assms(3) d(2,3) io_keepsD(2) [OF keep t d(1)], of 0 turns "now k1"]
        io_clockD(3) [OF clk t] assms(6) by (simp add: deadline_def)
  qed
  have "io_timed os ready xfer turns n timeout z \<noteq> Inl Diverges"
    using x go [of 0] go [of "int m" for m] assms(4) by (cases r) (auto simp: io_timed_def Let_def)
  then obtain r b k where "io_timed os ready xfer turns n timeout z = Inr (r, b, k)"
    "(r = -1 \<and> (\<exists>c. 0 \<le> c \<and> c \<le> n \<and> I c (b, k))) \<or> (0 \<le> r \<and> r \<le> n \<and> I r (b, k))"
    using good by (auto simp: io_good_def split: sum.splits prod.splits)
  then show thesis using that by blast
qed

end
