(* ===== verification/GclSocketRun.thy ===== *)
theory GclSocketRun
  imports GclSocketFacts
begin

section \<open>Sockets: reading and writing a stream\<close>

text \<open>
  The facts about the shared loop applied to \<open>gsock_read\<close> and \<open>gsock_write\<close>: both return within
  the deadline, and what they have moved is a prefix of the stream or of the buffer.
\<close>

definition sock_clock :: "'k sock_os \<Rightarrow> ('k \<Rightarrow> nat) \<Rightarrow> bool" where
  "sock_clock os now \<longleftrightarrow>
     (\<forall>fd len peek k r k'. so_recv os fd len peek k = (r, k') \<longrightarrow> now k \<le> now k' \<and> now k' \<le> now k + call_time) \<and>
     (\<forall>fd data dw k r k'. so_send os fd data dw k = (r, k') \<longrightarrow> now k \<le> now k' \<and> now k' \<le> now k + call_time) \<and>
     (\<forall>wr fd tv k r k'. so_select os wr fd tv k = (r, k') \<longrightarrow> now k \<le> now k' \<and> now k' \<le> now k + call_time) \<and>
     (\<forall>fd opt k r k'. so_getopt os fd opt k = (r, k') \<longrightarrow> now k \<le> now k' \<and> now k' \<le> now k + call_time) \<and>
     (\<forall>k t k'. so_ticks os k = (t, k') \<longrightarrow> t = of_nat (now k') \<and> now k < now k' \<and> now k' \<le> now k + call_time)"

lemma sock_clockD:
  assumes "sock_clock os now"
  shows "so_recv os fd len peek k = (r1, k') \<Longrightarrow> now k \<le> now k' \<and> now k' \<le> now k + call_time"
    "so_send os fd data dw k = (r2, k') \<Longrightarrow> now k \<le> now k' \<and> now k' \<le> now k + call_time"
    "so_select os wr fd tv k = (r3, k') \<Longrightarrow> now k \<le> now k' \<and> now k' \<le> now k + call_time"
    "so_getopt os fd opt k = (r4, k') \<Longrightarrow> now k \<le> now k' \<and> now k' \<le> now k + call_time"
    "so_ticks os k = (t, k') \<Longrightarrow> t = of_nat (now k') \<and> now k < now k' \<and> now k' \<le> now k + call_time"
proof -
  note D = assms [unfolded sock_clock_def]
  show "so_recv os fd len peek k = (r1, k') \<Longrightarrow> now k \<le> now k' \<and> now k' \<le> now k + call_time"
    using D [THEN conjunct1] by blast
  show "so_send os fd data dw k = (r2, k') \<Longrightarrow> now k \<le> now k' \<and> now k' \<le> now k + call_time"
    using D [THEN conjunct2, THEN conjunct1] by blast
  show "so_select os wr fd tv k = (r3, k') \<Longrightarrow> now k \<le> now k' \<and> now k' \<le> now k + call_time"
    using D [THEN conjunct2, THEN conjunct2, THEN conjunct1] by blast
  show "so_getopt os fd opt k = (r4, k') \<Longrightarrow> now k \<le> now k' \<and> now k' \<le> now k + call_time"
    using D [THEN conjunct2, THEN conjunct2, THEN conjunct2, THEN conjunct1] by blast
  show "so_ticks os k = (t, k') \<Longrightarrow> t = of_nat (now k') \<and> now k < now k' \<and> now k' \<le> now k + call_time"
    using D [THEN conjunct2, THEN conjunct2, THEN conjunct2, THEN conjunct2] by blast
qed

subsection \<open>The readiness checks take two calls\<close>

lemma ready_clock:
  assumes "sock_clock os now" "gsock_is_readable os sock timeout k = Inr (go, k')"
  shows "now k \<le> now k' \<and> now k' \<le> now k + 2 * call_time"
proof -
  obtain r rd ex k1 where s: "so_select os False (sock_fd sock) (gsock_timeval timeout) k = ((r, rd, ex), k1)"
    by (metis prod.exhaust)
  obtain e k2 where e: "so_getopt os (sock_fd sock) SO_ERROR k1 = (e, k2)" by fastforce
  show ?thesis
    using sock_clockD(3) [OF assms(1) s] sock_clockD(4) [OF assms(1) e] assms(2) s e
    by (cases e) (auto simp: gsock_is_readable_def gsock_check_readable_def gsock_get_error_def split: if_splits)
qed

lemma write_ready_clock:
  assumes "sock_clock os now" "gsock_is_writable os sock timeout k = Inr (go, k')"
  shows "now k \<le> now k' \<and> now k' \<le> now k + 2 * call_time"
proof -
  obtain r wr ex k1 where s: "so_select os True (sock_fd sock) (gsock_timeval timeout) k = ((r, wr, ex), k1)"
    by (metis prod.exhaust)
  obtain e k2 where e: "so_getopt os (sock_fd sock) SO_ERROR k1 = (e, k2)" by fastforce
  show ?thesis
    using sock_clockD(3) [OF assms(1) s] sock_clockD(4) [OF assms(1) e] assms(2) s e
    by (cases e) (auto simp: gsock_is_writable_def gsock_check_writable_def gsock_get_error_def split: if_splits)
qed

lemma read_clock:
  assumes "sock_clock os now"
  shows "io_clock os (gsock_is_readable os sock) (recv_xfer os sock) now"
  unfolding io_clock_def
proof (intro conjI allI impI)
  fix off len b k r b' k' assume "recv_xfer os sock off len (b, k) = Inr (r, b', k')"
  then show "now k \<le> now k'" "now k' \<le> now k + call_time"
    using sock_clockD(1) [OF assms]
    by (fastforce simp: recv_xfer_def recv_at_def split: prod.splits sum.splits if_splits)+
qed (use ready_clock [OF assms] sock_clockD(5) [OF assms] in blast)+

lemma write_clock:
  assumes "sock_clock os now"
  shows "io_clock os (gsock_is_writable os sock) (send_xfer os sock buf) now"
  unfolding io_clock_def
proof (intro conjI allI impI)
  fix off len and b b' :: unit and k r k' assume "send_xfer os sock buf off len (b, k) = Inr (r, b', k')"
  then show "now k \<le> now k'" "now k' \<le> now k + call_time"
    using sock_clockD(2) [OF assms]
    by (fastforce simp: send_xfer_def send_at_def rbind_eq_Inr split: prod.splits if_splits)+
qed (use write_ready_clock [OF assms] sock_clockD(5) [OF assms] in blast)+

subsection \<open>What is moved\<close>

lemma size_of_nat: "0 \<le> len \<Longrightarrow> len < 2147483648 \<Longrightarrow> size_of len = nat len"
  by (simp add: size_of_def unsigned_of_int take_bit_int_eq_self)

text \<open>\<open>c\<close> bytes have been read into the buffer \<open>buf0\<close> since state \<open>k0\<close>.\<close>

definition read_so_far where
  "read_so_far rx tx buf0 k0 c z \<longleftrightarrow> length (fst z) = length buf0 \<and> rx k0 = take (nat c) (fst z) @ rx (snd z)
     \<and> drop (nat c) (fst z) = drop (nat c) buf0 \<and> tx (snd z) = tx k0"

definition written_so_far where
  "written_so_far rx tx buf k0 c z \<longleftrightarrow> tx (snd z) = tx k0 @ take (nat c) buf \<and> rx (snd z) = rx k0"

lemma overwrite_at:
  assumes "i + length bs \<le> length b" "length b = length buf0" "drop i b = drop i buf0"
  shows "take (i + length bs) (overwrite i bs b) = take i b @ bs"
    "drop (i + length bs) (overwrite i bs b) = drop (i + length bs) buf0"
proof -
  show "take (i + length bs) (overwrite i bs b) = take i b @ bs"
    using assms(1) by (simp add: overwrite_def)
  have "drop (length bs) (drop i b) = drop (length bs) (drop i buf0)" using assms(3) by simp
  then show "drop (i + length bs) (overwrite i bs b) = drop (i + length bs) buf0"
    using assms(1) by (simp add: overwrite_def add.commute)
qed

lemma read_keeps:
  assumes st: "sock_stream os (sock_fd sock) rx tx" and "unat sock < 1024" and n: "n \<le> int (length buf0)" "n < 2147483648"
  shows "io_keeps os (gsock_is_readable os sock) (recv_xfer os sock) n (read_so_far rx tx buf0 k0)"
  unfolding io_keeps_def
proof (intro conjI allI impI)
  fix c and z :: "u8_t list \<times> 'a"
  assume c: "0 \<le> c \<and> c \<le> n \<and> read_so_far rx tx buf0 k0 c z"
  obtain b k where z: "z = (b, k)" by fastforce
  have sz: "size_of (n - c) = nat (n - c)" using c n(2) by (simp add: size_of_nat)
  obtain r k' where r: "so_recv os (sock_fd sock) (nat (n - c)) False k = (r, k')" by fastforce
  note D = sock_streamD(1) [OF st r]
  show "\<exists>r z'. recv_xfer os sock (nat c) (n - c) z = Inr (r, z') \<and>
    (case r of Inl _ \<Rightarrow> read_so_far rx tx buf0 k0 c z' | Inr m \<Rightarrow> c + int m \<le> n \<and> read_so_far rx tx buf0 k0 (c + int m) z')"
  proof (cases r)
    case (Inl e)
    then show ?thesis using r D c z by (simp add: recv_xfer_def recv_at_def sz read_so_far_def)
  next
    case (Inr bs)
    have fit: "nat c + length bs \<le> length b" "c + int (length bs) \<le> n"
      using D Inr c n(1) z by (auto simp: read_so_far_def)
    have "nat (c + int (length bs)) = nat c + length bs" using c by (simp add: nat_add_distrib)
    then show ?thesis
      using r D c z Inr fit overwrite_at [OF fit(1), of buf0]
      by (simp add: recv_xfer_def recv_at_def sz read_so_far_def)
  qed
next
  fix c b k t k' assume "so_ticks os k = (t, k')" "read_so_far rx tx buf0 k0 c (b, k)"
  then show "read_so_far rx tx buf0 k0 c (b, k')" using sock_streamD(3) [OF st] by (auto simp: read_so_far_def)
next
  fix c b k timeout assume I: "read_so_far rx tx buf0 k0 c (b, k)"
  obtain go k' where "gsock_is_readable os sock timeout k = Inr (go, k')" "rx k' = rx k" "tx k' = tx k"
    by (rule ready_spec [OF st assms(2)])
  then show "\<exists>go k'. gsock_is_readable os sock timeout k = Inr (go, k') \<and> read_so_far rx tx buf0 k0 c (b, k')"
    using I by (auto simp: read_so_far_def)
qed

lemma write_keeps:
  assumes st: "sock_stream os (sock_fd sock) rx tx" and "unat sock < 1024" and n: "n \<le> int (length buf)" "n < 2147483648"
  shows "io_keeps os (gsock_is_writable os sock) (send_xfer os sock buf) n (written_so_far rx tx buf k0)"
  unfolding io_keeps_def
proof (intro conjI allI impI)
  fix c and z :: "unit \<times> 'a"
  assume c: "0 \<le> c \<and> c \<le> n \<and> written_so_far rx tx buf k0 c z"
  obtain k where z: "z = ((), k)" by (cases z) simp
  have sz: "size_of (n - c) = nat (n - c)" using c n(2) by (simp add: size_of_nat)
  have fit: "nat c + nat (n - c) \<le> length buf" using c n(1) by linarith
  obtain r k' where r: "so_send os (sock_fd sock) (take (nat (n - c)) (drop (nat c) buf)) True k = (r, k')" by fastforce
  note D = sock_streamD(2) [OF st r]
  show "\<exists>r z'. send_xfer os sock buf (nat c) (n - c) z = Inr (r, z') \<and>
    (case r of Inl _ \<Rightarrow> written_so_far rx tx buf k0 c z' | Inr m \<Rightarrow> c + int m \<le> n \<and> written_so_far rx tx buf k0 (c + int m) z')"
  proof (cases r)
    case (Inl e)
    then show ?thesis using r D c z fit by (simp add: send_xfer_def send_at_def sz written_so_far_def)
  next
    case (Inr m)
    have mn: "m \<le> nat (n - c)" using D Inr fit by simp
    then have m: "c + int m \<le> n" using c by linarith
    moreover have "take m (take (nat (n - c)) (drop (nat c) buf)) = take m (drop (nat c) buf)"
      using mn by (simp add: min_def)
    moreover have "nat (c + int m) = nat c + m" using c by (simp add: nat_add_distrib)
    ultimately show ?thesis
      using r D c z Inr fit by (simp add: send_xfer_def send_at_def sz written_so_far_def take_add)
  qed
next
  fix c b k t k' assume "so_ticks os k = (t, k')" "written_so_far rx tx buf k0 c (b, k)"
  then show "written_so_far rx tx buf k0 c (b, k')" using sock_streamD(3) [OF st] by (auto simp: written_so_far_def)
next
  fix c b k timeout assume I: "written_so_far rx tx buf k0 c (b, k)"
  obtain go k' where "gsock_is_writable os sock timeout k = Inr (go, k')" "rx k' = rx k" "tx k' = tx k"
    by (rule write_ready_spec [OF st assms(2)])
  then show "\<exists>go k'. gsock_is_writable os sock timeout k = Inr (go, k') \<and> written_so_far rx tx buf k0 c (b, k')"
    using I by (auto simp: written_so_far_def)
qed

subsection \<open>The two functions\<close>

lemma read_total:
  assumes "sock_stream os (sock_fd sock) rx tx" "sock_clock os now" "unat sock < 1024"
    "0 \<le> n" "n \<le> int (length buf)" "n < 2147483648" "unat timeout \<le> 536870912" "deadline timeout \<le> turns"
  obtains r buf' k' c where "gsock_read os turns sock buf n timeout k = Inr (r, buf', k')"
    "0 \<le> c" "c \<le> n" "r = -1 \<or> r = c" "rx k = take (nat c) buf' @ rx k'"
    "length buf' = length buf" "drop (nat c) buf' = drop (nat c) buf" "tx k' = tx k"
proof -
  have "read_so_far rx tx buf k 0 (buf, k)" by (simp add: read_so_far_def)
  then obtain r b k' c where "io_timed os (gsock_is_readable os sock) (recv_xfer os sock) turns n timeout (buf, k) = Inr (r, b, k')"
    "0 \<le> c" "c \<le> n" "read_so_far rx tx buf k c (b, k')" "r = -1 \<or> r = c"
    by (rule io_timed_returns [OF read_clock [OF assms(2)] read_keeps [OF assms(1,3,5,6)] assms(7,4) _ assms(8)])
  then show thesis using that by (auto simp: gsock_read_def read_so_far_def)
qed

lemma write_total:
  assumes "sock_stream os (sock_fd sock) rx tx" "sock_clock os now" "unat sock < 1024"
    "0 \<le> n" "n \<le> int (length buf)" "n < 2147483648" "unat timeout \<le> 536870912" "deadline timeout \<le> turns"
  obtains r k' c where "gsock_write os turns sock buf n timeout k = Inr (r, k')"
    "0 \<le> c" "c \<le> n" "r = -1 \<or> r = c" "tx k' = tx k @ take (nat c) buf" "rx k' = rx k"
proof -
  have "written_so_far rx tx buf k 0 ((), k)" by (simp add: written_so_far_def)
  then obtain r b k' c where "io_timed os (gsock_is_writable os sock) (send_xfer os sock buf) turns n timeout ((), k) = Inr (r, b, k')"
    "0 \<le> c" "c \<le> n" "written_so_far rx tx buf k c (b, k')" "r = -1 \<or> r = c"
    by (rule io_timed_returns [OF write_clock [OF assms(2)] write_keeps [OF assms(1,3,5,6)] assms(7,4) _ assms(8)])
  then show thesis using that by (auto simp: gsock_write_def written_so_far_def)
qed

end
