(* ===== verification/GclSocketSample.thy ===== *)
theory GclSocketSample
  imports GclSocketRun "HOL-Library.Sublist"
begin

section \<open>Sockets: packets and the sample\<close>

text \<open>
  What the V packets and the two loops of the sample carry, derived from reading and writing, and
  a small system in memory on which the properties are tried.
\<close>

subsection \<open>Packets\<close>

lemma vp_of_bytes_vp_bytes: "vp_of_bytes (vp_bytes vp) = vp"
proof -
  have "ucast (ucast (w :: u16_t) :: u8_t) + 256 * ucast (ucast (w div 256) :: u8_t) = w" for w :: u16_t
  proof (rule word_unat_eq_iff [THEN iffD2])
    have w: "unat w < 65536" using unsigned_less [of w] by simp
    have "unat (w div 256) < 256" using w by (simp add: unat_div_word less_mult_imp_div_less)
    then have "unat w div 256 < 256" by (simp add: unat_div_word)
    moreover have "unat w mod 256 + 256 * (unat w div 256) = unat w" by simp
    ultimately show "unat (ucast (ucast w :: u8_t) + 256 * ucast (ucast (w div 256) :: u8_t) :: u16_t) = unat w"
      using w by (simp add: unat_word_ariths unsigned_ucast_eq unsigned_take_bit_eq take_bit_eq_mod unat_div_word)
  qed
  then show ?thesis by (cases vp) (simp add: vp_of_bytes_def vp_bytes_def)
qed

lemma length_vp_bytes [simp]: "length (vp_bytes vp) = 4"
  by (simp add: vp_bytes_def)

subsection \<open>Messages\<close>

lemma hello_no_0: "0 \<notin> set (hello_msg n)"
  by (simp add: hello_msg_def decimal_no_0)

lemma length_hello: "n < 10000000000 \<Longrightarrow> 0 < length (hello_msg n) \<and> length (hello_msg n) < 100"
  using length_decimal [of n 9] by (simp add: hello_msg_def)

subsection \<open>The server loop\<close>

text \<open>What has gone out: all messages but the last completely, of the last a prefix.\<close>

definition served :: "nat \<Rightarrow> nat \<Rightarrow> u8_t list \<Rightarrow> bool" where
  "served c c' bs \<longleftrightarrow> c \<le> c' \<and> prefix bs (concat (map hello_msg [c..<c']))
     \<and> (c < c' \<longrightarrow> prefix (concat (map hello_msg [c..<c' - 1])) bs)"

lemma served_Suc: "served (Suc c) c' bs \<Longrightarrow> served c c' (hello_msg c @ bs)"
  by (cases "c < c' - 1") (auto simp: served_def upt_conv_Cons)

lemma serve_loop_total:
  assumes st: "sock_stream os (sock_fd (m_sock s)) rx tx" "sock_clock os now" "unat (m_sock s) < 1024"
    and cap: "\<And>k. length (tx k) \<le> cap" and turns: "deadline 1000 \<le> turns"
  shows "cap < n + length (tx k) \<Longrightarrow> c + n \<le> 10000000000 \<Longrightarrow>
    \<exists>c' k' bs. serve_loop os turns n c s k = Inr (c', k') \<and> tx k' = tx k @ bs \<and> rx k' = rx k \<and> served c c' bs"
proof (induction n arbitrary: c k)
  case 0
  then show ?case using cap [of k] by simp
next
  case (Suc n)
  obtain ok k1 where w: "gsock_is_writable os (m_sock s) 1000 k = Inr (ok, k1)" "rx k1 = rx k" "tx k1 = tx k"
    by (rule write_ready_spec [OF st(1,3)])
  show ?case
  proof (cases ok)
    case False
    then have "serve_loop os turns (Suc n) c s k = Inr (c, k1)" using w by (simp add: sk_is_writable_def)
    then show ?thesis using w by (intro exI [of _ c] exI [of _ k1] exI [of _ "[]"]) (simp add: served_def)
  next
    case True
    let ?b = "hello_msg c"
    have len: "0 < length ?b" "length ?b < 100" using length_hello [of c] Suc.prems(2) by simp_all
    have small: "0 \<le> int (length ?b)" "int (length ?b) < 2147483648" "unat (1000 :: u64_t) \<le> 536870912" using len by simp_all
    obtain r k2 m where g: "gsock_write os turns (m_sock s) ?b (int (length ?b)) 1000 k1 = Inr (r, k2)" "0 \<le> m" "m \<le> int (length ?b)"
      "r = -1 \<or> r = m" "tx k2 = tx k1 @ take (nat m) ?b" "rx k2 = rx k1"
      by (rule write_total [OF st(1,2,3) small(1) order_refl small(2,3) turns])
    show ?thesis
    proof (cases "r = int (length ?b)")
      case False
      then have "serve_loop os turns (Suc n) c s k = Inr (c + 1, k2)"
        using w g(1) True by (simp add: sk_is_writable_def sk_write_def Let_def)
      moreover have "served c (c + 1) (take (nat m) ?b)" by (simp add: served_def take_is_prefix)
      ultimately show ?thesis using g(5,6) w(2,3)
        by (intro exI [of _ "c + 1"] exI [of _ k2] exI [of _ "take (nat m) ?b"]) simp
    next
      case full: True
      then have out: "tx k2 = tx k @ ?b" using g(4,5) w(3) by auto
      have room: "cap < n + length (tx k2)" using out Suc.prems(1) len(1) by (simp del: length_greater_0_conv)
      have few: "Suc c + n \<le> 10000000000" using Suc.prems(2) by simp
      obtain c' k' bs where "serve_loop os turns n (Suc c) s k2 = Inr (c', k')" "tx k' = tx k2 @ bs" "rx k' = rx k2"
        "served (Suc c) c' bs"
        using Suc.IH [OF room few] by blast
      moreover have "serve_loop os turns (Suc n) c s k = serve_loop os turns n (Suc c) s k2"
        using w g(1) True full by (simp add: sk_is_writable_def sk_write_def Let_def)
      ultimately show ?thesis using out g(6) w(2) served_Suc [of c c' bs] by auto
    qed
  qed
qed

subsection \<open>The client loop\<close>

lemma read_now:
  assumes st: "sock_stream os (sock_fd sock) rx tx" "unat sock < 1024" and n: "0 \<le> n" "n \<le> int (length buf)" "n < 2147483648"
  obtains r buf' k' where "gsock_read os turns sock buf n 0 k = Inr (r, buf', k')" "-1 \<le> r" "r \<le> n"
    "rx k = take (nat r) buf' @ rx k'" "length buf' = length buf" "tx k' = tx k"
proof -
  have I: "read_so_far rx tx buf k 0 (buf, k)" by (simp add: read_so_far_def)
  obtain r z' where "recv_xfer os sock (nat 0) (n - 0) (buf, k) = Inr (r, z')"
    "case r of Inl _ \<Rightarrow> read_so_far rx tx buf k 0 z' | Inr m \<Rightarrow> 0 + int m \<le> n \<and> read_so_far rx tx buf k (0 + int m) z'"
    using io_keepsD(1) [OF read_keeps [OF st n(2,3)] order_refl n(1) I] by (elim exE conjE) (rule that)
  then obtain b k' where x: "recv_xfer os sock 0 n (buf, k) = Inr (r, b, k')"
    "case r of Inl _ \<Rightarrow> read_so_far rx tx buf k 0 (b, k') | Inr m \<Rightarrow> int m \<le> n \<and> read_so_far rx tx buf k (int m) (b, k')"
    using that by (cases z'; cases r) auto
  show thesis
  proof (cases r)
    case (Inl e)
    then show ?thesis
      using that [of "if e = EAGAIN then 0 else -1" b k'] x n(1)
      by (auto simp: gsock_read_def io_timed_def Let_def read_so_far_def split: if_splits)
  next
    case (Inr m)
    then show ?thesis
      using that [of "int m" b k'] x by (auto simp: gsock_read_def io_timed_def Let_def read_so_far_def)
  qed
qed

lemma takeWhile_zero: "i < length b \<Longrightarrow> 0 \<notin> set (take i b) \<Longrightarrow> takeWhile (\<lambda>x. x \<noteq> 0) (b[i := 0]) = take i b"
  by (simp add: upd_conv_take_nth_drop) (metis (mono_tags, lifting) takeWhile_append2 takeWhile.simps(2) append_Nil2)

lemma client_loop_total:
  assumes st: "sock_stream os (sock_fd (m_sock s)) rx tx" "unat (m_sock s) < 1024" and b: "1 < length buf" "length buf < 2147483648"
  shows "length (rx k) < n \<Longrightarrow> 0 \<notin> set (rx k) \<Longrightarrow> length b = length buf \<Longrightarrow>
    \<exists>texts k'. client_loop os turns n b s out k = Inr (out @ texts, k') \<and> rx k = concat texts @ rx k' \<and> tx k' = tx k"
proof (induction n arbitrary: b out k)
  case 0
  then show ?case by simp
next
  case (Suc n)
  obtain ok k1 where w: "gsock_is_readable os (m_sock s) 1000 k = Inr (ok, k1)" "rx k1 = rx k" "tx k1 = tx k"
    by (rule ready_spec [OF st])
  show ?case
  proof (cases ok)
    case False
    then show ?thesis using w by (intro exI [of _ "[]"] exI [of _ k1]) (simp add: sk_is_readable_def)
  next
    case True
    let ?n = "int (length b) - 1"
    have n: "0 \<le> ?n" "?n \<le> int (length b)" "?n < 2147483648" using assms(3,4) Suc.prems(3) by linarith+
    obtain r b' k2 where g: "gsock_read os turns (m_sock s) b ?n 0 k1 = Inr (r, b', k2)" "-1 \<le> r" "r \<le> ?n"
      "rx k1 = take (nat r) b' @ rx k2" "length b' = length b" "tx k2 = tx k1"
      by (rule read_now [OF st n])
    show ?thesis
    proof (cases "r \<le> 0")
      case le: True
      then show ?thesis using w g True
        by (intro exI [of _ "[]"] exI [of _ k2]) (simp add: sk_is_readable_def sk_read_def)
    next
      case gt: False
      have i: "nat r < length b'" using g(3,5) gt by linarith
      have printed: "takeWhile (\<lambda>x. x \<noteq> 0) (b'[nat r := 0]) = take (nat r) b'"
        using g(4) w(2) Suc.prems(2) by (intro takeWhile_zero [OF i]) auto
      have "length (rx k) = nat r + length (rx k2)" using g(4) w(2) i by simp
      then have "length (rx k2) < n" "0 \<notin> set (rx k2)" "length (b'[nat r := 0]) = length buf"
        using Suc.prems g(4,5) w(2) gt by auto
      then obtain texts k' where "client_loop os turns n (b'[nat r := 0]) s (out @ [take (nat r) b']) k2
          = Inr ((out @ [take (nat r) b']) @ texts, k')" "rx k2 = concat texts @ rx k'" "tx k' = tx k2"
        using Suc.IH by blast
      moreover have "client_loop os turns (Suc n) b s out k
          = client_loop os turns n (b'[nat r := 0]) s (out @ [take (nat r) b']) k2"
        using w(1) g(1) True gt i printed by (simp add: sk_is_readable_def sk_read_def store_def)
      ultimately show ?thesis
        using g(4,6) w(2,3) by (intro exI [of _ "take (nat r) b' # texts"] exI [of _ k']) simp
    qed
  qed
qed

end
