(* ===== verification/GclSocketFds.thy ===== *)
theory GclSocketFds
  imports GclSocketSample
begin

section \<open>Sockets: descriptors and a system in memory\<close>

text \<open>
  A system that hands out descriptors (\<open>sock_fds\<close>), which of them an object of the class
  \<open>Socket\<close> is responsible for, and \<open>mem_os\<close>, a system in memory that is a stream
  (\<open>sock_stream\<close>), has a clock (\<open>sock_clock\<close>) and hands out descriptors.
\<close>

subsection \<open>Descriptors\<close>

definition sock_fds :: "'k sock_os \<Rightarrow> ('k \<Rightarrow> int set) \<Rightarrow> bool" where
  "sock_fds os opened \<longleftrightarrow>
     (\<forall>k. opened k \<subseteq> {0..<2147483648}) \<and>
     (\<forall>ty k r k'. so_socket os ty k = (r, k') \<longrightarrow>
        r = -1 \<and> opened k' = opened k \<or> r \<notin> opened k \<and> opened k' = insert r (opened k)) \<and>
     (\<forall>fd k r k'. so_close os fd k = (r, k') \<longrightarrow> fd \<in> opened k \<longrightarrow> r = 0 \<and> opened k' = opened k - {fd}) \<and>
     (\<forall>fd v k r k'. so_nbio os fd v k = (r, k') \<longrightarrow> opened k' = opened k)"

lemma sock_fdsD:
  assumes "sock_fds os opened"
  shows "opened k \<subseteq> {0..<2147483648}"
    "so_socket os ty k = (r, k') \<Longrightarrow> r = -1 \<and> opened k' = opened k \<or> r \<notin> opened k \<and> opened k' = insert r (opened k)"
    "so_close os fd k = (r, k') \<Longrightarrow> fd \<in> opened k \<Longrightarrow> r = 0 \<and> opened k' = opened k - {fd}"
    "so_nbio os fd v k = (r, k') \<Longrightarrow> opened k' = opened k"
proof -
  note D = assms [unfolded sock_fds_def]
  show "opened k \<subseteq> {0..<2147483648}" using D [THEN conjunct1] by blast
  show "so_socket os ty k = (r, k') \<Longrightarrow> r = -1 \<and> opened k' = opened k \<or> r \<notin> opened k \<and> opened k' = insert r (opened k)"
    using D [THEN conjunct2, THEN conjunct1] by blast
  show "so_close os fd k = (r, k') \<Longrightarrow> fd \<in> opened k \<Longrightarrow> r = 0 \<and> opened k' = opened k - {fd}"
    using D [THEN conjunct2, THEN conjunct2, THEN conjunct1] by blast
  show "so_nbio os fd v k = (r, k') \<Longrightarrow> opened k' = opened k"
    using D [THEN conjunct2, THEN conjunct2, THEN conjunct2] by blast
qed

lemma sock_fd_of: "0 \<le> fd \<Longrightarrow> fd < 2147483648 \<Longrightarrow> sock_fd (sock_of fd) = fd"
  by (simp add: sock_fd_def sock_of_def ucast_eq sint_word_ariths signed_of_int signed_take_bit_int_eq_self
    uint_word_of_int_eq take_bit_int_eq_self)

lemma sock_of_valid: "0 \<le> fd \<Longrightarrow> fd < 2147483648 \<Longrightarrow> sock_of fd \<noteq> INVALID_SOCKET"
proof
  assume "0 \<le> fd" "fd < 2147483648" "sock_of fd = INVALID_SOCKET"
  then have "uint (sock_of fd) = uint (- 1 :: u64_t)" by simp
  then show False using \<open>0 \<le> fd\<close> \<open>fd < 2147483648\<close>
    by (simp add: sock_of_def unsigned_of_int take_bit_int_eq_self unsigned_minus_1_eq_mask mask_eq_exp_minus_1)
qed

lemma sock_of_minus_1: "sock_of (-1) = INVALID_SOCKET"
  by (simp add: sock_of_def)

text \<open>The descriptor an object is responsible for.\<close>

definition sk_owned :: "socket_obj \<Rightarrow> int set" where
  "sk_owned s = (if sk_is_valid s then {sock_fd (m_sock s)} else {})"

definition sk_ok :: "('k \<Rightarrow> int set) \<Rightarrow> int set \<Rightarrow> socket_obj \<Rightarrow> 'k \<Rightarrow> bool" where
  "sk_ok opened B s k \<longleftrightarrow> opened k = B \<union> sk_owned s \<and> B \<inter> sk_owned s = {} \<and>
     (sk_is_valid s \<longrightarrow> m_sock s = sock_of (sock_fd (m_sock s)))"

text \<open>Calls on one object: \<open>B\<close> are the descriptors that the program holds besides.\<close>

datatype sk_call = SkCreate u64_t | SkClose | SkAttach socket_t | SkDetach

fun sk_step :: "'k sock_os \<Rightarrow> sk_call \<Rightarrow> socket_obj \<times> 'k \<times> int set \<Rightarrow> socket_obj \<times> 'k \<times> int set" where
  "sk_step os (SkCreate nbio) (s, k, B) = (case sk_create_stream os nbio s k of (_, s, k) \<Rightarrow> (s, k, B))"
| "sk_step os SkClose (s, k, B) = (case sk_close_socket os s k of (_, s, k) \<Rightarrow> (s, k, B))"
| "sk_step os (SkAttach sock) (s, k, B) = (case sk_attach os sock s k of (_, s, k) \<Rightarrow> (s, k, B - sk_owned s))"
| "sk_step os SkDetach (s, k, B) = (case sk_detach s of (_, s') \<Rightarrow> (s', k, B \<union> sk_owned s))"

fun sk_admissible :: "sk_call \<Rightarrow> socket_obj \<times> 'k \<times> int set \<Rightarrow> bool" where
  "sk_admissible (SkAttach sock) (s, k, B) \<longleftrightarrow> sock = INVALID_SOCKET \<or> sock = m_sock s \<or> (\<exists>fd \<in> B. sock = sock_of fd)"
| "sk_admissible _ _ \<longleftrightarrow> True"

fun sk_run :: "'k sock_os \<Rightarrow> sk_call list \<Rightarrow> socket_obj \<times> 'k \<times> int set \<Rightarrow> (socket_obj \<times> 'k \<times> int set) option" where
  "sk_run os [] z = Some z"
| "sk_run os (c # cs) z = (if sk_admissible c z then sk_run os cs (sk_step os c z) else None)"

lemma sk_ok_close:
  assumes "sock_fds os opened" "sk_ok opened B s k" "sk_is_valid s" "so_close os (sock_fd (m_sock s)) k = (r, k')"
  shows "r = 0" "opened k' = B"
  using sock_fdsD(3) [OF assms(1,4)] assms(2,3) by (auto simp: sk_ok_def sk_owned_def)

lemma sk_close_ok:
  assumes "sock_fds os opened" "sk_ok opened B s k" "sk_close_socket os s k = (b, s', k')"
  shows "sk_ok opened B s' k' \<and> \<not> sk_is_valid s' \<and> opened k' = B"
proof (cases "sk_is_valid s")
  case True
  obtain r k1 where c: "so_close os (sock_fd (m_sock s)) k = (r, k1)" by fastforce
  show ?thesis
    using sk_ok_close [OF assms(1,2) True c] c assms(3) True
    by (auto simp: sk_close_socket_def sk_is_valid_def sk_ok_def sk_owned_def)
next
  case False
  then show ?thesis using assms(2,3) by (auto simp: sk_close_socket_def sk_is_valid_def sk_ok_def sk_owned_def)
qed

lemma sk_create_ok:
  assumes fds: "sock_fds os opened" and ok: "sk_ok opened B s k" and "sk_create_stream os nbio s k = (b, s', k')"
  shows "sk_ok opened B s' k' \<and> (b \<longrightarrow> sk_is_valid s')"
proof -
  obtain r0 k0 where c: "(if m_sock s \<noteq> INVALID_SOCKET then so_close os (sock_fd (m_sock s)) k else (0, k)) = (r0, k0)"
    by fastforce
  have k0: "opened k0 = B"
    using sk_ok_close(2) [OF fds ok, of r0 k0] c ok
    by (cases "sk_is_valid s") (auto simp: sk_is_valid_def sk_ok_def sk_owned_def)
  obtain fd k1 where f: "so_socket os SOCK_STREAM k0 = (fd, k1)" by fastforce
  obtain e k2 where e: "so_nbio os (sock_fd (sock_of fd)) nbio k1 = (e, k2)" by fastforce
  note F = sock_fdsD(2) [OF fds f] sock_fdsD(4) [OF fds e]
  have s': "m_sock s' = sock_of fd" "k' = (if sock_of fd = INVALID_SOCKET \<or> nbio = 0 then k1 else k2)"
    "b \<longrightarrow> sock_of fd \<noteq> INVALID_SOCKET"
    using assms(3) c f e by (auto simp: sk_create_stream_def sk_create_socket_def Let_def split: if_splits)
  show ?thesis
  proof (cases "fd = -1")
    case True
    then show ?thesis
      using s' F k0 sock_fdsD(1) [OF fds, of k1] sock_of_minus_1
      by (auto simp: sk_ok_def sk_is_valid_def sk_owned_def)
  next
    case False
    then have "0 \<le> fd" "fd < 2147483648" using F(1) sock_fdsD(1) [OF fds, of k1] by auto
    then show ?thesis
      using s' F k0 False sock_fd_of [of fd] sock_of_valid [of fd]
      by (auto simp: sk_ok_def sk_is_valid_def sk_owned_def)
  qed
qed

lemma sk_attach_ok:
  assumes fds: "sock_fds os opened" and ok: "sk_ok opened B s k" and "sk_attach os sock s k = (b, s', k')"
    and adm: "sk_admissible (SkAttach sock) (s, k, B)"
  shows "sk_ok opened (B - sk_owned s') s' k'"
proof (cases "sock = INVALID_SOCKET \<or> m_sock s = sock")
  case True
  then have "s' = s" "k' = k" using assms(3) by (auto simp: sk_attach_def split: if_splits)
  moreover have "B - sk_owned s = B" using ok by (auto simp: sk_ok_def)
  ultimately show ?thesis using ok by simp
next
  case False
  then obtain fd where fd: "fd \<in> B" "sock = sock_of fd" using adm by auto
  have rng: "0 \<le> fd" "fd < 2147483648" using fd(1) ok sock_fdsD(1) [OF fds, of k] by (auto simp: sk_ok_def)
  obtain r0 k0 where c: "(if m_sock s \<noteq> INVALID_SOCKET then so_close os (sock_fd (m_sock s)) k else (0, k)) = (r0, k0)"
    by fastforce
  have "opened k0 = B"
    using sk_ok_close(2) [OF fds ok, of r0 k0] c ok
    by (cases "sk_is_valid s") (auto simp: sk_is_valid_def sk_ok_def sk_owned_def)
  moreover have "m_sock s' = sock" "k' = k0" using assms(3) False c by (auto simp: sk_attach_def)
  ultimately show ?thesis
    using fd rng sock_fd_of [of fd] sock_of_valid [of fd] by (auto simp: sk_ok_def sk_is_valid_def sk_owned_def)
qed

lemma sk_step_ok:
  assumes "sock_fds os opened" "sk_ok opened B s k" "sk_admissible c (s, k, B)" "sk_step os c (s, k, B) = (s', k', B')"
  shows "sk_ok opened B' s' k'"
proof (cases c)
  case (SkCreate nbio)
  then show ?thesis using sk_create_ok [OF assms(1,2)] assms(4) by (auto split: prod.splits)
next
  case SkClose
  then show ?thesis using sk_close_ok [OF assms(1,2)] assms(4) by (auto split: prod.splits)
next
  case (SkAttach sock)
  then show ?thesis using sk_attach_ok [OF assms(1,2), of sock] assms(3,4) by (auto split: prod.splits)
next
  case SkDetach
  then show ?thesis using assms(2,4) by (auto simp: sk_detach_def sk_ok_def sk_owned_def sk_is_valid_def)
qed

lemma sk_run_ok:
  assumes "sock_fds os opened"
  shows "sk_ok opened B s k \<Longrightarrow> sk_run os cs (s, k, B) = Some (s', k', B') \<Longrightarrow> sk_ok opened B' s' k'"
proof (induction cs arbitrary: s k B)
  case (Cons c cs)
  obtain s1 k1 B1 where st: "sk_step os c (s, k, B) = (s1, k1, B1)" by (metis prod.exhaust)
  show ?case using Cons.IH [OF sk_step_ok [OF assms Cons.prems(1) _ st]] Cons.prems(2) st by (simp split: if_splits)
qed simp

subsection \<open>A system in memory\<close>

text \<open>
  The bytes to receive, at most four at a time, the bytes sent, of which at most fifty are
  carried, the time and the open descriptors.
\<close>

record mem_net =
  mn_in :: "u8_t list"
  mn_out :: "u8_t list"
  mn_now :: nat
  mn_open :: "int list"

definition mn_tx :: "mem_net \<Rightarrow> u8_t list" where
  "mn_tx k = take 50 (mn_out k)"

definition mn_fds :: "mem_net \<Rightarrow> int set" where
  "mn_fds k = set (mn_open k) \<inter> {0..<2147483648}"

definition mem_os :: "mem_net sock_os" where
  "mem_os = \<lparr>
     so_socket = (\<lambda>_ k. if 3 \<in> set (mn_open k) then (-1, k) else (3, k\<lparr>mn_open := 3 # mn_open k\<rparr>)),
     so_close = (\<lambda>fd k. (if fd \<in> set (mn_open k) then 0 else -1, k\<lparr>mn_open := removeAll fd (mn_open k)\<rparr>)),
     so_shutdown = (\<lambda>_ _ k. (0, k)),
     so_connect = (\<lambda>_ _ k. (Inr (), k)),
     so_bind = (\<lambda>_ _ k. (0, k)),
     so_listen = (\<lambda>_ _ k. (0, k)),
     so_accept = (\<lambda>_ k. ((-1, \<lparr>sin_port = 0, sin_addr = 0\<rparr>), k)),
     so_recv = (\<lambda>_ len peek k. (Inr (take (min 4 len) (mn_in k)),
                  if peek then k else k\<lparr>mn_in := drop (min 4 len) (mn_in k)\<rparr>)),
     so_send = (\<lambda>_ bs _ k. let n = min (length bs) (50 - length (mn_out k)) in
                  if n = 0 then (Inl EAGAIN, k) else (Inr n, k\<lparr>mn_out := mn_out k @ take n bs\<rparr>)),
     so_nbio = (\<lambda>_ v k. (if v = 7 then -1 else 0, k)),
     so_nread = (\<lambda>_ k. (Inr (int (length (mn_in k))), k)),
     so_getopt = (\<lambda>_ _ k. (Some 0, k)),
     so_setopt = (\<lambda>_ _ _ k. (0, k)),
     so_getname = (\<lambda>_ _ k. ((0, \<lparr>sin_port = 0, sin_addr = 0\<rparr>), k)),
     so_select = (\<lambda>wr _ _ k. ((1, wr \<longrightarrow> length (mn_out k) < 50, False), k)),
     so_ticks = (\<lambda>k. (of_nat (mn_now k + 1), k\<lparr>mn_now := mn_now k + 1\<rparr>)),
     so_inet_addr = (\<lambda>_. 0xFFFFFFFF),
     so_host = (\<lambda>_. Some [127, 0, 0, 1])\<rparr>"

lemma mem_os_stream: "sock_stream mem_os fd mn_in mn_tx"
  by (auto simp: sock_stream_def mem_os_def mn_tx_def Let_def min_def split: if_splits)

lemma mem_os_clock: "sock_clock mem_os mn_now"
  by (auto simp: sock_clock_def mem_os_def Let_def call_time_def split: if_splits)

lemma mem_os_fds: "sock_fds mem_os mn_fds"
  by (auto simp: sock_fds_def mem_os_def mn_fds_def split: if_splits)

lemma mn_tx_50: "length (mn_tx k) \<le> 50"
  by (simp add: mn_tx_def)

end
