(* ===== verification/GclSocketProps.thy ===== *)
theory GclSocketProps
  imports GclSocketFds
begin

section \<open>Sockets: properties\<close>

text \<open>
  The properties of \<open>gsocket\<close>, of the class \<open>Socket\<close> and of its sample. The system is assumed to
  behave as a connected stream socket (\<open>sock_stream\<close>), to keep a clock (\<open>sock_clock\<close>) or to hand
  out descriptors (\<open>sock_fds\<close>).
\<close>

subsection \<open>Reading and writing\<close>

text \<open>
  C14: \<open>gsock_read\<close> returns within its deadline, counted in turns of its loop: with the count of the
  bytes it has taken from the stream and put into the buffer, in order, the rest of the buffer
  unchanged; or with -1, then some bytes may have been taken all the same.
\<close>
theorem gsock_read_spec:
  assumes "sock_stream os (sock_fd sock) rx tx" "sock_clock os now" "unat sock < 1024"
    and "0 \<le> n" "n \<le> int (length buf)" "n < 2147483648"
    and "unat timeout \<le> 536870912" "deadline timeout \<le> turns"
  shows "\<exists>r buf' k' c. gsock_read os turns sock buf n timeout k = Inr (r, buf', k') \<and> 0 \<le> c \<and> c \<le> n
    \<and> (r = -1 \<or> r = c) \<and> rx k = take (nat c) buf' @ rx k' \<and> length buf' = length buf
    \<and> drop (nat c) buf' = drop (nat c) buf \<and> tx k' = tx k"
  by (rule read_total [OF assms]) blast

theorem gsock_read_spec_witness:
  "\<exists>r buf' k' c. gsock_read mem_os 2000000 3 [0, 0, 0, 0, 0, 0] 6 1 \<lparr>mn_in = [1, 2, 3, 4, 5, 6, 7, 8, 9], mn_out = [], mn_now = 0, mn_open = [3]\<rparr> = Inr (r, buf', k') \<and> 0 \<le> c \<and> c \<le> 6
    \<and> (r = -1 \<or> r = c) \<and> [1, 2, 3, 4, 5, 6, 7, 8, 9] = take (nat c) buf' @ mn_in k' \<and> length buf' = length [0, 0, 0, 0, 0, 0 :: u8_t]
    \<and> drop (nat c) buf' = drop (nat c) [0, 0, 0, 0, 0, 0] \<and> mn_tx k' = []"
  using gsock_read_spec [OF mem_os_stream mem_os_clock, of 3 6 "[0, 0, 0, 0, 0, 0]" 1 2000000 "\<lparr>mn_in = [1, 2, 3, 4, 5, 6, 7, 8, 9], mn_out = [], mn_now = 0, mn_open = [3]\<rparr>"]
  by (simp add: deadline_def mn_tx_def)

text \<open>
  \<open>gsock_write\<close> returns within its deadline: with the count of the bytes of the buffer it has
  sent, from the first on; or with -1, then some bytes may have been sent all the same.
\<close>
theorem gsock_write_spec:
  assumes "sock_stream os (sock_fd sock) rx tx" "sock_clock os now" "unat sock < 1024"
    and "0 \<le> n" "n \<le> int (length buf)" "n < 2147483648"
    and "unat timeout \<le> 536870912" "deadline timeout \<le> turns"
  shows "\<exists>r k' c. gsock_write os turns sock buf n timeout k = Inr (r, k') \<and> 0 \<le> c \<and> c \<le> n
    \<and> (r = -1 \<or> r = c) \<and> tx k' = tx k @ take (nat c) buf \<and> rx k' = rx k"
  by (rule write_total [OF assms]) blast

theorem gsock_write_spec_witness:
  "\<exists>r k' c. gsock_write mem_os 2000000 3 [7, 8, 9] 3 1 \<lparr>mn_in = [], mn_out = [], mn_now = 0, mn_open = [3]\<rparr> = Inr (r, k') \<and> 0 \<le> c \<and> c \<le> 3
    \<and> (r = -1 \<or> r = c) \<and> mn_tx k' = take (nat c) [7, 8, 9] \<and> mn_in k' = []"
  using gsock_write_spec [OF mem_os_stream mem_os_clock, of 3 3 "[7, 8, 9]" 1 2000000 "\<lparr>mn_in = [], mn_out = [], mn_now = 0, mn_open = [3]\<rparr>"]
  by (simp add: deadline_def mn_tx_def)

text \<open>
  When the peer has closed the connection and the deadline does not fit into the 32 bits in which
  the elapsed time is counted, \<open>gsock_read\<close> never returns: it takes turns without sleeping.
\<close>
theorem gsock_read_eof_spins:
  assumes "\<forall>len k. \<exists>k'. so_recv os (sock_fd sock) len False k = (Inr [], k')"
    and "\<forall>tv k. \<exists>k'. so_select os False (sock_fd sock) tv k = ((1, True, False), k')"
    and "\<forall>k. \<exists>k'. so_getopt os (sock_fd sock) SO_ERROR k = (Some 0, k')"
    and "unat sock < 1024" "0 < n" "4294967295 \<le> unat timeout"
  shows "gsock_read os turns sock buf n timeout k = Inl Diverges"
proof -
  have x: "\<exists>k'. recv_xfer os sock 0 n (buf, k) = Inr (Inr 0, buf, k')" for k
    using assms(1) [rule_format, of "size_of n" k] by (auto simp: recv_xfer_def recv_at_def overwrite_def)
  have ready: "\<exists>k'. gsock_is_readable os sock t k = Inr (True, k')" for t k
  proof -
    obtain k1 where s: "so_select os False (sock_fd sock) (gsock_timeval t) k = ((1, True, False), k1)" using assms(2) by blast
    obtain k2 where "so_getopt os (sock_fd sock) SO_ERROR k1 = (Some 0, k2)" using assms(3) by blast
    then show ?thesis
      using s assms(4) by (simp add: gsock_is_readable_def gsock_check_readable_def gsock_get_error_def)
  qed
  have "unat (ucast (e :: u32_t) :: u64_t) \<le> unat timeout" for e
    using unat_lt_32 [of e] assms(6) by (simp add: unat_ucast_32_64)
  then have late: "\<not> timeout < ucast (e :: u32_t)" for e by (simp add: word_less_nat_alt not_less)
  have loop: "io_loop os (gsock_is_readable os sock) (recv_xfer os sock) turns n timeout tm1 0 (buf, k) = Inl Diverges" for tm1 k
  proof (induction turns arbitrary: k)
    case (Suc turns)
    obtain k1 where x1: "recv_xfer os sock 0 n (buf, k) = Inr (Inr 0, buf, k1)" using x by blast
    obtain t k2 where t: "so_ticks os k1 = (t, k2)" by fastforce
    let ?e = "ucast (elapsed_msec t tm1) :: u64_t"
    obtain k3 where "gsock_is_readable os sock (timeout - ?e) k2 = Inr (True, k3)" using ready by blast
    then have "io_continue os (gsock_is_readable os sock) n timeout tm1 0 k1 = Inr (True, k3)"
      using t late assms(5) by (simp add: io_continue_def Let_def)
    then show ?case using x1 Suc.IH [of k3] by simp
  qed simp
  obtain k1 where x1: "recv_xfer os sock 0 n (buf, k) = Inr (Inr 0, buf, k1)" using x by blast
  have "timeout \<noteq> 0" using assms(6) by auto
  then show ?thesis using x1 loop assms(5) by (simp add: gsock_read_def io_timed_def Let_def split: prod.splits)
qed

theorem gsock_read_eof_spins_witness:
  "gsock_read (mem_os\<lparr>so_recv := \<lambda>_ _ _ k. (Inr [], k)\<rparr>) 5 3 [0, 0] 2 4294967295 \<lparr>mn_in = [], mn_out = [], mn_now = 0, mn_open = [3]\<rparr> = Inl Diverges"
  by (rule gsock_read_eof_spins) (simp_all add: mem_os_def)

text \<open>
  A V packet that \<open>writevp\<close> reports as written is read by \<open>readvp\<close> at the other end, whatever
  pieces the two systems cut it into: when \<open>readvp\<close> reports success it has the same packet.
\<close>
theorem gsock_vpacket_roundtrip:
  assumes "sock_stream os (sock_fd sock) rx tx" "sock_clock os now" "unat sock < 1024"
    and "sock_stream os' (sock_fd sock') rx' tx'" "sock_clock os' now'" "unat sock' < 1024"
    and "unat timeout \<le> 536870912" "deadline timeout \<le> turns"
    and "gsock_writevp os turns sock vp timeout k = Inr (True, k1)" "rx' k' = drop (length (tx k)) (tx k1)"
  shows "\<exists>ok vp' k2. gsock_readvp os' turns sock' vp0 timeout k' = Inr (ok, vp', k2) \<and> (ok \<longrightarrow> vp' = vp \<and> rx' k2 = [])"
proof -
  obtain r k2 c where w: "gsock_write os turns sock (vp_bytes vp) 4 timeout k = Inr (r, k2)" "0 \<le> c" "c \<le> 4" "r = -1 \<or> r = c"
    "tx k2 = tx k @ take (nat c) (vp_bytes vp)"
    by (rule write_total [OF assms(1-3) _ _ _ assms(7,8), of 4 "vp_bytes vp" k]) simp_all
  have "r = 4" "k2 = k1" using assms(9) w(1) by (auto simp: gsock_writevp_def gsock_writen_def)
  then have sent: "rx' k' = vp_bytes vp" using w(4,5) assms(10) by auto
  obtain r' b k3 d where rd: "gsock_read os' turns sock' (vp_bytes vp0) 4 timeout k' = Inr (r', b, k3)" "0 \<le> d" "d \<le> 4"
    "r' = -1 \<or> r' = d" "rx' k' = take (nat d) b @ rx' k3" "length b = length (vp_bytes vp0)"
    by (rule read_total [OF assms(4-6) _ _ _ assms(7,8), of 4 "vp_bytes vp0" k']) simp_all
  have "r' = 4 \<longrightarrow> b = vp_bytes vp \<and> rx' k3 = []"
  proof
    assume "r' = 4"
    then have "vp_bytes vp = b @ rx' k3" using rd(4,5,6) sent by auto
    then show "b = vp_bytes vp \<and> rx' k3 = []" using rd(6) by (metis append_eq_append_conv append_Nil2 length_vp_bytes)
  qed
  then show ?thesis using rd(1) by (auto simp: gsock_readvp_def gsock_readn_def vp_of_bytes_vp_bytes)
qed

theorem gsock_vpacket_roundtrip_witness:
  "\<exists>k1 ok vp' k2. gsock_writevp mem_os 2000000 3 \<lparr>vp_type = 1, vp_code = 2, vp_dlen = 3\<rparr> 1 \<lparr>mn_in = [], mn_out = [], mn_now = 0, mn_open = [3]\<rparr> = Inr (True, k1)
    \<and> gsock_readvp mem_os 2000000 3 \<lparr>vp_type = 0, vp_code = 0, vp_dlen = 0\<rparr> 1
        \<lparr>mn_in = mn_tx k1, mn_out = [], mn_now = 0, mn_open = [3]\<rparr> = Inr (ok, vp', k2)
    \<and> (ok \<longrightarrow> vp' = \<lparr>vp_type = 1, vp_code = 2, vp_dlen = 3\<rparr>)"
proof -
  let ?vp = "\<lparr>vp_type = 1, vp_code = 2, vp_dlen = 3\<rparr>"
  let ?k1 = "\<lparr>mn_in = [], mn_out = vp_bytes ?vp, mn_now = 0, mn_open = [3]\<rparr>"
  have w: "gsock_writevp mem_os 2000000 3 ?vp 1 \<lparr>mn_in = [], mn_out = [], mn_now = 0, mn_open = [3]\<rparr> = Inr (True, ?k1)"
    by (simp add: gsock_writevp_def gsock_writen_def gsock_write_def io_timed_def send_xfer_def send_at_def mem_os_def
      size_of_nat vp_bytes_def)
  show ?thesis
    using gsock_vpacket_roundtrip [OF mem_os_stream mem_os_clock _ mem_os_stream mem_os_clock _ _ _ w,
      of 3 "\<lparr>mn_in = mn_tx ?k1, mn_out = [], mn_now = 0, mn_open = [3]\<rparr>" "\<lparr>vp_type = 0, vp_code = 0, vp_dlen = 0\<rparr>"] w
    by (auto simp: deadline_def mn_tx_def)
qed

text \<open>
  \<open>gsock_simple_reply\<close> sends a reply packet without data with the low eight bits of its code: two
  codes that differ by a multiple of 256 send the same bytes.
\<close>
theorem gsock_simple_reply_truncates:
  "gsock_simple_reply os turns sock (code + 256 * d) timeout k = gsock_simple_reply os turns sock code timeout k"
proof -
  have "(ucast (code + 256 * d) :: u8_t) = ucast code"
    by (rule word_unat_eq_iff [THEN iffD2])
      (simp add: unsigned_ucast_eq unsigned_take_bit_eq take_bit_eq_mod unat_word_ariths mod_mod_cancel mod_add_right_eq)
  then show ?thesis by (simp add: gsock_simple_reply_def)
qed

subsection \<open>The class\<close>

text \<open>
  C17: Whatever is created, closed, attached and detached on one object, the open descriptors are the
  one of the object and those that the program holds itself, and after the destructor only the latter.
\<close>
theorem socket_owns_descriptor:
  assumes "sock_fds os opened" "sk_run os cs (sk_new, k, opened k) = Some (s, k', B)"
  shows "opened k' = B \<union> sk_owned s \<and> B \<inter> sk_owned s = {} \<and> opened (sk_destroy os s k') = B"
proof -
  have "sk_ok opened (opened k) sk_new k" by (simp add: sk_ok_def sk_owned_def sk_new_def sk_is_valid_def)
  then have ok: "sk_ok opened B s k'" by (rule sk_run_ok [OF assms(1) _ assms(2)])
  obtain b s1 k1 where c: "sk_close_socket os s k' = (b, s1, k1)" by (metis prod.exhaust)
  have "opened k1 = B" using sk_close_ok [OF assms(1) ok c] by simp
  then show ?thesis using c ok by (simp add: sk_destroy_def sk_ok_def)
qed

theorem socket_owns_descriptor_witness:
  "\<exists>s k' B. sk_run mem_os [SkCreate 0, SkDetach, SkAttach (sock_of 3), SkCreate 1] (sk_new, \<lparr>mn_in = [], mn_out = [], mn_now = 0, mn_open = []\<rparr>, {}) = Some (s, k', B)
    \<and> mn_fds k' = B \<union> sk_owned s \<and> B \<inter> sk_owned s = {} \<and> mn_fds (sk_destroy mem_os s k') = B"
proof -
  let ?cs = "[SkCreate 0, SkDetach, SkAttach (sock_of 3), SkCreate 1]"
  have "sk_run mem_os ?cs (sk_new, \<lparr>mn_in = [], mn_out = [], mn_now = 0, mn_open = []\<rparr>, {}) \<noteq> None"
    using sock_fd_of [of 3] sock_of_valid [of 3]
    by (simp add: sk_create_stream_def sk_create_socket_def sk_new_def mem_os_def sk_detach_def sk_owned_def sk_is_valid_def
      sk_attach_def Let_def)
  then obtain s k' B where r: "sk_run mem_os ?cs (sk_new, \<lparr>mn_in = [], mn_out = [], mn_now = 0, mn_open = []\<rparr>, {}) = Some (s, k', B)" by auto
  have "mn_fds \<lparr>mn_in = [], mn_out = [], mn_now = 0, mn_open = []\<rparr> = {}" by (simp add: mn_fds_def)
  then have "sk_run mem_os ?cs (sk_new, \<lparr>mn_in = [], mn_out = [], mn_now = 0, mn_open = []\<rparr>, mn_fds \<lparr>mn_in = [], mn_out = [], mn_now = 0, mn_open = []\<rparr>) = Some (s, k', B)" using r by (simp only:)
  then show ?thesis using socket_owns_descriptor [OF mem_os_fds] r by (intro exI conjI) blast+
qed

text \<open>
  \<open>gsock_create_socket\<close> loses the descriptor when it cannot be made non-blocking: the caller gets
  the invalid socket, one more descriptor is open. The class keeps it until it is destroyed.
\<close>
theorem gsock_create_socket_leak:
  assumes "sock_fds os opened" "so_socket os SOCK_STREAM k = (fd, k1)" "fd \<noteq> -1" "nbio \<noteq> 0"
    and "so_nbio os fd nbio k1 = (e, k2)" "e \<noteq> 0"
  shows "gsock_create_socket os SOCK_STREAM nbio k = (INVALID_SOCKET, k2) \<and> opened k2 = insert fd (opened k)
    \<and> fd \<notin> opened k \<and> (case sk_create_stream os nbio sk_new k of (_, s, k') \<Rightarrow> opened (sk_destroy os s k')) = opened k"
proof (intro conjI)
  note F = sock_fdsD(2) [OF assms(1,2)] sock_fdsD(4) [OF assms(1,5)]
  show "opened k2 = insert fd (opened k)" "fd \<notin> opened k" using F assms(3) by auto
  have "0 \<le> fd" "fd < 2147483648" using F(1) assms(3) sock_fdsD(1) [OF assms(1), of k1] by auto
  then show "gsock_create_socket os SOCK_STREAM nbio k = (INVALID_SOCKET, k2)"
    using assms(2-6) sock_fd_of [of fd] sock_of_valid [of fd] by (simp add: gsock_create_socket_def Let_def)
  obtain b s k' where c: "sk_create_stream os nbio sk_new k = (b, s, k')" by (metis prod.exhaust)
  have "sk_ok opened (opened k) sk_new k" by (simp add: sk_ok_def sk_owned_def sk_new_def sk_is_valid_def)
  then have "sk_ok opened (opened k) s k'" using sk_create_ok [OF assms(1) _ c] by blast
  moreover obtain b' s1 k3 where d: "sk_close_socket os s k' = (b', s1, k3)" by (metis prod.exhaust)
  ultimately show "(case sk_create_stream os nbio sk_new k of (_, s, k') \<Rightarrow> opened (sk_destroy os s k')) = opened k"
    using sk_close_ok [OF assms(1), of "opened k" s k' b' s1 k3] c d by (simp add: sk_destroy_def)
qed

theorem gsock_create_socket_leak_witness:
  "gsock_create_socket mem_os 1 7 \<lparr>mn_in = [], mn_out = [], mn_now = 0, mn_open = []\<rparr> = (INVALID_SOCKET, \<lparr>mn_in = [], mn_out = [], mn_now = 0, mn_open = [3]\<rparr>) \<and> mn_fds \<lparr>mn_in = [], mn_out = [], mn_now = 0, mn_open = [3]\<rparr> = {3}"
proof -
  have s: "so_socket mem_os SOCK_STREAM \<lparr>mn_in = [], mn_out = [], mn_now = 0, mn_open = []\<rparr> = (3, \<lparr>mn_in = [], mn_out = [], mn_now = 0, mn_open = [3]\<rparr>)" by (simp add: mem_os_def)
  have n: "so_nbio mem_os 3 7 \<lparr>mn_in = [], mn_out = [], mn_now = 0, mn_open = [3]\<rparr> = (-1, \<lparr>mn_in = [], mn_out = [], mn_now = 0, mn_open = [3]\<rparr>)" by (simp add: mem_os_def)
  show ?thesis using gsock_create_socket_leak [OF mem_os_fds s _ _ n] by (simp add: mn_fds_def)
qed

text \<open>
  C39: A descriptor survives the way into a \<open>socket_t\<close> and back into the \<open>int\<close> of a call, exactly
  the answer -1 becomes the invalid socket, and different descriptors stay different.
\<close>
theorem socket_type_holds_descriptors:
  assumes "-1 \<le> fd" "fd < 2147483648" "-1 \<le> fd'" "fd' < 2147483648"
  shows "sock_fd (sock_of fd) = fd \<and> (sock_of fd = INVALID_SOCKET \<longleftrightarrow> fd = -1) \<and> (sock_of fd = sock_of fd' \<longleftrightarrow> fd = fd')
    \<and> sk_is_valid (sk_of (sock_of fd)) = (fd \<noteq> -1)"
proof -
  have round: "sock_fd (sock_of x) = x" if "-1 \<le> x" "x < 2147483648" for x
  proof (cases "x = -1")
    case False
    then show ?thesis using that sock_fd_of [of x] by simp
  next
    case True
    have "(ucast (- 1 :: u64_t) :: u32_t) = - 1" by (rule bit_word_eqI) (simp add: bit_simps)
    then show ?thesis using True by (simp add: sock_fd_def sock_of_def)
  qed
  have inv: "sock_of fd = INVALID_SOCKET \<longleftrightarrow> fd = -1"
    using sock_of_valid [of fd] assms(1,2) sock_of_minus_1 by (cases "fd = -1") auto
  have inj: "sock_of fd = sock_of fd' \<longleftrightarrow> fd = fd'"
    using round [OF assms(1,2)] round [OF assms(3,4)] by metis
  have "sk_is_valid (sk_of (sock_of fd)) = (sock_of fd \<noteq> INVALID_SOCKET)" by (simp only: sk_is_valid_def sk_of_def socket_obj.simps)
  then show ?thesis unfolding inv inj using round [OF assms(1,2)] by blast
qed

theorem socket_type_holds_descriptors_witness:
  "sock_fd (sock_of 5) = 5 \<and> sock_of 5 \<noteq> INVALID_SOCKET \<and> sock_of 5 \<noteq> sock_of (-1)"
  using socket_type_holds_descriptors [of 5 "-1"] by simp

subsection \<open>Addresses, readiness\<close>

text \<open>
  \<open>connect\<close> on a valid socket passes the address as given and the port in network byte order, and
  answers whether the connection is there or on its way; on an invalid socket it does nothing.
\<close>
theorem gsock_connect_spec:
  assumes "0 \<le> port" "port < 65536"
  shows "int (unat (sin_port (gsock_sockaddr ip port))) = port mod 256 * 256 + port div 256 \<and>
    sin_addr (gsock_sockaddr ip port) = ucast ip \<and>
    gsock_connect os sock ip port k =
      (if sock = INVALID_SOCKET then (False, k)
       else let (r, k') = so_connect os (sock_fd sock) (gsock_sockaddr ip port) k in (r = Inr () \<or> r = Inl EINPROGRESS, k'))"
proof -
  let ?w = "word_of_int port :: u16_t"
  have w: "int (unat ?w) = port" using assms by (simp add: unsigned_of_int take_bit_int_eq_self)
  have "unat (htons ?w) = unat ?w mod 256 * 256 + unat ?w div 256"
  proof -
    have small: "unat ?w < 65536" using unsigned_less [of ?w] by simp
    have disj: "push_bit 8 ?w AND drop_bit 8 ?w = 0"
    proof (rule bit_word_eqI)
      fix i assume "i < LENGTH(16)"
      then show "bit (push_bit 8 ?w AND drop_bit 8 ?w) i = bit (0 :: u16_t) i"
        using bit_imp_le_length [of ?w "i + 8"] by (auto simp: bit_simps)
    qed
    have "htons ?w = push_bit 8 ?w + drop_bit 8 ?w"
      using disj by (simp add: htons_def disjunctive_add_eq_or)
    moreover have "unat (push_bit 8 ?w) = unat ?w mod 256 * 256"
      using mult_mod_left [of "unat ?w" 256 256] by (simp add: push_bit_eq_mult unat_word_ariths mult.commute)
    moreover have "unat (drop_bit 8 ?w) = unat ?w div 256"
      by (simp add: drop_bit_eq_div unat_div_word)
    ultimately show ?thesis using small by (simp add: unat_word_ariths)
  qed
  then have "int (unat (htons ?w)) = port mod 256 * 256 + port div 256"
    using w by (simp add: of_nat_mod of_nat_div)
  then show ?thesis
    by (auto simp: gsock_sockaddr_def gsock_connect_def split: prod.splits sum.splits)
qed

theorem gsock_connect_spec_witness:
  "int (unat (sin_port (gsock_sockaddr 0x0100007F 5100))) = 60435 \<and>
    gsock_connect mem_os 3 0x0100007F 5100 \<lparr>mn_in = [], mn_out = [], mn_now = 0, mn_open = [3]\<rparr> = (True, \<lparr>mn_in = [], mn_out = [], mn_now = 0, mn_open = [3]\<rparr>)"
proof -
  have "so_connect mem_os fd sa k = (Inr (), k)" for fd sa k by (simp add: mem_os_def)
  then show ?thesis using gsock_connect_spec [of 5100 "0x0100007F" mem_os 3 "\<lparr>mn_in = [], mn_out = [], mn_now = 0, mn_open = [3]\<rparr>"] by simp
qed

text \<open>
  A host name that is not an address in dots is read with eight bytes from the four bytes of its
  IPv4 address: \<open>gsock_hostaddr\<close> and \<open>gsock_connect_by_name\<close> read beyond its end.
\<close>
theorem gsock_hostaddr_overread:
  assumes "so_inet_addr os name = 0xFFFFFFFF" "so_host os name = Some mem" "length mem = 4"
  shows "gsock_hostaddr os name = Inl OutOfBounds \<and> gsock_connect_by_name os sock name port k = Inl OutOfBounds"
  using assms by (simp add: gsock_hostaddr_def gsock_connect_by_name_def load_u_long_def)

theorem gsock_hostaddr_overread_witness:
  "gsock_hostaddr mem_os localhost = Inl OutOfBounds \<and> gsock_connect_by_name mem_os 3 localhost 5100 \<lparr>mn_in = [], mn_out = [], mn_now = 0, mn_open = [3]\<rparr> = Inl OutOfBounds"
  by (rule gsock_hostaddr_overread [of mem_os localhost "[127, 0, 0, 1]"]) (simp_all add: mem_os_def)

text \<open>
  The readiness checks take any number as a descriptor: from \<open>FD_SETSIZE\<close> on, the invalid socket
  included, they write outside of the set. \<open>gsock_read\<close> gets there with a deadline as soon as the
  first turn has not filled the buffer.
\<close>
theorem gsock_ready_out_of_set:
  assumes "1024 \<le> unat sock"
  shows "gsock_is_readable os sock timeout k = Inl OutOfBounds \<and> gsock_is_writable os sock timeout k = Inl OutOfBounds
    \<and> gsock_is_writable os INVALID_SOCKET timeout k = Inl OutOfBounds"
  using fd_setsize [OF assms, of os timeout k] fd_setsize [of INVALID_SOCKET os timeout k]
  by (simp add: unsigned_minus_1_eq_mask mask_eq_exp_minus_1)

theorem gsock_ready_out_of_set_witness:
  "gsock_is_readable mem_os 1024 10 \<lparr>mn_in = [], mn_out = [], mn_now = 0, mn_open = [3]\<rparr> = Inl OutOfBounds \<and> gsock_is_writable mem_os 1024 10 \<lparr>mn_in = [], mn_out = [], mn_now = 0, mn_open = [3]\<rparr> = Inl OutOfBounds"
  using gsock_ready_out_of_set [of 1024 mem_os 10 "\<lparr>mn_in = [], mn_out = [], mn_now = 0, mn_open = [3]\<rparr>"] by simp

text \<open>
  The client of the sample does not look at the result of \<open>create_socket\<close>: when no descriptor is
  left it asks whether the invalid socket is writable and writes outside of the descriptor set.
\<close>
theorem sample_client_unchecked_socket:
  assumes "so_socket os SOCK_STREAM k = (-1, k1)"
  shows "client_run os turns n buf k = Inl OutOfBounds"
proof -
  let ?gs = "\<lparr>m_sock = INVALID_SOCKET\<rparr>"
  have c: "sk_create_stream os 1 sk_new k = (False, ?gs, k1)"
    using assms sock_of_minus_1 by (simp add: sk_create_stream_def sk_create_socket_def sk_new_def)
  have "gsock_is_writable os INVALID_SOCKET 1000 k' = Inl OutOfBounds" for k'
    using fd_setsize [of INVALID_SOCKET os 1000 k'] by (simp add: unsigned_minus_1_eq_mask mask_eq_exp_minus_1)
  then show ?thesis
    using c by (auto simp: client_run_def sk_connect_by_name_def sk_is_writable_def gsock_connect_by_name_def
      load_u_long_def gsock_connect_def Let_def split: option.split)
qed

theorem sample_client_unchecked_socket_witness:
  "client_run mem_os 5 5 [0, 0, 0] \<lparr>mn_in = [], mn_out = [], mn_now = 0, mn_open = [3]\<rparr> = Inl OutOfBounds"
  by (rule sample_client_unchecked_socket [of mem_os _ "\<lparr>mn_in = [], mn_out = [], mn_now = 0, mn_open = [3]\<rparr>"]) (simp add: mem_os_def)

subsection \<open>The sample\<close>

text \<open>
  C13: A connection that carries at most \<open>cap\<close> bytes: the server loop returns, having written messages
  0 to \<open>c\<close>, the last one perhaps in part. The client loop, fed with any part of it from the
  beginning, returns as well, and what it prints is a prefix of the messages in order.
\<close>
theorem sample_messages_arrive:
  assumes "sock_stream os (sock_fd (m_sock s)) rx tx" "sock_clock os now" "unat (m_sock s) < 1024"
    and "sock_stream os' (sock_fd (m_sock s')) rx' tx'" "unat (m_sock s') < 1024"
    and "deadline 1000 \<le> turns" "cap < n" "n \<le> 10000000000" "tx k = []" "1 < length buf" "length buf < 2147483648"
    and cap: "\<And>k. length (tx k) \<le> cap"
  shows "\<exists>c k1. serve_loop os turns n 0 s k = Inr (c, k1) \<and>
    prefix (concat (map hello_msg [0..<c - 1])) (tx k1) \<and> prefix (tx k1) (concat (map hello_msg [0..<c])) \<and>
    (\<forall>k'. prefix (rx' k') (tx k1) \<longrightarrow> (\<exists>texts k2. client_loop os' turns n buf s' [] k' = Inr (texts, k2) \<and>
       prefix (concat texts) (concat (map hello_msg [0..<c]))))"
proof -
  obtain c k1 where s: "serve_loop os turns n 0 s k = Inr (c, k1)" "served 0 c (tx k1)"
    using serve_loop_total [OF assms(1-3) cap assms(6), of n k 0] assms(7-9) by auto
  have p: "prefix (tx k1) (concat (map hello_msg [0..<c]))" "prefix (concat (map hello_msg [0..<c - 1])) (tx k1)"
    using s(2) by (cases "0 < c"; simp add: served_def)+
  have no0: "0 \<notin> set (concat (map hello_msg [0..<c]))" using hello_no_0 by auto
  have client: "\<exists>texts k2. client_loop os' turns n buf s' [] k' = Inr (texts, k2) \<and>
      prefix (concat texts) (concat (map hello_msg [0..<c]))" if k': "prefix (rx' k') (tx k1)" for k'
  proof -
    have few: "length (rx' k') < n" "0 \<notin> set (rx' k')"
      using prefix_length_le [OF k'] cap [of k1] assms(7) no0 set_mono_prefix [OF k'] set_mono_prefix [OF p(1)] by auto
    obtain texts k2 where "client_loop os' turns n buf s' [] k' = Inr ([] @ texts, k2)" "rx' k' = concat texts @ rx' k2"
      using client_loop_total [OF assms(4,5,10,11) few refl] by blast
    moreover have "prefix (concat texts) (rx' k')" using calculation(2) by simp
    ultimately show ?thesis using k' p(1) prefix_order.trans append_Nil by metis
  qed
  show ?thesis using s(1) p client by blast
qed

theorem sample_messages_arrive_witness:
  "\<exists>c k1. serve_loop mem_os 2000000000 51 0 (sk_of 3) \<lparr>mn_in = [], mn_out = [], mn_now = 0, mn_open = [3]\<rparr> = Inr (c, k1) \<and>
    prefix (concat (map hello_msg [0..<c - 1])) (mn_tx k1) \<and>
    (\<exists>texts k2. client_loop mem_os 2000000000 51 [0, 0, 0, 0, 0, 0] (sk_of 3) []
        \<lparr>mn_in = mn_tx k1, mn_out = [], mn_now = 0, mn_open = [3]\<rparr> = Inr (texts, k2) \<and>
       prefix (concat texts) (concat (map hello_msg [0..<c])))"
proof -
  let ?in = "\<lambda>bs. \<lparr>mn_in = bs, mn_out = [], mn_now = 0, mn_open = [3]\<rparr>"
  obtain c k1 where "serve_loop mem_os 2000000000 51 0 (sk_of 3) \<lparr>mn_in = [], mn_out = [], mn_now = 0, mn_open = [3]\<rparr> = Inr (c, k1)"
    "prefix (concat (map hello_msg [0..<c - 1])) (mn_tx k1)"
    and client: "\<forall>k'. prefix (mn_in k') (mn_tx k1) \<longrightarrow> (\<exists>texts k2. client_loop mem_os 2000000000 51 [0, 0, 0, 0, 0, 0] (sk_of 3) [] k'
       = Inr (texts, k2) \<and> prefix (concat texts) (concat (map hello_msg [0..<c])))"
    using sample_messages_arrive [OF mem_os_stream mem_os_clock _ mem_os_stream _ _ _ _ _ _ _ mn_tx_50,
      of "sk_of 3" "sk_of 3" 2000000000 51 "\<lparr>mn_in = [], mn_out = [], mn_now = 0, mn_open = [3]\<rparr>" "[0, 0, 0, 0, 0, 0]"]
    by (auto simp: deadline_def mn_tx_def sk_of_def)
  then show ?thesis using client [rule_format, of "?in (mn_tx k1)"] by auto
qed

subsection \<open>Handing over accepted sockets\<close>

definition ho_exact :: "handover \<Rightarrow> bool" where
  "ho_exact h \<longleftrightarrow> ho_waiting h \<le> 1 \<and> ho_accepted h = ho_served h @ replicate (ho_waiting h) (ho_sock h)"

lemma server_loop_exact:
  assumes "\<And>n. 1 \<le> sched n"
  shows "ho_exact h \<Longrightarrow> server_loop os sched n s h k = Inr (b, h', k') \<Longrightarrow> ho_exact h'"
proof (induction n arbitrary: h k)
  case (Suc n)
  let ?h = "ho_read (sched n) h"
  have rd: "ho_exact ?h" "ho_exact (ho_accept sock ?h)" for sock
    using Suc.prems(1) assms [of n] by (auto simp: ho_exact_def ho_read_def ho_accept_def min_def le_Suc_eq)
  show ?case
    using Suc.prems(2) Suc.IH [OF rd(1)] Suc.IH [OF rd(2)] rd(1)
    by (auto simp: rbind_eq_Inr Let_def split: if_splits prod.splits)
qed simp

text \<open>
  When every thread of the sample server reads its argument before the next turn of the accept
  loop, each accepted socket is served by exactly one thread, in order, the last one perhaps
  still waiting.
\<close>
theorem sample_server_hands_over:
  assumes "\<And>n. 1 \<le> sched n" "server_run os sched n k = Inr (ended, h, k')"
  shows "ho_accepted h = ho_served h @ replicate (ho_waiting h) (ho_sock h) \<and> ho_waiting h \<le> 1"
proof -
  have new: "ho_exact ho_new" by (simp add: ho_exact_def ho_new_def)
  have "ho_exact h"
    using assms(2) new server_loop_exact [OF assms(1) new]
    by (auto simp: server_run_def rbind_eq_Inr split: if_splits prod.splits)
  then show ?thesis by (simp add: ho_exact_def)
qed

theorem sample_server_hands_over_witness:
  "\<exists>h k'. server_run (mem_os\<lparr>so_accept := \<lambda>_ k. ((7, \<lparr>sin_port = 0, sin_addr = 0\<rparr>), k)\<rparr>) (\<lambda>_. 1) 2
      \<lparr>mn_in = [], mn_out = [], mn_now = 0, mn_open = []\<rparr> = Inr (False, h, k')
    \<and> ho_accepted h = ho_served h @ replicate (ho_waiting h) (ho_sock h)"
proof -
  let ?h = "\<lparr>ho_sock = 7, ho_waiting = 1, ho_served = [7], ho_accepted = [7, 7]\<rparr>"
  have r: "server_run (mem_os\<lparr>so_accept := \<lambda>_ k. ((7, \<lparr>sin_port = 0, sin_addr = 0\<rparr>), k)\<rparr>) (\<lambda>_. 1) 2
      \<lparr>mn_in = [], mn_out = [], mn_now = 0, mn_open = []\<rparr>
    = Inr (False, ?h, \<lparr>mn_in = [], mn_out = [], mn_now = 0, mn_open = [3]\<rparr>)"
    by code_simp
  have "ho_accepted ?h = ho_served ?h @ replicate (ho_waiting ?h) (ho_sock ?h)"
    by (rule sample_server_hands_over [OF _ r, THEN conjunct1]) simp
  with r show ?thesis by blast
qed

text \<open>
  A thread that reads its argument late gets the socket of a later connection: with two
  connections accepted before the two threads run, both serve the second socket, and the first
  is served and closed by nobody.
\<close>
theorem sample_server_hands_over_late:
  "let os = mem_os\<lparr>so_accept := \<lambda>_ k. ((5 + int (mn_now k), \<lparr>sin_port = 0, sin_addr = 0\<rparr>), k\<lparr>mn_now := mn_now k + 1\<rparr>)\<rparr>
   in \<exists>h k'. server_run os (\<lambda>n. if n = 0 then 2 else 0) 3 \<lparr>mn_in = [], mn_out = [], mn_now = 0, mn_open = []\<rparr>
        = Inr (False, h, k') \<and> take 2 (ho_accepted h) = [5, 6] \<and> ho_served h = [6, 6]"
proof -
  have "server_run (mem_os\<lparr>so_accept := \<lambda>_ k. ((5 + int (mn_now k), \<lparr>sin_port = 0, sin_addr = 0\<rparr>), k\<lparr>mn_now := mn_now k + 1\<rparr>)\<rparr>)
      (\<lambda>n. if n = 0 then 2 else 0) 3 \<lparr>mn_in = [], mn_out = [], mn_now = 0, mn_open = []\<rparr>
    = Inr (False, \<lparr>ho_sock = 7, ho_waiting = 1, ho_served = [6, 6], ho_accepted = [5, 6, 7]\<rparr>,
        \<lparr>mn_in = [], mn_out = [], mn_now = 3, mn_open = [3]\<rparr>)"
    by code_simp
  then show ?thesis by (simp add: Let_def)
qed

end
