(* ===== verification/GclSampleMains.thy ===== *)
theory GclSampleMains
  imports GclQueSampleProps GclSocketProps
begin

section \<open>Whole programs: \<open>samples/ex-que.cpp\<close> and \<open>samples/ex-socket.cpp\<close>\<close>

text \<open>
  The main functions that choose what runs. \<open>ex-que\<close> runs its \<open>iterator_test\<close>: twenty numbers, read
  forwards and backwards with the iterator. \<open>ex-socket\<close> is the server without an argument and the
  client with one; on Windows between \<open>WSAStartup\<close> and \<open>WSACleanup\<close>.
\<close>

subsection \<open>ex-que\<close>

definition que_iterator_test :: "ptr \<times> (nat \<Rightarrow> u8_t) \<Rightarrow> ptr set \<Rightarrow> (int list \<times> int list \<times> ptr set) res" where
  "que_iterator_test blk live =
     rbind (queue_init 4 20 blk cq_new live) (\<lambda>(_, q, live).
     rbind (que_puts 20 0 q) (\<lambda>q.
     rbind (que_iterate q) (\<lambda>fwd.
     rbind (que_iterate_reverse q) (\<lambda>bwd.
       Inr (map bytes_int fwd, map bytes_int bwd, snd (cq_destroy q live))))))"

definition ex_que_main :: "ptr \<times> (nat \<Rightarrow> u8_t) \<Rightarrow> ptr set \<Rightarrow> (int \<times> (int list \<times> int list) \<times> ptr set) res" where
  "ex_que_main blk live = rbind (que_iterator_test blk live) (\<lambda>(fwd, bwd, live). Inr (0, (fwd, bwd), live))"

text \<open>
  The program prints 0 to 19 and then 19 to 0, both loops over the iterator end, main returns 0 and
  the block of the queue is given back.
\<close>

theorem ex_que_prints:
  assumes "a \<noteq> 0" "unat a + 104 < 2 ^ 64" "a \<notin> live"
  shows "ex_que_main (a, junk) live = Inr (0, (map int [0..<20], rev (map int [0..<20])), live)"
proof -
  obtain q0 where q0: "queue_init 4 20 (a, junk) cq_new live = Inr (True, q0, insert a live)" "ring_view a 4 21 0 [] q0"
    using ring_view_init [of 20 4 a junk live] assms(1,2) by auto
  obtain q1 where q1: "que_puts 20 0 q0 = Inr q1" "ring_view a 4 21 0 (map int_bytes (counted 20 0)) q1"
    using que_puts_view [OF q0(2), of 20 0] by auto
  have c: "counted 20 0 = map int [0..<20]" by (simp add: eval_nat_numeral)
  have "\<not> cq_is_empty q1" using ring_view_counts(5) [OF q1(2)] by (simp add: c)
  then have it: "que_iterate q1 = Inr (map int_bytes (counted 20 0))" "que_iterate_reverse q1 = Inr (rev (map int_bytes (counted 20 0)))"
    using que_iterate_eq que_iterate_reverse_eq ring_viewD(6) [OF q1(2)] ring_view_walk [OF q1(2)] by simp_all
  have b: "map bytes_int (map int_bytes (map int [0..<20])) = map int [0..<20]"
    by (simp add: eval_nat_numeral)
  show ?thesis
    unfolding ex_que_main_def que_iterator_test_def q0(1) rbind_Inr prod.case q1(1) it rev_map [symmetric] c b
    by (simp only: destroy_live [OF q1(2) assms(1,3)])
qed

theorem ex_que_prints_witness: "ex_que_main (4096, \<lambda>_. 0) {} = Inr (0, (map int [0..<20], rev (map int [0..<20])), {})"
  by (rule ex_que_prints) simp_all

subsection \<open>ex-socket\<close>

datatype socket_run = Served bool handover | Printed "u8_t list list"

text \<open>\<open>argc\<close> decides; \<open>sched\<close>, \<open>turns\<close>, \<open>n\<close> and \<open>buf\<close> are those of the two functions.\<close>

definition ex_socket_select ::
    "'k sock_os \<Rightarrow> (nat \<Rightarrow> nat) \<Rightarrow> nat \<Rightarrow> nat \<Rightarrow> u8_t list \<Rightarrow> int \<Rightarrow> 'k \<Rightarrow> (socket_run \<times> 'k) res"
where
  "ex_socket_select os sched turns n buf argc k =
     (if argc \<le> 1 then rbind (server_run os sched n k) (\<lambda>(ended, h, k). Inr (Served ended h, k))
      else rbind (client_run os turns n buf k) (\<lambda>(out, k). Inr (Printed out, k)))"

definition ex_socket_main ::
    "'k sock_os \<Rightarrow> (nat \<Rightarrow> nat) \<Rightarrow> nat \<Rightarrow> nat \<Rightarrow> u8_t list \<Rightarrow> int \<Rightarrow> 'k \<Rightarrow> (int \<times> socket_run \<times> 'k) res"
where
  "ex_socket_main os sched turns n buf argc k =
     rbind (ex_socket_select os sched turns n buf argc k) (\<lambda>(out, k). Inr (0, out, k))"

text \<open>On Windows: \<open>startup\<close> and \<open>cleanup\<close> are \<open>WSAStartup\<close> and \<open>WSACleanup\<close>.\<close>

definition ex_socket_main_win ::
    "('k \<Rightarrow> int \<times> 'k) \<Rightarrow> ('k \<Rightarrow> 'k) \<Rightarrow> 'k sock_os \<Rightarrow> (nat \<Rightarrow> nat) \<Rightarrow> nat \<Rightarrow> nat \<Rightarrow> u8_t list \<Rightarrow> int \<Rightarrow> 'k \<Rightarrow>
     (int \<times> socket_run option \<times> 'k) res"
where
  "ex_socket_main_win startup cleanup os sched turns n buf argc k =
     (case startup k of (r, k) \<Rightarrow>
        if r \<noteq> 0 then Inr (-1, None, k)
        else rbind (ex_socket_select os sched turns n buf argc k) (\<lambda>(out, k). Inr (0, Some out, cleanup k)))"

text \<open>What is the same on both systems: with the library started, the program is the one of POSIX.\<close>

lemma ex_socket_main_win_started:
  assumes "startup k = (0, k0)"
  shows "ex_socket_main_win startup cleanup os sched turns n buf argc k
    = rbind (ex_socket_main os sched turns n buf argc k0) (\<lambda>(r, out, k). Inr (r, Some out, cleanup k))"
  using assms by (cases "ex_socket_select os sched turns n buf argc k0")
    (auto simp: ex_socket_main_win_def ex_socket_main_def)

end
