(* ===== verification/GclList.thy ===== *)
theory GclList
  imports GclInterfaces
begin

section \<open>Linkable and List: \<open>include/glist.h\<close>, \<open>src/glist.cpp\<close>\<close>

text \<open>
  A \<open>Linkable\<close> is a node with a previous and a next pointer; a fresh node points at itself.
  A list is a ring of nodes through a sentinel, the \<open>List\<close> object itself. The store
  \<open>lheap\<close> gives the two fields of the node at every address; an operation updates it field
  by field in the order of the source, so that aliasing (a node appended to itself, a node
  still linked elsewhere) has the effect it has in the code. Lifetimes are not modelled:
  \<open>delete\<close> is the destructor, and the fields of a deleted node keep their values.
\<close>

record lheap =
  l_prev :: "ptr \<Rightarrow> ptr"
  l_next :: "ptr \<Rightarrow> ptr"

definition set_next :: "ptr \<Rightarrow> ptr \<Rightarrow> lheap \<Rightarrow> lheap" where
  "set_next p v h = h\<lparr>l_next := (l_next h)(p := v)\<rparr>"

definition set_prev :: "ptr \<Rightarrow> ptr \<Rightarrow> lheap \<Rightarrow> lheap" where
  "set_prev p v h = h\<lparr>l_prev := (l_prev h)(p := v)\<rparr>"

lemma set_sel [simp]:
  "l_next (set_next p v h) = (l_next h)(p := v)" "l_prev (set_next p v h) = l_prev h"
  "l_prev (set_prev p v h) = (l_prev h)(p := v)" "l_next (set_prev p v h) = l_next h"
  by (simp_all add: set_next_def set_prev_def)

subsection \<open>Linkable\<close>

definition lk_new :: "ptr \<Rightarrow> lheap \<Rightarrow> lheap" where
  "lk_new this h = set_next this this (set_prev this this h)"

definition lk_is_alone :: "ptr \<Rightarrow> lheap \<Rightarrow> bool" where
  "lk_is_alone this h \<longleftrightarrow> l_next h this = this"

definition lk_detach :: "ptr \<Rightarrow> lheap \<Rightarrow> lheap" where
  "lk_detach this h =
     (let h = set_next (l_prev h this) (l_next h this) h
      in set_prev (l_next h this) (l_prev h this) h)"

definition lk_destroy :: "ptr \<Rightarrow> lheap \<Rightarrow> lheap" where
  "lk_destroy this h = lk_detach this h"

definition lk_append :: "ptr \<Rightarrow> ptr \<Rightarrow> lheap \<Rightarrow> lheap" where
  "lk_append this node h =
     (let h = (if \<not> lk_is_alone node h then lk_detach node h else h);
          h = set_next node this h;
          h = set_prev node (l_prev h this) h;
          h = set_next (l_prev h this) node h
      in set_prev this node h)"

definition lk_prepend :: "ptr \<Rightarrow> ptr \<Rightarrow> lheap \<Rightarrow> lheap" where
  "lk_prepend this node h = lk_append node this h"

definition lk_append_to :: "ptr \<Rightarrow> ptr \<Rightarrow> lheap \<Rightarrow> lheap" where
  "lk_append_to this node h = lk_append node this h"

definition lk_prepend_to :: "ptr \<Rightarrow> ptr \<Rightarrow> lheap \<Rightarrow> lheap" where
  "lk_prepend_to this node h = lk_prepend node this h"

definition lk_add :: "ptr \<Rightarrow> ptr \<Rightarrow> lheap \<Rightarrow> lheap" where
  "lk_add this node h = lk_append this node h"

definition lk_remove :: "ptr \<Rightarrow> ptr \<Rightarrow> lheap \<Rightarrow> lheap" where
  "lk_remove this node h = lk_detach node h"

text \<open>
  The loop of \<open>length()\<close>; \<open>None\<close> means that the walk never comes back to \<open>this\<close>. The counter
  is an unsigned int.
\<close>

partial_function (option) lk_length_loop :: "lheap \<Rightarrow> ptr \<Rightarrow> ptr \<Rightarrow> u32_t \<Rightarrow> u32_t option" where
  "lk_length_loop h this node count =
     (if node = this then Some count
      else lk_length_loop h this (l_next h node) (count + 1))"

definition lk_length :: "ptr \<Rightarrow> lheap \<Rightarrow> u32_t option" where
  "lk_length this h = lk_length_loop h this (l_next h this) 0"

subsection \<open>List of T\<close>

definition list_append :: "ptr \<Rightarrow> ptr \<Rightarrow> lheap \<Rightarrow> lheap" where
  "list_append this node h = lk_append this node h"

definition list_prepend :: "ptr \<Rightarrow> ptr \<Rightarrow> lheap \<Rightarrow> lheap" where
  "list_prepend this node h = lk_prepend this node h"

definition list_add :: "ptr \<Rightarrow> ptr \<Rightarrow> lheap \<Rightarrow> lheap" where
  "list_add this node h = lk_add this node h"

definition list_remove :: "ptr \<Rightarrow> ptr \<Rightarrow> lheap \<Rightarrow> lheap" where
  "list_remove this node h = lk_remove this node h"

definition list_is_empty :: "ptr \<Rightarrow> lheap \<Rightarrow> bool" where
  "list_is_empty this h \<longleftrightarrow> lk_is_alone this h"

definition list_length :: "ptr \<Rightarrow> lheap \<Rightarrow> u32_t option" where
  "list_length this h = lk_length this h"

definition list_first :: "ptr \<Rightarrow> lheap \<Rightarrow> ptr" where
  "list_first this h = (if list_is_empty this h then 0 else l_next h this)"

definition list_last :: "ptr \<Rightarrow> lheap \<Rightarrow> ptr" where
  "list_last this h = (if list_is_empty this h then 0 else l_prev h this)"

definition list_next_of :: "ptr \<Rightarrow> ptr \<Rightarrow> lheap \<Rightarrow> ptr" where
  "list_next_of this node h =
     (let item = (if node \<noteq> 0 then l_next h node else list_first this h)
      in if item = this then 0 else item)"

definition list_prev_of :: "ptr \<Rightarrow> ptr \<Rightarrow> lheap \<Rightarrow> ptr" where
  "list_prev_of this node h =
     (let item = (if node \<noteq> 0 then l_prev h node else list_last this h)
      in if item = this then 0 else item)"

text \<open>Iterators are node pointers; \<open>end()\<close> and \<open>rend()\<close> are the sentinel.\<close>

definition list_begin :: "ptr \<Rightarrow> lheap \<Rightarrow> ptr" where
  "list_begin this h = l_next h this"

definition list_rbegin :: "ptr \<Rightarrow> lheap \<Rightarrow> ptr" where
  "list_rbegin this h = l_prev h this"

definition list_end :: "ptr \<Rightarrow> lheap \<Rightarrow> ptr" where
  "list_end this h = this"

definition list_inc :: "lheap \<Rightarrow> ptr \<Rightarrow> ptr" where
  "list_inc h p = l_next h p"

definition list_dec :: "lheap \<Rightarrow> ptr \<Rightarrow> ptr" where
  "list_dec h p = l_prev h p"

subsection \<open>The loops of \<open>samples/ex-list.cpp\<close>\<close>

definition list_walk :: "nat \<Rightarrow> ptr \<Rightarrow> lheap \<Rightarrow> ptr list res" where
  "list_walk k this h =
     rbind (each k (\<lambda>p acc. list_next_of this p h) (\<lambda>p acc. Inr (None :: unit option, acc @ [p]))
              (list_first this h) [])
       (\<lambda>(_, acc). Inr acc)"

text \<open>\<open>it = begin(); while (it != end()) { ...; it++; }\<close>\<close>

fun list_iterate :: "nat \<Rightarrow> ptr \<Rightarrow> lheap \<Rightarrow> ptr \<Rightarrow> ptr list res" where
  "list_iterate 0 this h it = (if it = list_end this h then Inr [] else Inl Diverges)"
| "list_iterate (Suc k) this h it =
     (if it = list_end this h then Inr []
      else rbind (list_iterate k this h (list_inc h it)) (\<lambda>ps. Inr (it # ps)))"

text \<open>\<open>it = rbegin(); while (it != rend()) { ...; it--; }\<close>\<close>

definition list_rend :: "ptr \<Rightarrow> lheap \<Rightarrow> ptr" where
  "list_rend this h = this"

fun list_iterate_reverse :: "nat \<Rightarrow> ptr \<Rightarrow> lheap \<Rightarrow> ptr \<Rightarrow> ptr list res" where
  "list_iterate_reverse 0 this h it = (if it = list_rend this h then Inr [] else Inl Diverges)"
| "list_iterate_reverse (Suc k) this h it =
     (if it = list_rend this h then Inr []
      else rbind (list_iterate_reverse k this h (list_dec h it)) (\<lambda>ps. Inr (it # ps)))"

text \<open>\<open>item = first(); while (item) { delete item; item = first(); }\<close>\<close>

definition list_delete_all :: "nat \<Rightarrow> ptr \<Rightarrow> lheap \<Rightarrow> lheap res" where
  "list_delete_all k this h =
     rbind (each k (\<lambda>p h. list_first this h) (\<lambda>p h. Inr (None :: unit option, lk_destroy p h))
              (list_first this h) h)
       (\<lambda>(_, h). Inr h)"

end
