(* ===== verification/GclListFacts.thy ===== *)
theory GclListFacts
  imports GclList
begin

section \<open>Lists: rings of nodes and what the operations do to them\<close>

text \<open>
  \<open>links h a xs b\<close> says that the nodes \<open>xs\<close> are chained between \<open>a\<close> and \<open>b\<close> in both
  directions. A list with sentinel \<open>l\<close> holds \<open>xs\<close> when they are chained from \<open>l\<close> back to
  \<open>l\<close>, without repetition and without the null address: the class invariant \<open>lst\<close>.
\<close>

fun links :: "lheap \<Rightarrow> ptr \<Rightarrow> ptr list \<Rightarrow> ptr \<Rightarrow> bool" where
  "links h a [] b \<longleftrightarrow> l_next h a = b \<and> l_prev h b = a"
| "links h a (x # xs) b \<longleftrightarrow> l_next h a = x \<and> l_prev h x = a \<and> links h x xs b"

definition lst :: "lheap \<Rightarrow> ptr \<Rightarrow> ptr list \<Rightarrow> bool" where
  "lst h l xs \<longleftrightarrow> links h l xs l \<and> distinct (l # xs) \<and> 0 \<notin> set (l # xs)"

lemma links_append [simp]: "links h a (xs @ x # ys) b \<longleftrightarrow> links h a xs x \<and> links h x ys b"
  by (induction xs arbitrary: a) auto

lemma links_prev: "links h a xs b \<Longrightarrow> l_prev h b = last (a # xs)"
  by (induction xs arbitrary: a) auto

lemma links_next: "links h a xs b \<Longrightarrow> l_next h a = hd (xs @ [b])"
  by (cases xs) auto

text \<open>Only the next fields of \<open>a # xs\<close> and the prev fields of \<open>xs @ [b]\<close> matter.\<close>

lemma links_frame:
  assumes "\<And>p. p \<in> set (a # xs) \<Longrightarrow> l_next h' p = l_next h p"
    and "\<And>p. p \<in> set (xs @ [b]) \<Longrightarrow> l_prev h' p = l_prev h p"
  shows "links h' a xs b = links h a xs b"
  using assms by (induction xs arbitrary: a) auto

lemma links_set_next: "p \<notin> set (a # xs) \<Longrightarrow> links (set_next p v h) a xs b = links h a xs b"
  by (rule links_frame) auto

lemma links_set_prev: "p \<notin> set (xs @ [b]) \<Longrightarrow> links (set_prev p v h) a xs b = links h a xs b"
  by (rule links_frame) auto

text \<open>Bridging a gap: what \<open>detach\<close> leaves between the neighbours of the removed node.\<close>

definition bridge :: "ptr \<Rightarrow> ptr \<Rightarrow> lheap \<Rightarrow> lheap" where
  "bridge p n h = set_prev n p (set_next p n h)"

lemma links_bridge:
  assumes "links h a xs x" "links h x ys b" "distinct (a # xs @ ys)" "b \<notin> set xs" "b \<notin> set ys"
  shows "links (bridge (last (a # xs)) (hd (ys @ [b])) h) a (xs @ ys) b"
  using assms
proof (induction xs arbitrary: a)
  case Nil
  show ?case
  proof (cases ys)
    case (Cons y zs)
    have "links (set_prev y a (set_next a y h)) y zs b = links h y zs b"
      by (rule links_frame) (use Nil.prems Cons in auto)
    then have "links (set_prev y a (set_next a y h)) y zs b" using Nil.prems Cons by simp
    with Cons show ?thesis by (simp add: bridge_def)
  qed (simp add: bridge_def)
next
  case (Cons c xs)
  then have "links (bridge (last (c # xs)) (hd (ys @ [b])) h) c (xs @ ys) b" by simp
  moreover have "hd (ys @ [b]) \<noteq> c" using Cons.prems(3,4) by (cases ys) auto
  moreover have "last (c # xs) \<noteq> a"
    using Cons.prems(3) last_in_set [of "c # xs"] by (metis Un_iff distinct.simps(2) list.distinct(1) set_append)
  moreover have "l_next h a = c" "l_prev h c = a" using Cons.prems(1) by simp_all
  ultimately show ?case by (simp add: bridge_def)
qed

lemma lk_detach_bridge:
  assumes "links h a xs x" "links h x ys b" "x \<notin> set (a # xs)"
  shows "lk_detach x h = bridge (last (a # xs)) (hd (ys @ [b])) h"
proof -
  have "last (a # xs) \<noteq> x" using assms(3) last_in_set [of "a # xs"] by auto
  then show ?thesis
    using links_prev [OF assms(1)] links_next [OF assms(2)]
    by (simp add: lk_detach_def bridge_def Let_def)
qed

lemma lst_detach:
  assumes "lst h l (xs @ x # ys)"
  shows "lst (lk_detach x h) l (xs @ ys)"
proof -
  have "links h l xs x" "links h x ys l" "x \<notin> set (l # xs)"
    using assms by (auto simp: lst_def)
  then show ?thesis
    using assms links_bridge [of h l xs x ys l] by (auto simp: lst_def lk_detach_bridge)
qed

lemma lk_detach_self:
  assumes "lst h l (xs @ x # ys)"
  shows "l_next (lk_detach x h) x = l_next h x" "l_prev (lk_detach x h) x = l_prev h x"
proof -
  have a: "links h l xs x" "links h x ys l" "x \<notin> set (l # xs)" and d: "x \<noteq> l" "x \<notin> set ys"
    using assms by (auto simp: lst_def)
  have "last (l # xs) \<noteq> x" using a(3) last_in_set [of "l # xs"] by auto
  moreover have "hd (ys @ [l]) \<noteq> x" using d by (cases ys) auto
  ultimately show "l_next (lk_detach x h) x = l_next h x" "l_prev (lk_detach x h) x = l_prev h x"
    using lk_detach_bridge [OF a] by (auto simp: bridge_def)
qed

text \<open>Other lists do not notice.\<close>

lemma lst_frame:
  assumes "\<And>p. p \<in> set (l # xs) \<Longrightarrow> l_next h' p = l_next h p \<and> l_prev h' p = l_prev h p"
  shows "lst h' l xs = lst h l xs"
  using links_frame [of l xs h' h l] assms by (auto simp: lst_def)

lemma lst_detach_other:
  assumes "lst h l (xs @ x # ys)" "set (m # zs) \<inter> set (l # xs @ x # ys) = {}"
  shows "lst (lk_detach x h) m zs = lst h m zs"
proof (rule lst_frame)
  fix p assume p: "p \<in> set (m # zs)"
  have a: "links h l xs x" "links h x ys l" "x \<notin> set (l # xs)"
    using assms by (auto simp: lst_def)
  have "last (l # xs) \<in> set (l # xs)" "hd (ys @ [l]) \<in> set (l # ys)"
    by (rule last_in_set, simp) (cases ys, auto)
  with p assms(2) have "p \<noteq> last (l # xs)" "p \<noteq> hd (ys @ [l])" by auto
  then show "l_next (lk_detach x h) p = l_next h p \<and> l_prev (lk_detach x h) p = l_prev h p"
    using lk_detach_bridge [OF a] by (simp add: bridge_def)
qed

text \<open>Linking a node in before \<open>l\<close>, once it is off any list.\<close>

definition link_in :: "ptr \<Rightarrow> ptr \<Rightarrow> lheap \<Rightarrow> lheap" where
  "link_in l x h =
     (let h = set_next x l h; h = set_prev x (l_prev h l) h; h = set_next (l_prev h l) x h
      in set_prev l x h)"

lemma lk_append_link_in:
  "lk_append l x h = link_in l x (if lk_is_alone x h then h else lk_detach x h)"
  by (simp add: lk_append_def link_in_def Let_def)

lemma links_link_in:
  assumes "links h l xs l" "distinct (l # xs)" "x \<notin> set (l # xs)"
  shows "links (link_in l x h) l (xs @ [x]) l"
proof -
  let ?p = "last (l # xs)"
  have p: "l_prev h l = ?p" by (rule links_prev [OF assms(1)])
  have px: "?p \<noteq> x" using assms(3) last_in_set [of "l # xs"] by auto
  have eq: "link_in l x h = set_prev l x (set_next ?p x (set_prev x ?p (set_next x l h)))"
    using p assms(3) by (simp add: link_in_def Let_def)
  have "links (set_next ?p x (set_prev x ?p h')) a ys x"
    if "links h' a ys b" "?p = last (a # ys)" "distinct (a # ys)" "x \<notin> set (a # ys)" for h' a ys b
    using that
  proof (induction ys arbitrary: a)
    case (Cons c ys)
    then have "links (set_next ?p x (set_prev x ?p h')) c ys x" by (simp split: if_splits)
    moreover have "?p \<noteq> a" using Cons.prems(2,3) last_in_set [of "c # ys"] by (auto split: if_splits)
    ultimately show ?case using Cons.prems by auto
  qed auto
  note chain = this
  have "links (set_next ?p x (set_prev x ?p (set_next x l h))) l xs x"
    using assms by (intro chain [where b = l]) (simp_all add: links_set_next)
  then have "links (link_in l x h) l xs x"
    unfolding eq using assms(2,3) by (subst links_set_prev) auto
  moreover have "links (link_in l x h) x [] l"
    using px assms(3) unfolding eq by auto
  ultimately show ?thesis by simp
qed

lemma lst_link_in:
  "lst h l xs \<Longrightarrow> x \<notin> set (l # xs) \<Longrightarrow> x \<noteq> 0 \<Longrightarrow> lst (link_in l x h) l (xs @ [x])"
  using links_link_in [of h l xs x] by (auto simp: lst_def)

lemma lst_link_in_other:
  assumes "lst h l xs" "set (m # zs) \<inter> set (x # l # xs) = {}"
  shows "lst (link_in l x h) m zs = lst h m zs"
proof (rule lst_frame)
  fix p assume "p \<in> set (m # zs)"
  moreover have "l_prev h l \<in> set (l # xs)"
    using links_prev [of h l xs l] assms(1) last_in_set [of "l # xs"] by (simp add: lst_def)
  ultimately have "p \<noteq> x" "p \<noteq> l" "p \<noteq> l_prev h l" using assms(2) by auto
  then show "l_next (link_in l x h) p = l_next h p \<and> l_prev (link_in l x h) p = l_prev h p"
    by (auto simp: link_in_def Let_def)
qed

lemma lst_new: "l \<noteq> 0 \<Longrightarrow> lst (lk_new l h) l []"
  by (simp add: lst_def lk_new_def)

lemma lk_is_alone_lst: "lst h l xs \<Longrightarrow> lk_is_alone l h \<longleftrightarrow> xs = []"
  by (cases xs) (auto simp: lst_def lk_is_alone_def)

lemma not_alone_member: "lst h l (xs @ x # ys) \<Longrightarrow> \<not> lk_is_alone x h"
  using links_next [of h x ys l] by (cases ys) (auto simp: lst_def lk_is_alone_def)

subsection \<open>Counting\<close>

lemma lk_length_links:
  "links h a xs l \<Longrightarrow> l \<notin> set xs \<Longrightarrow>
     lk_length_loop h l (l_next h a) c = Some (c + of_nat (length xs))"
proof (induction xs arbitrary: a c)
  case Nil
  then show ?case by (simp add: lk_length_loop.simps)
next
  case (Cons x xs)
  then have "lk_length_loop h l (l_next h x) (c + 1) = Some (c + 1 + of_nat (length xs))" by simp
  with Cons.prems show ?case
    by (subst lk_length_loop.simps) (auto simp: add.assoc)
qed

text \<open>A walk that is confined to a set without \<open>this\<close> never ends.\<close>

lemma lk_length_trapped:
  assumes "p \<in> S" "this \<notin> S" "\<And>q. q \<in> S \<Longrightarrow> l_next h q \<in> S"
  shows "lk_length_loop h this p c = None"
proof (cases "lk_length_loop h this p c")
  case (Some r)
  have "h = h' \<longrightarrow> this = this' \<longrightarrow> p' \<notin> S" if "lk_length_loop h' this' p' c' = Some r'"
    for h' this' p' c' r'
  proof (rule lk_length_loop.raw_induct
      [where P = "\<lambda>h' this' p' c' r'. h = h' \<longrightarrow> this = this' \<longrightarrow> p' \<notin> S", OF _ that])
    fix f h' this' p' c' r'
    assume IH: "\<And>h' this' p' c' r'. f h' this' p' c' = Some r' \<Longrightarrow>
        h = h' \<longrightarrow> this = this' \<longrightarrow> p' \<notin> S"
      and eq: "(if p' = this' then Some c' else f h' this' (l_next h' p') (c' + 1)) = Some r'"
    show "h = h' \<longrightarrow> this = this' \<longrightarrow> p' \<notin> S"
    proof (cases "p' = this'")
      case True
      then show ?thesis using assms(2) by blast
    next
      case False
      with eq have "f h' this' (l_next h' p') (c' + 1) = Some r'" by simp
      from IH [OF this] show ?thesis using assms(3) by blast
    qed
  qed
  with Some assms(1) show ?thesis by blast
qed simp

subsection \<open>Traversal\<close>

text \<open>The state of a traversal: the store, the sentinel and the nodes the list holds.\<close>

definition lst_ok :: "lheap \<times> ptr \<times> ptr list \<Rightarrow> bool" where
  "lst_ok s = (case s of (h, l, xs) \<Rightarrow> lst h l xs)"

definition lst_nodes :: "lheap \<times> ptr \<times> ptr list \<Rightarrow> ptr list" where
  "lst_nodes s = snd (snd s)"

lemma links_nth:
  "links h a xs b \<Longrightarrow> i < length xs \<Longrightarrow>
     l_next h (xs ! i) = (xs @ [b]) ! Suc i \<and> l_prev h (xs ! i) = (a # xs) ! i"
proof (induction xs arbitrary: a i)
  case (Cons x xs)
  then show ?case
    using links_next [of h x xs b] by (cases i; cases xs) auto
qed simp

lemma list_ends:
  assumes "lst h l xs"
  shows "list_first l h = (if xs = [] then 0 else hd xs)"
    and "list_last l h = (if xs = [] then 0 else last xs)"
  using assms lk_is_alone_lst [OF assms] links_next [of h l xs l] links_prev [of h l xs l]
  by (auto simp: list_first_def list_last_def list_is_empty_def lst_def)

lemma list_steps:
  assumes "lst h l xs" "i < length xs"
  shows "list_next_of l (xs ! i) h = (if Suc i < length xs then xs ! Suc i else 0)"
    and "list_prev_of l (xs ! i) h = (if 0 < i then xs ! (i - 1) else 0)"
proof -
  have n: "l_next h (xs ! i) = (xs @ [l]) ! Suc i" "l_prev h (xs ! i) = (l # xs) ! i"
    using links_nth [of h l xs l i] assms by (auto simp: lst_def)
  have z: "xs ! i \<noteq> 0" and m: "\<And>j. j < length xs \<Longrightarrow> xs ! j \<noteq> l"
    using assms nth_mem by (fastforce simp: lst_def)+
  show "list_next_of l (xs ! i) h = (if Suc i < length xs then xs ! Suc i else 0)"
    using n(1) z m [of "Suc i"] assms(2)
    by (auto simp: list_next_of_def nth_append less_Suc_eq)
  show "list_prev_of l (xs ! i) h = (if 0 < i then xs ! (i - 1) else 0)"
    using n(2) z m [of "i - 1"] assms(2) by (cases i) (auto simp: list_prev_of_def)
qed

lemma lst_nonnull [simp]: "lst h l xs \<Longrightarrow> 0 \<notin> set xs"
  by (auto simp: lst_def)

interpretation lfwd: traversal lst_ok lst_nodes
  "\<lambda>s. list_first (fst (snd s)) (fst s)" "\<lambda>p s. list_next_of (fst (snd s)) p (fst s)"
  by unfold_locales
    (auto simp: lst_ok_def lst_nodes_def list_ends list_steps hd_conv_nth)

interpretation lbwd: traversal lst_ok "\<lambda>s. rev (lst_nodes s)"
  "\<lambda>s. list_last (fst (snd s)) (fst s)" "\<lambda>p s. list_prev_of (fst (snd s)) p (fst s)"
  by unfold_locales
    (auto simp: lst_ok_def lst_nodes_def list_ends list_steps rev_nth last_conv_nth
      simp flip: Suc_diff_Suc)

end
