(* ===== verification/GclListProps.thy ===== *)
theory GclListProps
  imports GclListFacts
begin

section \<open>Lists: what the classes promise\<close>

text \<open>
  The operations of \<open>List\<close> on rings that satisfy the invariant \<open>lst\<close>: \<open>append\<close> and \<open>remove\<close>
  as list operations, moving a node between lists, counting and iterating; and the two
  places where the code does not keep the ring it should: \<open>prepend\<close> on a list that holds
  nodes, and the stale links of a removed node.
\<close>

text \<open>A store with the list of the nodes 2, 3, 4 at sentinel 1, and the free node 5.\<close>

definition sample_heap :: lheap where
  "sample_heap = lk_append 1 4 (lk_append 1 3 (lk_append 1 2
     (lk_new 5 (lk_new 4 (lk_new 3 (lk_new 2 (lk_new 1 \<lparr>l_prev = id, l_next = id\<rparr>)))))))"

lemmas list_ops = lk_new_def lk_append_def lk_detach_def lk_destroy_def lk_is_alone_def
  lk_prepend_def lk_remove_def lk_add_def list_append_def list_prepend_def list_remove_def

lemma sample_heap_fields:
  "l_next sample_heap = id(1 := 2, 2 := 3, 3 := 4, 4 := 1)"
  "l_prev sample_heap = id(1 := 4, 4 := 3, 3 := 2, 2 := 1)"
  by (auto simp: sample_heap_def list_ops Let_def fun_eq_iff)

lemma sample_heap_lst: "lst sample_heap 1 [2, 3, 4]" "lst sample_heap 5 []"
  by (simp_all add: lst_def sample_heap_fields)

subsection \<open>append\<close>

lemma lst_append_alone:
  "lst h l xs \<Longrightarrow> x \<notin> set (l # xs) \<Longrightarrow> x \<noteq> 0 \<Longrightarrow> lk_is_alone x h \<Longrightarrow> lst (lk_append l x h) l (xs @ [x])"
  by (simp add: lk_append_link_in lst_link_in)

text \<open>
  Appending a node that is linked nowhere puts it at the end of the list and leaves
  every disjoint list alone.
\<close>

theorem list_append_spec:
  assumes "lst h l xs" "lst h x []" "x \<notin> set (l # xs)"
    and "lst h m zs" "set (m # zs) \<inter> set (x # l # xs) = {}"
  shows "lst (list_append l x h) l (xs @ [x]) \<and> lst (list_append l x h) m zs"
proof -
  have "lk_is_alone x h" "x \<noteq> 0" using assms(2) lk_is_alone_lst [OF assms(2)] by (auto simp: lst_def)
  then show ?thesis
    using assms lst_append_alone lst_link_in_other [OF assms(1,5)]
    by (simp add: list_append_def lk_append_link_in lst_link_in)
qed

theorem list_append_spec_witness:
  "lst (list_append 1 5 (lk_new 6 sample_heap)) 1 [2, 3, 4, 5]
    \<and> lst (list_append 1 5 (lk_new 6 sample_heap)) 6 []"
proof -
  have "lst (lk_new 6 sample_heap) 1 [2, 3, 4]" "lst (lk_new 6 sample_heap) 5 []"
    "lst (lk_new 6 sample_heap) 6 []"
    by (simp_all add: lst_def lk_new_def sample_heap_fields)
  then show ?thesis using list_append_spec [of "lk_new 6 sample_heap" 1 "[2, 3, 4]" 5 6 "[]"] by simp
qed

text \<open>
  Appending a node that another list holds moves it: it leaves the other list, whose
  remaining nodes stay in order, and becomes the last node of this one.
\<close>

theorem list_append_moves:
  assumes "lst h l zs" "lst h m (xs @ x # ys)" "set (l # zs) \<inter> set (m # xs @ x # ys) = {}"
  shows "lst (list_append l x h) l (zs @ [x]) \<and> lst (list_append l x h) m (xs @ ys)"
proof -
  have x: "x \<notin> set (l # zs)" "x \<noteq> 0" using assms(2,3) by (auto simp: lst_def)
  have l: "lst (lk_detach x h) l zs" using lst_detach_other [OF assms(2,3)] assms(1) by simp
  have "lst (lk_detach x h) m (xs @ ys)" by (rule lst_detach [OF assms(2)])
  moreover have "set (m # xs @ ys) \<inter> set (x # l # zs) = {}"
    using assms(2,3) by (auto simp: lst_def)
  ultimately show ?thesis
    using not_alone_member [OF assms(2)] lst_link_in [OF l x] lst_link_in_other [OF l]
    by (simp add: list_append_def lk_append_link_in)
qed

theorem list_append_moves_witness:
  "lst (list_append 5 3 sample_heap) 5 [3] \<and> lst (list_append 5 3 sample_heap) 1 [2, 4]"
  using list_append_moves [of sample_heap 5 "[]" 1 "[2]" 3 "[4]"] sample_heap_lst by simp

subsection \<open>remove\<close>

lemma bridge_idem: "bridge p n (bridge p n h) = bridge p n h"
  by (simp add: bridge_def set_next_def set_prev_def)

text \<open>
  C20: Removing a node (or running its destructor) takes exactly that node out of its list
  and leaves every disjoint list alone; appending it again right away puts it at the end.
\<close>

theorem list_remove_spec:
  assumes "lst h l (xs @ x # ys)" "lst h m zs" "set (m # zs) \<inter> set (l # xs @ x # ys) = {}"
  shows "lst (list_remove l x h) l (xs @ ys) \<and> lst (list_remove l x h) m zs
    \<and> lk_destroy x h = list_remove l x h
    \<and> lst (list_append l x (list_remove l x h)) l (xs @ ys @ [x])"
proof -
  have d: "lst (lk_detach x h) l (xs @ ys)" by (rule lst_detach [OF assms(1)])
  have a: "links h l xs x" "links h x ys l" "x \<notin> set (l # xs)"
    and x: "x \<notin> set (l # xs @ ys)" "x \<noteq> 0" using assms(1) by (auto simp: lst_def)
  define p n where "p = last (l # xs)" and "n = hd (ys @ [l])"
  have b: "lk_detach x h = bridge p n h" using lk_detach_bridge [OF a] by (simp add: p_def n_def)
  have "l_prev (bridge p n h) x = p" "l_next (bridge p n h) x = n"
    using lk_detach_self [OF assms(1)] links_prev [OF a(1)] links_next [OF a(2)] b
    by (simp_all add: p_def n_def)
  moreover have "x \<noteq> p" using a(3) last_in_set [of "l # xs"] by (auto simp: p_def)
  ultimately have "lk_detach x (bridge p n h) = bridge p n (bridge p n h)"
    by (simp add: lk_detach_def Let_def bridge_def)
  then have "lk_detach x (lk_detach x h) = lk_detach x h" using b by (simp add: bridge_idem)
  then have "lk_append l x (lk_detach x h) = link_in l x (lk_detach x h)"
    by (simp add: lk_append_link_in)
  then show ?thesis
    using d lst_detach_other [OF assms(1,3)] assms(2) lst_link_in [OF d x]
    by (simp add: list_remove_def lk_remove_def lk_destroy_def list_append_def)
qed

theorem list_remove_spec_witness:
  "lst (list_remove 1 3 sample_heap) 1 [2, 4] \<and> lst (list_remove 1 3 sample_heap) 5 []
    \<and> lst (list_append 1 3 (list_remove 1 3 sample_heap)) 1 [2, 4, 3]"
  using list_remove_spec [of sample_heap 1 "[2]" 3 "[4]" 5 "[]"] sample_heap_lst by simp

subsection \<open>Counting and iterating\<close>

lemma lst_iterate:
  "links h a xs l \<Longrightarrow> l \<notin> set xs \<Longrightarrow> list_iterate (length xs) l h (l_next h a) = Inr xs"
  by (induction xs arbitrary: a) (auto simp: list_end_def list_inc_def)

lemma lst_iterate_reverse:
  "links h l xs b \<Longrightarrow> l \<notin> set xs \<Longrightarrow> list_iterate_reverse (length xs) l h (l_prev h b) = Inr (rev xs)"
  by (induction xs arbitrary: b rule: rev_induct) (auto simp: list_rend_def list_dec_def)

lemma lst_length: "lst h l xs \<Longrightarrow> list_length l h = Some (of_nat (length xs))"
  using lk_length_links [of h l xs l 0] by (simp add: lst_def list_length_def lk_length_def)

lemma list_walk_lst:
  assumes "lst h l xs"
  shows "list_walk (length xs) l h = Inr xs"
  using lfwd.each_collect [of "(h, l, xs)" "length xs" "\<lambda>p. Inr p" xs] assms
  by (simp add: list_walk_def lst_ok_def lst_nodes_def)

text \<open>
  C26: On a list that satisfies the invariant, \<open>length()\<close> returns, with the number of nodes
  modulo the width of the counter; the \<open>first\<close>/\<open>next_of\<close> loop and the iterator loop visit the
  nodes in order and stop, and the reverse iterator loop visits them backwards.
\<close>

theorem list_length_and_traversal:
  assumes "lst h l xs"
  shows "list_length l h = Some (of_nat (length xs))
    \<and> list_walk (length xs) l h = Inr xs
    \<and> list_iterate (length xs) l h (list_begin l h) = Inr xs
    \<and> list_iterate_reverse (length xs) l h (list_rbegin l h) = Inr (rev xs)"
proof -
  have l: "links h l xs l" "l \<notin> set xs" using assms by (simp_all add: lst_def)
  show ?thesis
    using lst_length [OF assms] lst_iterate [OF l] lst_iterate_reverse [OF l] list_walk_lst [OF assms]
    by (simp add: list_begin_def list_rbegin_def)
qed

theorem list_length_and_traversal_witness:
  "list_length 1 sample_heap = Some 3 \<and> list_walk 3 1 sample_heap = Inr [2, 3, 4]
    \<and> list_iterate 3 1 sample_heap (list_begin 1 sample_heap) = Inr [2, 3, 4]
    \<and> list_iterate_reverse 3 1 sample_heap (list_rbegin 1 sample_heap) = Inr [4, 3, 2]"
  using list_length_and_traversal [OF sample_heap_lst(1)] by (simp add: numeral_3_eq_3)

lemma each_delete:
  "lst h l xs \<Longrightarrow> \<exists>h'. each (length xs) (\<lambda>p h. list_first l h)
       (\<lambda>p h. Inr (None :: unit option, lk_destroy p h)) (list_first l h) h = Inr (None, h')
     \<and> lst h' l []"
proof (induction xs arbitrary: h)
  case Nil
  then show ?case by (simp add: list_ends)
next
  case (Cons x xs)
  have x: "x \<noteq> 0" using lst_nonnull [OF Cons.prems] by auto
  have "lst (lk_destroy x h) l xs"
    using lst_detach [of h l "[]" x xs] Cons.prems by (simp add: lk_destroy_def)
  from Cons.IH [OF this] show ?case
    using x list_ends(1) [OF Cons.prems] by simp
qed

text \<open>
  The loop that deletes the first node until there is none ends after as many turns as
  the list has nodes and leaves the empty list.
\<close>

theorem list_delete_all_spec:
  assumes "lst h l xs"
  shows "\<exists>h'. list_delete_all (length xs) l h = Inr h' \<and> lst h' l [] \<and> list_length l h' = Some 0"
  using each_delete [OF assms] lst_length [of _ l "[]"] by (auto simp: list_delete_all_def)

theorem list_delete_all_spec_witness:
  "\<exists>h'. list_delete_all 3 1 sample_heap = Inr h' \<and> lst h' 1 [] \<and> list_length 1 h' = Some 0"
  using list_delete_all_spec [OF sample_heap_lst(1)] by (simp add: numeral_3_eq_3)

subsection \<open>Where the code leaves the contract\<close>

text \<open>
  \<open>prepend\<close> appends the list to the node instead of the node to the list. On a list
  that holds nodes, the sentinel is detached from them first: afterwards the list holds the
  new node alone, and no node that was in it.
\<close>

theorem list_prepend_drops_nodes:
  assumes "lst h l xs" "lst h x []" "x \<notin> set (l # xs)"
  shows "lst (list_prepend l x h) l [x]"
proof -
  let ?h = "if lk_is_alone l h then h else lk_detach l h"
  have nz: "x \<noteq> 0" "l \<noteq> 0" "x \<noteq> l" using assms by (auto simp: lst_def)
  have frame: "l_next (lk_detach l h) x = l_next h x \<and> l_prev (lk_detach l h) x = l_prev h x"
  proof -
    have "links h l xs l" using assms(1) by (simp add: lst_def)
    then have "l_prev h l = last (l # xs)" "l_next h l = hd (xs @ [l])"
      by (rule links_prev, rule links_next)
    moreover have "last (l # xs) \<in> set (l # xs)" by (rule last_in_set) simp
    moreover have "hd (xs @ [l]) \<in> set (l # xs)" by (cases xs) auto
    ultimately have "l_prev h l \<in> set (l # xs)" "l_next h l \<in> set (l # xs)" by metis+
    with assms(3) have "x \<noteq> l_prev h l" "x \<noteq> l_next h l" by blast+
    then show ?thesis by (simp add: lk_detach_def Let_def)
  qed
  have "lst ?h x []" using assms(2) frame by (auto simp: lst_def)
  then have "lst (link_in x l ?h) x [l]" using lst_link_in [of ?h x "[]" l] nz by simp
  then show ?thesis
    using nz by (auto simp: list_prepend_def lk_prepend_def lk_append_link_in lst_def)
qed

theorem list_prepend_drops_nodes_witness:
  "lst (list_prepend 1 5 sample_heap) 1 [5] \<and> list_length 1 sample_heap = Some 3"
  using list_prepend_drops_nodes [OF sample_heap_lst] lst_length [OF sample_heap_lst(1)] by simp

text \<open>
  \<open>detach\<close> does not reset the links of the node it takes out. A node removed from a
  list that keeps other nodes still claims not to be alone, and its \<open>length()\<close> walks the
  list it left forever.
\<close>

theorem list_removed_node_stale:
  assumes "lst h l (xs @ x # ys)" "xs @ ys \<noteq> []"
  shows "\<not> lk_is_alone x (list_remove l x h) \<and> lk_length x (list_remove l x h) = None"
proof -
  let ?h = "lk_detach x h" and ?S = "set (l # xs @ ys)"
  have a: "links h x ys l" and x: "x \<notin> ?S" using assms(1) by (auto simp: lst_def)
  have d: "links ?h l (xs @ ys) l" using lst_detach [OF assms(1)] by (simp add: lst_def)
  have nx: "l_next ?h x \<in> ?S"
    using links_next [OF a] lk_detach_self(1) [OF assms(1)] by (cases ys) auto
  have closed: "l_next ?h q \<in> ?S" if "q \<in> ?S" for q
  proof (cases "q = l")
    case True
    then show ?thesis using links_next [OF d] by (cases "xs @ ys") auto
  next
    case False
    with that obtain i where i: "i < length (xs @ ys)" "(xs @ ys) ! i = q"
      by (metis in_set_conv_nth set_ConsD)
    then have "l_next ?h q = ((xs @ ys) @ [l]) ! Suc i" using links_nth [OF d i(1)] by simp
    then show ?thesis using i(1) nth_mem [of "Suc i" "(xs @ ys) @ [l]"] by auto
  qed
  have "lk_length x ?h = None"
    unfolding lk_length_def by (rule lk_length_trapped [OF nx x closed])
  moreover have "l_next ?h x \<noteq> x" using nx x by auto
  ultimately show ?thesis
    by (simp add: list_remove_def lk_remove_def lk_is_alone_def)
qed

theorem list_removed_node_stale_witness:
  "\<not> lk_is_alone 3 (list_remove 1 3 sample_heap) \<and> lk_length 3 (list_remove 1 3 sample_heap) = None"
  using list_removed_node_stale [of sample_heap 1 "[2]" 3 "[4]"] sample_heap_lst by simp

text \<open>
  The stale links are followed when the node is appended again after its old neighbours have
  changed: here node 3 is removed, then node 2, then node 3 is appended. The forward chain is
  4, 3 but the previous node of 4 is 2, which is in no list: the ring is broken.
\<close>

lemma list_stale_append_breaks_ring:
  "\<not> (\<exists>xs. lst (list_append 1 3 (list_remove 1 2 (list_remove 1 3 sample_heap))) 1 xs)"
proof
  let ?h = "list_append 1 3 (list_remove 1 2 (list_remove 1 3 sample_heap))"
  have f: "l_next ?h 1 = 4" "l_prev ?h 4 = 2"
    by (simp_all add: list_ops Let_def sample_heap_fields)
  assume "\<exists>xs. lst ?h 1 xs"
  then obtain xs where "links ?h 1 xs 1" by (auto simp: lst_def)
  then show False using f by (cases xs) auto
qed

end
