(* ===== verification/GclListSample.thy ===== *)
theory GclListSample
  imports GclListProps
begin

section \<open>The list sample: \<open>samples/ex-list.cpp\<close>\<close>

text \<open>
  An \<open>Item\<close> is a node with sixteen bytes of text. Here lifetimes are part of the state: the set
  of items that were made by \<open>new\<close> and not yet deleted. \<open>ps\<close> are the addresses \<open>new\<close> returns and
  \<open>l\<close> is the list object. Reading or deleting an item that is not alive is the fault
  \<open>UseAfterFree\<close>. A text is the string without its null byte.
\<close>

record item_heap =
  ih_links :: lheap
  ih_msg :: "ptr \<Rightarrow> u8_t list"
  ih_live :: "ptr set"

datatype list_line = LAdd nat | LLen u32_t | LEntry nat "u8_t list" | LShow "u8_t list"

definition item_new :: "ptr \<Rightarrow> item_heap \<Rightarrow> item_heap" where
  "item_new p h = h\<lparr>ih_links := lk_new p (ih_links h), ih_live := insert p (ih_live h)\<rparr>"

definition item_sprintf :: "ptr \<Rightarrow> u8_t list \<Rightarrow> item_heap \<Rightarrow> item_heap res" where
  "item_sprintf p txt h =
     (if p \<notin> ih_live h then Inl UseAfterFree
      else if 16 < length txt + 1 then Inl OutOfBounds
      else Inr (h\<lparr>ih_msg := (ih_msg h)(p := txt)\<rparr>))"

definition item_msg :: "ptr \<Rightarrow> item_heap \<Rightarrow> u8_t list res" where
  "item_msg p h = (if p \<in> ih_live h then Inr (ih_msg h p) else Inl UseAfterFree)"

text \<open>\<open>delete\<close> does nothing on a null pointer; else it runs the destructor of \<open>Linkable\<close>.\<close>

definition item_delete :: "ptr \<Rightarrow> item_heap \<Rightarrow> item_heap res" where
  "item_delete p h =
     (if p = 0 then Inr h
      else if p \<notin> ih_live h then Inl UseAfterFree
      else Inr (h\<lparr>ih_links := lk_destroy p (ih_links h), ih_live := ih_live h - {p}\<rparr>))"

text \<open>The three statements that make, label and append an item.\<close>

definition item_add :: "u8_t list \<Rightarrow> ptr \<Rightarrow> ptr \<Rightarrow> nat \<Rightarrow> item_heap \<Rightarrow> item_heap res" where
  "item_add label l p i h =
     rbind (item_sprintf p (label @ decimal i) (item_new p h))
       (\<lambda>h. Inr (h\<lparr>ih_links := list_append l p (ih_links h)\<rparr>))"

definition couunt :: "u8_t list" where
  "couunt = [67, 111, 117, 117, 110, 116, 61]"

definition count_label :: "u8_t list" where
  "count_label = [67, 111, 117, 110, 116, 61]"

subsection \<open>basic_test\<close>

fun basic_fill :: "ptr \<Rightarrow> ptr list \<Rightarrow> nat \<Rightarrow> ptr \<Rightarrow> item_heap \<Rightarrow> (list_line list \<times> ptr \<times> item_heap) res" where
  "basic_fill l [] i item_to_remove h = Inr ([], item_to_remove, h)"
| "basic_fill l (p # ps) i item_to_remove h =
     rbind (item_add couunt l p i h) (\<lambda>h.
     rbind (basic_fill l ps (i + 1) (if i = 5 then p else item_to_remove) h) (\<lambda>(out, r).
       Inr (LAdd i # out, r)))"

definition entries_loop :: "nat \<Rightarrow> ptr \<Rightarrow> item_heap \<Rightarrow> u8_t list list res" where
  "entries_loop k l h =
     rbind (each k (\<lambda>p acc. list_next_of l p (ih_links h))
              (\<lambda>p acc. rbind (item_msg p h) (\<lambda>m. Inr (None :: unit option, acc @ [m])))
              (list_first l (ih_links h)) [])
       (\<lambda>(_, acc). Inr acc)"

definition delete_loop :: "nat \<Rightarrow> ptr \<Rightarrow> item_heap \<Rightarrow> item_heap res" where
  "delete_loop k l h =
     rbind (each k (\<lambda>p h. list_first l (ih_links h))
              (\<lambda>p h. rbind (item_delete p h) (\<lambda>h. Inr (None :: unit option, h)))
              (list_first l (ih_links h)) h)
       (\<lambda>(_, h). Inr h)"

definition list_basic_test :: "ptr \<Rightarrow> ptr list \<Rightarrow> item_heap \<Rightarrow> (list_line list \<times> item_heap) res" where
  "list_basic_test l ps h =
     rbind (basic_fill l ps 0 0 (h\<lparr>ih_links := lk_new l (ih_links h)\<rparr>)) (\<lambda>(added, item_to_remove, h).
     rbind (item_delete item_to_remove h) (\<lambda>h.
       case list_length l (ih_links h) of None \<Rightarrow> Inl Diverges
       | Some len \<Rightarrow>
         rbind (entries_loop (length ps) l h) (\<lambda>msgs.
         rbind (delete_loop (length ps) l h) (\<lambda>h.
           Inr (added @ [LLen len] @ map (\<lambda>(k, m). LEntry k m) (enumerate 0 msgs),
                h\<lparr>ih_links := lk_destroy l (ih_links h)\<rparr>)))))"

subsection \<open>iterator_test\<close>

fun iter_fill :: "ptr \<Rightarrow> ptr list \<Rightarrow> nat \<Rightarrow> item_heap \<Rightarrow> item_heap res" where
  "iter_fill l [] i h = Inr h"
| "iter_fill l (p # ps) i h = rbind (item_add count_label l p i h) (iter_fill l ps (i + 1))"

fun item_msgs :: "ptr list \<Rightarrow> item_heap \<Rightarrow> u8_t list list res" where
  "item_msgs [] h = Inr []"
| "item_msgs (p # ps) h = rbind (item_msg p h) (\<lambda>m. rbind (item_msgs ps h) (\<lambda>ms. Inr (m # ms)))"

definition list_iterator_test :: "ptr \<Rightarrow> ptr list \<Rightarrow> item_heap \<Rightarrow> (list_line list \<times> item_heap) res" where
  "list_iterator_test l ps h =
     rbind (iter_fill l ps 0 (h\<lparr>ih_links := lk_new l (ih_links h)\<rparr>)) (\<lambda>h.
     rbind (list_iterate (length ps) l (ih_links h) (list_begin l (ih_links h))) (\<lambda>fwd.
     rbind (item_msgs fwd h) (\<lambda>shown.
     rbind (list_iterate_reverse (length ps) l (ih_links h) (list_rbegin l (ih_links h))) (\<lambda>bwd.
     rbind (item_msgs bwd h) (\<lambda>reversed.
       Inr (map LShow shown @ map LShow reversed, h\<lparr>ih_links := lk_destroy l (ih_links h)\<rparr>))))))"

subsection \<open>Filling the list\<close>

lemma lst_new_other: "p \<notin> set (l # xs) \<Longrightarrow> lst h l xs \<Longrightarrow> lst (lk_new p h) l xs"
  by (simp add: lst_def lk_new_def links_set_next links_set_prev)

lemma item_add_spec:
  assumes "lst (ih_links h) l xs" "p \<notin> set (l # xs)" "p \<noteq> 0" "length label < 15" "i < 10"
  obtains h' where "item_add label l p i h = Inr h'" "lst (ih_links h') l (xs @ [p])"
    "ih_live h' = insert p (ih_live h)" "ih_msg h' = (ih_msg h)(p := label @ decimal i)"
proof -
  have "length (decimal i) \<le> 1" using length_decimal [of i 0] assms(5) by simp
  moreover have "lst (list_append l p (lk_new p (ih_links h))) l (xs @ [p])" unfolding list_append_def
    by (rule lst_append_alone [OF lst_new_other [OF assms(2,1)] assms(2,3)]) (simp add: lk_is_alone_def lk_new_def)
  ultimately show thesis using assms(4)
    by (intro that [of "h\<lparr>ih_links := list_append l p (lk_new p (ih_links h)), ih_live := insert p (ih_live h),
          ih_msg := (ih_msg h)(p := label @ decimal i)\<rparr>"]) (simp_all add: item_add_def item_sprintf_def item_new_def)
qed

text \<open>What both filling loops leave behind.\<close>

definition filled :: "u8_t list \<Rightarrow> ptr \<Rightarrow> ptr list \<Rightarrow> ptr list \<Rightarrow> nat \<Rightarrow> item_heap \<Rightarrow> item_heap \<Rightarrow> bool" where
  "filled label l xs ps i h h' \<longleftrightarrow> lst (ih_links h') l (xs @ ps) \<and> ih_live h' = ih_live h \<union> set ps
     \<and> map (ih_msg h') (xs @ ps) = map (ih_msg h) xs @ map (\<lambda>k. label @ decimal k) [i..<i + length ps]"

lemma filled_Cons:
  assumes "filled label l (xs @ [p]) ps (Suc i) h1 h'" "p \<notin> set xs"
    and "ih_live h1 = insert p (ih_live h)" "ih_msg h1 = (ih_msg h)(p := label @ decimal i)"
  shows "filled label l xs (p # ps) i h h'"
proof -
  have "map (ih_msg h1) (xs @ [p]) = map (ih_msg h) xs @ [label @ decimal i]" using assms(2,4) by auto
  moreover have "[i..<i + length (p # ps)] = i # [Suc i..<Suc i + length ps]" by (subst upt_conv_Cons) simp_all
  ultimately have "map (ih_msg h1) (xs @ [p]) @ map (\<lambda>k. label @ decimal k) [Suc i..<Suc i + length ps]
      = map (ih_msg h) xs @ map (\<lambda>k. label @ decimal k) [i..<i + length (p # ps)]" by (simp only: append_assoc append_Cons append_Nil list.map)
  moreover have "(xs @ [p]) @ ps = xs @ p # ps" "ih_live h1 \<union> set ps = ih_live h \<union> set (p # ps)" using assms(3) by simp_all
  ultimately show ?thesis using assms(1) unfolding filled_def by (simp only:)
qed

lemma sixth_item:
  "(if i \<le> 5 \<and> 5 < i + length (p # ps) then (p # ps) ! (5 - i) else r)
    = (if Suc i \<le> 5 \<and> 5 < Suc i + length ps then ps ! (5 - Suc i) else if i = 5 then p else r)"
proof (cases "i < 5")
  case True
  then have "5 - i = Suc (5 - Suc i)" by arith
  then show ?thesis using True by simp
qed auto

lemma basic_fill_spec:
  "lst (ih_links h) l xs \<Longrightarrow> set (l # xs) \<inter> set ps = {} \<Longrightarrow> distinct ps \<Longrightarrow> 0 \<notin> set ps \<Longrightarrow> i + length ps \<le> 10 \<Longrightarrow>
   \<exists>h'. basic_fill l ps i r h = Inr (map LAdd [i..<i + length ps],
       (if i \<le> 5 \<and> 5 < i + length ps then ps ! (5 - i) else r), h')
     \<and> filled couunt l xs ps i h h'"
proof (induction ps arbitrary: xs i r h)
  case Nil
  then show ?case by (auto simp: filled_def)
next
  case (Cons p ps)
  obtain h1 where h1: "item_add couunt l p i h = Inr h1" "lst (ih_links h1) l (xs @ [p])"
    "ih_live h1 = insert p (ih_live h)" "ih_msg h1 = (ih_msg h)(p := couunt @ decimal i)"
    by (rule item_add_spec [of h l xs p couunt i]) (use Cons.prems in \<open>auto simp: couunt_def\<close>)
  obtain h' where h': "basic_fill l ps (Suc i) (if i = 5 then p else r) h1 = Inr (map LAdd [Suc i..<Suc i + length ps],
      (if Suc i \<le> 5 \<and> 5 < Suc i + length ps then ps ! (5 - Suc i) else if i = 5 then p else r), h')"
    "filled couunt l (xs @ [p]) ps (Suc i) h1 h'"
    using Cons.IH [OF h1(2), of "Suc i" "if i = 5 then p else r"] Cons.prems by auto
  have "filled couunt l xs (p # ps) i h h'" using filled_Cons [OF h'(2) _ h1(3,4)] Cons.prems by simp
  moreover have "[i..<i + length (p # ps)] = i # [Suc i..<Suc i + length ps]" by (subst upt_conv_Cons) simp_all
  ultimately show ?case using h1(1) h'(1) unfolding sixth_item by auto
qed

lemma iter_fill_spec:
  "lst (ih_links h) l xs \<Longrightarrow> set (l # xs) \<inter> set ps = {} \<Longrightarrow> distinct ps \<Longrightarrow> 0 \<notin> set ps \<Longrightarrow> i + length ps \<le> 10 \<Longrightarrow>
   \<exists>h'. iter_fill l ps i h = Inr h' \<and> filled count_label l xs ps i h h'"
proof (induction ps arbitrary: xs i h)
  case Nil
  then show ?case by (simp add: filled_def)
next
  case (Cons p ps)
  obtain h1 where h1: "item_add count_label l p i h = Inr h1" "lst (ih_links h1) l (xs @ [p])"
    "ih_live h1 = insert p (ih_live h)" "ih_msg h1 = (ih_msg h)(p := count_label @ decimal i)"
    by (rule item_add_spec [of h l xs p count_label i]) (use Cons.prems in \<open>auto simp: count_label_def\<close>)
  obtain h' where h': "iter_fill l ps (Suc i) h1 = Inr h'" "filled count_label l (xs @ [p]) ps (Suc i) h1 h'"
    using Cons.IH [OF h1(2), of "Suc i"] Cons.prems by auto
  have "filled count_label l xs (p # ps) i h h'" using filled_Cons [OF h'(2) _ h1(3,4)] Cons.prems by simp
  then show ?case using h1(1) h'(1) by simp
qed

subsection \<open>Reading and deleting the items\<close>

lemma item_msgs_spec: "set xs \<subseteq> ih_live h \<Longrightarrow> item_msgs xs h = Inr (map (ih_msg h) xs)"
  by (induction xs) (simp_all add: item_msg_def)

lemma entries_loop_spec:
  assumes "lst (ih_links h) l xs" "set xs \<subseteq> ih_live h" "length xs \<le> k"
  shows "entries_loop k l h = Inr (map (ih_msg h) xs)"
proof -
  have "map (\<lambda>p. item_msg p h) xs = map Inr (map (ih_msg h) xs)" using assms(2) by (auto simp: item_msg_def)
  with lfwd.each_collect [of "(ih_links h, l, xs)" k "\<lambda>p. item_msg p h" "map (ih_msg h) xs"] assms(1,3)
  show ?thesis by (simp add: entries_loop_def lst_ok_def lst_nodes_def)
qed

lemma item_delete_spec:
  assumes "lst (ih_links h) l (xs @ p # ys)" "p \<in> ih_live h"
  obtains h' where "item_delete p h = Inr h'" "lst (ih_links h') l (xs @ ys)" "ih_live h' = ih_live h - {p}"
    "ih_msg h' = ih_msg h"
proof -
  have "p \<noteq> 0" using lst_nonnull [OF assms(1)] by auto
  then show thesis using lst_detach [OF assms(1)] assms(2)
    by (intro that [of "h\<lparr>ih_links := lk_destroy p (ih_links h), ih_live := ih_live h - {p}\<rparr>"])
       (simp_all add: item_delete_def lk_destroy_def)
qed

lemma delete_loop_spec:
  assumes "lst (ih_links h) l xs" "set xs \<subseteq> ih_live h" "length xs \<le> k"
  shows "\<exists>h'. delete_loop k l h = Inr h' \<and> lst (ih_links h') l [] \<and> ih_live h' = ih_live h - set xs"
proof -
  have "\<exists>h'. each k (\<lambda>p h. list_first l (ih_links h)) (\<lambda>p h. rbind (item_delete p h) (\<lambda>h. Inr (None :: unit option, h)))
      (list_first l (ih_links h)) h = Inr (None, h') \<and> lst (ih_links h') l [] \<and> ih_live h' = ih_live h - set xs"
    using assms
  proof (induction xs arbitrary: h k)
    case Nil
    then show ?case by (cases k) (auto simp: list_ends)
  next
    case (Cons x xs)
    obtain h1 where h1: "item_delete x h = Inr h1" "lst (ih_links h1) l xs" "ih_live h1 = ih_live h - {x}"
      by (rule item_delete_spec [of h l "[]" x xs]) (use Cons.prems in simp_all)
    obtain n where n: "k = Suc n" "length xs \<le> n" using Cons.prems(3) by (cases k) auto
    have x: "x \<noteq> 0" "x \<notin> set xs" using Cons.prems(1) by (auto simp: lst_def)
    have "set xs \<subseteq> ih_live h1" using Cons.prems(2) x(2) h1(3) by auto
    from Cons.IH [OF h1(2) this n(2)] show ?case
      using x(1) h1(1,3) n(1) list_ends(1) [OF Cons.prems(1)] by (auto simp: Diff_insert2 [symmetric])
  qed
  then show ?thesis by (auto simp: delete_loop_def)
qed

lemma entries_map: "map (\<lambda>(k, m). LEntry k m) (enumerate n (map f is)) = map (\<lambda>(k, i). LEntry k (f i)) (enumerate n is)"
  by (induction "is" arbitrary: n) simp_all

text \<open>
  C27: \<open>basic_test\<close> prints ten lines for the items it adds, the length 9 after the sixth item was
  deleted, and the remaining nine in the order in which they were added; all loops end, no item
  is used after its end and none is left alive.
\<close>

theorem list_basic_test_prints:
  assumes "length ps = 10" "distinct (l # ps)" "0 \<notin> set (l # ps)" "set ps \<inter> ih_live h = {}"
  shows "\<exists>h'. list_basic_test l ps h = Inr (map LAdd [0..<10] @ [LLen 9]
      @ map (\<lambda>(k, i). LEntry k (couunt @ decimal i)) (enumerate 0 ([0..<5] @ [6..<10])), h')
    \<and> ih_live h' = ih_live h"
proof -
  let ?h0 = "h\<lparr>ih_links := lk_new l (ih_links h)\<rparr>"
  have l0: "lst (ih_links ?h0) l []" using assms(3) by (simp add: lst_new)
  obtain h1 where h1: "basic_fill l ps 0 0 ?h0 = Inr (map LAdd [0..<10], ps ! 5, h1)" "filled couunt l [] ps 0 ?h0 h1"
    using basic_fill_spec [OF l0, of ps 0 0] assms(1-3) by auto
  define xs ys where "xs = take 5 ps" and "ys = drop 6 ps"
  have ps: "ps = xs @ ps ! 5 # ys" using id_take_nth_drop [of 5 ps] assms(1) by (simp add: xs_def ys_def)
  have len: "length xs = 5" "length ys = 4" using assms(1) by (simp_all add: xs_def ys_def)
  have f: "lst (ih_links h1) l ps" "ih_live h1 = ih_live h \<union> set ps"
    "map (ih_msg h1) ps = map (\<lambda>k. couunt @ decimal k) [0..<10]"
    using h1(2) assms(1) by (simp_all add: filled_def)
  obtain h2 where h2: "item_delete (ps ! 5) h1 = Inr h2" "lst (ih_links h2) l (xs @ ys)"
    "ih_live h2 = ih_live h1 - {ps ! 5}" "ih_msg h2 = ih_msg h1"
    by (rule item_delete_spec [of h1 l xs "ps ! 5" ys]) (use f(1,2) ps assms(1) in simp_all)
  have "distinct (xs @ ps ! 5 # ys)" using assms(2) ps by simp
  then have d: "ps ! 5 \<notin> set (xs @ ys)" by simp
  have "set ps = insert (ps ! 5) (set (xs @ ys))" by (subst ps) simp
  then have live: "set (xs @ ys) \<subseteq> ih_live h2" "ih_live h2 - set (xs @ ys) = ih_live h"
    using h2(3) f(2) d assms(4) by auto
  have "map (ih_msg h1) xs = take 5 (map (ih_msg h1) ps)" "map (ih_msg h1) ys = drop 6 (map (ih_msg h1) ps)"
    by (simp_all add: xs_def ys_def take_map drop_map)
  then have msgs: "map (ih_msg h2) (xs @ ys) = map (\<lambda>k. couunt @ decimal k) ([0..<5] @ [6..<10])"
    unfolding h2(4) f(3) by (simp add: take_map drop_map)
  have leng: "list_length l (ih_links h2) = Some 9" using lst_length [OF h2(2)] len by simp
  have "length (xs @ ys) \<le> length ps" using len assms(1) by simp
  note e = entries_loop_spec [OF h2(2) live(1) this] and dl = delete_loop_spec [OF h2(2) live(1) this]
  obtain h3 where h3: "delete_loop (length ps) l h2 = Inr h3" "ih_live h3 = ih_live h" using dl live(2) by auto
  have "list_basic_test l ps h = Inr (map LAdd [0..<10] @ [LLen 9]
      @ map (\<lambda>(k, i). LEntry k (couunt @ decimal i)) (enumerate 0 ([0..<5] @ [6..<10])), h3\<lparr>ih_links := lk_destroy l (ih_links h3)\<rparr>)"
    unfolding list_basic_test_def h1(1) rbind_Inr prod.case h2(1) leng option.case e msgs h3(1) entries_map by (rule refl)
  with h3(2) show ?thesis by (intro exI [of _ "h3\<lparr>ih_links := lk_destroy l (ih_links h3)\<rparr>"] conjI) simp_all
qed

lemma list_basic_test_prints_witness:
  "\<exists>out h'. list_basic_test 1 (map of_nat [2..<12]) \<lparr>ih_links = \<lparr>l_prev = id, l_next = id\<rparr>, ih_msg = (\<lambda>_. []), ih_live = {}\<rparr> = Inr (out, h')
    \<and> ih_live h' = {} \<and> LLen 9 \<in> set out \<and> LEntry 5 [67, 111, 117, 117, 110, 116, 61, 54] \<in> set out"
proof -
  have ps: "(map of_nat [2..<12] :: ptr list) = [2, 3, 4, 5, 6, 7, 8, 9, 10, 11]" by code_simp
  have six: "LEntry 5 (couunt @ decimal 6) \<in> (\<lambda>(k, i). LEntry k (couunt @ decimal i)) ` set (enumerate 0 ([0..<5] @ [6..<10]))"
    by (rule image_eqI [of _ _ "(5, 6)"]) (simp_all add: in_set_enumerate_eq nth_append)
  have "couunt @ decimal 6 = [67, 111, 117, 117, 110, 116, 61, 54]" by code_simp
  with six list_basic_test_prints [of "map of_nat [2..<12]" 1
      "\<lparr>ih_links = \<lparr>l_prev = id, l_next = id\<rparr>, ih_msg = (\<lambda>_. []), ih_live = {}\<rparr>"]
  show ?thesis unfolding ps by auto
qed

text \<open>
  \<open>iterator_test\<close> prints the ten items in the order in which they were added and then in
  reverse, and the loops with iterators end; but the items are never deleted: when it returns
  the ten of them are still alive and no list holds them.
\<close>

theorem list_iterator_test_leaks:
  assumes "length ps = 10" "distinct (l # ps)" "0 \<notin> set (l # ps)" "set ps \<inter> ih_live h = {}"
  shows "\<exists>h'. list_iterator_test l ps h = Inr (map (\<lambda>i. LShow (count_label @ decimal i)) ([0..<10] @ rev [0..<10]), h')
    \<and> ih_live h' = ih_live h \<union> set ps"
proof -
  let ?h0 = "h\<lparr>ih_links := lk_new l (ih_links h)\<rparr>"
  have l0: "lst (ih_links ?h0) l []" using assms(3) by (simp add: lst_new)
  obtain h1 where h1: "iter_fill l ps 0 ?h0 = Inr h1" "filled count_label l [] ps 0 ?h0 h1"
    using iter_fill_spec [OF l0, of ps 0] assms(1-3) by auto
  have f: "lst (ih_links h1) l ps" "ih_live h1 = ih_live h \<union> set ps"
    "map (ih_msg h1) ps = map (\<lambda>k. count_label @ decimal k) [0..<10]"
    using h1(2) assms(1) by (simp_all add: filled_def)
  have trav: "list_iterate (length ps) l (ih_links h1) (list_begin l (ih_links h1)) = Inr ps"
    "list_iterate_reverse (length ps) l (ih_links h1) (list_rbegin l (ih_links h1)) = Inr (rev ps)"
    using f(1) lst_iterate [of "ih_links h1" l ps l] lst_iterate_reverse [of "ih_links h1" l ps l]
    by (simp_all add: lst_def list_begin_def list_rbegin_def)
  have "set ps \<subseteq> ih_live h1" "set (rev ps) \<subseteq> ih_live h1" using f(2) by auto
  note r = this [THEN item_msgs_spec]
  have shown: "map LShow (map (ih_msg h1) ps) @ map LShow (map (ih_msg h1) (rev ps))
      = map (\<lambda>i. LShow (count_label @ decimal i)) ([0..<10] @ rev [0..<10])"
    unfolding rev_map [symmetric] f(3) by (simp only: map_append map_map rev_map o_def)
  show ?thesis
    unfolding list_iterator_test_def h1(1) rbind_Inr trav r shown using f(2) by simp
qed

lemma list_iterator_test_leaks_witness:
  "\<exists>out h'. list_iterator_test 1 (map of_nat [2..<12]) \<lparr>ih_links = \<lparr>l_prev = id, l_next = id\<rparr>, ih_msg = (\<lambda>_. []), ih_live = {}\<rparr> = Inr (out, h')
    \<and> 11 \<in> ih_live h' \<and> LShow (count_label @ decimal 9) \<in> set out"
proof -
  have ps: "(map of_nat [2..<12] :: ptr list) = [2, 3, 4, 5, 6, 7, 8, 9, 10, 11]" by code_simp
  show ?thesis using list_iterator_test_leaks [of "map of_nat [2..<12]" 1
      "\<lparr>ih_links = \<lparr>l_prev = id, l_next = id\<rparr>, ih_msg = (\<lambda>_. []), ih_live = {}\<rparr>"] unfolding ps by auto
qed

end
