(* ===== verification/GclTok.thy ===== *)
theory GclTok
  imports GclPrelude
begin

section \<open>Tockenizer: \<open>include/gtockenizer.h\<close>, \<open>src/gtockenizer.cpp\<close>\<close>

text \<open>
  The tokenizer keeps four pointers into a string it does not own and a private copy of the
  separator characters, thirty-two bytes with a terminating null. The string lives in a
  \<open>region\<close>: a start address and the bytes readable from there; reading any other address is
  a fault. A \<open>const char *\<close> argument that the code only treats as a C string is the list of
  its bytes, cut at the first null byte by \<open>c_str\<close>; a null pointer is \<open>None\<close>.
\<close>

type_synonym region = "ptr \<times> u8_t list"

definition mem_byte :: "region \<Rightarrow> ptr \<Rightarrow> u8_t res" where
  "mem_byte m p = (let k = unat (p - fst m) in if k < length (snd m) then Inr (snd m ! k) else Inl OutOfBounds)"

definition mem_bytes :: "region \<Rightarrow> ptr \<Rightarrow> nat \<Rightarrow> u8_t list res" where
  "mem_bytes m p n =
     (let k = unat (p - fst m)
      in if n = 0 then Inr []
         else if k + n \<le> length (snd m) then Inr (take n (drop k (snd m))) else Inl OutOfBounds)"

definition c_str :: "u8_t list \<Rightarrow> u8_t list" where
  "c_str bs = takeWhile (\<lambda>b. b \<noteq> 0) bs"

text \<open>\<open>strlen\<close> of a pointer into the region; there must be a null byte to stop at.\<close>

definition mem_strlen :: "region \<Rightarrow> ptr \<Rightarrow> nat res" where
  "mem_strlen m p =
     (let bs = drop (unat (p - fst m)) (snd m)
      in if p = 0 then Inl NullDeref
         else if 0 \<in> set bs then Inr (length (c_str bs)) else Inl OutOfBounds)"

text \<open>\<open>strchr(sep, c) != 0\<close>; the terminating null byte counts as a character of the string.\<close>

fun strchr :: "u8_t list \<Rightarrow> u8_t \<Rightarrow> bool res" where
  "strchr [] c = Inl OutOfBounds"
| "strchr (b # bs) c = (if b = c then Inr True else if b = 0 then Inr False else strchr bs c)"

abbreviation (input) sizeof_sep :: nat where
  "sizeof_sep \<equiv> 32"

record tok =
  m_head :: ptr
  m_tail :: ptr
  m_pos :: ptr
  m_end :: ptr
  m_sep :: "u8_t list"

text \<open>The default constructor sets the first separator byte; the others are whatever is there.\<close>

definition tok_new :: "u8_t list \<Rightarrow> tok" where
  "tok_new junk = \<lparr>m_head = 0, m_tail = 0, m_pos = 0, m_end = 0, m_sep = 0 # take (sizeof_sep - 1) junk\<rparr>"

function tok_scan :: "region \<Rightarrow> u8_t list \<Rightarrow> ptr \<Rightarrow> ptr \<Rightarrow> ptr res" where
  "tok_scan m sep tail p =
     (if p < tail
      then rbind (mem_byte m p) (\<lambda>c. rbind (strchr sep c) (\<lambda>found.
             if found then Inr p else tok_scan m sep tail (p + 1)))
      else Inr p)"
  by pat_completeness auto
termination
proof (relation "measure (\<lambda>(m, sep, tail, p). unat (tail - p))", simp)
  fix tail p :: ptr assume "p < tail"
  then have lt: "unat p < unat tail" by (simp add: word_less_nat_alt)
  then have "unat (p + 1) = Suc (unat p)"
    using unat_lt_64 [of tail] by (subst unat_add_nowrap) simp_all
  with lt show "((m, sep, tail, p + 1), m, sep, tail, p) \<in> measure (\<lambda>(m, sep, tail, p). unat (tail - p))"
    for m :: region and sep :: "u8_t list"
    by (simp add: unat_sub_nowrap)
qed

declare tok_scan.simps [simp del]

definition tok_find_next :: "region \<Rightarrow> tok \<Rightarrow> tok res" where
  "tok_find_next m t = rbind (tok_scan m (m_sep t) (m_tail t) (m_pos t)) (\<lambda>p. Inr (t\<lparr>m_end := p\<rparr>))"

definition tok_set_separators :: "u8_t list \<Rightarrow> tok \<Rightarrow> bool \<times> tok" where
  "tok_set_separators sep t =
     (let slen = length (c_str sep)
      in if slen \<ge> sizeof_sep then (False, t\<lparr>m_sep := (m_sep t)[0 := 0]\<rparr>)
         else let s = c_str sep @ replicate (sizeof_sep - slen) 0
              in (True, t\<lparr>m_sep := s[sizeof_sep - 1 := 0]\<rparr>))"

definition tok_bind_len :: "region \<Rightarrow> ptr \<Rightarrow> u32_t \<Rightarrow> u8_t list option \<Rightarrow> tok \<Rightarrow> (bool \<times> tok) res" where
  "tok_bind_len m str slen sep t =
     (let t = t\<lparr>m_head := str, m_tail := (if str \<noteq> 0 then str + ucast slen else 0), m_pos := str\<rparr>
      in case sep of
           None \<Rightarrow> rbind (tok_find_next m t) (\<lambda>t. Inr (True, t))
         | Some s \<Rightarrow>
             (case tok_set_separators s t of (ok, t) \<Rightarrow>
                if \<not> ok then Inr (False, t) else rbind (tok_find_next m t) (\<lambda>t. Inr (True, t))))"

definition tok_bind :: "region \<Rightarrow> ptr \<Rightarrow> u8_t list option \<Rightarrow> tok \<Rightarrow> (bool \<times> tok) res" where
  "tok_bind m str sep t =
     rbind (mem_strlen m str) (\<lambda>n. tok_bind_len m str (of_nat n) sep t)"

definition tok_has_more :: "tok \<Rightarrow> bool" where
  "tok_has_more t \<longleftrightarrow> m_pos t < m_tail t"

definition tok_next_length :: "tok \<Rightarrow> u32_t" where
  "tok_next_length t = ucast (m_end t - m_pos t)"

definition tok_target_length :: "tok \<Rightarrow> u32_t" where
  "tok_target_length t = ucast (m_tail t - m_head t)"

text \<open>
  The outputs of \<open>get_next\<close>: the bytes stored in the caller's buffer, the separator and the
  token length, each only when the caller passed a pointer for it. The buffer argument is
  its size, or \<open>None\<close> for the null pointer.
\<close>

record tok_out =
  o_buf :: "u8_t list option"
  o_sep :: "u8_t option"
  o_len :: "u32_t option"

definition no_out :: tok_out where
  "no_out = \<lparr>o_buf = None, o_sep = None, o_len = None\<rparr>"

definition tok_get_next ::
    "region \<Rightarrow> u32_t option \<Rightarrow> bool \<Rightarrow> bool \<Rightarrow> tok \<Rightarrow> (bool \<times> tok_out \<times> tok) res"
where
  "tok_get_next m buf pSepBy pTokenLen t =
     (if m_pos t \<ge> m_tail t then Inr (False, no_out, t)
      else let tokLen = ucast (m_end t - m_pos t) :: u32_t
           in if (case buf of None \<Rightarrow> False | Some bufSize \<Rightarrow> bufSize \<le> tokLen)
              then Inr (False, no_out, t)
              else rbind (case buf of None \<Rightarrow> Inr None
                          | Some _ \<Rightarrow> rbind (mem_bytes m (m_pos t) (unat tokLen))
                                        (\<lambda>bs. Inr (Some (bs @ [0]))))
                (\<lambda>b. rbind (if pSepBy then rbind (mem_byte m (m_end t)) (\<lambda>c. Inr (Some c)) else Inr None)
                (\<lambda>s. rbind (tok_find_next m (t\<lparr>m_pos := m_end t + 1\<rparr>))
                (\<lambda>t'. Inr (True, \<lparr>o_buf = b, o_sep = s,
                                 o_len = (if pTokenLen then Some tokLen else None)\<rparr>, t')))))"

definition tok_rewind :: "region \<Rightarrow> tok \<Rightarrow> tok res" where
  "tok_rewind m t = tok_find_next m (t\<lparr>m_pos := m_head t\<rparr>)"

text \<open>
  The binding constructors leave the separator array as the memory was, and ignore what
  \<open>bind\<close> returns.
\<close>

definition tok_raw :: "u8_t list \<Rightarrow> tok" where
  "tok_raw junk = \<lparr>m_head = 0, m_tail = 0, m_pos = 0, m_end = 0, m_sep = take sizeof_sep junk\<rparr>"

definition tok_make :: "u8_t list \<Rightarrow> region \<Rightarrow> ptr \<Rightarrow> u8_t list option \<Rightarrow> tok res" where
  "tok_make junk m str sep = rbind (tok_bind m str sep (tok_raw junk)) (\<lambda>(_, t). Inr t)"

definition tok_make_len :: "u8_t list \<Rightarrow> region \<Rightarrow> ptr \<Rightarrow> u32_t \<Rightarrow> u8_t list option \<Rightarrow> tok res" where
  "tok_make_len junk m str slen sep = rbind (tok_bind_len m str slen sep (tok_raw junk)) (\<lambda>(_, t). Inr t)"

text \<open>
  The loop of \<open>samples/ex-tok.cpp\<close>: while there are tokens, fetch the next one with its
  separator; a failing fetch ends the program. Each turn moves the position, so the number
  of bytes of the string and one more bound the turns.
\<close>

fun tok_loop :: "nat \<Rightarrow> region \<Rightarrow> u32_t \<Rightarrow> tok \<Rightarrow> ((u8_t list \<times> u8_t) list option) res" where
  "tok_loop 0 m bufSize t = Inl Diverges"
| "tok_loop (Suc k) m bufSize t =
     (if \<not> tok_has_more t then Inr (Some [])
      else rbind (tok_get_next m (Some bufSize) True True t) (\<lambda>(ok, out, t).
             if \<not> ok then Inr None
             else rbind (tok_loop k m bufSize t) (\<lambda>rest.
                    Inr (map_option (\<lambda>ts. (the (o_buf out), the (o_sep out)) # ts) rest))))"

text \<open>
  \<open>test1\<close> of the sample on any string and separators; the buffer has 256 bytes and the
  result is the list of printed lines, token bytes with their null and the separator.
\<close>

definition ex_tok_test1 :: "u8_t list \<Rightarrow> nat \<Rightarrow> region \<Rightarrow> ptr \<Rightarrow> u8_t list \<Rightarrow> ((u8_t list \<times> u8_t) list option) res" where
  "ex_tok_test1 junk fuel m str sep = rbind (tok_make junk m str (Some sep)) (\<lambda>t. tok_loop fuel m 256 t)"

end
