(* ===== verification/GclTokFacts.thy ===== *)
theory GclTokFacts
  imports GclTok
begin

section \<open>Tockenizer: scanning, tokens and the round trip\<close>

text \<open>
  The pointers of a bound tokenizer are offsets into its string: \<open>tok_at t a s i\<close> says that
  \<open>t\<close> is bound to the bytes \<open>s\<close> at address \<open>a\<close> and stands at offset \<open>i\<close>, with the end of the
  current token found. The abstract result of a run is \<open>tok_pairs\<close>, the tokens with the
  byte that ended each of them.
\<close>

definition is_sep :: "u8_t list \<Rightarrow> u8_t \<Rightarrow> bool" where
  "is_sep sep c \<longleftrightarrow> c = 0 \<or> c \<in> set (c_str sep)"

definition sep_ok :: "u8_t list \<Rightarrow> bool" where
  "sep_ok sep \<longleftrightarrow> length sep = 32 \<and> 0 \<in> set sep"

fun tok_pairs :: "(u8_t \<Rightarrow> bool) \<Rightarrow> u8_t \<Rightarrow> u8_t list \<Rightarrow> (u8_t list \<times> u8_t) list" where
  "tok_pairs P e [] = []"
| "tok_pairs P e (x # xs) =
     (let t = takeWhile (\<lambda>c. \<not> P c) (x # xs)
      in (t, (x # xs @ [e]) ! length t) # tok_pairs P e (drop (length t) xs))"

subsection \<open>Tokens determine the string\<close>

lemma tok_pairs_step:
  "xs \<noteq> [] \<Longrightarrow> tok_pairs P e xs =
     (takeWhile (\<lambda>c. \<not> P c) xs, (xs @ [e]) ! length (takeWhile (\<lambda>c. \<not> P c) xs))
       # tok_pairs P e (drop (Suc (length (takeWhile (\<lambda>c. \<not> P c) xs))) xs)"
by (cases xs) (simp_all only: tok_pairs.simps Let_def append_Cons drop_Suc_Cons simp_thms list.simps)

lemma tok_pairs_concat:
  "xs \<noteq> [] \<Longrightarrow> concat (map (\<lambda>(t, c). t @ [c]) (tok_pairs P e xs))
     = xs @ (if P (last xs) then [] else [e])"
proof (induction xs rule: length_induct)
  case (1 xs)
  let ?t = "takeWhile (\<lambda>c. \<not> P c) xs"
  show ?case
  proof (cases "length ?t < length xs")
    case False
    then have t: "?t = xs" by (metis length_takeWhile_le le_neq_implies_less takeWhile_eq_take take_all order_refl)
    then have "\<not> P (last xs)" using "1.prems" by (metis last_in_set set_takeWhileD)
    moreover have "tok_pairs P e xs = [(xs, e)]"
      using tok_pairs_step [OF "1.prems", of P e] by (simp add: t nth_append)
    ultimately show ?thesis by simp
  next
    case True
    let ?d = "drop (Suc (length ?t)) xs"
    have p: "P (xs ! length ?t)" using nth_length_takeWhile [OF True] by simp
    have x: "?t @ xs ! length ?t # ?d = xs"
      using True by (metis Cons_nth_drop_Suc append_take_drop_id takeWhile_eq_take)
    have eq: "tok_pairs P e xs = (?t, xs ! length ?t) # tok_pairs P e ?d"
      using tok_pairs_step [OF "1.prems", of P e] True by (simp add: nth_append)
    show ?thesis
    proof (cases "?d = []")
      case True
      then have "last xs = xs ! length ?t" by (metis x last_snoc)
      with True eq p x show ?thesis by simp
    next
      case False
      then have "last xs = last ?d" by simp
      with False eq x "1.IH" \<open>length ?t < length xs\<close> show ?thesis by simp
    qed
  qed
qed

lemma tok_pairs_no_sep: "(t, c) \<in> set (tok_pairs P e xs) \<Longrightarrow> b \<in> set t \<Longrightarrow> \<not> P b"
proof (induction P e xs rule: tok_pairs.induct)
  case (2 P e x xs)
  then show ?case by (auto simp: Let_def simp del: takeWhile.simps dropWhile.simps dest: set_takeWhileD)
qed simp

subsection \<open>Reading the string\<close>

lemma strchr_sep: "0 \<in> set sep \<Longrightarrow> strchr sep c = Inr (is_sep sep c)"
  by (induction sep c rule: strchr.induct) (auto simp: is_sep_def c_str_def)

lemma unat_at: "unat a + i < 2 ^ 64 \<Longrightarrow> unat (a + of_nat i :: ptr) = unat a + i"
  by (subst unat_add_nowrap) (simp_all add: unat_of_nat take_bit_nat_eq_self)

lemma at_diff: "unat a + j < 2 ^ 64 \<Longrightarrow> i \<le> j \<Longrightarrow> unat (a + of_nat j - (a + of_nat i) :: ptr) = j - i"
  by (subst unat_sub_nowrap) (simp_all add: unat_at)

lemma at_offset: "unat a + i < 2 ^ 64 \<Longrightarrow> unat (a + of_nat i - a :: ptr) = i"
  using at_diff [of a i 0] by simp

lemma mem_byte_at: "unat a + i < 2 ^ 64 \<Longrightarrow> i < length bs \<Longrightarrow> mem_byte (a, bs) (a + of_nat i) = Inr (bs ! i)"
  using at_offset [of a i] by (simp only: mem_byte_def Let_def fst_conv snd_conv simp_thms if_True)

lemma mem_bytes_at:
  "unat a + i < 2 ^ 64 \<Longrightarrow> i + n \<le> length bs \<Longrightarrow> mem_bytes (a, bs) (a + of_nat i) n = Inr (take n (drop i bs))"
  using at_offset [of a i] by (simp only: mem_bytes_def Let_def fst_conv snd_conv simp_thms if_True) simp

definition tlen :: "u8_t list \<Rightarrow> u8_t list \<Rightarrow> nat \<Rightarrow> nat" where
  "tlen sep s i = length (takeWhile (\<lambda>c. \<not> is_sep sep c) (drop i s))"

lemma tlen_le: "i \<le> length s \<Longrightarrow> i + tlen sep s i \<le> length s"
  using length_takeWhile_le [of "\<lambda>c. \<not> is_sep sep c" "drop i s"] by (simp add: tlen_def)

lemma tok_scan_at:
  assumes "0 \<in> set sep" "unat a + Suc (length s) < 2 ^ 64" "i \<le> Suc (length s)"
  shows "tok_scan (a, s @ rest) sep (a + of_nat (length s)) (a + of_nat i)
    = Inr (a + of_nat (i + tlen sep s i))"
  using assms(3)
proof (induction "Suc (length s) - i" arbitrary: i rule: less_induct)
  case less
  have u: "unat (a + of_nat i) = unat a + i" "unat (a + of_nat (length s)) = unat a + length s"
    using less.prems assms(2) by (simp_all add: unat_at)
  show ?case
  proof (cases "i < length s")
    case False
    then have "drop i s = []" by simp
    then show ?thesis
      using u False by (subst tok_scan.simps) (simp add: tlen_def word_less_nat_alt)
  next
    case True
    have d: "drop i s = s ! i # drop (Suc i) s" using True by (simp add: Cons_nth_drop_Suc)
    have b: "mem_byte (a, s @ rest) (a + of_nat i) = Inr (s ! i)"
      using mem_byte_at [of a i "s @ rest"] assms(2) True by (simp add: nth_append)
    have lt: "a + of_nat i < a + of_nat (length s)" using u True by (simp add: word_less_nat_alt)
    have IH: "tok_scan (a, s @ rest) sep (a + of_nat (length s)) (a + of_nat (Suc i))
        = Inr (a + of_nat (Suc i + tlen sep s (Suc i)))"
      using less.hyps [of "Suc i"] True by simp
    have nx: "a + of_nat i + 1 = a + of_nat (Suc i)" by (simp add: add_ac)
    have tl: "tlen sep s i = (if is_sep sep (s ! i) then 0 else Suc (tlen sep s (Suc i)))"
      by (simp add: tlen_def d)
    show ?thesis
      by (subst tok_scan.simps) (simp add: lt b strchr_sep [OF assms(1)] IH nx tl del: of_nat_Suc of_nat_add)
  qed
qed

subsection \<open>Positions of a bound tokenizer\<close>

definition tok_at :: "tok \<Rightarrow> ptr \<Rightarrow> u8_t list \<Rightarrow> nat \<Rightarrow> bool" where
  "tok_at t a s i \<longleftrightarrow>
     sep_ok (m_sep t) \<and> a \<noteq> 0 \<and> unat a + Suc (length s) < 2 ^ 64 \<and> length s < 2 ^ 32 \<and> i \<le> Suc (length s) \<and>
     m_head t = a \<and> m_tail t = a + of_nat (length s) \<and> m_pos t = a + of_nat i \<and>
     m_end t = a + of_nat (i + tlen (m_sep t) s i)"

lemma tok_atD:
  assumes "tok_at t a s i"
  shows "sep_ok (m_sep t)" "a \<noteq> 0" "unat a + Suc (length s) < 2 ^ 64" "length s < 2 ^ 32"
    "i \<le> Suc (length s)" "m_head t = a" "m_tail t = a + of_nat (length s)"
    "m_pos t = a + of_nat i" "m_end t = a + of_nat (i + tlen (m_sep t) s i)"
  using assms by (simp_all add: tok_at_def)

lemma tok_find_next_at:
  assumes "sep_ok (m_sep t)" "a \<noteq> 0" "unat a + Suc (length s) < 2 ^ 64" "length s < 2 ^ 32"
    and "i \<le> Suc (length s)" "m_head t = a" "m_tail t = a + of_nat (length s)" "m_pos t = a + of_nat i"
  shows "\<exists>t'. tok_find_next (a, s @ rest) t = Inr t' \<and> tok_at t' a s i \<and> m_sep t' = m_sep t"
  using assms tok_scan_at [of "m_sep t" a s i rest]
  by (simp add: tok_find_next_def tok_at_def sep_ok_def)

lemma tok_has_more_at: "tok_at t a s i \<Longrightarrow> tok_has_more t \<longleftrightarrow> i < length s"
  using unat_at [of a i] unat_at [of a "length s"] tok_atD [of t a s i]
  by (simp add: tok_has_more_def word_less_nat_alt)

lemma tok_length_at:
  assumes "tok_at t a s i" "i \<le> length s"
  shows "unat (tok_next_length t) = tlen (m_sep t) s i"
proof -
  note D = tok_atD [OF assms(1)]
  have le: "i + tlen (m_sep t) s i \<le> length s" by (rule tlen_le [OF assms(2)])
  then have "unat (m_end t - m_pos t) = tlen (m_sep t) s i"
    using D at_diff [of a "i + tlen (m_sep t) s i" i] by simp
  then show ?thesis
    using le D(4) by (simp add: tok_next_length_def unsigned_ucast_eq take_bit_nat_eq_self)
qed

lemma tok_get_next_small:
  assumes "tok_at t a s i" "i \<le> length s" "unat bufSize \<le> tlen (m_sep t) s i"
  shows "tok_get_next m (Some bufSize) pSepBy pTokenLen t = Inr (False, no_out, t)"
  using tok_length_at [OF assms(1,2)] assms(3)
  by (simp add: tok_get_next_def tok_next_length_def word_le_nat_alt)

lemma tok_get_next_at:
  assumes "tok_at t a s i" "i < length s" "tlen (m_sep t) s i < unat bufSize"
    and "pSepBy \<longrightarrow> i + tlen (m_sep t) s i < length (s @ rest)"
  obtains t' where "tok_get_next (a, s @ rest) (Some bufSize) pSepBy pTokenLen t
      = Inr (True, \<lparr>o_buf = Some (takeWhile (\<lambda>c. \<not> is_sep (m_sep t) c) (drop i s) @ [0]),
                    o_sep = (if pSepBy then Some ((s @ rest) ! (i + tlen (m_sep t) s i)) else None),
                    o_len = (if pTokenLen then Some (tok_next_length t) else None)\<rparr>, t')"
    "tok_at t' a s (Suc (i + tlen (m_sep t) s i))" "m_sep t' = m_sep t"
proof -
  let ?n = "tlen (m_sep t) s i" and ?j = "Suc (i + tlen (m_sep t) s i)"
  note D = tok_atD [OF assms(1)]
  have le: "i + ?n \<le> length s" using assms(2) by (intro tlen_le) simp
  have more: "\<not> m_pos t \<ge> m_tail t"
    using tok_has_more_at [OF assms(1)] assms(2) by (simp add: tok_has_more_def)
  have len: "unat (tok_next_length t) = ?n" by (rule tok_length_at [OF assms(1)]) (use assms(2) in simp)
  have fits: "\<not> bufSize \<le> ucast (m_end t - m_pos t)"
    using len assms(3) by (simp add: word_le_nat_alt tok_next_length_def)
  have bytes: "mem_bytes (a, s @ rest) (m_pos t) (unat (ucast (m_end t - m_pos t) :: u32_t))
      = Inr (takeWhile (\<lambda>c. \<not> is_sep (m_sep t) c) (drop i s))"
    using mem_bytes_at [of a i ?n "s @ rest"] D(3,8) le len
    by (simp add: tok_next_length_def tlen_def takeWhile_eq_take [symmetric])
  have sep: "mem_byte (a, s @ rest) (m_end t) = Inr ((s @ rest) ! (i + ?n))" if "pSepBy"
    using mem_byte_at [of a "i + ?n" "s @ rest"] D(3,9) le assms(4) that by simp
  have pos: "m_end t + 1 = a + of_nat ?j" using D(9) by (simp add: add_ac)
  obtain t' where t': "tok_find_next (a, s @ rest) (t\<lparr>m_pos := m_end t + 1\<rparr>) = Inr t'"
    "tok_at t' a s ?j" "m_sep t' = m_sep t"
    using tok_find_next_at [of "t\<lparr>m_pos := m_end t + 1\<rparr>" a s ?j rest] D le pos by auto
  show thesis
  proof (rule that [OF _ t'(2,3)])
    show "tok_get_next (a, s @ rest) (Some bufSize) pSepBy pTokenLen t
      = Inr (True, \<lparr>o_buf = Some (takeWhile (\<lambda>c. \<not> is_sep (m_sep t) c) (drop i s) @ [0]),
                    o_sep = (if pSepBy then Some ((s @ rest) ! (i + ?n)) else None),
                    o_len = (if pTokenLen then Some (tok_next_length t) else None)\<rparr>, t')"
      using more fits bytes sep t'(1)
      by (cases pSepBy) (simp_all add: tok_get_next_def Let_def tok_next_length_def)
  qed
qed

lemma drop_nth_append: "i < length s \<Longrightarrow> (s @ e # rest) ! (i + k) = (drop i s @ [e]) ! k"
  if "i + k \<le> length s"
  using that by (auto simp: nth_append)

lemma tok_loop_at:
  assumes "unat bufSize > length s"
  shows "tok_at t a s i \<Longrightarrow> Suc (length s) - i < k \<Longrightarrow>
    tok_loop k (a, s @ e # rest) bufSize t
      = Inr (Some (map (\<lambda>(w, c). (w @ [0], c)) (tok_pairs (is_sep (m_sep t)) e (drop i s))))"
proof (induction k arbitrary: t i)
  case 0
  then show ?case by simp
next
  case (Suc k)
  show ?case
  proof (cases "i < length s")
    case False
    then show ?thesis using tok_has_more_at [OF Suc.prems(1)] by simp
  next
    case True
    let ?n = "tlen (m_sep t) s i"
    have le: "i + ?n \<le> length s" using True by (intro tlen_le) simp
    obtain t' where t': "tok_get_next (a, s @ e # rest) (Some bufSize) True True t
        = Inr (True, \<lparr>o_buf = Some (takeWhile (\<lambda>c. \<not> is_sep (m_sep t) c) (drop i s) @ [0]),
             o_sep = Some ((s @ e # rest) ! (i + ?n)), o_len = Some (tok_next_length t)\<rparr>, t')"
      "tok_at t' a s (Suc (i + ?n))" "m_sep t' = m_sep t"
      using tok_get_next_at [OF Suc.prems(1) True, of bufSize True "e # rest" True] le assms by auto
    have "tok_pairs (is_sep (m_sep t)) e (drop i s)
        = (takeWhile (\<lambda>c. \<not> is_sep (m_sep t) c) (drop i s), (s @ e # rest) ! (i + ?n))
            # tok_pairs (is_sep (m_sep t)) e (drop (Suc (i + ?n)) s)"
      using tok_pairs_step [of "drop i s" "is_sep (m_sep t)" e] True drop_nth_append [OF le True]
      by (simp add: tlen_def add_ac)
    then show ?thesis
      using tok_has_more_at [OF Suc.prems(1)] True t'(1,3) Suc.IH [OF t'(2)] Suc.prems(2) by simp
  qed
qed

lemma tok_at_unique: "tok_at t a s i \<Longrightarrow> tok_at t' a s i \<Longrightarrow> m_sep t = m_sep t' \<Longrightarrow> t = t'"
  by (simp add: tok_at_def)

text \<open>Any fetch from a bound tokenizer, whatever the caller asks for, leaves it bound.\<close>

lemma tok_get_next_any:
  assumes "tok_at t a s i"
  shows "\<exists>ok out t' j. tok_get_next (a, s @ e # rest) buf pSepBy pTokenLen t = Inr (ok, out, t')
    \<and> tok_at t' a s j \<and> m_sep t' = m_sep t"
proof (cases "i < length s")
  case False
  then have "m_pos t \<ge> m_tail t" using tok_has_more_at [OF assms] by (simp add: tok_has_more_def)
  with assms show ?thesis by (auto simp: tok_get_next_def)
next
  case True
  let ?n = "tlen (m_sep t) s i"
  note D = tok_atD [OF assms]
  have le: "i + ?n \<le> length s" using True by (intro tlen_le) simp
  have more: "\<not> m_pos t \<ge> m_tail t" using tok_has_more_at [OF assms] True by (simp add: tok_has_more_def)
  have len: "unat (ucast (m_end t - m_pos t) :: u32_t) = ?n"
    using tok_length_at [OF assms] True by (simp add: tok_next_length_def)
  obtain bs where bs: "mem_bytes (a, s @ e # rest) (m_pos t) ?n = Inr bs"
    using mem_bytes_at [of a i ?n "s @ e # rest"] D(3,8) le by auto
  obtain c where c: "mem_byte (a, s @ e # rest) (m_end t) = Inr c"
    using mem_byte_at [of a "i + ?n" "s @ e # rest"] D(3,9) le by auto
  have pos: "m_end t + 1 = a + of_nat (Suc (i + ?n))" using D(9) by (simp add: add_ac)
  obtain t' where t': "tok_find_next (a, s @ e # rest) (t\<lparr>m_pos := m_end t + 1\<rparr>) = Inr t'"
    "tok_at t' a s (Suc (i + ?n))" "m_sep t' = m_sep t"
    using tok_find_next_at [of "t\<lparr>m_pos := m_end t + 1\<rparr>" a s "Suc (i + ?n)" "e # rest"] D le pos by auto
  show ?thesis
    using more len bs c t' assms by (cases buf; cases pSepBy) (auto simp: tok_get_next_def Let_def)
qed

fun tok_run :: "region \<Rightarrow> (u32_t option \<times> bool \<times> bool) list \<Rightarrow> tok \<Rightarrow> tok res" where
  "tok_run m [] t = Inr t"
| "tok_run m ((buf, pSepBy, pTokenLen) # rs) t =
     rbind (tok_get_next m buf pSepBy pTokenLen t) (\<lambda>(_, _, t). tok_run m rs t)"

lemma tok_run_at:
  "tok_at t a s i \<Longrightarrow> \<exists>t' j. tok_run (a, s @ e # rest) rs t = Inr t' \<and> tok_at t' a s j \<and> m_sep t' = m_sep t"
proof (induction rs arbitrary: t i)
  case (Cons r rs)
  obtain b p l where r: "r = (b, p, l)" by (cases r)
  obtain ok out t' j where g: "tok_get_next (a, s @ e # rest) b p l t = Inr (ok, out, t')"
    "tok_at t' a s j" "m_sep t' = m_sep t"
    using tok_get_next_any [OF Cons.prems] by blast
  from Cons.IH [OF g(2)] show ?case using g(1,3) r by auto
qed auto

subsection \<open>Binding\<close>

lemma c_str_short: "length (c_str sp) < 32 \<Longrightarrow> sep_ok (c_str sp @ replicate (32 - length (c_str sp)) 0)"
  by (simp add: sep_ok_def)

lemma c_str_no_null: "0 \<notin> set (c_str bs)"
  by (auto simp: c_str_def dest: set_takeWhileD)

lemma c_str_append: "0 \<notin> set s \<Longrightarrow> c_str (s @ 0 # rest) = s"
  by (induction s) (auto simp: c_str_def)

lemma is_sep_padded: "is_sep (c_str sp @ 0 # zs) = is_sep sp"
  using c_str_append [OF c_str_no_null] by (auto simp: is_sep_def)

lemma padded: "n < 32 \<Longrightarrow> xs @ replicate (32 - n) (0 :: u8_t) = xs @ 0 # replicate (31 - n) 0"
  by (simp add: Suc_diff_le flip: replicate_Suc)

lemma tok_set_separators_short:
  assumes "length (c_str sp) < 32"
  shows "tok_set_separators sp t = (True, t\<lparr>m_sep := c_str sp @ replicate (32 - length (c_str sp)) 0\<rparr>)"
proof -
  let ?s = "c_str sp @ replicate (32 - length (c_str sp)) (0 :: u8_t)"
  have "?s[31 := 0] = ?s"
    using assms by (intro list_update_same_conv [THEN iffD2]) (auto simp: nth_append)
  then show ?thesis using assms by (simp add: tok_set_separators_def Let_def)
qed

lemma tok_set_separators_long:
  "\<not> length (c_str sp) < 32 \<Longrightarrow> tok_set_separators sp t = (False, t\<lparr>m_sep := (m_sep t)[0 := 0]\<rparr>)"
  by (simp add: tok_set_separators_def Let_def)

lemma tok_bind_at:
  assumes "a \<noteq> 0" "unat a + Suc (length s) < 2 ^ 64" "length s < 2 ^ 32" "0 \<notin> set s"
    and "length (c_str sp) < 32"
  obtains t' where "tok_bind (a, s @ 0 # rest) a (Some sp) t = Inr (True, t')" "tok_at t' a s 0"
    "is_sep (m_sep t') = is_sep sp"
proof -
  let ?m = "(a, s @ 0 # rest)" and ?sep = "c_str sp @ replicate (32 - length (c_str sp)) 0"
  have n: "mem_strlen ?m a = Inr (length s)"
    using assms(1,4) by (simp add: mem_strlen_def c_str_append)
  have tl: "a + ucast (of_nat (length s) :: u32_t) = a + of_nat (length s)"
    using assms(2,3) by (simp add: word_eq_unat unat_word_ariths unat_of_nat take_bit_nat_eq_self unsigned_ucast_eq)
  define u where "u = t\<lparr>m_head := a, m_tail := a + of_nat (length s), m_pos := a, m_sep := ?sep\<rparr>"
  obtain t' where t': "tok_find_next ?m u = Inr t'" "tok_at t' a s 0" "m_sep t' = m_sep u"
    using tok_find_next_at [of u a s 0 "0 # rest"] assms c_str_short [OF assms(5)] by (auto simp: u_def)
  show thesis
  proof (rule that [OF _ t'(2)])
    show "tok_bind ?m a (Some sp) t = Inr (True, t')"
      using n tl t'(1) assms(1) tok_set_separators_short [OF assms(5)]
      by (simp add: tok_bind_def tok_bind_len_def Let_def u_def)
    show "is_sep (m_sep t') = is_sep sp"
      using t'(3) assms(5) by (simp add: u_def padded is_sep_padded)
  qed
qed

end
