(* ===== verification/GclTokProps.thy ===== *)
theory GclTokProps
  imports GclTokFacts
begin

section \<open>Tockenizer: properties\<close>

text \<open>
  The round trip through the tokens, the buffer and rewind contracts, the separator set, and
  the two inputs on which the class misbehaves.
\<close>

text \<open>
  C18: A run of the sample loop over a string that ends in a null byte returns, after at most
  one turn per character and one more, exactly the tokens between the separator characters,
  each with the character that ended it (the final null byte for an unterminated last token).
\<close>

theorem tok_run_yields_tokens:
  assumes "a \<noteq> 0" "unat a + Suc (length s) < 2 ^ 64" "length s < 256" "0 \<notin> set s"
    and "length (c_str sep) < 32" "length s + 2 \<le> fuel"
  shows "ex_tok_test1 junk fuel (a, s @ 0 # rest) a sep
    = Inr (Some (map (\<lambda>(w, c). (w @ [0], c)) (tok_pairs (is_sep sep) 0 s)))"
proof -
  obtain t where t: "tok_bind (a, s @ 0 # rest) a (Some sep) (tok_raw junk) = Inr (True, t)"
    "tok_at t a s 0" "is_sep (m_sep t) = is_sep sep"
    using tok_bind_at [of a s sep rest "tok_raw junk"] assms by auto
  then show ?thesis
    using tok_loop_at [OF _ t(2), of 256 fuel 0 rest] assms(3,6)
    by (simp add: ex_tok_test1_def tok_make_def)
qed

theorem tok_run_yields_tokens_witness:
  "ex_tok_test1 [] 10 (4096, [65, 59, 66, 10, 67, 0]) 4096 [59, 10, 0]
    = Inr (Some [([65, 0], 59), ([66, 0], 10), ([67, 0], 0)])"
  using tok_run_yields_tokens [of 4096 "[65, 59, 66, 10, 67]" "[59, 10, 0]" 10 "[]" "[]"]
  by (simp add: c_str_def is_sep_def Let_def)

text \<open>
  C19: Tokens lose nothing: the printed tokens, each followed by the separator reported with
  it, spell the string again (with a final null byte when it does not end in a separator),
  and no token contains a separator character.
\<close>

theorem tok_run_roundtrip:
  assumes "a \<noteq> 0" "unat a + Suc (length s) < 2 ^ 64" "length s < 256" "0 \<notin> set s" "s \<noteq> []"
    and "length (c_str sep) < 32" "length s + 2 \<le> fuel"
  shows "\<exists>ts. ex_tok_test1 junk fuel (a, s @ 0 # rest) a sep = Inr (Some ts)
    \<and> concat (map (\<lambda>(w, c). butlast w @ [c]) ts) = s @ (if is_sep sep (last s) then [] else [0])
    \<and> (\<forall>(w, c) \<in> set ts. \<forall>b \<in> set (butlast w). \<not> is_sep sep b)"
proof -
  obtain t where t: "tok_bind (a, s @ 0 # rest) a (Some sep) (tok_raw junk) = Inr (True, t)"
    "tok_at t a s 0" "is_sep (m_sep t) = is_sep sep"
    using tok_bind_at [of a s sep rest "tok_raw junk"] assms by auto
  have "ex_tok_test1 junk fuel (a, s @ 0 # rest) a sep
    = Inr (Some (map (\<lambda>(w, c). (w @ [0], c)) (tok_pairs (is_sep sep) 0 s)))"
    using tok_loop_at [OF _ t(2), of 256 fuel 0 rest] t assms(3,7)
    by (simp add: ex_tok_test1_def tok_make_def)
  moreover have "map (\<lambda>(w, c). butlast w @ [c]) (map (\<lambda>(w, c). (w @ [0], c)) (tok_pairs (is_sep sep) 0 s))
      = map (\<lambda>(t, c). t @ [c]) (tok_pairs (is_sep sep) 0 s)"
    by auto
  moreover have "\<forall>(w, c) \<in> set (map (\<lambda>(w, c). (w @ [0 :: u8_t], c)) (tok_pairs (is_sep sep) 0 s)).
      \<forall>b \<in> set (butlast w). \<not> is_sep sep b"
    using tok_pairs_no_sep [of _ _ "is_sep sep" 0 s] by fastforce
  moreover note tok_pairs_concat [OF assms(5), of "is_sep sep" 0]
  ultimately show ?thesis
    by (intro exI [of _ "map (\<lambda>(w, c). (w @ [0], c)) (tok_pairs (is_sep sep) 0 s)"] conjI)
      (simp_all only:)
qed

theorem tok_run_roundtrip_witness:
  "\<exists>ts. ex_tok_test1 [] 10 (4096, [65, 59, 66, 0]) 4096 [59, 0] = Inr (Some ts)
    \<and> concat (map (\<lambda>(w, c). butlast w @ [c]) ts) = [65, 59, 66, 0]"
  using tok_run_roundtrip [of 4096 "[65, 59, 66]" "[59, 0]" 10 "[]" "[]"]
  by (simp add: c_str_def is_sep_def) blast

text \<open>
  C36: \<open>get_next\<close> never writes past the caller's buffer: at a token that does not fit with its
  null byte it fails and changes nothing, otherwise it stores token and null byte, reports
  the separator that follows and moves behind it.
\<close>

theorem tok_get_next_buffer:
  assumes "tok_at t a s i" "i < length s"
  shows "if unat bufSize \<le> tlen (m_sep t) s i
    then tok_get_next (a, s @ e # rest) (Some bufSize) True True t = Inr (False, no_out, t)
    else \<exists>t' w. w = takeWhile (\<lambda>c. \<not> is_sep (m_sep t) c) (drop i s) \<and> length w < unat bufSize
      \<and> tok_get_next (a, s @ e # rest) (Some bufSize) True True t
        = Inr (True, \<lparr>o_buf = Some (w @ [0]), o_sep = Some ((s @ [e]) ! (i + length w)),
                      o_len = Some (of_nat (length w))\<rparr>, t')
      \<and> tok_at t' a s (Suc (i + length w)) \<and> m_sep t' = m_sep t"
proof (cases "unat bufSize \<le> tlen (m_sep t) s i")
  case True
  then show ?thesis using tok_get_next_small [OF assms(1), of bufSize] assms(2) by simp
next
  case False
  have le: "i + tlen (m_sep t) s i \<le> length s" using assms(2) by (intro tlen_le) simp
  have "unat (tok_next_length t) = tlen (m_sep t) s i" using tok_length_at [OF assms(1)] assms(2) by simp
  then have len: "tok_next_length t = of_nat (tlen (m_sep t) s i)"
    by (metis of_nat_unat ucast_id)
  obtain t' where t': "tok_get_next (a, s @ e # rest) (Some bufSize) True True t
      = Inr (True, \<lparr>o_buf = Some (takeWhile (\<lambda>c. \<not> is_sep (m_sep t) c) (drop i s) @ [0]),
           o_sep = Some ((s @ e # rest) ! (i + tlen (m_sep t) s i)), o_len = Some (tok_next_length t)\<rparr>, t')"
    "tok_at t' a s (Suc (i + tlen (m_sep t) s i))" "m_sep t' = m_sep t"
    using tok_get_next_at [OF assms, of bufSize True "e # rest" True] le False by auto
  moreover have "(s @ e # rest) ! (i + tlen (m_sep t) s i) = (s @ [e]) ! (i + tlen (m_sep t) s i)"
    using le by (auto simp: nth_append)
  ultimately show ?thesis using False len by (auto simp: tlen_def)
qed

definition tok_demo :: "u8_t list \<Rightarrow> tok" where
  "tok_demo s = \<lparr>m_head = 4096, m_tail = 4096 + of_nat (length s), m_pos = 4096,
     m_end = 4096 + of_nat (length (takeWhile (\<lambda>c. c \<noteq> 59 \<and> c \<noteq> 0) s)), m_sep = 59 # replicate 31 0\<rparr>"

lemma is_sep_demo: "is_sep (59 # replicate 31 0) c \<longleftrightarrow> c = 0 \<or> c = 59"
  by (simp add: is_sep_def c_str_def)

lemma tok_demo_at: "length s < 1000 \<Longrightarrow> tok_at (tok_demo s) 4096 s 0"
  by (simp add: tok_at_def tok_demo_def sep_ok_def tlen_def is_sep_demo conj_commute)

theorem tok_get_next_buffer_witness:
  "tok_get_next (4096, [65, 66, 59, 67, 0]) (Some 2) True True (tok_demo [65, 66, 59, 67])
     = Inr (False, no_out, tok_demo [65, 66, 59, 67])
   \<and> (\<exists>t'. tok_get_next (4096, [65, 66, 59, 67, 0]) (Some 3) True True (tok_demo [65, 66, 59, 67])
     = Inr (True, \<lparr>o_buf = Some [65, 66, 0], o_sep = Some 59, o_len = Some 2\<rparr>, t'))"
  using tok_get_next_buffer [OF tok_demo_at, of "[65, 66, 59, 67]" 2 0 "[]"]
    tok_get_next_buffer [OF tok_demo_at, of "[65, 66, 59, 67]" 3 0 "[]"]
  by (auto simp: tok_demo_def tlen_def is_sep_demo simp del: replicate.simps)

text \<open>
  \<open>rewind\<close> undoes any number of fetches: after any sequence of \<open>get_next\<close> calls, failed
  ones included, it brings back exactly the tokenizer as \<open>bind\<close> left it.
\<close>

theorem tok_rewind_restores:
  assumes "a \<noteq> 0" "unat a + Suc (length s) < 2 ^ 64" "length s < 2 ^ 32" "0 \<notin> set s"
    and "length (c_str sep) < 32"
  shows "\<exists>t0 t1. tok_make junk (a, s @ 0 # rest) a (Some sep) = Inr t0
    \<and> tok_run (a, s @ 0 # rest) calls t0 = Inr t1 \<and> tok_rewind (a, s @ 0 # rest) t1 = Inr t0"
proof -
  obtain t0 where t0: "tok_bind (a, s @ 0 # rest) a (Some sep) (tok_raw junk) = Inr (True, t0)"
    "tok_at t0 a s 0"
    using tok_bind_at [of a s sep rest "tok_raw junk"] assms by auto
  obtain t1 j where t1: "tok_run (a, s @ 0 # rest) calls t0 = Inr t1" "tok_at t1 a s j" "m_sep t1 = m_sep t0"
    using tok_run_at [OF t0(2)] by blast
  obtain t2 where t2: "tok_find_next (a, s @ 0 # rest) (t1\<lparr>m_pos := a\<rparr>) = Inr t2"
    "tok_at t2 a s 0" "m_sep t2 = m_sep t1"
    using tok_find_next_at [of "t1\<lparr>m_pos := a\<rparr>" a s 0 "0 # rest"] tok_atD [OF t1(2)] by auto
  have "t2 = t0" using tok_at_unique [OF t2(2) t0(2)] t1(3) t2(3) by simp
  then show ?thesis
    using t0 t1(1) t2(1) tok_atD(6) [OF t1(2)] by (auto simp: tok_make_def tok_rewind_def)
qed

theorem tok_rewind_restores_witness:
  "\<exists>t0 t1. tok_make [] (4096, [65, 59, 66, 0]) 4096 (Some [59, 0]) = Inr t0
    \<and> tok_run (4096, [65, 59, 66, 0]) [(Some 8, True, False), (Some 1, False, False)] t0 = Inr t1
    \<and> tok_rewind (4096, [65, 59, 66, 0]) t1 = Inr t0"
  using tok_rewind_restores [of 4096 "[65, 59, 66]" "[59, 0]" "[]" "[]"
      "[(Some 8, True, False), (Some 1, False, False)]"]
  by (simp add: c_str_def del: tok_run.simps)

text \<open>
  \<open>set_separators\<close> accepts up to thirty-one characters, and then the scan stops at
  exactly those and at null bytes; a longer list is rejected and leaves the empty list, at
  which only null bytes stop the scan. The thirty-two bytes are never overrun.
\<close>

theorem tok_set_separators_spec:
  assumes "length (m_sep t) = 32"
  shows "case tok_set_separators sep t of (ok, t') \<Rightarrow>
    (ok \<longleftrightarrow> length (c_str sep) \<le> 31) \<and> length (m_sep t') = 32
    \<and> (\<forall>c. strchr (m_sep t') c = Inr (c = 0 \<or> (ok \<and> c \<in> set (c_str sep))))
    \<and> t' = t\<lparr>m_sep := m_sep t'\<rparr>"
proof (cases "length (c_str sep) < 32")
  case True
  let ?s = "c_str sep @ replicate (32 - length (c_str sep)) 0"
  have "strchr ?s c = Inr (is_sep sep c)" for c
    using strchr_sep [of ?s c] True by (simp add: padded is_sep_padded)
  then show ?thesis
    using True by (auto simp: tok_set_separators_short is_sep_def)
next
  case False
  have "(m_sep t)[0 := 0] = 0 # tl (m_sep t)" using assms by (cases "m_sep t") auto
  then show ?thesis using False assms by (simp add: tok_set_separators_long)
qed

theorem tok_set_separators_spec_witness:
  "fst (tok_set_separators [59, 0] (tok_demo [])) \<and>
   strchr (m_sep (snd (tok_set_separators [59, 0] (tok_demo [])))) 59 = Inr True"
  using tok_set_separators_spec [of "tok_demo []" "[59, 0]"]
  by (auto simp: tok_demo_def c_str_def split: prod.splits)

text \<open>
  A string bound with an explicit length need not be terminated, but a fetch of its last
  token reads the byte behind it when the token ends at the end of the string and the caller
  asks for the separator; without that request the same fetch stays inside.
\<close>

theorem tok_get_next_overread:
  assumes "tok_at t a s i" "i < length s" "\<forall>b \<in> set (drop i s). \<not> is_sep (m_sep t) b"
    and "length s - i < unat bufSize"
  shows "tok_get_next (a, s) (Some bufSize) True pTokenLen t = Inl OutOfBounds
    \<and> (\<exists>t' out. tok_get_next (a, s) (Some bufSize) False pTokenLen t = Inr (True, out, t')
        \<and> o_buf out = Some (drop i s @ [0]))"
proof -
  have tw: "takeWhile (\<lambda>c. \<not> is_sep (m_sep t) c) (drop i s) = drop i s" using assms(3) by simp
  then have n: "tlen (m_sep t) s i = length s - i" by (simp only: tlen_def length_drop)
  note D = tok_atD [OF assms(1)]
  have more: "\<not> m_pos t \<ge> m_tail t"
    using tok_has_more_at [OF assms(1)] assms(2) by (simp add: tok_has_more_def)
  have len: "unat (ucast (m_end t - m_pos t) :: u32_t) = length s - i"
    using tok_length_at [OF assms(1)] assms(2) n by (simp add: tok_next_length_def)
  have "\<not> bufSize \<le> ucast (m_end t - m_pos t)" using len assms(4) by (simp add: word_le_nat_alt)
  moreover have "mem_bytes (a, s) (m_pos t) (length s - i) = Inr (drop i s)"
    using mem_bytes_at [of a i "length s - i" s] D(3,8) assms(2) by simp
  moreover have "mem_byte (a, s) (m_end t) = Inl OutOfBounds"
    using at_offset [of a "length s"] D(3,9) n assms(2)
    by (simp only: mem_byte_def Let_def fst_conv snd_conv) simp
  ultimately have "tok_get_next (a, s) (Some bufSize) True pTokenLen t = Inl OutOfBounds"
    using more len by (simp add: tok_get_next_def Let_def)
  moreover obtain t' where "tok_get_next (a, s @ []) (Some bufSize) False pTokenLen t
      = Inr (True, \<lparr>o_buf = Some (takeWhile (\<lambda>c. \<not> is_sep (m_sep t) c) (drop i s) @ [0]), o_sep = None,
           o_len = (if pTokenLen then Some (tok_next_length t) else None)\<rparr>, t')"
    using tok_get_next_at [OF assms(1,2), of bufSize False "[]" pTokenLen] n assms(4) by auto
  ultimately show ?thesis using tw by simp
qed

theorem tok_get_next_overread_witness:
  "tok_get_next (4096, [65, 66]) (Some 8) True False (tok_demo [65, 66]) = Inl OutOfBounds"
  using tok_get_next_overread [OF tok_demo_at, of "[65, 66]" 8 False]
  by (simp add: tok_demo_def is_sep_demo del: replicate.simps)

text \<open>
  A \<open>bind\<close> that fails because the separator list is too long has already moved the
  tokenizer to the new string without finding its first token: it reports more tokens, with
  the token end of before, and the next fetch counts the token length from there.
\<close>

theorem tok_failed_bind_stale_end:
  assumes "a \<noteq> 0" "unat a + Suc (length s) < 2 ^ 64" "length s < 2 ^ 32" "0 \<notin> set s" "s \<noteq> []"
    and "32 \<le> length (c_str sep)"
  shows "\<exists>t'. tok_bind (a, s @ 0 # rest) a (Some sep) t = Inr (False, t') \<and> tok_has_more t'
    \<and> m_pos t' = a \<and> m_end t' = m_end t \<and> tok_next_length t' = ucast (m_end t - a)"
proof -
  have n: "mem_strlen (a, s @ 0 # rest) a = Inr (length s)"
    using assms(1,4) by (simp add: mem_strlen_def c_str_append)
  have tl: "a + ucast (of_nat (length s) :: u32_t) = a + of_nat (length s)"
    using assms(2,3) by (simp add: word_eq_unat unat_word_ariths unat_of_nat take_bit_nat_eq_self unsigned_ucast_eq)
  have "a < a + of_nat (length s)"
    using assms(2,5) unat_at [of a "length s"] by (simp add: word_less_nat_alt)
  then show ?thesis
    using n tl assms(1,6)
    by (simp add: tok_bind_def tok_bind_len_def Let_def tok_set_separators_long tok_has_more_def tok_next_length_def)
qed

theorem tok_failed_bind_stale_end_witness:
  "\<exists>t'. tok_bind (4096, [65, 0]) 4096 (Some (replicate 40 59)) (tok_new []) = Inr (False, t')
    \<and> tok_has_more t' \<and> tok_next_length t' = 4294963200"
  using tok_failed_bind_stale_end [of 4096 "[65]" "replicate 40 59" "[]" "tok_new []"]
  by (auto simp: c_str_def tok_new_def)

end
