(* ===== verification/GclUtil.thy ===== *)
theory GclUtil
  imports GclPrelude
begin

unbundle bit_operations_syntax

section \<open>Utilities: \<open>include/gutil.h\<close>, \<open>src/util/gutil.cpp\<close>, \<open>src/util/filelength.cpp\<close>\<close>

text \<open>
  Hexadecimal conversion on bytes and buffers, and the length of an open file. A \<open>char\<close> is
  a byte read as a signed number where the code compares or shifts it (the compilers the
  build files name have a signed \<open>char\<close>); a result is stored back modulo 256. Source and
  destination buffers are distinct lists, and the pointers into them are offsets.
\<close>

subsection \<open>Characters\<close>

definition chr2hex :: "u8_t \<Rightarrow> u8_t \<times> u8_t" where
  "chr2hex c =
     (let hi = drop_bit 4 (sint c) AND 0x0F;
          lo = sint c AND 0x0F
      in (word_of_int ((if hi < 10 then 48 else 65 - 10) + hi),
          word_of_int ((if lo < 10 then 48 else 65 - 10) + lo)))"

text \<open>
  \<open>toupper\<close> of the C locale is defined on the values of an unsigned character and on
  \<open>EOF\<close>; a negative \<open>char\<close> other than minus one is outside its domain.
\<close>

definition c_toupper :: "int \<Rightarrow> int res" where
  "c_toupper c =
     (if c < -1 \<or> 255 < c then Inl OutOfBounds
      else Inr (if 97 \<le> c \<and> c \<le> 122 then c - 32 else c))"

definition hexval :: "u8_t \<Rightarrow> u8_t res" where
  "hexval hexchar = rbind (c_toupper (sint hexchar)) (\<lambda>u.
     let h = sint (word_of_int u :: u8_t)
     in if 48 \<le> h \<and> h \<le> 57 then Inr (word_of_int (h - 48))
        else if 65 \<le> h \<and> h \<le> 70 then Inr (word_of_int (h - 65 + 10))
        else Inr 0)"

subsection \<open>Buffers\<close>

function byte2hexstr_loop :: "u8_t list \<Rightarrow> nat \<Rightarrow> u8_t list \<Rightarrow> nat \<Rightarrow> int \<Rightarrow> u8_t list res" where
  "byte2hexstr_loop src i dst j n =
     rbind (signed_fit 32 (n - 1)) (\<lambda>_.
       if n - 1 \<ge> 0
       then rbind (load src i) (\<lambda>c.
            rbind (store dst j (fst (chr2hex c))) (\<lambda>dst.
            rbind (store dst (j + 1) (snd (chr2hex c))) (\<lambda>dst.
            byte2hexstr_loop src (i + 1) dst (j + 2) (n - 1))))
       else Inr dst)"
  by pat_completeness auto
termination by (relation "measure (\<lambda>(src, i, dst, j, n). nat n)") auto

definition byte2hexstr :: "u8_t list \<Rightarrow> u8_t list \<Rightarrow> int \<Rightarrow> u8_t list res" where
  "byte2hexstr src dst n = byte2hexstr_loop src 0 dst 0 n"

function hexstr2byte_loop :: "u8_t list \<Rightarrow> nat \<Rightarrow> u8_t list \<Rightarrow> nat \<Rightarrow> int \<Rightarrow> u8_t list res" where
  "hexstr2byte_loop src i dst j n =
     rbind (signed_fit 32 (n - 1)) (\<lambda>_.
       if n - 1 \<ge> 0
       then rbind (load src i) (\<lambda>c. rbind (hexval c) (\<lambda>h.
            rbind (store dst j (word_of_int (sint h * 2 ^ 4))) (\<lambda>dst.
            if n - 1 - 1 \<ge> 0
            then rbind (load src (i + 1)) (\<lambda>c. rbind (hexval c) (\<lambda>l.
                 rbind (store dst j (word_of_int (sint (dst ! j) + sint l))) (\<lambda>dst.
                 hexstr2byte_loop src (i + 2) dst (j + 1) (n - 1 - 1))))
            else hexstr2byte_loop src (i + 1) dst (j + 1) (n - 1 - 1))))
       else Inr dst)"
  by pat_completeness auto
termination by (relation "measure (\<lambda>(src, i, dst, j, n). nat n)") auto

definition hexstr2byte :: "u8_t list \<Rightarrow> u8_t list \<Rightarrow> int \<Rightarrow> u8_t list res" where
  "hexstr2byte src dst n = hexstr2byte_loop src 0 dst 0 n"

declare byte2hexstr_loop.simps [simp del]
declare hexstr2byte_loop.simps [simp del]

subsection \<open>File length\<close>

text \<open>
  \<open>lseek\<close> is the operating system's: it takes and returns the state of the open files. The
  minus one of a failure comes back as the largest \<open>size_t\<close>.
\<close>

datatype whence = SEEK_SET | SEEK_CUR | SEEK_END

type_synonym 'w lseek_fn = "int \<Rightarrow> int \<Rightarrow> whence \<Rightarrow> 'w \<Rightarrow> int \<times> 'w"

definition filelength :: "'w lseek_fn \<Rightarrow> int \<Rightarrow> 'w \<Rightarrow> u64_t \<times> 'w" where
  "filelength lseek filedes w =
     (case lseek filedes 0 SEEK_CUR w of (pos, w) \<Rightarrow>
        if pos \<noteq> -1
        then (case lseek filedes 0 SEEK_END w of (sz, w) \<Rightarrow>
               case lseek filedes pos SEEK_SET w of (_, w) \<Rightarrow> (word_of_int sz, w))
        else (word_of_int (-1), w))"

end
