(* ===== verification/GclUtilProps.thy ===== *)
theory GclUtilProps
  imports GclUtil
begin

section \<open>Utilities: properties\<close>

text \<open>
  The reference functions are \<open>hexdig\<close> and \<open>nib\<close>, a digit of a value and the value of a
  digit, and \<open>hex_encode\<close> and \<open>hex_decode\<close>, the same on lists; the loops over the buffers
  are shown to compute them in place, and the two directions to be inverse.
\<close>

definition hexdig :: "nat \<Rightarrow> u8_t" where
  "hexdig n = of_nat (if n < 10 then 48 + n else 55 + n)"

definition nib :: "u8_t \<Rightarrow> u8_t" where
  "nib c = (if 48 \<le> c \<and> c \<le> 57 then c - 48 else if 65 \<le> c \<and> c \<le> 70 then c - 55
            else if 97 \<le> c \<and> c \<le> 102 then c - 87 else 0)"

definition hex_pair :: "u8_t \<Rightarrow> u8_t list" where
  "hex_pair c = [hexdig (unat c div 16), hexdig (unat c mod 16)]"

definition hex_encode :: "u8_t list \<Rightarrow> u8_t list" where
  "hex_encode bs = concat (map hex_pair bs)"

fun hex_decode :: "u8_t list \<Rightarrow> u8_t list" where
  "hex_decode [] = []"
| "hex_decode [a] = [nib a * 16]"
| "hex_decode (a # b # cs) = (nib a * 16 + nib b) # hex_decode cs"

declare of_nat_unat [simp del]

lemma word_of_unat [simp]: "of_nat (unat c) = (c :: u8_t)"
  by (metis of_nat_unat ucast_id)

lemma unat_byte: "unat (c :: u8_t) < 256"
  using unsigned_less [of c, where ?'a = nat] by simp

lemma sint_byte: "sint (c :: u8_t) = (if unat c < 128 then int (unat c) else int (unat c) - 256)"
proof -
  have u: "uint c = int (unat c)" by (simp add: of_nat_unat)
  have "int (unat c) div 128 = (if unat c < 128 then 0 else 1)"
  proof (cases "unat c < 128")
    case False
    then show ?thesis using unat_byte [of c] by (intro int_div_pos_eq [where r = "int (unat c) - 128"]) simp_all
  qed simp
  then have "bit (int (unat c)) 7 \<longleftrightarrow> \<not> unat c < 128" by (simp add: bit_iff_odd)
  moreover have "int (unat c) mod 256 = int (unat c)" using unat_byte [of c] by simp
  ultimately show ?thesis
    unfolding sint_uint u by (simp add: signed_take_bit_eq_take_bit_minus take_bit_eq_mod of_bool_def)
qed

lemma chr2hex_pair: "chr2hex c = (hexdig (unat c div 16), hexdig (unat c mod 16))"
proof -
  have m: "k AND 15 = k mod 16" for k :: int
    using take_bit_eq_mask [of 4 k] by (simp add: take_bit_eq_mod mask_eq_exp_minus_1)
  have lo: "sint c mod 16 = int (unat c mod 16)"
    using mod_mult_self1 [of "int (unat c)" "-16" 16] by (simp add: sint_byte zmod_int)
  have hi: "sint c div 16 mod 16 = int (unat c div 16)"
  proof (cases "unat c < 128")
    case False
    then have "sint c div 16 = -16 + int (unat c) div 16"
      using div_mult_self1 [of 16 "int (unat c)" "-16"] by (simp add: sint_byte)
    moreover have "unat c div 16 < 16" using unat_byte [of c] by simp
    ultimately show ?thesis using mod_mult_self1 [of "int (unat c) div 16" "-1" 16] by (simp add: zdiv_int)
  qed (simp add: sint_byte zdiv_int)
  show ?thesis
    by (simp add: chr2hex_def m drop_bit_eq_div Let_def hi lo) (auto simp: hexdig_def)
qed

lemma sint_small: "0 \<le> k \<Longrightarrow> k < 128 \<Longrightarrow> sint (word_of_int k :: u8_t) = k"
  by (simp add: sint_byte unat_eq_nat_uint uint_word_of_int)

lemma hexval_nib:
  assumes "c < 128"
  shows "hexval c = Inr (nib c)"
proof -
  define n where "n = unat c"
  have n: "n < 128" using assms by (simp add: n_def word_less_nat_alt)
  have c: "c = of_nat n" by (simp add: n_def)
  have "sint c = int n" using n by (simp add: sint_byte n_def)
  moreover have "k \<le> c \<longleftrightarrow> unat k \<le> n" "c \<le> k \<longleftrightarrow> n \<le> unat k" for k
    by (simp_all add: n_def word_le_nat_alt)
  ultimately show ?thesis
    using n by (auto simp: hexval_def c_toupper_def sint_small nib_def Let_def) (simp_all add: c)
qed

lemma hexval_high: "128 \<le> c \<Longrightarrow> c \<noteq> 255 \<Longrightarrow> hexval c = Inl OutOfBounds"
proof -
  assume "128 \<le> c" "c \<noteq> 255"
  then have "\<not> unat c < 128" "unat c < 255"
    using unat_byte [of c] by (simp_all add: word_le_nat_alt word_eq_unat)
  then have "sint c < -1" by (simp add: sint_byte)
  then show ?thesis by (simp add: hexval_def c_toupper_def)
qed

lemma unat_hexdig: "n < 16 \<Longrightarrow> unat (hexdig n) = (if n < 10 then 48 + n else 55 + n)"
  unfolding hexdig_def by (subst unat_of_nat) (simp add: take_bit_nat_eq_self)

lemma hexdig_low: "n < 16 \<Longrightarrow> hexdig n < 128"
  by (simp add: word_less_nat_alt unat_hexdig)

lemma nib_hexdig: "n < 16 \<Longrightarrow> nib (hexdig n) = of_nat n"
  by (simp add: nib_def word_le_nat_alt unat_hexdig) (simp add: hexdig_def)

lemma nib_pair: "nib (hexdig (unat c div 16)) * 16 + nib (hexdig (unat c mod 16)) = c"
proof -
  have "unat c div 16 < 16" using unat_byte [of c] by simp
  moreover have "of_nat (unat c div 16) * 16 + of_nat (unat c mod 16) = (of_nat (unat c) :: u8_t)"
    by (metis div_mult_mod_eq of_nat_add of_nat_mult of_nat_numeral)
  ultimately show ?thesis by (simp add: nib_hexdig)
qed

subsection \<open>Loops over the buffers\<close>

lemma hex_encode_simps [simp]:
  "hex_encode [] = []" "hex_encode (b # bs) = hex_pair b @ hex_encode bs" "length (hex_encode bs) = 2 * length bs"
  "length (hex_pair b) = 2"
proof -
  show 1: "hex_encode [] = []" "hex_encode (b # bs) = hex_pair b @ hex_encode bs" "length (hex_pair b) = 2" for b bs
    by (simp_all add: hex_encode_def hex_pair_def)
  show "length (hex_encode bs) = 2 * length bs" by (induction bs) (simp_all add: 1)
qed

lemma update_snoc: "length xs = j \<Longrightarrow> j < length ys \<Longrightarrow> (xs @ drop j ys)[j := b] = (xs @ [b]) @ drop (Suc j) ys"
  by (simp add: list_update_append Cons_nth_drop_Suc [symmetric])

lemma byte2hexstr_loop_spec:
  "i \<le> length src \<Longrightarrow> 2 * length src \<le> length dst \<Longrightarrow> length src < 2 ^ 31 \<Longrightarrow> length out = 2 * i \<Longrightarrow>
   byte2hexstr_loop src i (out @ drop (2 * i) dst) (2 * i) (int (length src - i))
     = Inr (out @ hex_encode (drop i src) @ drop (2 * length src) dst)"
proof (induction "length src - i" arbitrary: i out)
  case 0
  then show ?case by (subst byte2hexstr_loop.simps) (simp add: signed_fit_def)
next
  case (Suc k)
  let ?c = "src ! i"
  have i: "i < length src" using Suc.hyps(2) by simp
  have one: "(out @ drop (2 * i) dst)[2 * i := x] = (out @ [x]) @ drop (Suc (2 * i)) dst" for x
    using update_snoc [of out "2 * i" dst x] Suc.prems i by simp
  have two: "((out @ [x]) @ drop (Suc (2 * i)) dst)[Suc (2 * i) := y] = (out @ [x, y]) @ drop (2 * Suc i) dst" for x y
    using update_snoc [of "out @ [x]" "Suc (2 * i)" dst y] Suc.prems i by simp
  have IH: "byte2hexstr_loop src (Suc i) ((out @ hex_pair ?c) @ drop (2 * Suc i) dst) (2 * Suc i)
      (int (length src - Suc i)) = Inr ((out @ hex_pair ?c) @ hex_encode (drop (Suc i) src) @ drop (2 * length src) dst)"
    using Suc.hyps(2) Suc.prems i by (intro Suc.hyps(1)) simp_all
  have n: "int (length src - i) - 1 = int (length src - Suc i)" using i by simp
  have j: "2 * i < length dst" "Suc (2 * i) < length dst" "2 * i < length dst - Suc 0"
    using Suc.prems i by simp_all
  have "signed_fit 32 (int (length src - Suc i)) = Inr (int (length src - Suc i))"
    using Suc.prems by (simp add: signed_fit_def)
  then have "byte2hexstr_loop src i (out @ drop (2 * i) dst) (2 * i) (int (length src - i))
      = byte2hexstr_loop src (Suc i) ((out @ hex_pair ?c) @ drop (2 * Suc i) dst) (2 * Suc i) (int (length src - Suc i))"
    using Suc.prems i j
    by (subst byte2hexstr_loop.simps)
      (simp only: n rbind_Inr, simp add: load_def store_def one two [simplified] chr2hex_pair hex_pair_def)
  also note IH
  finally show ?case using i by (simp add: Cons_nth_drop_Suc [symmetric])
qed

lemma byte2hexstr_spec:
  assumes "2 * length src \<le> length dst" "length src < 2 ^ 31"
  shows "byte2hexstr src dst (int (length src)) = Inr (hex_encode src @ drop (2 * length src) dst)"
  using byte2hexstr_loop_spec [of 0 src dst "[]"] assms by (simp add: byte2hexstr_def)

lemma hexstr2byte_loop_spec:
  "i \<le> length src \<Longrightarrow> Suc (length src - i) div 2 + j \<le> length dst \<Longrightarrow> length src < 2 ^ 31 \<Longrightarrow> length out = j \<Longrightarrow>
   \<forall>c \<in> set src. c < 128 \<Longrightarrow>
   hexstr2byte_loop src i (out @ drop j dst) j (int (length src - i))
     = Inr (out @ hex_decode (drop i src) @ drop (j + Suc (length src - i) div 2) dst)"
proof (induction "length src - i" arbitrary: i j out rule: less_induct)
  case less
  have up: "(out @ drop j dst)[j := x] = (out @ [x]) @ drop (Suc j) dst" if "i < length src" for x
    using update_snoc [of out j dst x] less.prems that by simp
  have hv: "hexval (src ! k) = Inr (nib (src ! k))" if "k < length src" for k
    using less.prems(5) that by (simp add: hexval_nib)
  have fit: "signed_fit 32 (int (length src - i) - 1) = Inr (int (length src - i) - 1)"
    using less.prems(3) by (simp add: signed_fit_def)
  have hi: "word_of_int (sint (b :: u8_t) * 2 ^ 4) = b * 16" for b
    by simp
  consider "length src - i = 0" | "length src - i = 1" | "Suc (Suc 0) \<le> length src - i" by linarith
  then show ?case
  proof cases
    case 1
    then show ?thesis using less.prems fit by (subst hexstr2byte_loop.simps) simp
  next
    case 2
    then have i: "i < length src" "drop i src = [src ! i]" "Suc i = length src"
      by (simp_all add: Cons_nth_drop_Suc [symmetric])
    have "hexstr2byte_loop src (Suc i) ((out @ [nib (src ! i) * 16]) @ drop (Suc j) dst) (Suc j) (-1)
        = Inr ((out @ [nib (src ! i) * 16]) @ drop (Suc j) dst)"
      by (subst hexstr2byte_loop.simps) (simp add: signed_fit_def)
    then show ?thesis
      using less.prems fit i 2
      by (subst hexstr2byte_loop.simps) (simp add: load_def store_def hv up hi)
  next
    case 3
    then have i: "i < length src" "Suc i < length src" by simp_all
    have d: "drop i src = src ! i # src ! Suc i # drop (Suc (Suc i)) src"
      using i by (simp add: Cons_nth_drop_Suc)
    let ?b = "nib (src ! i) * 16 + nib (src ! Suc i)"
    have at: "((out @ [x]) @ drop (Suc j) dst) ! j = x" "((out @ [x]) @ drop (Suc j) dst)[j := y] = (out @ [y]) @ drop (Suc j) dst" for x y
      using less.prems(4) by (simp_all add: nth_append list_update_append)
    have lo: "word_of_int (sint (b :: u8_t) + sint b') = b + b'" for b b'
      by simp
    have n: "int (length src - i) - 1 - 1 = int (length src - Suc (Suc i))" using 3 by simp
    have len: "Suc (length src - i) div 2 = Suc (Suc (length src - Suc (Suc i)) div 2)" using 3 by presburger
    have IH: "hexstr2byte_loop src (Suc (Suc i)) ((out @ [?b]) @ drop (Suc j) dst) (Suc j) (int (length src - Suc (Suc i)))
      = Inr ((out @ [?b]) @ hex_decode (drop (Suc (Suc i)) src) @ drop (Suc j + Suc (length src - Suc (Suc i)) div 2) dst)"
      using less.prems 3 len by (intro less.hyps) simp_all
    have jl: "j < length dst" "j < Suc (length dst - Suc 0)" using less.prems(2) len by simp_all
    have "hexstr2byte_loop src i (out @ drop j dst) j (int (length src - i))
      = hexstr2byte_loop src (Suc (Suc i)) ((out @ [?b]) @ drop (Suc j) dst) (Suc j) (int (length src - Suc (Suc i)))"
      using fit i jl less.prems(4) 3
      by (subst hexstr2byte_loop.simps)
        (simp only: n fit rbind_Inr, simp add: load_def store_def hv up [simplified] hi at [simplified] lo)
    also note IH
    finally show ?thesis by (simp add: d len)
  qed
qed

lemma hexstr2byte_spec:
  assumes "Suc (length src) div 2 \<le> length dst" "length src < 2 ^ 31" "\<forall>c \<in> set src. c < 128"
  shows "hexstr2byte src dst (int (length src)) = Inr (hex_decode src @ drop (Suc (length src) div 2) dst)"
  using hexstr2byte_loop_spec [of 0 src 0 dst "[]"] assms by (simp add: hexstr2byte_def)

lemma hex_decode_encode: "hex_decode (hex_encode bs) = bs"
  by (induction bs) (simp_all add: hex_pair_def nib_pair)

lemma hex_encode_low: "c \<in> set (hex_encode bs) \<Longrightarrow> c < 128"
  using unat_byte by (induction bs) (auto simp: hex_pair_def less_mult_imp_div_less intro!: hexdig_low)

subsection \<open>Properties\<close>

text \<open>
  \<open>byte2hexstr\<close> writes, for each of the \<open>n\<close> source bytes, the upper-case digits of its
  high and low half into the destination, two bytes per source byte and nothing more.
\<close>

theorem byte2hexstr_writes_digits:
  assumes "2 * length src \<le> length dst" "length src < 2 ^ 31"
  shows "byte2hexstr src dst (int (length src))
    = Inr (concat (map (\<lambda>c. [hexdig (unat c div 16), hexdig (unat c mod 16)]) src) @ drop (2 * length src) dst)"
  using byte2hexstr_spec [OF assms] by (simp add: hex_encode_def hex_pair_def [abs_def])

theorem byte2hexstr_writes_digits_witness:
  "byte2hexstr [175, 7] [0, 0, 0, 0, 9] 2 = Inr [65, 70, 48, 55, 9]"
  using byte2hexstr_writes_digits [of "[175, 7]" "[0, 0, 0, 0, 9]"] by (simp add: hexdig_def)

text \<open>
  C33: Decoding what \<open>byte2hexstr\<close> wrote gives the bytes back, for every buffer content.
\<close>

theorem hexstr2byte_byte2hexstr:
  assumes "2 * length src \<le> length hex" "length src \<le> length dst" "2 * length src < 2 ^ 31"
  shows "\<exists>h. byte2hexstr src hex (int (length src)) = Inr h
    \<and> hexstr2byte (take (2 * length src) h) dst (2 * int (length src)) = Inr (src @ drop (length src) dst)"
proof -
  have "hexstr2byte (hex_encode src) dst (int (length (hex_encode src)))
      = Inr (hex_decode (hex_encode src) @ drop (Suc (length (hex_encode src)) div 2) dst)"
    using assms by (intro hexstr2byte_spec) (auto dest: hex_encode_low)
  then show ?thesis
    using byte2hexstr_spec [OF assms(1)] assms(3) by (simp add: hex_decode_encode)
qed

theorem hexstr2byte_byte2hexstr_witness:
  "\<exists>h. byte2hexstr [255, 10] [0, 0, 0, 0] 2 = Inr h \<and> hexstr2byte (take 4 h) [1, 2, 3] 4 = Inr [255, 10, 3]"
  using hexstr2byte_byte2hexstr [of "[255, 10]" "[0, 0, 0, 0]" "[1, 2, 3]"] by simp

text \<open>
  On any text of seven-bit characters \<open>hexstr2byte\<close> returns and writes one byte per two
  digits, in either case of the letters; a character that is no digit counts as zero and an
  odd last digit fills the high half of the last byte.
\<close>

theorem hexstr2byte_decodes:
  assumes "Suc (length src) div 2 \<le> length dst" "length src < 2 ^ 31" "\<forall>c \<in> set src. c < 128"
  shows "hexstr2byte src dst (int (length src)) = Inr (hex_decode src @ drop (Suc (length src) div 2) dst)"
  using hexstr2byte_spec [OF assms] .

theorem hexstr2byte_decodes_witness:
  "hexstr2byte [97, 70, 120, 51, 52] [0, 0, 0, 0] 5 = Inr [175, 3, 64, 0]"
  using hexstr2byte_decodes [of "[97, 70, 120, 51, 52]" "[0, 0, 0, 0]"] by (simp add: nib_def)

text \<open>
  The code promises zero for an invalid digit and keeps the promise below 128, but a byte
  with its top bit set reaches \<open>toupper\<close> as a negative number, outside the domain of that
  function (255 alone is the value of \<open>EOF\<close>).
\<close>

theorem hexval_domain:
  "hexval c = (if c < 128 then Inr (nib c) else if c = 255 then Inr 0 else Inl OutOfBounds)"
proof -
  have "hexval 255 = Inr 0" by code_simp
  then show ?thesis using hexval_nib [of c] hexval_high [of c] by (auto simp: not_less)
qed

text \<open>
  On a seekable file \<open>_filelength\<close> answers the size and leaves the file position where it
  was; on one that cannot seek it answers the largest value. The hypotheses state what the
  operating system documents of \<open>lseek\<close> on a file of size \<open>sz w\<close> at position \<open>pos w\<close>.
\<close>

theorem filelength_spec:
  fixes lseek :: "'w lseek_fn" and pos sz :: "'w \<Rightarrow> int"
  assumes cur: "lseek fd 0 SEEK_CUR w = (pos w, w)"
    and fin: "pos w \<noteq> -1 \<longrightarrow> (\<exists>w'. lseek fd 0 SEEK_END w = (sz w, w') \<and> pos w' = sz w \<and> sz w' = sz w)"
    and home: "pos w \<noteq> -1 \<longrightarrow> (\<forall>w'. sz w' = sz w \<longrightarrow> (\<exists>w''. lseek fd (pos w) SEEK_SET w' = (pos w, w'') \<and> pos w'' = pos w \<and> sz w'' = sz w))"
    and range: "-1 \<le> pos w" "0 \<le> sz w" "sz w < 2 ^ 63"
  shows "\<exists>w'. filelength lseek fd w = (if pos w = -1 then -1 else word_of_int (sz w), w')
    \<and> pos w' = pos w \<and> sz w' = sz w \<and> uint (word_of_int (sz w) :: u64_t) = sz w"
proof -
  have u: "uint (word_of_int (sz w) :: u64_t) = sz w" using range by (simp add: uint_word_of_int)
  show ?thesis
  proof (cases "pos w = -1")
    case False
    then obtain w1 where w1: "lseek fd 0 SEEK_END w = (sz w, w1)" "sz w1 = sz w" using fin by blast
    obtain w2 where "lseek fd (pos w) SEEK_SET w1 = (pos w, w2)" "pos w2 = pos w" "sz w2 = sz w"
      using home w1(2) False by blast
    with u w1 cur False show ?thesis by (auto simp: filelength_def)
  qed (use cur u in \<open>simp add: filelength_def\<close>)
qed

definition lseek_demo :: "(int \<times> int) lseek_fn" where
  "lseek_demo fd off wh w = (case wh of SEEK_SET \<Rightarrow> (off, off, snd w) | SEEK_CUR \<Rightarrow> (fst w + off, fst w + off, snd w)
     | SEEK_END \<Rightarrow> (snd w + off, snd w + off, snd w))"

theorem filelength_spec_witness: "\<exists>w'. filelength lseek_demo 3 (7, 40) = (40, w') \<and> fst w' = 7"
  using filelength_spec [of lseek_demo 3 "(7, 40)" fst snd] by (auto simp: lseek_demo_def)

end
