(* ===== verification/GclTimeProps.thy ===== *)
theory GclTimeProps
  imports GclTime
begin

section \<open>Time: properties\<close>

text \<open>
  Every conversion is read as a natural number and compared with exact arithmetic; the
  platforms differ in the width of \<open>unsigned long\<close>. The waits are related to the clock that
  drives them.
\<close>

lemma unat_ucast_32 [simp]: "unat (ucast (x :: u64_t) :: u32_t) = unat x mod 4294967296"
  by (simp add: unsigned_ucast_eq take_bit_eq_mod)

lemma unat_ucast_64 [simp]: "unat (ucast (x :: u32_t) :: u64_t) = unat x"
  by (rule unat_ucast_32_64)

lemma unat_m2n_64: "unat (msec_to_nsec TYPE(64) m) = unat m * 1000000"
  using unat_lt_32 [of m] by (simp add: msec_to_nsec_def unat_mult_nowrap)

lemma unat_m2t: "unat (msec_to_ticks m) = unat m * 1000000"
  using unat_lt_32 [of m] by (simp add: msec_to_ticks_def nsec_to_ticks_def unat_mult_nowrap)

lemma unat_m2u_64: "unat (msec_to_usec m :: 64 word) = unat m * 1000"
  using unat_lt_32 [of m] by (simp add: msec_to_usec_def unat_mult_nowrap)

lemma unat_m2n_32: "unat (msec_to_nsec TYPE(32) m) = unat m * 1000000 mod 4294967296"
  by (simp add: msec_to_nsec_def unat_word_ariths)

lemma unat_sleep_32: "unat (sleep_nsec TYPE(32) s) = unat s * 1000000000 mod 4294967296"
  by (simp add: sleep_nsec_def unat_word_ariths)

lemma mod_exact: "n mod k = n \<longleftrightarrow> n < k" if "0 < k" for n k :: nat
  using that by (metis mod_less mod_less_divisor)

text \<open>
  With a 64-bit \<open>unsigned long\<close> milliseconds convert without loss: every \<open>msec_t\<close> gives
  exactly so many nanoseconds, ticks and microseconds, and converts back to itself.
\<close>

theorem msec_conversions_exact:
  "unat (msec_to_nsec TYPE(64) m) = unat m * 1000000 \<and> msec_to_ticks m = msec_to_nsec TYPE(64) m
    \<and> unat (msec_to_usec m :: 64 usec_t) = unat m * 1000
    \<and> nsec_to_msec (msec_to_nsec TYPE(64) m) = m \<and> ticks_to_msec (msec_to_ticks m) = m
    \<and> usec_to_msec (msec_to_usec m :: 64 usec_t) = m
    \<and> usec_to_nsec (msec_to_usec m :: 64 usec_t) = msec_to_nsec TYPE(64) m"
proof -
  have lt: "unat m * 1000000 < 2 ^ 64" using unat_lt_32 [of m] by simp
  have mm: "unat m mod 4294967296 = unat m" using unat_lt_32 [of m] by simp
  show ?thesis
    using mm lt
    by (simp add: word_eq_unat unat_m2n_64 unat_m2t unat_m2u_64 nsec_to_msec_def ticks_to_msec_def
        ticks_to_nsec_def usec_to_msec_def usec_to_nsec_def unat_div_word unat_mult_nowrap)
qed

text \<open>
  With a 32-bit \<open>unsigned long\<close> (Windows, 32-bit builds) \<open>msec_to_nsec\<close> disagrees with
  \<open>msec_to_ticks\<close> from 4295 milliseconds on, and the Windows \<open>sleep\<close> is right only up to
  four seconds: both products are formed in the narrow type before they are widened.
\<close>

theorem long32_conversions_wrap:
  "(msec_to_nsec TYPE(32) m = msec_to_ticks m \<longleftrightarrow> m < 4295)
    \<and> (unat (sleep_nsec TYPE(32) s) = unat s * 1000000000 \<longleftrightarrow> s \<le> 4)
    \<and> unat (sleep_nsec TYPE(32) s) < 4294967296"
  by (simp add: word_eq_unat unat_m2n_32 unat_m2t unat_sleep_32 mod_exact word_less_nat_alt word_le_nat_alt)
    linarith

text \<open>
  The sample \<open>conversion_test\<close> on a 64-bit platform prints the clock reading truncated to
  each unit, and the conversions back up multiply the truncated value, for every reading
  whose milliseconds fit in \<open>msec_t\<close>.
\<close>

theorem conversion_test_output:
  assumes "unat t div 1000000 < 2 ^ 32"
  shows "map (\<lambda>(a, b, c :: 64 usec_t, d). (unat a, unat b, unat c, unat d)) (conversion_test t)
    = (let n = unat t; u = n div 1000; m = n div 1000000
       in [(n, n, u, m), (n, n, u, m), (u * 1000, u * 1000, u, m), (m * 1000000, m * 1000000, m * 1000, m)])"
proof -
  have u: "unat (t div 1000) = unat t div 1000" "unat (t div 1000000) = unat t div 1000000"
    by (simp_all add: unat_div_word)
  have m: "unat (t2m t) = unat t div 1000000"
    using assms by (simp add: t2m_def ticks_to_msec_def ticks_to_nsec_def u)
  have "unat t div 1000 * 1000 < 2 ^ 64"
    using unat_lt_64 [of t] div_times_less_eq_dividend [of "unat t" 1000] by simp
  then have un: "unat (t div 1000 * 1000) = unat t div 1000 * 1000"
    by (simp add: unat_mult_nowrap u)
  have mm: "unat t div 1000 div 1000 = unat t div 1000000" by (simp add: div_mult2_eq [symmetric])
  have um: "unat (u2m (t2u t :: 64 usec_t)) = unat t div 1000000"
    using assms by (simp add: short_names ticks_to_usec_def usec_to_msec_def ticks_to_nsec_def unat_div_word mm)
  have nm: "unat (n2m (t2n t)) = unat t div 1000000"
    using assms by (simp add: short_names nsec_to_msec_def ticks_to_nsec_def u)
  have mu: "unat (m2t (t2m t)) = unat t div 1000000 * 1000000"
    "unat (m2n TYPE(64) (t2m t)) = unat t div 1000000 * 1000000"
    "unat (m2u (t2m t) :: 64 usec_t) = unat t div 1000000 * 1000"
    by (simp_all add: m2t_def m2n_def m2u_def unat_m2t unat_m2n_64 unat_m2u_64 m)
  have nt: "t2n t = t" "n2t t = t" "(t2u t :: 64 usec_t) = t div 1000" "(n2u t :: 64 usec_t) = t div 1000"
    by (simp_all add: short_names ticks_to_nsec_def nsec_to_ticks_def ticks_to_usec_def nsec_to_usec_def)
  have ut: "usec_to_ticks (t div 1000) = t div 1000 * 1000" "u2n (t div 1000) = t div 1000 * 1000"
    by (simp_all add: usec_to_ticks_def usec_to_nsec_def nsec_to_ticks_def u2n_def)
  show ?thesis
    using um nm unfolding nt by (simp only: conversion_test_def Let_def nt ut list.map prod.case u un m mu)
qed

theorem conversion_test_output_witness:
  "map (\<lambda>(a, b, c :: 64 usec_t, d). (unat a, unat b, unat c, unat d)) (conversion_test 1234567890)
    = [(1234567890, 1234567890, 1234567, 1234), (1234567890, 1234567890, 1234567, 1234),
       (1234567000, 1234567000, 1234567, 1234), (1234000000, 1234000000, 1234000, 1234)]"
  using conversion_test_output [of 1234567890] by simp

text \<open>
  The POSIX clock is exact and strictly monotone: for normalised readings within the range
  of a 64-bit \<open>long\<close> the tick count is the time in nanoseconds, and a later reading gives a
  larger count; with a 32-bit \<open>long\<close> the sum overflows from the third second on.
\<close>

theorem ticks_posix_exact:
  assumes "0 \<le> s" "s < 9223372035" "0 \<le> n" "n < 1000000000"
  shows "\<exists>t. ticks_posix 64 s n = Inr t \<and> uint t = s * 1000000000 + n
    \<and> (\<forall>s' n' t'. 0 \<le> s' \<and> s' < 9223372035 \<and> 0 \<le> n' \<and> n' < 1000000000 \<and> ticks_posix 64 s' n' = Inr t'
         \<longrightarrow> (t < t' \<longleftrightarrow> s < s' \<or> (s = s' \<and> n < n')))
    \<and> (3 \<le> s \<longrightarrow> ticks_posix 32 s n = Inl Overflow)"
proof -
  have val: "ticks_posix 64 a b = Inr (word_of_int (a * 1000000000 + b))
      \<and> uint (word_of_int (a * 1000000000 + b) :: u64_t) = a * 1000000000 + b"
    if "0 \<le> a" "a < 9223372035" "0 \<le> b" "b < 1000000000" for a b
    using that by (simp add: ticks_posix_def signed_fit_def uint_word_of_int del: of_int_add of_int_mult)
  have "ticks_posix 32 s n = Inl Overflow" if "3 \<le> s"
    using that by (simp add: ticks_posix_def signed_fit_def)
  moreover have "s * 1000000000 + n < s' * 1000000000 + n' \<longleftrightarrow> s < s' \<or> (s = s' \<and> n < n')"
    if "0 \<le> n'" "n' < 1000000000" for s' n'
    using that assms(3,4) by linarith
  ultimately show ?thesis
    using val [OF assms] val
    by (intro exI [of _ "word_of_int (s * 1000000000 + n)"]) (auto simp: word_less_alt)
qed

theorem ticks_posix_exact_witness: "\<exists>t. ticks_posix 64 5 7 = Inr t \<and> uint t = 5000000007 \<and> ticks_posix 32 5 7 = Inl Overflow"
  using ticks_posix_exact [of 5 7] by auto

text \<open>
  C23: The Windows clock with a performance counter is \<open>counter * 10^9 / frequency\<close> rounded
  down as long as the product fits in 64 bits; at the next counter value the product wraps
  and the tick count jumps back, whatever the frequency (at 10 MHz after half an hour).
\<close>

theorem ticks_win_exact_then_wraps:
  assumes "hpc c = 1" "pf c = f" "0 < f" "f \<le> 1000000000000"
  shows "(unat k * 1000000000 < 2 ^ 64 \<longrightarrow>
      (\<exists>t. ticks_win q k m c = Inr (t, c) \<and> unat t = unat k * 1000000000 div unat f))
    \<and> (\<exists>t t'. ticks_win q 18446744073 m c = Inr (t, c) \<and> ticks_win q 18446744074 m c = Inr (t', c) \<and> t' < t)"
proof -
  have r: "ticks_win q k m c = Inr ((k * 1000000000) div f, c)" for k
    using assms by (auto simp: ticks_win_def ticks2nsec_def)
  have f: "0 < unat f" "unat f \<le> 1000000000000" using assms(3,4) by (simp_all add: word_less_nat_alt word_le_nat_alt)
  have "290448384 div unat f < 18446744073000000000 div unat f"
  proof -
    have "290448384 div unat f \<le> 290448384" by simp
    moreover have "290448384 div unat f + 1 \<le> (290448384 + 1000000000000) div unat f"
      using f div_add_self2 [of "unat f" 290448384] div_le_mono [of "290448384 + unat f" "290448384 + 1000000000000" "unat f"]
      by simp
    moreover have "(290448384 + 1000000000000) div unat f \<le> 18446744073000000000 div unat f"
      by (rule div_le_mono) simp
    ultimately show ?thesis by linarith
  qed
  then have "(18446744074 * 1000000000 :: u64_t) div f < (18446744073 * 1000000000) div f"
    by (simp add: word_less_nat_alt unat_div_word)
  moreover have "unat ((k * 1000000000) div f) = unat k * 1000000000 div unat f"
    if "unat k * 1000000000 < 2 ^ 64" for k :: u64_t
    using that by (simp add: unat_div_word unat_mult_nowrap)
  ultimately show ?thesis using r by blast
qed

theorem ticks_win_exact_then_wraps_witness:
  "\<exists>t t'. ticks_win None 18446744073 0 \<lparr>hpc = 1, pf = 10000000\<rparr> = Inr (t, \<lparr>hpc = 1, pf = 10000000\<rparr>)
    \<and> ticks_win None 18446744074 0 \<lparr>hpc = 1, pf = 10000000\<rparr> = Inr (t', \<lparr>hpc = 1, pf = 10000000\<rparr>) \<and> t' < t"
  using ticks_win_exact_then_wraps [of "\<lparr>hpc = 1, pf = 10000000\<rparr>" 10000000 0 None 0] by simp

text \<open>
  The time POSIX \<open>nanosleep\<close> is called with is normalised and is the requested time, for
  every request on a platform with a 64-bit \<open>long\<close>.
\<close>

theorem sleep_timespec_exact:
  "case sleep_timespec TYPE(64) nsec of (s, n) \<Rightarrow>
     0 \<le> s \<and> 0 \<le> n \<and> n < 1000000000 \<and> s * 1000000000 + n = uint nsec"
proof -
  have small: "sint x = uint x" if "uint x < 2 ^ 63" for x :: u64_t
    using that by (auto simp: sint_uint signed_take_bit_int_eq_self_iff intro: order_trans [OF _ uint_ge_0])
  have "uint nsec < 2 ^ 64" using unsigned_less [of nsec, where ?'a = int] by simp
  then have "uint (nsec div 1000000000) < 2 ^ 63" "uint (nsec mod 1000000000) < 1000000000"
    by (simp_all add: uint_div uint_mod)
  then show ?thesis by (simp add: sleep_timespec_def small uint_div uint_mod pos_imp_zdiv_nonneg_iff)
qed

lemma sleep_loop_first:
  "\<forall>i < j. clk (k + i) \<le> e \<Longrightarrow> \<not> clk (k + j) \<le> e \<Longrightarrow> j < fuel \<Longrightarrow> sleep_loop fuel clk e k = Inr (k + j + 1)"
proof (induction fuel arbitrary: j k)
  case (Suc fuel)
  show ?case
  proof (cases j)
    case (Suc i)
    then have "sleep_loop fuel clk e (Suc k) = Inr (Suc k + i + 1)"
      using Suc.prems by (intro Suc.IH) auto
    then show ?thesis using Suc Suc.prems(1) by (auto dest: spec [of _ 0])
  qed (use Suc.prems in simp)
qed simp

text \<open>
  The Windows \<open>nanosleep\<close> never returns early and does return: if the expiry does not
  wrap and some later clock reading exceeds it, the loop ends at the first such reading,
  after more than the requested time.
\<close>

theorem nanosleep_win_waits:
  assumes "unat (clk 0) + unat nsec < 2 ^ 64" "0 < k" "clk 0 + nsec < clk k" "k < fuel"
  shows "\<exists>j. 0 < j \<and> j \<le> k \<and> nanosleep_win fuel clk nsec = Inr (j + 1)
    \<and> unat nsec < unat (clk j) - unat (clk 0) \<and> (\<forall>i. 0 < i \<and> i < j \<longrightarrow> clk i \<le> clk 0 + nsec)"
proof -
  define Q where "Q = (\<lambda>j. clk 0 + nsec < clk (1 + j))"
  have Q: "Q (k - 1)" using assms(2,3) by (simp add: Q_def)
  define j where "j = (LEAST j. Q j)"
  have j: "Q j" "j \<le> k - 1" "\<forall>i < j. \<not> Q i"
    unfolding j_def using Q by (auto intro: LeastI Least_le dest: not_less_Least)
  have "sleep_loop fuel clk (clk 0 + nsec) 1 = Inr (1 + j + 1)"
    using j assms(2,4) by (intro sleep_loop_first) (auto simp: Q_def not_less)
  then have "nanosleep_win fuel clk nsec = Inr (Suc j + 1)"
    by (simp add: nanosleep_win_def nsec_to_ticks_def Let_def)
  moreover have "unat nsec < unat (clk (Suc j)) - unat (clk 0)"
    using j(1) assms(1) by (simp add: Q_def word_less_nat_alt unat_add_nowrap)
  moreover have "clk i \<le> clk 0 + nsec" if "0 < i \<and> i < Suc j" for i
    using j(3) that by (cases i) (auto simp: Q_def not_less)
  ultimately show ?thesis using j(2) assms(2) by (intro exI [of _ "Suc j"]) auto
qed

theorem nanosleep_win_waits_witness:
  "\<exists>j. nanosleep_win 20 (\<lambda>k. of_nat k * 100) 450 = Inr (j + 1) \<and> 450 < unat (of_nat j * 100 :: tick_t)"
  using nanosleep_win_waits [of "\<lambda>k. of_nat k * 100" 450 6 20] by auto

end
