(* ===== verification/GclTimeSample.thy ===== *)
theory GclTimeSample
  imports GclTimeProps
begin

section \<open>The precision test of \<open>samples/ex-time.cpp\<close>\<close>

text \<open>
  The test sleeps for ten nanoseconds to one second in powers of ten and prints how long it
  was. The system is the reading of its clock and its \<open>nanosleep\<close>, on a state \<open>'w\<close>; the clock is
  that of POSIX with a \<open>long\<close> of 64 bits. The two columns printed as floating point numbers, the
  milliseconds asked for and the error in percent, are left out.
\<close>

record 'w time_os =
  to_clock :: "'w \<Rightarrow> (int \<times> int) \<times> 'w"
  to_sleep :: "int \<times> int \<Rightarrow> 'w \<Rightarrow> 'w"

definition read_ticks :: "'w time_os \<Rightarrow> 'w \<Rightarrow> (tick_t \<times> 'w) res" where
  "read_ticks os w = (case to_clock os w of ((s, n), w) \<Rightarrow> rbind (ticks_posix 64 s n) (\<lambda>t. Inr (t, w)))"

definition nsleep :: "'w time_os \<Rightarrow> nsec_t \<Rightarrow> 'w \<Rightarrow> 'w" where
  "nsleep os nsec w = to_sleep os (sleep_timespec TYPE(64) nsec) w"

record prec_line =
  pr_try :: nat
  pr_wait :: nsec_t
  pr_actual :: "nsec_t \<times> 64 usec_t \<times> msec_t"
  pr_gap :: "nsec_t \<times> nsec_t \<times> nsec_t"

text \<open>The turns from the \<open>i\<close>-th on, \<open>k\<close> of them.\<close>

fun precision_loop :: "nat \<Rightarrow> 'w time_os \<Rightarrow> nat \<Rightarrow> nsec_t \<Rightarrow> 'w \<Rightarrow> (prec_line list \<times> 'w) res" where
  "precision_loop 0 os i time_to_wait w = Inr ([], w)"
| "precision_loop (Suc k) os i time_to_wait w =
     (let time_to_wait = time_to_wait * 10
      in rbind (read_ticks os w) (\<lambda>(tm1, w).
         rbind (read_ticks os (nsleep os time_to_wait w)) (\<lambda>(now, w).
         let elapsed = elapsed_nsec now tm1;
             error = elapsed - time_to_wait;
             line = \<lparr>pr_try = i, pr_wait = time_to_wait,
               pr_actual = (ticks_to_nsec elapsed, ticks_to_usec elapsed, ticks_to_msec elapsed),
               pr_gap = (error, error div 1000, error div 1000000)\<rparr>
         in rbind (precision_loop k os (i + 1) time_to_wait w) (\<lambda>(out, w). Inr (line # out, w)))))"

definition precision_test :: "'w time_os \<Rightarrow> 'w \<Rightarrow> (prec_line list \<times> 'w) res" where
  "precision_test os w = precision_loop 9 os 1 1 w"

subsection \<open>What the test shows\<close>

text \<open>
  The documented behaviour: \<open>now\<close> is the time in nanoseconds. While it is below 2 to the 62 (146
  years), readings are normalised and do not go back, and a sleep lasts at least as long as
  asked for (no signal interrupts it); neither takes more than a second on top.
\<close>

definition clock_lawful :: "'w time_os \<Rightarrow> ('w \<Rightarrow> int) \<Rightarrow> bool" where
  "clock_lawful os now \<longleftrightarrow> (\<forall>w. now w \<le> 2 ^ 62 \<longrightarrow>
     (\<forall>s n w'. to_clock os w = ((s, n), w') \<longrightarrow> 0 \<le> s \<and> 0 \<le> n \<and> n < 1000000000 \<and>
        now w \<le> s * 1000000000 + n \<and> s * 1000000000 + n \<le> now w' \<and> now w' \<le> now w + 1000000000) \<and>
     (\<forall>s n. 0 \<le> s \<and> 0 \<le> n \<longrightarrow> now w + (s * 1000000000 + n) \<le> now (to_sleep os (s, n) w) \<and>
        now (to_sleep os (s, n) w) \<le> now w + (s * 1000000000 + n) + 1000000000))"

lemma read_ticks_spec:
  assumes "clock_lawful os now" "now w \<le> 2 ^ 62"
  obtains t w' where "read_ticks os w = Inr (t, w')" "now w \<le> uint t" "uint t \<le> now w'" "now w' \<le> now w + 1000000000"
proof -
  obtain s n w' where c: "to_clock os w = ((s, n), w')" by (metis surj_pair)
  have b: "0 \<le> s" "0 \<le> n" "n < 1000000000" "now w \<le> s * 1000000000 + n" "s * 1000000000 + n \<le> now w'"
    "now w' \<le> now w + 1000000000"
    using assms c unfolding clock_lawful_def by blast+
  have "s < 9223372035" using b assms(2) by simp
  then obtain t where "ticks_posix 64 s n = Inr t" "uint t = s * 1000000000 + n" using ticks_posix_exact [of s n] b by blast
  then show thesis using b c by (intro that [of t w']) (simp_all add: read_ticks_def)
qed

lemma nsleep_spec:
  assumes "clock_lawful os now" "now w \<le> 2 ^ 62"
  shows "now w + uint nsec \<le> now (nsleep os nsec w) \<and> now (nsleep os nsec w) \<le> now w + uint nsec + 1000000000"
proof -
  obtain s n where z: "sleep_timespec TYPE(64) nsec = (s, n)" by (metis surj_pair)
  have "s * 1000000000 + n = uint nsec" "0 \<le> s" "0 \<le> n" using sleep_timespec_exact [of nsec] z by simp_all
  then show ?thesis using assms unfolding clock_lawful_def nsleep_def z by metis
qed

definition line_ok :: "nat \<Rightarrow> prec_line \<Rightarrow> bool" where
  "line_ok i l \<longleftrightarrow> pr_try l = i \<and> unat (pr_wait l) = 10 ^ i \<and> pr_wait l \<le> fst (pr_actual l) \<and>
     unat (fst (pr_actual l)) = 10 ^ i + unat (fst (pr_gap l))"

lemma precision_loop_spec:
  assumes "clock_lawful os now"
  shows "i + k \<le> 10 \<Longrightarrow> 0 < i \<Longrightarrow> unat tw * 10 = 10 ^ i \<Longrightarrow> now w + int k * 4000000000 \<le> 2 ^ 62 \<Longrightarrow>
    \<exists>out w'. precision_loop k os i tw w = Inr (out, w') \<and> list_all2 line_ok [i..<i + k] out"
proof (induction k arbitrary: i tw w)
  case (Suc k)
  have "(10 :: nat) ^ i \<le> 10 ^ 9" using Suc.prems(1) by (intro power_increasing) simp_all
  then have unat: "unat (tw * 10) = 10 ^ i" "unat (tw * 10) \<le> 1000000000"
    using Suc.prems(3) by (simp_all add: unat_word_ariths)
  have "uint (tw * 10) = int (unat (tw * 10))" by simp
  then have wait: "unat (tw * 10) = 10 ^ i" "uint (tw * 10) \<le> 1000000000" using unat by linarith+
  have room: "now w + 4000000000 + int k * 4000000000 \<le> 2 ^ 62" using Suc.prems(4) by (simp add: algebra_simps)
  obtain t1 w1 where t1: "read_ticks os w = Inr (t1, w1)" "uint t1 \<le> now w1" "now w1 \<le> now w + 1000000000"
    by (rule read_ticks_spec [OF assms, of w]) (use room in simp_all)
  let ?v = "nsleep os (tw * 10) w1"
  have v: "now w1 + uint (tw * 10) \<le> now ?v" "now ?v \<le> now w1 + uint (tw * 10) + 1000000000"
    using nsleep_spec [OF assms, of w1 "tw * 10"] t1(3) room by auto
  obtain t2 w2 where t2: "read_ticks os ?v = Inr (t2, w2)" "now ?v \<le> uint t2" "now w2 \<le> now ?v + 1000000000"
    by (rule read_ticks_spec [OF assms, of ?v]) (use v t1(3) wait(2) room in simp_all)
  have "uint t1 + uint (tw * 10) \<le> uint t2" using t1(2) t2(2) v(1) by linarith
  then have le: "unat t1 + unat (tw * 10) \<le> unat t2" by (simp flip: of_nat_le_iff [where 'a = int])
  then have el: "unat (t2 - t1) = unat t2 - unat t1" by (intro unat_sub) (simp add: word_le_nat_alt)
  then have ge: "tw * 10 \<le> t2 - t1" using le by (simp add: word_le_nat_alt)
  then have gap: "unat (t2 - t1 - tw * 10) = unat (t2 - t1) - 10 ^ i" by (simp add: unat_sub wait)
  have "now w2 + int k * 4000000000 \<le> 2 ^ 62" using t1(3) t2(3) v(2) wait(2) room by linarith
  then obtain out w' where out: "precision_loop k os (Suc i) (tw * 10) w2 = Inr (out, w')" "list_all2 line_ok [Suc i..<Suc i + k] out"
    using Suc.IH [of "Suc i" "tw * 10" w2] Suc.prems wait(1) by auto
  let ?e = "t2 - t1"
  let ?l = "\<lparr>pr_try = i, pr_wait = tw * 10, pr_actual = (?e, ticks_to_usec ?e, ticks_to_msec ?e),
    pr_gap = (?e - tw * 10, (?e - tw * 10) div 1000, (?e - tw * 10) div 1000000)\<rparr>"
  have "line_ok i ?l" using wait(1) ge gap el le by (simp add: line_ok_def)
  moreover have "[i..<i + Suc k] = i # [Suc i..<Suc i + k]" by (subst upt_conv_Cons) simp_all
  moreover have "precision_loop (Suc k) os i tw w = Inr (?l # out, w')"
    by (simp add: t1(1) t2(1) out(1) Let_def elapsed_nsec_def elapsed_ticks_def ticks_to_nsec_def)
  ultimately show ?case using out(2) by (intro exI [of _ "?l # out"] exI [of _ w']) simp
qed simp

text \<open>
  With a clock that does not go back and a sleep that is not interrupted, the test prints nine
  lines, for the powers of ten from ten nanoseconds to one second; the time printed is at
  least the time asked for, and the gap is exactly the difference: nothing wraps.
\<close>

theorem precision_test_gaps:
  assumes "clock_lawful os now" "now w \<le> 2 ^ 61"
  shows "\<exists>out w'. precision_test os w = Inr (out, w') \<and> length out = 9 \<and>
    (\<forall>i < 9. unat (pr_wait (out ! i)) = 10 ^ Suc i \<and> pr_wait (out ! i) \<le> fst (pr_actual (out ! i)) \<and>
       unat (fst (pr_actual (out ! i))) = 10 ^ Suc i + unat (fst (pr_gap (out ! i))))"
proof -
  obtain out w' where out: "precision_test os w = Inr (out, w')" "list_all2 line_ok [1..<10] out"
    using precision_loop_spec [OF assms(1), of 1 9 1 w] assms(2) by (auto simp: precision_test_def)
  have "length out = 9" "\<And>i. i < 9 \<Longrightarrow> line_ok (Suc i) (out ! i)"
    using out(2) by (auto simp: list_all2_conv_all_nth simp del: upt_Suc)
  then show ?thesis using out(1) by (auto simp: line_ok_def)
qed

text \<open>A clock that stands still except for sleeping, which takes 50 nanoseconds more than asked for.\<close>

definition demo_clock :: "nat time_os" where
  "demo_clock = \<lparr>to_clock = (\<lambda>w. ((int w div 1000000000, int w mod 1000000000), w)),
     to_sleep = (\<lambda>(s, n) w. w + nat (s * 1000000000 + n) + 50)\<rparr>"

lemma demo_clock_lawful: "clock_lawful demo_clock int"
  by (auto simp: clock_lawful_def demo_clock_def)

lemma precision_test_gaps_witness:
  "\<exists>out w'. precision_test demo_clock 5 = Inr (out, w') \<and> length out = 9 \<and> unat (pr_wait (out ! 8)) = 1000000000"
  using precision_test_gaps [OF demo_clock_lawful, of 5] by auto

end
