(* ===== verification/GclEvent.thy ===== *)
theory GclEvent
  imports GclQueIter GclTok GclSync
begin

section \<open>EventEmitter: \<open>include/gevent.h\<close>, \<open>src/gevent.cpp\<close>\<close>

text \<open>
  The emitter owns two queues and a lock. A slot of \<open>m_names\<close> is a 16-byte array with a
  terminated name; a slot of \<open>m_listeners\<close> is the 32-byte image of an \<open>event_block\<close>, whose
  \<open>name\<close> field is the address of a slot of \<open>m_names\<close>, or null for a spent entry. Listeners are
  code of the caller: \<open>call\<close> gives for the address of a listener what it does to the block it
  is handed and to the state \<open>'u\<close> of the caller. Listeners that call the
  emitter again are scripts in \<open>GclEventNest\<close>, with a loop of their own that is this one for all others.
\<close>

abbreviation (input) EVENT_NAME_LENGTH_MAX :: nat where
  "EVENT_NAME_LENGTH_MAX \<equiv> 15"

subsection \<open>Event blocks and their bytes\<close>

record event_block =
  eb_name :: ptr
  eb_listener :: ptr
  eb_data :: ptr
  eb_once :: bool

text \<open>The image: three pointers, the flag, seven bytes of padding.\<close>

definition eb_enc :: "event_block \<Rightarrow> u8_t list" where
  "eb_enc eb = le_bytes 8 (eb_name eb) @ le_bytes 8 (eb_listener eb) @ le_bytes 8 (eb_data eb)
     @ (if eb_once eb then 1 else 0) # replicate 7 0"

definition eb_dec :: "u8_t list \<Rightarrow> event_block" where
  "eb_dec bs = \<lparr>eb_name = le_val (take 8 bs), eb_listener = le_val (take 8 (drop 8 bs)),
     eb_data = le_val (take 8 (drop 16 bs)), eb_once = (bs ! 24 \<noteq> 0)\<rparr>"

text \<open>Writing through a pointer into a queue slot.\<close>

definition cq_write :: "ptr \<Rightarrow> u8_t list \<Rightarrow> cqueue \<Rightarrow> cqueue res" where
  "cq_write p bs q = (if p = 0 then Inl NullDeref else cq_store (unat (p - m_q q)) bs q)"

definition c_strlen :: "u8_t list \<Rightarrow> nat res" where
  "c_strlen bs = (if 0 \<in> set bs then Inr (length (c_str bs)) else Inl OutOfBounds)"

definition strcmp_eq :: "u8_t list \<Rightarrow> u8_t list \<Rightarrow> bool res" where
  "strcmp_eq a b =
     (if 0 \<in> set a \<and> 0 \<in> set b then Inr (c_str a = c_str b) else Inl OutOfBounds)"

text \<open>\<open>strncpy(dst, src, n)\<close>: the characters, padded with null bytes.\<close>

definition c_strncpy :: "nat \<Rightarrow> u8_t list \<Rightarrow> u8_t list" where
  "c_strncpy n src = take n (c_str src @ replicate n 0)"

subsection \<open>State\<close>

record emitter =
  em_names :: cqueue
  em_listeners :: cqueue
  em_lock :: rwlock

definition em_new ::
    "u32_t \<Rightarrow> u32_t \<Rightarrow> ptr \<times> (nat \<Rightarrow> u8_t) \<Rightarrow> ptr \<times> (nat \<Rightarrow> u8_t) \<Rightarrow> ptr set \<Rightarrow> (emitter \<times> ptr set) res"
where
  "em_new max_event_names max_listeners blk1 blk2 live =
     rbind (queue_init 16 max_event_names blk1 cq_new live) (\<lambda>(_, names, live).
     rbind (queue_init 32 max_listeners blk2 cq_new live) (\<lambda>(_, listeners, live).
       Inr (\<lparr>em_names = names, em_listeners = listeners, em_lock = rw_new\<rparr>, live)))"

subsection \<open>Names\<close>

text \<open>The loops run over the slots of a queue; there are at most as many as it has bytes.\<close>

definition find_event_name :: "u8_t list \<Rightarrow> cqueue \<Rightarrow> ptr res" where
  "find_event_name event_name names =
     rbind (each (length (dat names)) cq_peek_next
              (\<lambda>peek q. rbind (cq_deref q peek) (\<lambda>s. rbind (strcmp_eq s event_name) (\<lambda>eq.
                 Inr (if eq then Some peek else None, q))))
              (cq_peek names) names)
       (\<lambda>(r, _). Inr (case r of Some p \<Rightarrow> p | None \<Rightarrow> 0))"

definition register_event_name :: "u8_t list \<Rightarrow> cqueue \<Rightarrow> (ptr \<times> cqueue) res" where
  "register_event_name event_name names =
     rbind (find_event_name event_name names) (\<lambda>name.
       if name \<noteq> 0 then Inr (name, names)
       else rbind (each (length (dat names)) cq_peek_next
              (\<lambda>peek q. rbind (cq_deref q peek) (\<lambda>s. rbind (c_strlen s) (\<lambda>n.
                 if n = 0
                 then rbind (cq_write peek (c_strncpy EVENT_NAME_LENGTH_MAX event_name) q) (\<lambda>q.
                      rbind (cq_write (peek + of_nat EVENT_NAME_LENGTH_MAX) [0] q) (\<lambda>q.
                        Inr (Some peek, q)))
                 else Inr (None, q))))
              (cq_peek names) names)
         (\<lambda>(r, names). case r of Some p \<Rightarrow> Inr (p, names)
          | None \<Rightarrow>
            let entry = (c_strncpy EVENT_NAME_LENGTH_MAX event_name @ [0])
            in rbind (cq_put (Some entry) names) (\<lambda>(ok, names).
                 Inr (if ok then cq_last names else 0, names))))"

definition unregister_event_name :: "ptr \<Rightarrow> cqueue \<Rightarrow> (ptr \<times> cqueue) res" where
  "unregister_event_name event_name names =
     rbind (each (length (dat names)) cq_peek_next
              (\<lambda>peek q. rbind (cq_deref q peek) (\<lambda>s. rbind (cq_deref q event_name) (\<lambda>e.
                 rbind (strcmp_eq s e) (\<lambda>eq.
                 if eq then rbind (cq_write peek [0] q) (\<lambda>q. Inr (Some peek, q)) else Inr (None, q)))))
              (cq_peek names) names)
       (\<lambda>(r, names). Inr (case r of Some p \<Rightarrow> p | None \<Rightarrow> 0, names))"

subsection \<open>Listeners\<close>

fun trim_head :: "nat \<Rightarrow> cqueue \<Rightarrow> cqueue res" where
  "trim_head 0 q = Inl Diverges"
| "trim_head (Suc k) q =
     (if cq_peek q = 0 then Inr q
      else rbind (cq_deref q (cq_peek q)) (\<lambda>bs.
             if eb_name (eb_dec bs) \<noteq> 0 then Inr q
             else rbind (cq_get False q) (\<lambda>(_, _, q). trim_head k q)))"

fun trim_tail :: "nat \<Rightarrow> cqueue \<Rightarrow> cqueue res" where
  "trim_tail 0 q = Inl Diverges"
| "trim_tail (Suc k) q =
     (if cq_last q = 0 then Inr q
      else rbind (cq_deref q (cq_last q)) (\<lambda>bs.
             if eb_name (eb_dec bs) \<noteq> 0 then Inr q
             else rbind (cq_pop False q) (\<lambda>(_, _, q). trim_tail k q)))"

definition squeez_listeners :: "cqueue \<Rightarrow> cqueue res" where
  "squeez_listeners q =
     rbind (trim_head (Suc (length (dat q))) q) (\<lambda>q.
     rbind (trim_tail (Suc (length (dat q))) q) (\<lambda>q.
     rbind (cq_length q) (\<lambda>len.
     rbind (requeue cq_enq cq_deq (\<lambda>bs _. (eb_name (eb_dec bs) \<noteq> 0, ())) (nat (sint len)) () q)
       (\<lambda>(_, q). Inr q))))"

subsection \<open>Operations\<close>

text \<open>The scope of an \<open>AutoLockWrite\<close> on \<open>m_lock\<close>.\<close>

definition locked :: "tid \<Rightarrow> (emitter \<Rightarrow> ('r \<times> emitter) res) \<Rightarrow> emitter \<Rightarrow> ('r \<times> emitter) res" where
  "locked self body e =
     rbind (autolock_write self (em_lock e)) (\<lambda>l.
     rbind (body (e\<lparr>em_lock := l\<rparr>)) (\<lambda>(r, e).
     rbind (autolock_end self (em_lock e)) (\<lambda>l. Inr (r, e\<lparr>em_lock := l\<rparr>))))"

definition em_on_body ::
    "u8_t list \<Rightarrow> ptr \<Rightarrow> ptr \<Rightarrow> bool \<Rightarrow> emitter \<Rightarrow> (bool \<times> emitter) res"
where
  "em_on_body event_name listener data once e =
     rbind (register_event_name event_name (em_names e)) (\<lambda>(name, names).
       let e = e\<lparr>em_names := names\<rparr>
       in if name = 0 then Inr (False, e)
          else rbind (cq_available (em_listeners e)) (\<lambda>av.
               rbind (if av \<le> 0 then squeez_listeners (em_listeners e) else Inr (em_listeners e)) (\<lambda>ls.
               rbind (cq_available ls) (\<lambda>av.
                 if av \<le> 0 then Inr (False, e\<lparr>em_listeners := ls\<rparr>)
                 else rbind (cq_put (Some (eb_enc \<lparr>eb_name = name, eb_listener = listener,
                                                   eb_data = data, eb_once = once\<rparr>)) ls)
                        (\<lambda>(ok, ls). Inr (ok, e\<lparr>em_listeners := ls\<rparr>))))))"

definition em_add ::
    "tid \<Rightarrow> u8_t list \<Rightarrow> ptr \<Rightarrow> ptr \<Rightarrow> bool \<Rightarrow> emitter \<Rightarrow> (bool \<times> emitter) res"
where
  "em_add self event_name listener data once e =
     rbind (c_strlen event_name) (\<lambda>n.
       if n > EVENT_NAME_LENGTH_MAX then Inr (False, e)
       else locked self (em_on_body event_name listener data once) e)"

definition em_on :: "tid \<Rightarrow> u8_t list \<Rightarrow> ptr \<Rightarrow> ptr \<Rightarrow> emitter \<Rightarrow> (bool \<times> emitter) res" where
  "em_on self event_name listener data e = em_add self event_name listener data False e"

definition em_once :: "tid \<Rightarrow> u8_t list \<Rightarrow> ptr \<Rightarrow> ptr \<Rightarrow> emitter \<Rightarrow> (bool \<times> emitter) res" where
  "em_once self event_name listener data e = em_add self event_name listener data True e"

definition off_step :: "ptr \<Rightarrow> ptr \<Rightarrow> u8_t list \<Rightarrow> nat \<Rightarrow> bool \<times> nat" where
  "off_step name listener bs name_count =
     (let eb = eb_dec bs
      in if eb_name eb = name
         then (if eb_listener eb = listener then (False, name_count) else (True, name_count + 1))
         else (True, name_count))"

definition em_off_body :: "u8_t list \<Rightarrow> ptr \<Rightarrow> emitter \<Rightarrow> (bool \<times> emitter) res" where
  "em_off_body event_name listener e =
     rbind (find_event_name event_name (em_names e)) (\<lambda>name.
       if name = 0 then Inr (False, e)
       else rbind (cq_length (em_listeners e)) (\<lambda>len.
            rbind (requeue cq_enq cq_deq (off_step name listener) (nat (sint len)) 0 (em_listeners e))
              (\<lambda>(name_count, ls). let e = e\<lparr>em_listeners := ls\<rparr>
               in if name_count = 0
                  then rbind (unregister_event_name name (em_names e))
                         (\<lambda>(_, names). Inr (True, e\<lparr>em_names := names\<rparr>))
                  else Inr (True, e))))"

definition em_off :: "tid \<Rightarrow> u8_t list \<Rightarrow> ptr \<Rightarrow> emitter \<Rightarrow> (bool \<times> emitter) res" where
  "em_off self event_name listener e = locked self (em_off_body event_name listener) e"

type_synonym 'u listeners = "ptr \<Rightarrow> event_block \<Rightarrow> 'u \<Rightarrow> event_block \<times> 'u"

text \<open>One turn of the loop of \<open>emit\<close>: the listener may change the fields of its block in place.\<close>

definition emit_turn :: "'u listeners \<Rightarrow> ptr \<Rightarrow> ptr \<Rightarrow> cqueue \<times> 'u \<Rightarrow> (unit option \<times> cqueue \<times> 'u) res" where
  "emit_turn call name peek z =
     (case z of (q, u) \<Rightarrow>
      rbind (cq_deref q peek) (\<lambda>bs. let eb = eb_dec bs in
        if eb_name eb = name
        then rbind (if eb_listener eb \<noteq> 0
                    then (case call (eb_listener eb) eb u of (eb, u) \<Rightarrow>
                            rbind (cq_write peek (take 25 (eb_enc eb)) q) (\<lambda>q. Inr (eb, q, u)))
                    else Inr (eb, q, u))
               (\<lambda>(eb, q, u).
                 rbind (if eb_once eb then cq_write peek (le_bytes 8 0) q else Inr q) (\<lambda>q.
                   Inr (None, q, u)))
        else Inr (None, q, u)))"

definition em_emit_body ::
    "'u listeners \<Rightarrow> u8_t list \<Rightarrow> 'u \<Rightarrow> emitter \<Rightarrow> ((bool \<times> 'u) \<times> emitter) res"
where
  "em_emit_body call event_name u e =
     rbind (find_event_name event_name (em_names e)) (\<lambda>name.
       if name = 0 then Inr ((False, u), e)
       else rbind (each (length (dat (em_listeners e))) (\<lambda>p z. cq_peek_next p (fst z))
                     (emit_turn call name) (cq_peek (em_listeners e)) (em_listeners e, u))
              (\<lambda>(_, ls, u). Inr ((True, u), e\<lparr>em_listeners := ls\<rparr>)))"

definition em_emit ::
    "tid \<Rightarrow> 'u listeners \<Rightarrow> u8_t list \<Rightarrow> 'u \<Rightarrow> emitter \<Rightarrow> ((bool \<times> 'u) \<times> emitter) res"
where
  "em_emit self call event_name u e = locked self (em_emit_body call event_name u) e"

end
