(* ===== verification/GclEventFacts.thy ===== *)
theory GclEventFacts
  imports GclEvent GclTokFacts
begin

section \<open>EventEmitter: facts\<close>

text \<open>
  First what reading and writing through node pointers does to the items of a queue, then
  the name table and the listener queue. The abstract value of an emitter is the list
  \<open>em_abs\<close> of its live registrations in order.
\<close>

subsection \<open>Nodes and items\<close>

lemma cq_deref_node: "cq_wf q \<Longrightarrow> k < length (cq_nodes q) \<Longrightarrow> cq_deref q (cq_nodes q ! k) = Inr (cq_items q ! k)"
  using cq_deref_nodes [of q] length_cq_nodes [of q] by (metis nth_map)

lemma distinct_cq_nodes: "cq_wf q \<Longrightarrow> distinct (cq_nodes q)"
proof (erule cq_wf_cases)
  fix s n h t assume r: "cq_rep q s n h t"
  then have "inj_on (cq_slot q) (set (ring n h t))"
    using set_ring [OF cq_repD(4,5) [OF r]] cq_slot_eq [OF r] by (meson inj_onI less_imp_le)
  then show ?thesis using r distinct_ring [OF cq_repD(4,5) [OF r]] by (simp add: cq_rep_nodes distinct_map)
qed (simp add: cq_nodes_def)

lemma length_cq_items_dat: "cq_wf q \<Longrightarrow> length (cq_items q) \<le> length (dat q)"
proof (erule cq_wf_cases)
  fix s n h t assume r: "cq_rep q s n h t"
  have "rlen n h t \<le> n" using rlen_lt [OF cq_repD(4,5) [OF r]] by simp
  also have "n \<le> n * s" using cq_repD(2) [OF r] by simp
  finally show ?thesis using r cq_repD(11) [OF r] by (simp add: cq_rep_length)
qed (simp add: cq_items_def)

lemma overwrite_inside:
  assumes "length bs = m * n" "i < m" "off + length cs \<le> n"
  shows "overwrite (i * n + off) cs bs = overwrite (i * n) (overwrite off cs (chunk n i bs)) bs"
proof -
  define A where "A = take (i * n) bs"
  define C where "C = chunk n i bs"
  define B where "B = drop (i * n + n) bs"
  have le: "i * n + n \<le> length bs" using block_end [OF assms(2), of n] assms(1) by simp
  have bs: "bs = A @ C @ B"
    by (simp add: A_def B_def C_def chunk_def add.commute flip: drop_drop)
  have len: "length A = i * n" "length C = n" using le by (simp_all add: A_def C_def chunk_def)
  have "chunk n i bs = C" by (simp add: C_def)
  then show ?thesis
    using assms(3) len by (simp add: bs overwrite_def)
qed

text \<open>Writing \<open>cs\<close> at offset \<open>off\<close> of node \<open>k\<close> changes that item and nothing else.\<close>

lemma cq_write_node:
  assumes "cq_wf q" "k < length (cq_nodes q)" "off + length cs \<le> cq_size q"
  obtains q' where "cq_write (cq_nodes q ! k + of_nat off) cs q = Inr q'" "cq_wf q'"
    "cq_items q' = (cq_items q)[k := overwrite off cs (cq_items q ! k)]" "cq_nodes q' = cq_nodes q"
    "cq_size q' = cq_size q" "cq_cap q' = cq_cap q" "m_q q' = m_q q" "cq_tidx q' = cq_tidx q"
    "length (dat q') = length (dat q)"
proof -
  have "cq_nodes q \<noteq> []" using assms(2) by auto
  with assms(1) obtain s n h t where r: "cq_rep q s n h t" by (metis cq_wf_nonempty)
  note D = cq_repD [OF r]
  have s: "cq_size q = s" using r by (simp add: cq_rep_size)
  define i where "i = ring n h t ! k"
  have k: "k < rlen n h t" using assms(2) by (simp add: cq_rep_nodes [OF r])
  have i: "i < n" using ring_nth_lt [OF D(4,5) k] by (simp add: i_def)
  have node: "cq_nodes q ! k = cq_slot q i" using k by (simp add: cq_rep_nodes [OF r] i_def)
  have le: "i * s + s \<le> n * s" using i by (rule block_end)
  have u: "unat (cq_slot q i) = unat (m_q q) + (20 + i * s)" using unat_cq_slot [OF r] i by simp
  have "unat (of_nat off :: ptr) = off"
    using assms(3) s le D(12) by (subst unat_of_nat) (simp add: take_bit_nat_eq_self)
  then have u2: "unat (cq_slot q i + of_nat off) = unat (m_q q) + (20 + i * s + off)"
    using u assms(3) s le D(12) by (subst unat_add_nowrap) simp_all
  have o: "unat (cq_slot q i + of_nat off - m_q q) = 20 + (i * s + off)"
    using u2 by (subst unat_sub_nowrap) simp_all
  have nn: "cq_slot q i + of_nat off \<noteq> 0" using u2 by (auto simp: word_eq_unat)
  define C where "C = overwrite off cs (chunk s i (dat q))"
  have C: "length C = s" using assms(3) s length_chunk [OF D(11) i] by (simp add: C_def)
  define q' where "q' = q\<lparr>dat := overwrite (i * s) C (dat q)\<rparr>"
  have w: "cq_write (cq_nodes q ! k + of_nat off) cs q = Inr q'"
    using o nn assms(3) s le D(11) overwrite_inside [OF D(11) i, of off cs]
    by (simp add: cq_write_def cq_store_def node q'_def C_def)
  have r': "cq_rep q' s n h t" unfolding q'_def by (rule cq_rep_store [OF r i C])
  have cd: "dat q' = overwrite (i * s) C (dat q)" by (simp add: q'_def)
  have "cq_items q' = (cq_items q)[k := C]"
  proof (rule nth_equalityI)
    show "length (cq_items q') = length ((cq_items q)[k := C])" by (simp add: cq_rep_items [OF r] cq_rep_items [OF r'])
    fix j assume "j < length (cq_items q')"
    then have j: "j < rlen n h t" by (simp add: cq_rep_items [OF r'])
    have "ring n h t ! j = i \<longleftrightarrow> j = k"
      using distinct_ring [OF D(4,5)] j k by (simp add: i_def nth_eq_iff_index_eq)
    then show "cq_items q' ! j = (cq_items q)[k := C] ! j"
      using j k chunk_overwrite_same [OF D(11) i C] chunk_overwrite_other [OF D(11) _ i _ C, of "ring n h t ! j"]
        ring_nth_lt [OF D(4,5) j] cd
      by (auto simp: cq_rep_items [OF r] cq_rep_items [OF r'] nth_list_update)
  qed
  moreover have "cq_items q ! k = chunk s i (dat q)" using k by (simp add: cq_rep_items [OF r] i_def)
  moreover have "cq_nodes q' = cq_nodes q"
    using cq_rep_nodes [OF r] cq_rep_nodes [OF r'] by (simp add: q'_def cq_slot_def [abs_def])
  moreover have "m_q q' = m_q q" by (simp add: q'_def)
  moreover have "length (dat q') = length (dat q)" using D(11) cq_repD(11) [OF r'] by simp
  ultimately show thesis
    using w cq_rep_wf [OF r'] cq_rep_views [OF r] cq_rep_views [OF r']
    by (intro that [of q']) (simp_all add: C_def)
qed

lemma cq_put_node:
  assumes "cq_wf q" "length bs = cq_size q" "length (cq_items q) < cq_cap q"
  obtains q' where "cq_put (Some bs) q = Inr (True, q')" "cq_wf q'" "cq_items q' = cq_items q @ [bs]"
    "cq_nodes q' = cq_nodes q @ [cq_last q']" "cq_last q' \<noteq> 0" "cq_size q' = cq_size q" "cq_cap q' = cq_cap q"
    "m_q q' = m_q q"
proof -
  obtain s n h t where r: "cq_rep q s n h t"
    using assms(1,3) by (metis cq_wf_cases cq_cap_def less_nat_zero_code)
  note D = cq_repD [OF r]
  have s: "cq_size q = s" using r by (simp add: cq_rep_size)
  have nf: "rsuc n t \<noteq> h" using assms(3) cq_rep_full_iff [OF r] by auto
  obtain q' where q': "cq_put (Some bs) q = Inr (True, q')" "cq_rep q' s n h (rsuc n t)"
    "cq_items q' = cq_items q @ [take s bs]" "m_q q' = m_q q"
    using cq_put_rep [OF r nf, of bs] assms(2) s by auto
  have sz: "q_item_size (ctl q') = q_item_size (ctl q)"
    using cq_repD(6) [OF q'(2)] D(6) by (simp add: word_eq_unat)
  have "cq_nodes q' = cq_nodes q @ [cq_slot q' t]"
    using cq_rep_nodes [OF q'(2)] cq_rep_nodes [OF r] ring_snoc [OF D(4,5) nf] q'(4) sz
    by (simp add: cq_slot_def [abs_def])
  moreover have "cq_last q' = cq_slot q' t"
    using cq_last_slot [OF q'(2)] nf D(5) by simp
  moreover have "cq_slot q' t \<noteq> 0" using cq_slot_nonnull [OF q'(2)] D(5) by simp
  ultimately show thesis
    using q' assms(2) s r cq_rep_wf [OF q'(2)] by (intro that [of q']) (simp_all add: cq_rep_views)
qed

lemma cq_put_node_full:
  "cq_wf q \<Longrightarrow> length (cq_items q) = cq_cap q \<Longrightarrow> cq_put item q = Inr (False, q)"
  by (elim cq_wf_cases) (simp add: cq_put_def, simp add: cq_put_full cq_rep_full_iff)

subsection \<open>The name table\<close>

text \<open>
  \<open>node_str q p\<close> is the string in the slot at \<open>p\<close>. A name table is well formed when its slots
  are terminated, and no name but the empty one is in two slots.
\<close>

definition node_str :: "cqueue \<Rightarrow> ptr \<Rightarrow> u8_t list" where
  "node_str q p = (case cq_deref q p of Inl _ \<Rightarrow> [] | Inr bs \<Rightarrow> c_str bs)"

definition names_ok :: "cqueue \<Rightarrow> bool" where
  "names_ok q \<longleftrightarrow> cq_wf q \<and> (m_q q = 0 \<or> cq_size q = 16) \<and> (\<forall>b \<in> set (cq_items q). b ! 15 = 0)"

definition names_unique :: "cqueue \<Rightarrow> bool" where
  "names_unique q \<longleftrightarrow> (\<forall>p \<in> set (cq_nodes q). \<forall>p' \<in> set (cq_nodes q).
     node_str q p = node_str q p' \<and> node_str q p \<noteq> [] \<longrightarrow> p = p')"

lemma names_okD:
  assumes "names_ok q"
  shows "cq_wf q" "cq_nodes q \<noteq> [] \<Longrightarrow> cq_size q = 16" "b \<in> set (cq_items q) \<Longrightarrow> b ! 15 = 0"
    "b \<in> set (cq_items q) \<Longrightarrow> length b = 16" "b \<in> set (cq_items q) \<Longrightarrow> 0 \<in> set b"
proof -
  show 1: "cq_wf q" "cq_nodes q \<noteq> [] \<Longrightarrow> cq_size q = 16" "b \<in> set (cq_items q) \<Longrightarrow> b ! 15 = 0"
    using assms by (auto simp: names_ok_def cq_nodes_def)
  show 2: "length b = 16" if "b \<in> set (cq_items q)"
  proof -
    have "m_q q \<noteq> 0" using that by (auto simp: cq_items_def)
    then show ?thesis using cq_items_size [OF 1(1) that] assms by (simp add: names_ok_def)
  qed
  show "b \<in> set (cq_items q) \<Longrightarrow> 0 \<in> set b" using 1(3) 2 nth_mem [of 15 b] by auto
qed

lemma node_str_nth: "cq_wf q \<Longrightarrow> k < length (cq_nodes q) \<Longrightarrow> node_str q (cq_nodes q ! k) = c_str (cq_items q ! k)"
  by (simp add: node_str_def cq_deref_node)

lemma names_deref:
  assumes "names_ok q" "p \<in> set (cq_nodes q)"
  obtains b where "cq_deref q p = Inr b" "0 \<in> set b" "c_str b = node_str q p" "length b = 16"
proof -
  obtain k where k: "k < length (cq_nodes q)" "p = cq_nodes q ! k" using assms(2) by (metis in_set_conv_nth)
  have w: "cq_wf q" using assms(1) by (rule names_okD)
  have in_items: "cq_items q ! k \<in> set (cq_items q)" using k(1) length_cq_nodes [OF w] by simp
  then show thesis
    using k cq_deref_node [OF w k(1)] node_str_nth [OF w k(1)] names_okD(4,5) [OF assms(1)]
    by (intro that [of "cq_items q ! k"]) auto
qed

lemma names_fuel: "names_ok q \<Longrightarrow> length (cq_nodes q) \<le> length (dat q)"
  using length_cq_items_dat [of q] length_cq_nodes [of q] by (simp add: names_okD(1))

definition lookup_ptr :: "(ptr \<Rightarrow> bool) \<Rightarrow> cqueue \<Rightarrow> ptr" where
  "lookup_ptr Q q = (case find Q (cq_nodes q) of None \<Rightarrow> 0 | Some p \<Rightarrow> p)"

lemma find_event_name_spec:
  assumes "names_ok q" "0 \<in> set nm"
  shows "find_event_name nm q = Inr (lookup_ptr (\<lambda>p. node_str q p = c_str nm) q)"
proof -
  define body where "body = (\<lambda>peek q. rbind (cq_deref q peek) (\<lambda>s. rbind (strcmp_eq s nm) (\<lambda>eq.
                 Inr (if eq then Some peek else None, q))))"
  have body: "body p q = Inr (if node_str q p = c_str nm then Some p else None, q)"
    if np: "names_ok q" "p \<in> set (cq_nodes q)" for p q
  proof -
    obtain b where "cq_deref q p = Inr b" "0 \<in> set b" "c_str b = node_str q p" "length b = 16"
      by (rule names_deref [OF np])
    then show ?thesis using assms(2) by (simp add: strcmp_eq_def body_def)
  qed
  have "each (length (dat q)) cq_peek_next body (cq_peek q) q
      = (case find (\<lambda>p. node_str q p = c_str nm) (cq_nodes q) of None \<Rightarrow> Inr (None, q) | Some p \<Rightarrow> Inr (Some p, q))"
    by (rule fwd.each_search [where v = "\<lambda>z. z"])
      (use names_okD(1) [OF assms(1)] names_fuel [OF assms(1)] body [OF assms(1)] in simp_all)
  then show ?thesis by (simp add: find_event_name_def lookup_ptr_def body_def [symmetric] split: option.split)
qed

lemma lookup_ptr_cases:
  assumes "cq_wf q"
  obtains (none) "lookup_ptr Q q = 0" "\<forall>p \<in> set (cq_nodes q). \<not> Q p" "find Q (cq_nodes q) = None"
  | (some) k where "k < length (cq_nodes q)" "lookup_ptr Q q = cq_nodes q ! k" "Q (cq_nodes q ! k)"
      "lookup_ptr Q q \<noteq> 0" "find Q (cq_nodes q) = Some (cq_nodes q ! k)"
proof (cases "find Q (cq_nodes q)")
  case None
  then have "\<forall>p \<in> set (cq_nodes q). \<not> Q p" by (metis find_None_iff)
  with None show thesis by (intro none) (simp_all add: lookup_ptr_def)
next
  case (Some p)
  then obtain k where "k < length (cq_nodes q)" "Q (cq_nodes q ! k)" "p = cq_nodes q ! k"
    by (auto simp: find_Some_iff)
  then show thesis
    using Some fwd.nodes_nonnull [OF assms] by (intro some [of k]) (auto simp: lookup_ptr_def)
qed

text \<open>Writing a name into a slot, and clearing it.\<close>

lemma names_write:
  assumes "names_ok q" "k < length (cq_nodes q)" "off + length cs \<le> 16"
    "overwrite off cs (cq_items q ! k) ! 15 = 0"
  obtains q' where "cq_write (cq_nodes q ! k + of_nat off) cs q = Inr q'" "names_ok q'" "cq_nodes q' = cq_nodes q"
    "\<forall>p \<in> set (cq_nodes q). node_str q' p
       = (if p = cq_nodes q ! k then c_str (overwrite off cs (cq_items q ! k)) else node_str q p)"
    "cq_items q' = (cq_items q)[k := overwrite off cs (cq_items q ! k)]" "cq_cap q' = cq_cap q" "m_q q' = m_q q"
    "length (dat q') = length (dat q)"
proof -
  note w = names_okD(1) [OF assms(1)]
  have "cq_nodes q \<noteq> []" using assms(2) by auto
  then have s: "cq_size q = 16" by (rule names_okD(2) [OF assms(1)])
  have le: "off + length cs \<le> cq_size q" using assms(3) s by simp
  obtain q' where q': "cq_write (cq_nodes q ! k + of_nat off) cs q = Inr q'" "cq_wf q'"
    "cq_items q' = (cq_items q)[k := overwrite off cs (cq_items q ! k)]" "cq_nodes q' = cq_nodes q"
    "cq_size q' = cq_size q" "cq_cap q' = cq_cap q" "m_q q' = m_q q" "cq_tidx q' = cq_tidx q"
    "length (dat q') = length (dat q)"
    by (rule cq_write_node [OF w assms(2) le])
  have str: "node_str q' p = (if p = cq_nodes q ! k then c_str (overwrite off cs (cq_items q ! k)) else node_str q p)"
    if pn: "p \<in> set (cq_nodes q)" for p
  proof -
    obtain j where j: "j < length (cq_nodes q)" "p = cq_nodes q ! j" using pn by (metis in_set_conv_nth)
    have "p = cq_nodes q ! k \<longleftrightarrow> j = k"
      using distinct_cq_nodes [OF w] j assms(2) by (simp add: nth_eq_iff_index_eq)
    then show ?thesis
      using j node_str_nth [OF w j(1)] node_str_nth [OF q'(2), of j] q'(3,4) length_cq_nodes [OF w]
      by (auto simp: nth_list_update)
  qed
  have "b ! 15 = 0" if "b \<in> set (cq_items q')" for b
  proof -
    have "b = overwrite off cs (cq_items q ! k) \<or> b \<in> set (cq_items q)"
      using that set_update_subset_insert [THEN subsetD, of b "cq_items q" k] by (simp add: q'(3))
    then show ?thesis using assms(4) names_okD(3) [OF assms(1)] by blast
  qed
  then have nok: "names_ok q'" using q'(2,5) s by (simp add: names_ok_def)
  have strs: "\<forall>p \<in> set (cq_nodes q). node_str q' p
       = (if p = cq_nodes q ! k then c_str (overwrite off cs (cq_items q ! k)) else node_str q p)"
    using str by blast
  show thesis by (rule that [OF q'(1) nok q'(4) strs q'(3,6,7,9)])
qed

lemma c_strlen_0: "0 \<in> set b \<Longrightarrow> c_strlen b = Inr (length (c_str b))"
  by (simp add: c_strlen_def)

lemma length_c_strncpy [simp]: "length (c_strncpy n src) = n"
  by (simp add: c_strncpy_def)

lemma c_strncpy_short: "length (c_str src) \<le> 15 \<Longrightarrow> c_str (c_strncpy 15 src @ [0]) = c_str src"
proof -
  assume l: "length (c_str src) \<le> 15"
  then have "c_strncpy 15 src @ [0] = c_str src @ 0 # replicate (15 - length (c_str src)) 0"
    by (simp add: c_strncpy_def replicate_append_same)
  then show ?thesis by (simp add: c_str_append c_str_no_null)
qed

lemma slot_filled:
  assumes "length b = 16" "b ! 15 = 0"
  shows "overwrite 0 (c_strncpy 15 nm) b ! 15 = 0"
    "overwrite 15 [0] (overwrite 0 (c_strncpy 15 nm) b) = c_strncpy 15 nm @ [0]"
  using assms by (simp_all add: overwrite_def nth_append)

text \<open>The free-slot search of \<open>__register_event_name\<close> writes the name into the first free slot.\<close>

lemma names_fill:
  assumes "names_ok q" "k < length (cq_nodes q)" "length (c_str nm) \<le> 15"
  obtains q1 q2 where "cq_write (cq_nodes q ! k) (c_strncpy 15 nm) q = Inr q1"
    "cq_write (cq_nodes q ! k + 15) [0] q1 = Inr q2" "names_ok q2" "cq_nodes q2 = cq_nodes q"
    "\<forall>p \<in> set (cq_nodes q). node_str q2 p = (if p = cq_nodes q ! k then c_str nm else node_str q p)"
    "cq_cap q2 = cq_cap q" "m_q q2 = m_q q"
proof -
  have len: "length (cq_items q) = length (cq_nodes q)" using length_cq_nodes [OF names_okD(1) [OF assms(1)]] by simp
  then have b: "length (cq_items q ! k) = 16" "cq_items q ! k ! 15 = 0"
    using names_okD(3,4) [OF assms(1)] assms(2) by simp_all
  have le1: "0 + length (c_strncpy 15 nm) \<le> 16" by simp
  obtain q1 where q1: "cq_write (cq_nodes q ! k + of_nat 0) (c_strncpy 15 nm) q = Inr q1" "names_ok q1"
    "cq_nodes q1 = cq_nodes q"
    "\<forall>p \<in> set (cq_nodes q). node_str q1 p
       = (if p = cq_nodes q ! k then c_str (overwrite 0 (c_strncpy 15 nm) (cq_items q ! k)) else node_str q p)"
    "cq_items q1 = (cq_items q)[k := overwrite 0 (c_strncpy 15 nm) (cq_items q ! k)]" "cq_cap q1 = cq_cap q" "m_q q1 = m_q q"
    "length (dat q1) = length (dat q)"
    by (rule names_write [OF assms(1,2) le1 slot_filled(1) [OF b]])
  have k1: "k < length (cq_nodes q1)" using assms(2) q1(3) by simp
  have i1: "cq_items q1 ! k = overwrite 0 (c_strncpy 15 nm) (cq_items q ! k)" using q1(5) assms(2) len by simp
  have le2: "15 + length [0 :: u8_t] \<le> 16" by simp
  have z: "overwrite 15 [0] (cq_items q1 ! k) ! 15 = 0" using slot_filled(2) [OF b] by (simp add: i1 nth_append)
  obtain q2 where q2: "cq_write (cq_nodes q1 ! k + of_nat 15) [0] q1 = Inr q2" "names_ok q2" "cq_nodes q2 = cq_nodes q1"
    "\<forall>p \<in> set (cq_nodes q1). node_str q2 p
       = (if p = cq_nodes q1 ! k then c_str (overwrite 15 [0] (cq_items q1 ! k)) else node_str q1 p)"
    "cq_items q2 = (cq_items q1)[k := overwrite 15 [0] (cq_items q1 ! k)]" "cq_cap q2 = cq_cap q1" "m_q q2 = m_q q1"
    "length (dat q2) = length (dat q1)"
    by (rule names_write [OF q1(2) k1 le2 z])
  have "c_str (overwrite 15 [0] (cq_items q1 ! k)) = c_str nm"
    by (simp add: i1 slot_filled(2) [OF b] c_strncpy_short [OF assms(3)])
  then show thesis
    using q1 q2 by (intro that [of q1 q2]) simp_all
qed

definition names_full :: "u8_t list \<Rightarrow> cqueue \<Rightarrow> bool" where
  "names_full s q \<longleftrightarrow> (\<forall>p \<in> set (cq_nodes q). node_str q p \<noteq> s \<and> node_str q p \<noteq> []) \<and> length (cq_nodes q) = cq_cap q"

lemma register_event_name_spec:
  assumes "names_ok q" "names_unique q" "0 \<in> set nm" "length (c_str nm) \<le> 15" "c_str nm \<noteq> []"
  obtains p q' where "register_event_name nm q = Inr (p, q')" "names_ok q'" "names_unique q'"
    "p \<noteq> 0 \<longrightarrow> p \<in> set (cq_nodes q') \<and> node_str q' p = c_str nm"
    "\<forall>r \<in> set (cq_nodes q). node_str q r \<noteq> [] \<longrightarrow> r \<in> set (cq_nodes q') \<and> node_str q' r = node_str q r"
    "p = 0 \<longleftrightarrow> names_full (c_str nm) q" "p = 0 \<longrightarrow> q' = q" "cq_cap q' = cq_cap q"
    "node_str q' ` set (cq_nodes q') \<subseteq> insert (c_str nm) (insert [] (node_str q ` set (cq_nodes q)))"
proof -
  note w = names_okD(1) [OF assms(1)]
  let ?Q = "\<lambda>p. node_str q p = c_str nm"
  note find = find_event_name_spec [OF assms(1,3)]
  show thesis
  proof (rule lookup_ptr_cases [OF w, of ?Q])
    fix k assume k: "k < length (cq_nodes q)" "lookup_ptr ?Q q = cq_nodes q ! k" "?Q (cq_nodes q ! k)" "lookup_ptr ?Q q \<noteq> 0"
    then show thesis
      using find assms(1,2) by (intro that [of "cq_nodes q ! k" q]) (auto simp: register_event_name_def names_full_def)
  next
    assume none: "lookup_ptr ?Q q = 0" "\<forall>p \<in> set (cq_nodes q). \<not> ?Q p"
    define body where "body = (\<lambda>peek q. rbind (cq_deref q peek) (\<lambda>s. rbind (c_strlen s) (\<lambda>n.
                 if n = 0
                 then rbind (cq_write peek (c_strncpy EVENT_NAME_LENGTH_MAX nm) q) (\<lambda>q.
                      rbind (cq_write (peek + of_nat EVENT_NAME_LENGTH_MAX) [0] q) (\<lambda>q.
                        Inr (Some peek, q)))
                 else Inr (None, q))))"
    define fill where "fill = (\<lambda>p. case body p q of Inr (_, q') \<Rightarrow> q' | Inl _ \<Rightarrow> q)"
    have b0: "body p q = Inr (None, q)" if pn: "p \<in> set (cq_nodes q)" "node_str q p \<noteq> []" for p
    proof -
      obtain b where "cq_deref q p = Inr b" "0 \<in> set b" "c_str b = node_str q p" "length b = 16"
        by (rule names_deref [OF assms(1) pn(1)])
      then show ?thesis using pn(2) by (simp add: body_def c_strlen_0)
    qed
    have b1: "body p q = Inr (Some p, fill p) \<and> names_ok (fill p) \<and> cq_nodes (fill p) = cq_nodes q
        \<and> (\<forall>r \<in> set (cq_nodes q). node_str (fill p) r = (if r = p then c_str nm else node_str q r))
        \<and> cq_cap (fill p) = cq_cap q"
      if pn: "p \<in> set (cq_nodes q)" "node_str q p = []" for p
    proof -
      obtain b where b: "cq_deref q p = Inr b" "0 \<in> set b" "c_str b = node_str q p" "length b = 16"
        by (rule names_deref [OF assms(1) pn(1)])
      obtain k where k: "k < length (cq_nodes q)" "p = cq_nodes q ! k" using pn(1) by (metis in_set_conv_nth)
      obtain q1 q2 where w12: "cq_write (cq_nodes q ! k) (c_strncpy 15 nm) q = Inr q1"
        "cq_write (cq_nodes q ! k + 15) [0] q1 = Inr q2" "names_ok q2" "cq_nodes q2 = cq_nodes q"
        "\<forall>p \<in> set (cq_nodes q). node_str q2 p = (if p = cq_nodes q ! k then c_str nm else node_str q p)"
        "cq_cap q2 = cq_cap q" "m_q q2 = m_q q"
        by (rule names_fill [OF assms(1) k(1) assms(4)])
      have "body p q = Inr (Some p, q2)" using b pn(2) k(2) w12(1,2) by (simp add: body_def c_strlen_0)
      then show ?thesis using w12 k(2) by (simp add: fill_def)
    qed
    have loop: "each (length (dat q)) cq_peek_next body (cq_peek q) q
        = (case find (\<lambda>p. node_str q p = []) (cq_nodes q) of None \<Rightarrow> Inr (None, q) | Some p \<Rightarrow> Inr (Some p, fill p))"
      by (rule fwd.each_search [where v = "\<lambda>z. z"])
        (use w names_fuel [OF assms(1)] b0 b1 in simp_all)
    show thesis
    proof (cases "find (\<lambda>p. node_str q p = []) (cq_nodes q)")
      case (Some p)
      then have p: "p \<in> set (cq_nodes q)" "node_str q p = []" by (auto simp: find_Some_iff)
      note f = b1 [OF p]
      have "register_event_name nm q = Inr (p, fill p)"
        using find none(1) loop Some by (simp add: register_event_name_def body_def [symmetric])
      moreover have "names_unique (fill p)"
        using f none(2) assms(2) by (auto simp: names_unique_def)
      moreover have "p \<noteq> 0" using fwd.nodes_nonnull [OF w p(1)] .
      ultimately show thesis
        using f p assms(5) by (intro that [of p "fill p"]) (auto simp: names_full_def)
    next
      case None
      then have used: "\<forall>p \<in> set (cq_nodes q). node_str q p \<noteq> []" by (auto simp: find_None_iff)
      let ?entry = "c_strncpy 15 nm @ [0]"
      have reg: "register_event_name nm q = rbind (cq_put (Some ?entry) q) (\<lambda>(ok, q'). Inr (if ok then cq_last q' else 0, q'))"
        using find none(1) loop None by (simp add: register_event_name_def body_def [symmetric])
      show thesis
      proof (cases "length (cq_items q) = cq_cap q")
        case True
        then have "register_event_name nm q = Inr (0, q)" using reg cq_put_node_full [OF w True] by simp
        then show thesis
          using assms(1,2) used none(2) True length_cq_nodes [OF w] by (intro that [of 0 q]) (auto simp: names_full_def)
      next
        case False
        then have room: "length (cq_items q) < cq_cap q" using cq_wf_len [OF w] by simp
        then have "m_q q \<noteq> 0" by (auto simp: cq_cap_def)
        then have sz: "length ?entry = cq_size q" using assms(1) by (simp add: names_ok_def)
        obtain q' where q': "cq_put (Some ?entry) q = Inr (True, q')" "cq_wf q'" "cq_items q' = cq_items q @ [?entry]"
          "cq_nodes q' = cq_nodes q @ [cq_last q']" "cq_last q' \<noteq> 0" "cq_size q' = cq_size q" "cq_cap q' = cq_cap q"
          "m_q q' = m_q q"
          by (rule cq_put_node [OF w sz room])
        have len: "length (cq_nodes q) = length (cq_items q)" by (rule length_cq_nodes [OF w])
        have "node_str q' (cq_last q') = c_str nm"
          using node_str_nth [OF q'(2), of "length (cq_nodes q)"] q'(3,4) len c_strncpy_short [OF assms(4)]
          by (simp add: nth_append)
        moreover have "node_str q' r = node_str q r" if rn: "r \<in> set (cq_nodes q)" for r
        proof -
          obtain j where j: "j < length (cq_nodes q)" "r = cq_nodes q ! j" using rn by (metis in_set_conv_nth)
          then show ?thesis
            using node_str_nth [OF w j(1)] node_str_nth [OF q'(2), of j] q'(3,4) len by (simp add: nth_append)
        qed
        moreover have "names_ok q'"
          using q' assms(1) sz by (auto simp: names_ok_def nth_append)
        moreover have "node_str q' ` set (cq_nodes q') \<subseteq> insert (c_str nm) (insert [] (node_str q ` set (cq_nodes q)))"
          using calculation(1,2) q'(4) by auto
        ultimately show thesis
          using reg q'(1,4,5,7) assms(2) none(2) room len
          by (intro that [of "cq_last q'" q']) (auto simp: names_unique_def names_full_def)
      qed
    qed
  qed
qed

lemma unregister_event_name_spec:
  assumes "names_ok q" "names_unique q" "p \<in> set (cq_nodes q)" "node_str q p \<noteq> []"
  obtains q' where "unregister_event_name p q = Inr (p, q')" "names_ok q'" "names_unique q'"
    "cq_nodes q' = cq_nodes q" "\<forall>r \<in> set (cq_nodes q). node_str q' r = (if r = p then [] else node_str q r)"
    "cq_cap q' = cq_cap q"
proof -
  note w = names_okD(1) [OF assms(1)]
  obtain k where k: "k < length (cq_nodes q)" "p = cq_nodes q ! k" using assms(3) by (metis in_set_conv_nth)
  have "length (cq_items q) = length (cq_nodes q)" using length_cq_nodes [OF w] by simp
  then have b: "length (cq_items q ! k) = 16" "cq_items q ! k ! 15 = 0"
    using names_okD(3,4) [OF assms(1)] k(1) by simp_all
  have le: "0 + length [0 :: u8_t] \<le> 16" by simp
  have z: "overwrite 0 [0] (cq_items q ! k) ! 15 = 0" using b by (simp add: overwrite_def nth_append)
  obtain q' where q': "cq_write (cq_nodes q ! k + of_nat 0) [0] q = Inr q'" "names_ok q'" "cq_nodes q' = cq_nodes q"
    "\<forall>r \<in> set (cq_nodes q). node_str q' r
       = (if r = cq_nodes q ! k then c_str (overwrite 0 [0] (cq_items q ! k)) else node_str q r)"
    "cq_items q' = (cq_items q)[k := overwrite 0 [0] (cq_items q ! k)]" "cq_cap q' = cq_cap q" "m_q q' = m_q q"
    "length (dat q') = length (dat q)"
    by (rule names_write [OF assms(1) k(1) le z])
  have empty: "c_str (overwrite 0 [0] (cq_items q ! k)) = []" by (simp add: overwrite_def c_str_def)
  define body where "body = (\<lambda>peek q. rbind (cq_deref q peek) (\<lambda>s. rbind (cq_deref q p) (\<lambda>e.
                 rbind (strcmp_eq s e) (\<lambda>eq.
                 if eq then rbind (cq_write peek [0] q) (\<lambda>q. Inr (Some peek, q)) else Inr (None, q)))))"
  obtain e where e: "cq_deref q p = Inr e" "0 \<in> set e" "c_str e = node_str q p" "length e = 16"
    by (rule names_deref [OF assms(1,3)])
  have body: "body r q = (if r = p then Inr (Some p, q') else Inr (None, q))" if rn: "r \<in> set (cq_nodes q)" for r
  proof -
    obtain c where c: "cq_deref q r = Inr c" "0 \<in> set c" "c_str c = node_str q r" "length c = 16"
      by (rule names_deref [OF assms(1) rn])
    have "c_str c = c_str e \<longleftrightarrow> r = p"
      using assms(2,3,4) rn c(3) e(3) by (auto simp: names_unique_def)
    then show ?thesis using c e q'(1) k(2) by (simp add: body_def strcmp_eq_def)
  qed
  have "each (length (dat q)) cq_peek_next body (cq_peek q) q
      = (case find (\<lambda>r. r = p) (cq_nodes q) of None \<Rightarrow> Inr (None, q) | Some r \<Rightarrow> Inr (Some p, q'))"
    by (rule fwd.each_search [where v = "\<lambda>z. z"]) (use w names_fuel [OF assms(1)] body in simp_all)
  moreover obtain r where "find (\<lambda>r. r = p) (cq_nodes q) = Some r"
    using assms(3) by (metis (full_types) find_None_iff not_None_eq)
  ultimately have "unregister_event_name p q = Inr (p, q')"
    by (simp add: unregister_event_name_def body_def [symmetric])
  moreover have "names_unique q'"
    using assms(2) q'(3,4) empty k(2) by (auto simp: names_unique_def)
  ultimately show thesis
    using q'(2,3,4,6) empty k(2) by (intro that [of q']) simp_all
qed

text \<open>Counting: the table is full for a new name exactly when its names are as many as its slots.\<close>

definition name_set :: "cqueue \<Rightarrow> u8_t list set" where
  "name_set q = node_str q ` set (cq_nodes q) - {[]}"

lemma names_full_card:
  assumes "names_ok q" "names_unique q" "s \<noteq> []"
  shows "names_full s q \<longleftrightarrow> s \<notin> name_set q \<and> \<not> card (name_set q) < cq_cap q"
proof -
  let ?N = "set (cq_nodes q)" and ?U = "{p \<in> set (cq_nodes q). node_str q p \<noteq> []}"
  note w = names_okD(1) [OF assms(1)]
  have le: "card ?N \<le> cq_cap q" "card ?N = length (cq_nodes q)"
    using distinct_card [OF distinct_cq_nodes [OF w]] length_cq_nodes [OF w] cq_wf_len [OF w] by simp_all
  have "name_set q = node_str q ` ?U" by (auto simp: name_set_def)
  moreover have "inj_on (node_str q) ?U" using assms(2) by (auto simp: inj_on_def names_unique_def)
  ultimately have c: "card (name_set q) = card ?U" by (simp add: card_image)
  have sub: "card ?U \<le> card ?N" by (rule card_mono) auto
  have all: "(\<forall>p \<in> ?N. node_str q p \<noteq> []) \<longleftrightarrow> card ?U = card ?N"
  proof
    assume "card ?U = card ?N"
    then have "?U = ?N" by (intro card_subset_eq) auto
    then show "\<forall>p \<in> ?N. node_str q p \<noteq> []" by auto
  next
    assume "\<forall>p \<in> ?N. node_str q p \<noteq> []"
    then have "?U = ?N" by auto
    then show "card ?U = card ?N" by simp
  qed
  have "s \<notin> name_set q \<longleftrightarrow> (\<forall>p \<in> ?N. node_str q p \<noteq> s)" using assms(3) by (auto simp: name_set_def)
  then show ?thesis
    using all c le sub by (auto simp: names_full_def)
qed

end
