(* ===== verification/GclEventOps.thy ===== *)
theory GclEventOps
  imports GclEventFacts
begin

section \<open>EventEmitter: the operations on registrations\<close>

text \<open>
  \<open>em_ok\<close> is the invariant of an emitter no call is running on, \<open>em_abs\<close> its value: the live
  registrations in order, each with the name of its event. Every operation is shown to
  keep the invariant and to do one list operation on the value.
\<close>

subsection \<open>The listener queue\<close>

definition lists_ok :: "cqueue \<Rightarrow> bool" where
  "lists_ok q \<longleftrightarrow> cq_wf q \<and> (m_q q = 0 \<or> cq_size q = 32)"

definition blocks :: "cqueue \<Rightarrow> event_block list" where
  "blocks q = map eb_dec (cq_items q)"

lemma lists_okD:
  assumes "lists_ok q"
  shows "cq_wf q" "bs \<in> set (cq_items q) \<Longrightarrow> length bs = 32" "cq_nodes q \<noteq> [] \<Longrightarrow> cq_size q = 32"
    "length (cq_nodes q) \<le> length (dat q)"
proof -
  show w: "cq_wf q" using assms by (simp add: lists_ok_def)
  show "bs \<in> set (cq_items q) \<Longrightarrow> length bs = 32"
    using assms cq_items_size [OF w] by (auto simp: lists_ok_def cq_items_def)
  show "cq_nodes q \<noteq> [] \<Longrightarrow> cq_size q = 32" using assms by (auto simp: lists_ok_def cq_nodes_def)
  show "length (cq_nodes q) \<le> length (dat q)" using length_cq_items_dat [OF w] length_cq_nodes [OF w] by simp
qed

lemma length_blocks: "lists_ok q \<Longrightarrow> length (blocks q) = length (cq_nodes q)"
  using length_cq_nodes [of q] by (simp add: blocks_def lists_okD(1))

lemma sint_small_u32:
  assumes "unat (w :: u32_t) < 2 ^ 31"
  shows "nat (sint w) = unat w"
proof -
  have "int (unat w) < int (2 ^ 31)" using assms by (simp only: of_nat_less_iff)
  then have "uint w < 2 ^ 31" by simp
  then have "signed_take_bit 31 (uint w) = uint w"
    by (intro signed_take_bit_int_eq_self) (rule order_trans [OF _ uint_ge_0], simp_all)
  then have "sint w = uint w" by (simp add: sint_uint)
  then show ?thesis by simp
qed

lemma lists_length:
  assumes "lists_ok q"
  obtains len where "cq_length q = Inr len" "nat (sint len) = length (cq_items q)"
proof (rule cq_wf_cases [OF lists_okD(1) [OF assms]])
  assume "m_q q = 0"
  then show thesis by (intro that [of 0]) (simp_all add: cq_length_def cq_items_def)
next
  fix s n h t assume r: "cq_rep q s n h t"
  obtain k where k: "cq_length q = Inr k" "unat k = rlen n h t" by (rule cq_rep_len_word [OF r])
  have "s = 32" using assms cq_repD(1) [OF r] cq_rep_size [OF r] by (simp add: lists_ok_def)
  then have "n * 32 < 2 ^ 32" using cq_repD(8) [OF r] unat_lt_32 [of "q_end (ctl q)"] by simp
  then have "unat k < 2 ^ 31" using k(2) rlen_lt [OF cq_repD(4,5) [OF r]] by simp
  then show thesis using k r by (intro that [of k]) (simp_all add: sint_small_u32 cq_rep_length)
qed

lemma lists_available:
  assumes "lists_ok q"
  obtains av where "cq_available q = Inr av" "av \<le> 0 \<longleftrightarrow> length (cq_items q) = cq_cap q"
proof (rule cq_wf_cases [OF lists_okD(1) [OF assms]])
  assume "m_q q = 0"
  then show thesis by (intro that [of 0]) (simp_all add: cq_available_def cq_items_def cq_cap_def)
next
  fix s n h t assume r: "cq_rep q s n h t"
  obtain k where k: "cq_available q = Inr k" "unat k = n - 1 - rlen n h t" by (rule cq_rep_available_word [OF r])
  have "rlen n h t \<le> n - 1" using rlen_lt [OF cq_repD(4,5) [OF r]] by simp
  then have "k \<le> 0 \<longleftrightarrow> length (cq_items q) = cq_cap q"
    using k(2) r cq_repD(3) [OF r] rlen_lt [OF cq_repD(4,5) [OF r]]
    by (auto simp: cq_rep_views word_le_nat_alt)
  with k(1) show thesis by (rule that)
qed

subsection \<open>Images of event blocks\<close>

lemma length_eb_enc [simp]: "length (eb_enc eb) = 32"
  by (simp add: eb_enc_def)

lemma eb_dec_enc [simp]: "eb_dec (eb_enc eb) = eb"
  by (simp add: eb_enc_def eb_dec_def nth_append)

lemma eb_dec_front: "length bs = 32 \<Longrightarrow> eb_dec (overwrite 0 (take 25 (eb_enc eb)) bs) = eb"
  by (simp add: eb_dec_def overwrite_def eb_enc_def nth_append)

lemma eb_dec_null: "length bs = 32 \<Longrightarrow> eb_dec (overwrite 0 (le_bytes 8 0) bs) = (eb_dec bs)\<lparr>eb_name := 0\<rparr>"
  by (simp add: eb_dec_def overwrite_def nth_append)

lemma lists_write:
  assumes "lists_ok q" "k < length (cq_nodes q)" "length cs \<le> 32"
  obtains q' where "cq_write (cq_nodes q ! k) cs q = Inr q'" "lists_ok q'" "cq_nodes q' = cq_nodes q"
    "cq_items q' = (cq_items q)[k := overwrite 0 cs (cq_items q ! k)]" "cq_cap q' = cq_cap q" "cq_tidx q' = cq_tidx q"
proof -
  note w = lists_okD(1) [OF assms(1)]
  have "cq_nodes q \<noteq> []" using assms(2) by auto
  then have s: "cq_size q = 32" by (rule lists_okD(3) [OF assms(1)])
  have le: "0 + length cs \<le> cq_size q" using assms(3) s by simp
  obtain q' where q': "cq_write (cq_nodes q ! k + of_nat 0) cs q = Inr q'" "cq_wf q'"
    "cq_items q' = (cq_items q)[k := overwrite 0 cs (cq_items q ! k)]" "cq_nodes q' = cq_nodes q"
    "cq_size q' = cq_size q" "cq_cap q' = cq_cap q" "m_q q' = m_q q" "cq_tidx q' = cq_tidx q"
    "length (dat q') = length (dat q)"
    by (rule cq_write_node [OF w assms(2) le])
  then show thesis using s by (intro that [of q']) (simp_all add: lists_ok_def)
qed

subsection \<open>One turn of \<open>emit\<close>\<close>

text \<open>What a turn does to a block and to the state of the caller.\<close>

definition spent :: "event_block \<Rightarrow> event_block" where
  "spent b = (if eb_once b then b\<lparr>eb_name := 0\<rparr> else b)"

definition turn_spec :: "'u listeners \<Rightarrow> ptr \<Rightarrow> event_block \<Rightarrow> 'u \<Rightarrow> event_block \<times> 'u" where
  "turn_spec call name b u =
     (if eb_name b = name
      then (let (b', u') = (if eb_listener b \<noteq> 0 then call (eb_listener b) b u else (b, u)) in (spent b', u'))
      else (b, u))"

fun emit_spec :: "'u listeners \<Rightarrow> ptr \<Rightarrow> event_block list \<Rightarrow> 'u \<Rightarrow> event_block list \<times> 'u" where
  "emit_spec call name [] u = ([], u)"
| "emit_spec call name (b # bs) u =
     (let (b', u') = turn_spec call name b u; (bs', u'') = emit_spec call name bs u' in (b' # bs', u''))"

lemma emit_turn_spec:
  assumes "lists_ok q" "k < length (cq_nodes q)"
  obtains q' where "emit_turn call name (cq_nodes q ! k) (q, u) = Inr (None, q', snd (turn_spec call name (blocks q ! k) u))"
    "lists_ok q'" "cq_nodes q' = cq_nodes q" "cq_cap q' = cq_cap q" "cq_tidx q' = cq_tidx q"
    "blocks q' = (blocks q)[k := fst (turn_spec call name (blocks q ! k) u)]"
proof -
  note w = lists_okD(1) [OF assms(1)]
  have len: "length (cq_items q) = length (cq_nodes q)" using length_cq_nodes [OF w] by simp
  let ?bs = "cq_items q ! k"
  have bs: "length ?bs = 32" "blocks q ! k = eb_dec ?bs" "k < length (cq_items q)"
    using lists_okD(2) [OF assms(1)] assms(2) len by (simp_all add: blocks_def)
  note rd = cq_deref_node [OF w assms(2)]
  show thesis
  proof (cases "eb_name (eb_dec ?bs) = name")
    case False
    moreover have "(blocks q)[k := eb_dec ?bs] = blocks q" by (simp flip: bs(2))
    ultimately show thesis
      using rd assms(1) bs by (intro that [of q]) (simp_all add: emit_turn_def turn_spec_def)
  next
    case True
    obtain b1 u1 where c: "(if eb_listener (eb_dec ?bs) \<noteq> 0 then call (eb_listener (eb_dec ?bs)) (eb_dec ?bs) u else (eb_dec ?bs, u))
        = (b1, u1)" by (cases "if eb_listener (eb_dec ?bs) \<noteq> 0 then call (eb_listener (eb_dec ?bs)) (eb_dec ?bs) u else (eb_dec ?bs, u)")
    let ?w1 = "if eb_listener (eb_dec ?bs) \<noteq> 0 then cq_write (cq_nodes q ! k) (take 25 (eb_enc b1)) q else Inr q"
    obtain q1 where q1: "?w1 = Inr q1" "lists_ok q1" "cq_nodes q1 = cq_nodes q" "cq_cap q1 = cq_cap q"
      "cq_tidx q1 = cq_tidx q" "blocks q1 = (blocks q)[k := b1]"
    proof (cases "eb_listener (eb_dec ?bs) \<noteq> 0")
      case True
      have le: "length (take 25 (eb_enc b1)) \<le> 32" by simp
      obtain q1 where "cq_write (cq_nodes q ! k) (take 25 (eb_enc b1)) q = Inr q1" "lists_ok q1" "cq_nodes q1 = cq_nodes q"
        "cq_items q1 = (cq_items q)[k := overwrite 0 (take 25 (eb_enc b1)) ?bs]" "cq_cap q1 = cq_cap q" "cq_tidx q1 = cq_tidx q"
        by (rule lists_write [OF assms le])
      then show thesis
        using True that [of q1] bs(1) by (simp add: blocks_def map_update eb_dec_front)
    next
      case False
      then have "b1 = blocks q ! k" using c bs(2) by simp
      then show thesis using False that [of q] assms(1) by simp
    qed
    have k1: "k < length (cq_nodes q1)" using assms(2) q1(3) by simp
    have w1: "cq_wf q1" by (rule lists_okD(1) [OF q1(2)])
    have i1: "k < length (cq_items q1)" using length_cq_nodes [OF w1] k1 by simp
    have b1: "eb_dec (cq_items q1 ! k) = b1"
    proof -
      have "map eb_dec (cq_items q1) ! k = b1" using q1(6) bs(3) by (simp add: blocks_def)
      then show ?thesis using i1 by simp
    qed
    let ?w2 = "if eb_once b1 then cq_write (cq_nodes q ! k) (le_bytes 8 0) q1 else Inr q1"
    obtain q2 where q2: "?w2 = Inr q2" "lists_ok q2" "cq_nodes q2 = cq_nodes q" "cq_cap q2 = cq_cap q"
      "cq_tidx q2 = cq_tidx q" "blocks q2 = (blocks q)[k := spent b1]"
    proof (cases "eb_once b1")
      case True
      have le: "length (le_bytes 8 0) \<le> 32" by simp
      obtain q2 where "cq_write (cq_nodes q1 ! k) (le_bytes 8 0) q1 = Inr q2" "lists_ok q2" "cq_nodes q2 = cq_nodes q1"
        "cq_items q2 = (cq_items q1)[k := overwrite 0 (le_bytes 8 0) (cq_items q1 ! k)]" "cq_cap q2 = cq_cap q1" "cq_tidx q2 = cq_tidx q1"
        by (rule lists_write [OF q1(2) k1 le])
      moreover have "blocks q2 = (blocks q1)[k := spent b1]"
        using calculation(4) True b1 lists_okD(2) [OF q1(2)] i1
        by (simp add: blocks_def map_update eb_dec_null spent_def)
      ultimately show thesis using True that [of q2] q1 by simp
    next
      case False
      then show thesis using that [of q1] q1 by (simp add: spent_def)
    qed
    have "emit_turn call name (cq_nodes q ! k) (q, u) = Inr (None, q2, u1)"
      using rd True c q1(1) q2(1) by (auto simp: emit_turn_def split: if_splits)
    moreover have "turn_spec call name (blocks q ! k) u = (spent b1, u1)"
      using True c bs(2) by (simp add: turn_spec_def)
    ultimately show thesis using q2 by (intro that [of q2]) simp_all
  qed
qed

lemma emit_list_spec:
  "lists_ok q \<Longrightarrow> k \<le> length (cq_nodes q) \<Longrightarrow>
   \<exists>q'. each_list (emit_turn call name) (drop k (cq_nodes q)) (q, u)
      = Inr (None, q', snd (emit_spec call name (drop k (blocks q)) u)) \<and> lists_ok q' \<and> cq_nodes q' = cq_nodes q
    \<and> cq_cap q' = cq_cap q \<and> cq_tidx q' = cq_tidx q
    \<and> blocks q' = take k (blocks q) @ fst (emit_spec call name (drop k (blocks q)) u)"
proof (induction "length (cq_nodes q) - k" arbitrary: k q u)
  case 0
  then show ?case using length_blocks [of q] by (intro exI [of _ q]) simp
next
  case (Suc m)
  then have k: "k < length (cq_nodes q)" by simp
  then have kb: "k < length (blocks q)" using length_blocks [OF Suc.prems(1)] by simp
  obtain b u1 where t: "turn_spec call name (blocks q ! k) u = (b, u1)" by (cases "turn_spec call name (blocks q ! k) u")
  obtain q1 where q1: "emit_turn call name (cq_nodes q ! k) (q, u) = Inr (None, q1, snd (turn_spec call name (blocks q ! k) u))"
    "lists_ok q1" "cq_nodes q1 = cq_nodes q" "cq_cap q1 = cq_cap q" "cq_tidx q1 = cq_tidx q"
    "blocks q1 = (blocks q)[k := fst (turn_spec call name (blocks q ! k) u)]"
    by (rule emit_turn_spec [OF Suc.prems(1) k])
  have d: "drop k (cq_nodes q) = cq_nodes q ! k # drop (Suc k) (cq_nodes q)"
    "drop k (blocks q) = blocks q ! k # drop (Suc k) (blocks q)"
    using k kb by (simp_all add: Cons_nth_drop_Suc)
  have b1: "drop (Suc k) (blocks q1) = drop (Suc k) (blocks q)" "take (Suc k) (blocks q1) = take k (blocks q) @ [b]"
    using kb t by (simp_all add: q1(6) take_Suc_conv_app_nth)
  have m: "m = length (cq_nodes q1) - Suc k" "Suc k \<le> length (cq_nodes q1)" using Suc.hyps(2) k q1(3) by simp_all
  obtain q2 where q2: "each_list (emit_turn call name) (drop (Suc k) (cq_nodes q1)) (q1, u1)
      = Inr (None, q2, snd (emit_spec call name (drop (Suc k) (blocks q1)) u1))" "lists_ok q2" "cq_nodes q2 = cq_nodes q1"
    "cq_cap q2 = cq_cap q1" "cq_tidx q2 = cq_tidx q1"
    "blocks q2 = take (Suc k) (blocks q1) @ fst (emit_spec call name (drop (Suc k) (blocks q1)) u1)"
    using Suc.hyps(1) [OF m(1) q1(2) m(2)] by blast
  have "emit_spec call name (drop k (blocks q)) u
      = (b # fst (emit_spec call name (drop (Suc k) (blocks q)) u1), snd (emit_spec call name (drop (Suc k) (blocks q)) u1))"
    by (simp add: d(2) t split: prod.split)
  moreover have "each_list (emit_turn call name) (drop k (cq_nodes q)) (q, u)
      = each_list (emit_turn call name) (drop (Suc k) (cq_nodes q1)) (q1, u1)"
    using q1(1,3) t by (simp add: d(1))
  ultimately show ?case
    using q1 q2 b1 by (intro exI [of _ q2]) simp
qed

lemma emit_each_spec:
  assumes "lists_ok q"
  obtains q' where "each (length (dat q)) (\<lambda>p z. cq_peek_next p (fst z)) (emit_turn call name) (cq_peek q) (q, u)
      = Inr (None, q', snd (emit_spec call name (blocks q) u))" "lists_ok q'"
    "cq_cap q' = cq_cap q" "cq_tidx q' = cq_tidx q" "blocks q' = fst (emit_spec call name (blocks q) u)"
proof -
  have "each (length (dat q)) (\<lambda>p z. cq_peek_next p (fst z)) (emit_turn call name) (cq_peek (fst (q, u))) (q, u)
      = each_list (emit_turn call name) (cq_nodes (fst (q, u))) (q, u)"
  proof (rule fwd.each_nodes [where v = fst and P = "\<lambda>z. lists_ok (fst z)"])
    fix p and z z' :: "cqueue \<times> 'a"
    assume z: "lists_ok (fst z)" "cq_nodes (fst z) = cq_nodes (fst (q, u))" "p \<in> set (cq_nodes (fst (q, u)))"
      "emit_turn call name p z = Inr (None, z')"
    then obtain k where k: "k < length (cq_nodes (fst z))" "p = cq_nodes (fst z) ! k" by (metis in_set_conv_nth)
    obtain q1 where "emit_turn call name (cq_nodes (fst z) ! k) (fst z, snd z)
        = Inr (None, q1, snd (turn_spec call name (blocks (fst z) ! k) (snd z)))"
      "lists_ok q1" "cq_nodes q1 = cq_nodes (fst z)" "cq_cap q1 = cq_cap (fst z)" "cq_tidx q1 = cq_tidx (fst z)"
      "blocks q1 = (blocks (fst z))[k := fst (turn_spec call name (blocks (fst z) ! k) (snd z))]"
      by (rule emit_turn_spec [OF z(1) k(1)])
    then show "cq_wf (fst z') \<and> lists_ok (fst z') \<and> cq_nodes (fst z') = cq_nodes (fst (q, u))"
      using z k(2) lists_okD(1) by auto
  qed (use lists_okD(1,4) [OF assms] assms in simp_all)
  then show thesis
    using emit_list_spec [OF assms, of 0 call name u] that by auto
qed

subsection \<open>Requeueing\<close>

lemma cq_fits_size: "cq_fits q' = cq_fits q \<Longrightarrow> cq_size q' = cq_size q"
  by (metis cq_fits_def length_replicate)

lemma lists_ok_fits: "lists_ok q \<Longrightarrow> cq_wf q' \<Longrightarrow> cq_fits q' = cq_fits q \<Longrightarrow> lists_ok q'"
proof -
  assume q: "lists_ok q" "cq_wf q'" "cq_fits q' = cq_fits q"
  have s: "cq_size q' = cq_size q" by (rule cq_fits_size [OF q(3)])
  have "m_q q' = 0" if "m_q q = 0"
  proof (rule cq_wf_cases [OF q(2)])
    fix sz n h t assume r: "cq_rep q' sz n h t"
    then show ?thesis using that s cq_rep_size [OF r] cq_repD(2) [OF r] by (simp add: cq_size_def)
  qed
  then show ?thesis using q s by (auto simp: lists_ok_def)
qed

lemma requeue_all:
  assumes "lists_ok q"
  obtains q' where "requeue cq_enq cq_deq step (length (cq_items q)) acc q = Inr (snd (sift step (cq_items q) acc), q')"
    "lists_ok q'" "cq_items q' = fst (sift step (cq_items q) acc)" "cq_cap q' = cq_cap q"
proof -
  have "cq_items q = cq_items q @ []" by simp
  from que.requeue_sift [OF lists_okD(1) [OF assms] this, of step acc]
  show thesis using that lists_ok_fits [OF assms] by auto
qed

definition off_keep :: "ptr \<Rightarrow> ptr \<Rightarrow> event_block \<Rightarrow> bool" where
  "off_keep name listener b \<longleftrightarrow> \<not> (eb_name b = name \<and> eb_listener b = listener)"

lemma sift_off:
  "sift (off_step name listener) xs n
     = (filter (\<lambda>bs. off_keep name listener (eb_dec bs)) xs,
        n + length (filter (\<lambda>b. eb_name b = name \<and> eb_listener b \<noteq> listener) (map eb_dec xs)))"
  by (induction xs arbitrary: n) (auto simp: off_step_def off_keep_def Let_def)

lemma sift_live:
  "sift (\<lambda>bs _. (eb_name (eb_dec bs) \<noteq> 0, ())) xs u = (filter (\<lambda>bs. eb_name (eb_dec bs) \<noteq> 0) xs, ())"
  by (induction xs arbitrary: u) auto

subsection \<open>The invariant and the value\<close>

type_synonym entry = "u8_t list \<times> ptr \<times> ptr \<times> bool"

definition live :: "event_block list \<Rightarrow> event_block list" where
  "live bs = filter (\<lambda>b. eb_name b \<noteq> 0) bs"

definition entry_of :: "cqueue \<Rightarrow> event_block \<Rightarrow> entry" where
  "entry_of names b = (node_str names (eb_name b), eb_listener b, eb_data b, eb_once b)"

definition em_abs :: "emitter \<Rightarrow> entry list" where
  "em_abs e = map (entry_of (em_names e)) (live (blocks (em_listeners e)))"

definition named :: "cqueue \<Rightarrow> event_block list \<Rightarrow> bool" where
  "named names bs \<longleftrightarrow> (\<forall>b \<in> set bs. eb_name b \<noteq> 0 \<longrightarrow>
     eb_name b \<in> set (cq_nodes names) \<and> node_str names (eb_name b) \<noteq> [])"

definition em_ok :: "emitter \<Rightarrow> bool" where
  "em_ok e \<longleftrightarrow> rw_free (em_lock e) \<and> names_ok (em_names e) \<and> names_unique (em_names e)
     \<and> lists_ok (em_listeners e) \<and> named (em_names e) (blocks (em_listeners e))"

definition em_events :: "emitter \<Rightarrow> u8_t list set" where
  "em_events e = name_set (em_names e)"

text \<open>An emitter without spent entries and without entries that will be.\<close>

definition em_solid :: "emitter \<Rightarrow> bool" where
  "em_solid e \<longleftrightarrow> (\<forall>b \<in> set (blocks (em_listeners e)). eb_name b \<noteq> 0 \<and> \<not> eb_once b)"

lemma em_okD:
  assumes "em_ok e"
  shows "rw_free (em_lock e)" "names_ok (em_names e)" "names_unique (em_names e)" "lists_ok (em_listeners e)"
    "named (em_names e) (blocks (em_listeners e))"
  using assms by (simp_all add: em_ok_def)

lemma locked_spec:
  assumes "rw_free (em_lock e)" "body (e\<lparr>em_lock := (em_lock e)\<lparr>rw_writer := Some self\<rparr>\<rparr>) = Inr (r, e')"
    "em_lock e' = (em_lock e)\<lparr>rw_writer := Some self\<rparr>"
  shows "locked self body e = Inr (r, e'\<lparr>em_lock := em_lock e\<rparr>)"
proof -
  have "(em_lock e)\<lparr>rw_writer := None\<rparr> = em_lock e" using assms(1) by (simp add: rw_free_def)
  then show ?thesis
    using assms by (simp add: locked_def autolock_write_free autolock_end_writer)
qed

text \<open>The search by name, on the invariant.\<close>

lemma em_find:
  assumes "em_ok e" "0 \<in> set nm" "c_str nm \<noteq> []"
  obtains (unknown) "find_event_name nm (em_names e) = Inr 0" "c_str nm \<notin> em_events e"
      "\<forall>x \<in> set (em_abs e). fst x \<noteq> c_str nm"
  | (known) p where "find_event_name nm (em_names e) = Inr p" "p \<noteq> 0" "p \<in> set (cq_nodes (em_names e))"
      "node_str (em_names e) p = c_str nm" "c_str nm \<in> em_events e"
      "\<forall>r \<in> set (cq_nodes (em_names e)). node_str (em_names e) r = c_str nm \<longrightarrow> r = p"
proof -
  note D = em_okD [OF assms(1)] and w = names_okD(1) [OF em_okD(2) [OF assms(1)]]
  note f = find_event_name_spec [OF D(2) assms(2)]
  show thesis
  proof (rule lookup_ptr_cases [OF w, of "\<lambda>p. node_str (em_names e) p = c_str nm"])
    assume n: "lookup_ptr (\<lambda>p. node_str (em_names e) p = c_str nm) (em_names e) = 0"
      "\<forall>p \<in> set (cq_nodes (em_names e)). node_str (em_names e) p \<noteq> c_str nm"
    show thesis
    proof (rule unknown)
      show "find_event_name nm (em_names e) = Inr 0" using f n(1) by simp
      show "c_str nm \<notin> em_events e" using n(2) by (auto simp: em_events_def name_set_def)
      show "\<forall>x \<in> set (em_abs e). fst x \<noteq> c_str nm"
        using n(2) D(5) by (auto simp: em_abs_def entry_of_def live_def named_def)
    qed
  next
    fix k assume k: "k < length (cq_nodes (em_names e))"
      "lookup_ptr (\<lambda>p. node_str (em_names e) p = c_str nm) (em_names e) = cq_nodes (em_names e) ! k"
      "node_str (em_names e) (cq_nodes (em_names e) ! k) = c_str nm"
      "lookup_ptr (\<lambda>p. node_str (em_names e) p = c_str nm) (em_names e) \<noteq> 0"
    show thesis
    proof (rule known)
      show "find_event_name nm (em_names e) = Inr (cq_nodes (em_names e) ! k)" using f k(2) by simp
      show "\<forall>r \<in> set (cq_nodes (em_names e)). node_str (em_names e) r = c_str nm \<longrightarrow> r = cq_nodes (em_names e) ! k"
        using D(3) k(1,3) assms(3) by (auto simp: names_unique_def)
      have "c_str nm \<in> node_str (em_names e) ` set (cq_nodes (em_names e))"
        using nth_mem [OF k(1)] k(3) by (metis imageI)
      then show "c_str nm \<in> em_events e" using assms(3) by (simp add: em_events_def name_set_def)
    qed (use k in simp_all)
  qed
qed

subsection \<open>off\<close>

lemma entry_name: "fst (entry_of names b) = node_str names (eb_name b)" "fst (snd (entry_of names b)) = eb_listener b"
  by (simp_all add: entry_of_def)

definition off_entry :: "u8_t list \<Rightarrow> ptr \<Rightarrow> entry \<Rightarrow> bool" where
  "off_entry s listener x \<longleftrightarrow> \<not> (fst x = s \<and> fst (snd x) = listener)"

lemma off_abs:
  assumes "named names bs" "p \<noteq> 0" "node_str names p = s"
    "\<forall>r \<in> set (cq_nodes names). node_str names r = s \<longrightarrow> r = p"
  shows "map (entry_of names) (live (filter (off_keep p l) bs))
    = filter (off_entry s l) (map (entry_of names) (live bs))"
proof -
  have "off_keep p l b \<longleftrightarrow> off_entry s l (entry_of names b)" if "b \<in> set (live bs)" for b
    using that assms by (auto simp: off_keep_def off_entry_def entry_name live_def named_def)
  then have "filter (off_keep p l) (live bs) = filter (off_entry s l \<circ> entry_of names) (live bs)"
    by (intro filter_cong) simp_all
  moreover have "live (filter (off_keep p l) bs) = filter (off_keep p l) (live bs)"
    by (simp add: live_def conj_commute)
  ultimately show ?thesis by (simp add: filter_map)
qed

lemma named_mono: "named names bs \<Longrightarrow> set bs' \<subseteq> set bs \<Longrightarrow> named names bs'"
  by (auto simp: named_def)

lemma em_off_spec:
  assumes "em_ok e" "0 \<in> set nm" "c_str nm \<noteq> []"
  obtains e' where "em_off self nm l e = Inr (c_str nm \<in> em_events e, e')" "em_ok e'"
    "em_abs e' = filter (off_entry (c_str nm) l) (em_abs e)"
    "em_events e' = (if c_str nm \<in> fst ` set (em_abs e') then em_events e else em_events e - {c_str nm})"
    "cq_cap (em_names e') = cq_cap (em_names e)" "cq_cap (em_listeners e') = cq_cap (em_listeners e)"
    "em_solid e \<longrightarrow> em_solid e'"
proof -
  note D = em_okD [OF assms(1)]
  let ?L = "(em_lock e)\<lparr>rw_writer := Some self\<rparr>"
  show thesis
  proof (rule em_find [OF assms])
    assume n: "find_event_name nm (em_names e) = Inr 0" "c_str nm \<notin> em_events e"
      "\<forall>x \<in> set (em_abs e). fst x \<noteq> c_str nm"
    have "em_off_body nm l (e\<lparr>em_lock := ?L\<rparr>) = Inr (False, e\<lparr>em_lock := ?L\<rparr>)"
      using n(1) by (simp add: em_off_body_def)
    from locked_spec [where body = "em_off_body nm l", OF D(1) this] have "em_off self nm l e = Inr (False, e)" by (simp add: em_off_def)
    moreover have "filter (off_entry (c_str nm) l) (em_abs e) = em_abs e"
      using n(3) by (auto simp: off_entry_def filter_id_conv)
    ultimately show thesis using n(2) assms(1) by (intro that [of e]) auto
  next
    fix p assume p: "find_event_name nm (em_names e) = Inr p" "p \<noteq> 0" "p \<in> set (cq_nodes (em_names e))"
      "node_str (em_names e) p = c_str nm" "c_str nm \<in> em_events e"
      "\<forall>r \<in> set (cq_nodes (em_names e)). node_str (em_names e) r = c_str nm \<longrightarrow> r = p"
    let ?bs = "blocks (em_listeners e)" and ?s = "c_str nm"
    obtain len where len: "cq_length (em_listeners e) = Inr len" "nat (sint len) = length (cq_items (em_listeners e))"
      by (rule lists_length [OF D(4)])
    obtain ls where ls: "requeue cq_enq cq_deq (off_step p l) (length (cq_items (em_listeners e))) 0 (em_listeners e)
        = Inr (snd (sift (off_step p l) (cq_items (em_listeners e)) 0), ls)"
      "lists_ok ls" "cq_items ls = fst (sift (off_step p l) (cq_items (em_listeners e)) 0)" "cq_cap ls = cq_cap (em_listeners e)"
      by (rule requeue_all [OF D(4)])
    have bls: "blocks ls = filter (off_keep p l) ?bs"
      by (simp add: blocks_def ls(3) sift_off filter_map o_def)
    define left where "left = filter (\<lambda>b. eb_name b = p \<and> eb_listener b \<noteq> l) ?bs"
    have cnt: "snd (sift (off_step p l) (cq_items (em_listeners e)) 0) = length left"
      by (simp add: sift_off left_def blocks_def)
    have body: "em_off_body nm l (e\<lparr>em_lock := ?L\<rparr>)
        = (if left = [] then rbind (unregister_event_name p (em_names e))
             (\<lambda>(_, names). Inr (True, e\<lparr>em_lock := ?L, em_listeners := ls, em_names := names\<rparr>))
           else Inr (True, e\<lparr>em_lock := ?L, em_listeners := ls\<rparr>))"
      using p(1,2) len ls(1) cnt by (simp add: em_off_body_def Let_def)
    have nb: "named (em_names e) (blocks ls)" by (rule named_mono [OF D(5)]) (auto simp: bls)
    have abs: "map (entry_of (em_names e)) (live (blocks ls)) = filter (off_entry ?s l) (em_abs e)"
      unfolding bls em_abs_def by (rule off_abs [OF D(5) p(2,4,6)])
    have left_abs: "?s \<in> fst ` set (filter (off_entry ?s l) (em_abs e)) \<longleftrightarrow> left \<noteq> []"
    proof -
      have "?s \<in> fst ` set (filter (off_entry ?s l) (em_abs e)) \<longleftrightarrow> (\<exists>b \<in> set (live (blocks ls)). node_str (em_names e) (eb_name b) = ?s)"
        unfolding abs [symmetric] by (force simp: entry_name image_iff)
      also have "\<dots> \<longleftrightarrow> (\<exists>b \<in> set ?bs. eb_name b = p \<and> eb_listener b \<noteq> l)"
      proof -
        have key: "node_str (em_names e) (eb_name b) = ?s \<longleftrightarrow> eb_name b = p" if "b \<in> set (live (blocks ls))" for b
        proof
          assume "node_str (em_names e) (eb_name b) = ?s"
          moreover have "eb_name b \<in> set (cq_nodes (em_names e))" using nb that by (simp add: live_def named_def)
          ultimately show "eb_name b = p" using p(6) by blast
        qed (use p(4) in simp)
        have mem: "b \<in> set (live (blocks ls)) \<and> eb_name b = p \<longleftrightarrow> b \<in> set ?bs \<and> eb_name b = p \<and> eb_listener b \<noteq> l" for b
          using p(2) by (auto simp: bls live_def off_keep_def)
        show ?thesis using key mem by blast
      qed
      finally show ?thesis by (auto simp: left_def filter_empty_conv)
    qed
    show thesis
    proof (cases "left = []")
      case False
      then have "em_off_body nm l (e\<lparr>em_lock := ?L\<rparr>) = Inr (True, e\<lparr>em_lock := ?L, em_listeners := ls\<rparr>)"
        using body by simp
      from locked_spec [where body = "em_off_body nm l", OF D(1) this] have o: "em_off self nm l e = Inr (True, e\<lparr>em_listeners := ls\<rparr>)"
        by (simp add: em_off_def)
      show thesis
      proof (rule that)
        show "em_off self nm l e = Inr (?s \<in> em_events e, e\<lparr>em_listeners := ls\<rparr>)" using o p(5) by simp
        show "em_ok (e\<lparr>em_listeners := ls\<rparr>)" using D ls(2) nb by (simp add: em_ok_def)
        show a: "em_abs (e\<lparr>em_listeners := ls\<rparr>) = filter (off_entry ?s l) (em_abs e)" using abs by (simp add: em_abs_def)
        show "em_events (e\<lparr>em_listeners := ls\<rparr>) = (if ?s \<in> fst ` set (em_abs (e\<lparr>em_listeners := ls\<rparr>)) then em_events e else em_events e - {?s})"
          using False left_abs unfolding a by (simp add: em_events_def name_set_def)
      qed (use ls(4) bls in \<open>auto simp: em_solid_def\<close>)
    next
      case True
      have ne: "node_str (em_names e) p \<noteq> []" using p(4) assms(3) by simp
      obtain names where names: "unregister_event_name p (em_names e) = Inr (p, names)" "names_ok names" "names_unique names"
        "cq_nodes names = cq_nodes (em_names e)"
        "\<forall>r \<in> set (cq_nodes (em_names e)). node_str names r = (if r = p then [] else node_str (em_names e) r)"
        "cq_cap names = cq_cap (em_names e)"
        by (rule unregister_event_name_spec [OF D(2,3) p(3) ne])
      let ?e' = "e\<lparr>em_listeners := ls, em_names := names\<rparr>"
      have "em_off_body nm l (e\<lparr>em_lock := ?L\<rparr>) = Inr (True, e\<lparr>em_lock := ?L, em_listeners := ls, em_names := names\<rparr>)"
        using True body names(1) by simp
      from locked_spec [where body = "em_off_body nm l", OF D(1) this] have o: "em_off self nm l e = Inr (True, ?e')"
        by (simp add: em_off_def)
      have np: "eb_name b \<noteq> p" if "b \<in> set (blocks ls)" for b
        using that True by (auto simp: bls left_def off_keep_def filter_empty_conv)
      have same: "entry_of names b = entry_of (em_names e) b" if "b \<in> set (live (blocks ls))" for b
        using that np [of b] nb names(5) by (auto simp: entry_of_def live_def named_def)
      have a: "em_abs ?e' = filter (off_entry ?s l) (em_abs e)"
        using abs same by (simp add: em_abs_def cong: map_cong)
      have ev: "em_events ?e' = em_events e - {?s}"
      proof -
        let ?N = "set (cq_nodes (em_names e))"
        have eq: "node_str names r = (if r = p then [] else node_str (em_names e) r)" if "r \<in> ?N" for r
          using names(5) that by blast
        have ps: "node_str (em_names e) r = ?s \<longleftrightarrow> r = p" if "r \<in> ?N" for r
          using p(4,6) that by blast
        have "em_events ?e' = {node_str (em_names e) r | r. r \<in> ?N \<and> r \<noteq> p \<and> node_str (em_names e) r \<noteq> []}"
          by (auto simp: em_events_def name_set_def names(4) eq split: if_splits)
        also have "\<dots> = em_events e - {?s}"
          using ps by (auto simp: em_events_def name_set_def)
        finally show ?thesis .
      qed
      show thesis
      proof (rule that)
        show "em_off self nm l e = Inr (?s \<in> em_events e, ?e')" using o p(5) by simp
        show "em_ok ?e'" using D ls(2) nb names np by (auto simp: em_ok_def named_def)
        show "em_abs ?e' = filter (off_entry ?s l) (em_abs e)" by (rule a)
        show "em_events ?e' = (if ?s \<in> fst ` set (em_abs ?e') then em_events e else em_events e - {?s})"
          using True left_abs ev unfolding a by simp
      qed (use ls(4) names(6) bls in \<open>auto simp: em_solid_def\<close>)
    qed
  qed
qed

end
