(* ===== verification/GclEventSqueeze.thy ===== *)
theory GclEventSqueeze
  imports GclEventOps
begin

section \<open>EventEmitter: emitting, squeezing and adding\<close>

text \<open>
  \<open>emit\<close> on the registrations; what \<open>__squeez_listeners\<close> leaves, when its pops stay away
  from the first slot; and the four outcomes of \<open>_on\<close>.
\<close>

subsection \<open>emit\<close>

definition run_listener :: "'u listeners \<Rightarrow> event_block \<Rightarrow> 'u \<Rightarrow> 'u" where
  "run_listener call b u = (if eb_listener b \<noteq> 0 then snd (call (eb_listener b) b u) else u)"

definition emit_keep :: "u8_t list \<Rightarrow> entry \<Rightarrow> bool" where
  "emit_keep s x \<longleftrightarrow> \<not> (fst x = s \<and> snd (snd (snd x)))"

definition matching :: "emitter \<Rightarrow> u8_t list \<Rightarrow> event_block list" where
  "matching e s = filter (\<lambda>b. eb_name b \<noteq> 0 \<and> node_str (em_names e) (eb_name b) = s) (blocks (em_listeners e))"

lemma emit_spec_pure:
  assumes "\<And>l b u. fst (call l b u) = b"
  shows "emit_spec call p bs u =
    (map (\<lambda>b. if eb_name b = p then spent b else b) bs,
     fold (run_listener call) (filter (\<lambda>b. eb_name b = p) bs) u)"
proof (induction bs arbitrary: u)
  case (Cons b bs)
  have "turn_spec call p b u = (if eb_name b = p then (spent b, run_listener call b u) else (b, u))"
    using assms [of "eb_listener b" b u]
    by (auto simp: turn_spec_def run_listener_def split: prod.splits)
  then show ?case using Cons by simp
qed simp

lemma emit_live:
  "p \<noteq> 0 \<Longrightarrow> live (map (\<lambda>b. if eb_name b = p then spent b else b) bs)
     = filter (\<lambda>b. \<not> (eb_name b = p \<and> eb_once b)) (live bs)"
  by (induction bs) (auto simp: live_def spent_def)

lemma em_emit_spec:
  assumes "em_ok e" "0 \<in> set nm" "c_str nm \<noteq> []" "\<And>l b u. fst (call l b u) = b"
  obtains e' where "em_emit self call nm u e
      = Inr ((c_str nm \<in> em_events e, fold (run_listener call) (matching e (c_str nm)) u), e')" "em_ok e'"
    "em_abs e' = filter (emit_keep (c_str nm)) (em_abs e)" "em_events e' = em_events e"
    "cq_cap (em_names e') = cq_cap (em_names e)" "cq_cap (em_listeners e') = cq_cap (em_listeners e)"
    "em_solid e \<longrightarrow> em_solid e'"
proof -
  note D = em_okD [OF assms(1)]
  let ?L = "(em_lock e)\<lparr>rw_writer := Some self\<rparr>" and ?s = "c_str nm" and ?bs = "blocks (em_listeners e)"
  note lock = locked_spec [where body = "em_emit_body call nm u", OF D(1)]
  show thesis
  proof (rule em_find [OF assms(1-3)])
    assume n: "find_event_name nm (em_names e) = Inr 0" "?s \<notin> em_events e" "\<forall>x \<in> set (em_abs e). fst x \<noteq> ?s"
    have "em_emit_body call nm u (e\<lparr>em_lock := ?L\<rparr>) = Inr ((False, u), e\<lparr>em_lock := ?L\<rparr>)"
      using n(1) by (simp add: em_emit_body_def)
    from lock [OF this] have "em_emit self call nm u e = Inr ((False, u), e)" by (simp add: em_emit_def)
    moreover have "filter (emit_keep ?s) (em_abs e) = em_abs e"
      using n(3) by (auto simp: emit_keep_def filter_id_conv)
    moreover have "matching e ?s = []"
      using n(3) by (auto simp: matching_def em_abs_def live_def entry_name filter_empty_conv)
    ultimately show thesis using n(2) assms(1) by (intro that [of e]) simp_all
  next
    fix p assume p: "find_event_name nm (em_names e) = Inr p" "p \<noteq> 0" "p \<in> set (cq_nodes (em_names e))"
      "node_str (em_names e) p = ?s" "?s \<in> em_events e"
      "\<forall>r \<in> set (cq_nodes (em_names e)). node_str (em_names e) r = ?s \<longrightarrow> r = p"
    obtain ls where ls: "each (length (dat (em_listeners e))) (\<lambda>p z. cq_peek_next p (fst z)) (emit_turn call p)
        (cq_peek (em_listeners e)) (em_listeners e, u) = Inr (None, ls, snd (emit_spec call p ?bs u))" "lists_ok ls"
      "cq_cap ls = cq_cap (em_listeners e)" "cq_tidx ls = cq_tidx (em_listeners e)" "blocks ls = fst (emit_spec call p ?bs u)"
      by (rule emit_each_spec [OF D(4)])
    note pure = emit_spec_pure [where call = call and p = p and bs = ?bs and u = u, OF assms(4)]
    have key: "eb_name b = p \<longleftrightarrow> eb_name b \<noteq> 0 \<and> node_str (em_names e) (eb_name b) = ?s" if "b \<in> set ?bs" for b
      using that D(5) p(2,4,6) unfolding named_def by blast
    have m: "filter (\<lambda>b. eb_name b = p) ?bs = matching e ?s"
      unfolding matching_def using key by (rule filter_cong [OF refl])
    have "em_emit_body call nm u (e\<lparr>em_lock := ?L\<rparr>)
        = Inr ((True, fold (run_listener call) (matching e ?s) u), e\<lparr>em_lock := ?L, em_listeners := ls\<rparr>)"
      using p(1,2) ls(1) pure m by (simp add: em_emit_body_def)
    from lock [OF this] have o: "em_emit self call nm u e
        = Inr ((True, fold (run_listener call) (matching e ?s) u), e\<lparr>em_listeners := ls\<rparr>)"
      by (simp add: em_emit_def)
    have bls: "blocks ls = map (\<lambda>b. if eb_name b = p then spent b else b) ?bs" using ls(5) pure by simp
    have keep: "\<not> (eb_name b = p \<and> eb_once b) \<longleftrightarrow> emit_keep ?s (entry_of (em_names e) b)" if "b \<in> set (live ?bs)" for b
      using that key [of b] by (auto simp: emit_keep_def entry_of_def live_def)
    have "live (blocks ls) = filter (emit_keep ?s \<circ> entry_of (em_names e)) (live ?bs)"
      unfolding bls emit_live [OF p(2)] by (rule filter_cong [OF refl]) (use keep in simp)
    then have a: "em_abs (e\<lparr>em_listeners := ls\<rparr>) = filter (emit_keep ?s) (em_abs e)"
      by (simp add: em_abs_def filter_map)
    have "named (em_names e) (blocks ls)"
      using D(5) by (auto simp: bls named_def spent_def)
    then have "em_ok (e\<lparr>em_listeners := ls\<rparr>)" using D ls(2) by (simp add: em_ok_def)
    moreover have "em_solid e \<longrightarrow> em_solid (e\<lparr>em_listeners := ls\<rparr>)" by (auto simp: em_solid_def bls spent_def)
    ultimately show thesis
      using o a p(5) ls(3) by (intro that [of "e\<lparr>em_listeners := ls\<rparr>"]) (simp_all add: em_events_def name_set_def)
  qed
qed

subsection \<open>Squeezing\<close>

definition dead :: "u8_t list \<Rightarrow> bool" where
  "dead bs \<longleftrightarrow> eb_name (eb_dec bs) = 0"

lemma cq_rep_peek_deref:
  assumes "cq_rep q s n h t" "h \<noteq> t"
  shows "cq_peek q \<noteq> 0" "cq_deref q (cq_peek q) = Inr (hd (cq_items q))" "cq_items q \<noteq> []"
    "cq_last q \<noteq> 0" "cq_deref q (cq_last q) = Inr (last (cq_items q))"
proof -
  note D = cq_repD [OF assms(1)]
  have ring: "ring n h t \<noteq> []" using D(4,5) assms(2) by simp
  show "cq_peek q \<noteq> 0" using cq_peek_slot [OF assms] cq_slot_nonnull [OF assms(1), of h] D(4) by simp
  show "cq_items q \<noteq> []" using cq_rep_items [OF assms(1)] ring by simp
  show "cq_deref q (cq_peek q) = Inr (hd (cq_items q))"
    using cq_peek_slot [OF assms] cq_deref_slot [OF assms(1) D(4)] cq_rep_items [OF assms(1)] ring_cons [OF D(4,5) assms(2)]
    by simp
  have r: "rpred n t < n" using D(5) by (rule rpred_lt)
  show "cq_last q \<noteq> 0" using cq_last_slot [OF assms] cq_slot_nonnull [OF assms(1), of "rpred n t"] r by simp
  show "cq_deref q (cq_last q) = Inr (last (cq_items q))"
    using cq_last_slot [OF assms] cq_deref_slot [OF assms(1) r] cq_rep_items [OF assms(1)]
      ring_pred_snoc [OF D(4,5) assms(2)] by simp
qed

lemma cq_rep_ends_empty: "cq_rep q s n h h \<Longrightarrow> cq_peek q = 0 \<and> cq_last q = 0 \<and> cq_items q = []"
  by (simp add: cq_peek_def cq_last_def cq_rep_is_empty cq_rep_items)

lemma trim_head_spec:
  "cq_rep q s n h t \<Longrightarrow> length (cq_items q) < k \<Longrightarrow>
   \<exists>q' h'. trim_head k q = Inr q' \<and> cq_rep q' s n h' t \<and> cq_items q' = dropWhile dead (cq_items q)
      \<and> m_q q' = m_q q"
proof (induction k arbitrary: q h)
  case (Suc k)
  show ?case
  proof (cases "h = t")
    case True
    then show ?thesis using Suc.prems(1) cq_rep_ends_empty by (intro exI [of _ q] exI [of _ h]) auto
  next
    case False
    note pk = cq_rep_peek_deref [OF Suc.prems(1) False]
    show ?thesis
    proof (cases "dead (hd (cq_items q))")
      case False
      then have "dropWhile dead (cq_items q) = cq_items q" using pk(3) by (cases "cq_items q") simp_all
      with False pk Suc.prems(1) show ?thesis by (intro exI [of _ q] exI [of _ h]) (simp add: dead_def [symmetric])
    next
      case True
      obtain q1 where q1: "cq_get False q = Inr (True, if False then Some (hd (cq_items q)) else None, q1)"
        "cq_rep q1 s n (rsuc n h) t" "cq_items q1 = tl (cq_items q)" "m_q q1 = m_q q" "dat q1 = dat q"
        by (rule cq_get_rep [OF Suc.prems(1) False])
      have "length (cq_items q1) < k" using Suc.prems(2) pk(3) q1(3) by (cases "cq_items q") simp_all
      from Suc.IH [OF q1(2) this] show ?thesis
        using True pk q1(1,3,4) by (cases "cq_items q") (auto simp: dead_def)
    qed
  qed
qed simp

lemma trim_tail_spec:
  "cq_rep q s n h t \<Longrightarrow> length (cq_items q) < k \<Longrightarrow> length (takeWhile dead (rev (cq_items q))) \<le> t \<or> cq_items q = [] \<Longrightarrow>
   \<exists>q' t'. trim_tail k q = Inr q' \<and> cq_rep q' s n h t' \<and> cq_items q' = rev (dropWhile dead (rev (cq_items q)))"
proof (induction k arbitrary: q t)
  case (Suc k)
  show ?case
  proof (cases "h = t")
    case True
    then show ?thesis using Suc.prems(1) cq_rep_ends_empty by (intro exI [of _ q] exI [of _ t]) auto
  next
    case False
    note pk = cq_rep_peek_deref [OF Suc.prems(1) False]
    have r: "rev (cq_items q) = last (cq_items q) # rev (butlast (cq_items q))"
      using pk(3) by (metis append_butlast_last_id rev_eq_Cons_iff rev_rev_ident)
    show ?thesis
    proof (cases "dead (last (cq_items q))")
      case False
      then have "rev (dropWhile dead (rev (cq_items q))) = cq_items q" using pk(3) by (simp add: r)
      with False pk Suc.prems(1) show ?thesis
        by (intro exI [of _ q] exI [of _ t]) (simp add: dead_def [symmetric])
    next
      case True
      have t: "t \<noteq> 0" using Suc.prems(3) pk(3) True by (simp add: r)
      obtain q1 where q1: "cq_pop False q = Inr (True, if False then Some (last (cq_items q)) else None, q1)"
        "cq_rep q1 s n h (t - 1)" "cq_items q1 = butlast (cq_items q)" "m_q q1 = m_q q"
        by (rule cq_pop_rep [OF Suc.prems(1) False t])
      have "length (cq_items q1) < k" using Suc.prems(2) pk(3) q1(3) by (cases "cq_items q") simp_all
      moreover have "length (takeWhile dead (rev (cq_items q1))) \<le> t - 1 \<or> cq_items q1 = []"
        using Suc.prems(3) pk(3) True by (auto simp: r q1(3))
      ultimately obtain q2 t2 where "trim_tail k q1 = Inr q2" "cq_rep q2 s n h t2"
        "cq_items q2 = rev (dropWhile dead (rev (cq_items q1)))"
        using Suc.IH [OF q1(2)] by blast
      then show ?thesis
        using True pk q1(1,3) by (intro exI [of _ q2] exI [of _ t2]) (simp add: dead_def [symmetric] r)
    qed
  qed
qed simp

lemma takeWhile_rev_dropWhile_eq:
  assumes "dropWhile P xs \<noteq> []"
  shows "takeWhile P (rev (dropWhile P xs)) = takeWhile P (rev xs)"
proof -
  obtain y ys where y: "dropWhile P xs = y # ys" "\<not> P y" using assms by (metis dropWhile_eq_Cons_conv neq_Nil_conv)
  have "rev xs = rev (dropWhile P xs) @ rev (takeWhile P xs)" by (simp flip: rev_append)
  moreover have "takeWhile P (rev (dropWhile P xs) @ zs) = takeWhile P (rev (dropWhile P xs))" for zs
    using y by (intro takeWhile_append1 [where x = y]) simp_all
  ultimately show ?thesis by simp
qed

lemma takeWhile_rev_dropWhile: "length (takeWhile P (rev (dropWhile P xs))) \<le> length (takeWhile P (rev xs))"
  using takeWhile_rev_dropWhile_eq [of P xs] by (cases "dropWhile P xs = []") (simp_all del: dropWhile_eq_Nil_conv)

lemma filter_dropWhile: "filter (\<lambda>x. \<not> P x) (dropWhile P xs) = filter (\<lambda>x. \<not> P x) xs"
  by (induction xs) auto

lemma filter_rev_dropWhile: "filter (\<lambda>x. \<not> P x) (rev (dropWhile P (rev xs))) = filter (\<lambda>x. \<not> P x) xs"
  by (simp add: rev_filter [symmetric] filter_dropWhile)

text \<open>
  The squeeze is safe when its pops keep away from the first slot: when no registration is
  live, or the spent ones at the end are at most as many as the slots below the tail.
\<close>

definition squeeze_safe :: "cqueue \<Rightarrow> bool" where
  "squeeze_safe q \<longleftrightarrow> live (blocks q) = [] \<or> length (takeWhile (\<lambda>b. eb_name b = 0) (rev (blocks q))) \<le> cq_tidx q"

lemma squeez_listeners_spec:
  assumes "lists_ok q" "squeeze_safe q"
  obtains q' where "squeez_listeners q = Inr q'" "lists_ok q'"
    "cq_items q' = filter (\<lambda>bs. \<not> dead bs) (cq_items q)" "cq_cap q' = cq_cap q"
proof (rule cq_wf_cases [OF lists_okD(1) [OF assms(1)]])
  assume z: "m_q q = 0"
  then have "squeez_listeners q = Inr q"
    by (simp add: squeez_listeners_def cq_peek_def cq_last_def cq_is_empty_def cq_length_def)
  then show thesis using assms(1) z by (intro that [of q]) (simp_all add: cq_items_def)
next
  fix s n h t assume r: "cq_rep q s n h t"
  have s: "s = 32" using assms(1) cq_repD(1) [OF r] cq_rep_size [OF r] by (simp add: lists_ok_def)
  have k: "length (cq_items q) < Suc (length (dat q))" using length_cq_items_dat [OF cq_rep_wf [OF r]] by simp
  obtain q1 h1 where q1: "trim_head (Suc (length (dat q))) q = Inr q1" "cq_rep q1 s n h1 t"
    "cq_items q1 = dropWhile dead (cq_items q)"
    using trim_head_spec [OF r k] by blast
  have lv: "live (blocks q) = map eb_dec (filter (\<lambda>bs. \<not> dead bs) (cq_items q))"
    by (simp add: live_def blocks_def filter_map o_def dead_def)
  have tk: "length (takeWhile (\<lambda>b. eb_name b = 0) (rev (blocks q))) = length (takeWhile dead (rev (cq_items q)))"
    by (simp add: blocks_def rev_map takeWhile_map o_def dead_def [abs_def])
  have safe: "length (takeWhile dead (rev (cq_items q1))) \<le> t \<or> cq_items q1 = []"
  proof (cases "live (blocks q) = []")
    case True
    then have "cq_items q1 = []" using lv by (auto simp: q1(3) filter_empty_conv)
    then show ?thesis ..
  next
    case False
    then have "length (takeWhile dead (rev (cq_items q))) \<le> t"
      using assms(2) tk cq_rep_tidx [OF r] by (simp add: squeeze_safe_def)
    then show ?thesis
      using takeWhile_rev_dropWhile [of dead "cq_items q"] by (simp add: q1(3) del: length_takeWhile_le)
  qed
  have k1: "length (cq_items q1) < Suc (length (dat q1))" using length_cq_items_dat [OF cq_rep_wf [OF q1(2)]] by simp
  obtain q2 t2 where q2: "trim_tail (Suc (length (dat q1))) q1 = Inr q2" "cq_rep q2 s n h1 t2"
    "cq_items q2 = rev (dropWhile dead (rev (cq_items q1)))"
    using trim_tail_spec [OF q1(2) k1 safe] by blast
  have ok2: "lists_ok q2" using cq_rep_wf [OF q2(2)] cq_rep_size [OF q2(2)] s by (simp add: lists_ok_def)
  obtain len where len: "cq_length q2 = Inr len" "nat (sint len) = length (cq_items q2)" by (rule lists_length [OF ok2])
  obtain q3 where q3: "requeue cq_enq cq_deq (\<lambda>bs _. (eb_name (eb_dec bs) \<noteq> 0, ())) (length (cq_items q2)) () q2
      = Inr (snd (sift (\<lambda>bs _. (eb_name (eb_dec bs) \<noteq> 0, ())) (cq_items q2) ()), q3)" "lists_ok q3"
    "cq_items q3 = fst (sift (\<lambda>bs _. (eb_name (eb_dec bs) \<noteq> 0, ())) (cq_items q2) ())" "cq_cap q3 = cq_cap q2"
    by (rule requeue_all [OF ok2])
  have "filter (\<lambda>bs. \<not> dead bs) (cq_items q2) = filter (\<lambda>bs. \<not> dead bs) (cq_items q)"
    by (simp only: q2(3) q1(3) filter_rev_dropWhile filter_dropWhile)
  moreover have "cq_items q3 = filter (\<lambda>bs. \<not> dead bs) (cq_items q2)"
    using q3(3) unfolding sift_live by (simp add: dead_def [abs_def])
  moreover have "squeez_listeners q = Inr q3"
    using q1(1) q2(1) len q3(1) by (simp add: squeez_listeners_def)
  ultimately show thesis
    using q3(2,4) cq_rep_cap [OF q2(2)] cq_rep_cap [OF r] by (intro that [of q3]) simp_all
qed

text \<open>Otherwise the pops step the tail below the first slot, and the next look at the last item is outside the block.\<close>

lemma trim_tail_fault:
  "cq_rep q 32 n h t \<Longrightarrow> n < 2 ^ 26 \<Longrightarrow> unat (m_q q) + 2 ^ 32 < 2 ^ 64 \<Longrightarrow> length (cq_items q) < k \<Longrightarrow>
   t < length (takeWhile dead (rev (cq_items q))) \<Longrightarrow> \<exists>x \<in> set (cq_items q). \<not> dead x \<Longrightarrow>
   trim_tail k q = Inl OutOfBounds"
proof (induction k arbitrary: q t)
  case (Suc k)
  note D = cq_repD [OF Suc.prems(1)]
  have ne: "cq_items q \<noteq> []" using Suc.prems(6) by auto
  then have ht: "h \<noteq> t" using cq_rep_ends_empty [of q 32 n h] Suc.prems(1) by auto
  note pk = cq_rep_peek_deref [OF Suc.prems(1) ht]
  have r: "rev (cq_items q) = last (cq_items q) # rev (butlast (cq_items q))"
    using ne by (metis append_butlast_last_id rev_eq_Cons_iff rev_rev_ident)
  have d: "dead (last (cq_items q))" using Suc.prems(5) by (auto simp: r split: if_splits)
  obtain m where m: "length (cq_items q) = Suc (Suc m)"
  proof (cases "butlast (cq_items q)")
    case Nil
    then have "cq_items q = [last (cq_items q)]" using ne by (metis append_butlast_last_id append_Nil)
    then have "\<not> dead (last (cq_items q))" using Suc.prems(6) by (metis empty_iff set_ConsD set_empty)
    with d show ?thesis by simp
  next
    case (Cons a as)
    then have "length (butlast (cq_items q)) = Suc (length as)" by simp
    then show ?thesis by (intro that [of "length as"]) simp
  qed
  show ?case
  proof (cases "t = 0")
    case True
    let ?q1 = "cq_set_tail (q_tail (ctl q) - q_item_size (ctl q)) q"
    have w: "q_tail (ctl q) = 20" "q_item_size (ctl q) = 32" "q_begin (ctl q) = 20"
      using D True by (simp_all add: word_eq_unat)
    have hd: "q_head (ctl q) \<noteq> 20" "q_head (ctl q) \<noteq> 20 - 32"
      using D(4,9) ht True Suc.prems(2) by (auto simp: word_eq_unat)
    have pop: "cq_pop False q = Inr (True, None, ?q1)"
      using D(1) hd w by (simp add: cq_pop_def)
    have off: "unat (m_q q + ucast (20 - 64 :: u32_t)) = unat (m_q q) + 4294967252"
      using Suc.prems(3) by (subst unat_add_nowrap) simp_all
    have last1: "cq_last ?q1 = m_q q + ucast (20 - 64 :: u32_t)"
      using D(1) hd w by (simp add: cq_last_def cq_is_empty_def cq_ptr_def Let_def)
    have diff: "unat (m_q q + ucast (20 - 64 :: u32_t) - m_q q) = 4294967252" by simp
    have "cq_deref ?q1 (cq_last ?q1) = Inl OutOfBounds"
      using off D(11) Suc.prems(2) diff w unfolding last1
      by (simp add: cq_deref_def cq_load_def word_eq_unat)
    moreover have "cq_last ?q1 \<noteq> 0" using off unfolding last1 by (auto simp: word_eq_unat)
    moreover obtain j where "k = Suc j" using Suc.prems(4) m by (cases k) auto
    ultimately show ?thesis using pk d pop by (simp add: dead_def)
  next
    case False
    obtain q1 where q1: "cq_pop False q = Inr (True, if False then Some (last (cq_items q)) else None, q1)"
      "cq_rep q1 32 n h (t - 1)" "cq_items q1 = butlast (cq_items q)" "m_q q1 = m_q q"
      by (rule cq_pop_rep [OF Suc.prems(1) ht False])
    have "\<exists>x \<in> set (cq_items q1). \<not> dead x"
      using Suc.prems(6) d ne by (metis append_butlast_last_id q1(3) rotate1.simps(2) set_ConsD set_rotate1)
    moreover have "t - 1 < length (takeWhile dead (rev (cq_items q1)))"
      using Suc.prems(5) d False by (simp add: r q1(3))
    moreover have "length (cq_items q1) < k" using Suc.prems(4) m q1(3) by simp
    ultimately have "trim_tail k q1 = Inl OutOfBounds"
      using Suc.IH [OF q1(2)] Suc.prems(2,3) q1(4) by simp
    then show ?thesis using pk d q1(1) by (simp add: dead_def)
  qed
qed simp

lemma squeez_listeners_fault:
  assumes "lists_ok q" "\<not> squeeze_safe q" "cq_cap q < 2 ^ 25" "unat (m_q q) + 2 ^ 32 < 2 ^ 64"
  shows "squeez_listeners q = Inl OutOfBounds"
proof (rule cq_wf_cases [OF lists_okD(1) [OF assms(1)]])
  assume "m_q q = 0"
  then show ?thesis using assms(2) by (simp add: squeeze_safe_def live_def blocks_def cq_items_def)
next
  fix s n h t assume r: "cq_rep q s n h t"
  have s: "s = 32" using assms(1) cq_repD(1) [OF r] cq_rep_size [OF r] by (simp add: lists_ok_def)
  have k: "length (cq_items q) < Suc (length (dat q))" using length_cq_items_dat [OF cq_rep_wf [OF r]] by simp
  obtain q1 h1 where q1: "trim_head (Suc (length (dat q))) q = Inr q1" "cq_rep q1 s n h1 t"
    "cq_items q1 = dropWhile dead (cq_items q)" "m_q q1 = m_q q"
    using trim_head_spec [OF r k] by blast
  have "live (blocks q) \<noteq> []" "cq_tidx q < length (takeWhile (\<lambda>b. eb_name b = 0) (rev (blocks q)))"
    using assms(2) by (auto simp: squeeze_safe_def)
  then have l: "\<exists>x \<in> set (cq_items q). \<not> dead x" "t < length (takeWhile dead (rev (cq_items q)))"
    using cq_rep_tidx [OF r]
    by (auto simp: live_def blocks_def filter_empty_conv dead_def rev_map takeWhile_map o_def dead_def [abs_def])
  then have ne: "dropWhile dead (cq_items q) \<noteq> []" by simp
  have "\<exists>x \<in> set (cq_items q1). \<not> dead x" using ne q1(3) by (metis hd_dropWhile list.set_sel(1))
  moreover have "t < length (takeWhile dead (rev (cq_items q1)))"
    using l(2) takeWhile_rev_dropWhile_eq [OF ne] q1(3) by simp
  moreover have "length (cq_items q1) < Suc (length (dat q1))" using length_cq_items_dat [OF cq_rep_wf [OF q1(2)]] by simp
  moreover have "n < 2 ^ 26" using assms(3) cq_rep_cap [OF r] by simp
  ultimately have "trim_tail (Suc (length (dat q1))) q1 = Inl OutOfBounds"
    using q1(2,4) assms(4) s by (intro trim_tail_fault) simp_all
  then show ?thesis using q1(1) by (simp add: squeez_listeners_def)
qed

subsection \<open>\<open>_on\<close>\<close>

lemma live_filter: "live (filter (\<lambda>b. eb_name b \<noteq> 0) bs) = live bs"
  by (simp add: live_def)

lemma blocks_filter: "cq_items q' = filter (\<lambda>bs. \<not> dead bs) (cq_items q) \<Longrightarrow> blocks q' = live (blocks q)"
  by (simp add: blocks_def live_def filter_map o_def dead_def)

lemma lists_put:
  assumes "lists_ok q" "length (cq_items q) < cq_cap q"
  obtains q' where "cq_put (Some (eb_enc eb)) q = Inr (True, q')" "lists_ok q'" "blocks q' = blocks q @ [eb]" "cq_cap q' = cq_cap q"
proof -
  have "m_q q \<noteq> 0" using assms(2) by (auto simp: cq_cap_def)
  then have s: "cq_size q = 32" using assms(1) by (simp add: lists_ok_def)
  then have l: "length (eb_enc eb) = cq_size q" by simp
  obtain q' where "cq_put (Some (eb_enc eb)) q = Inr (True, q')" "cq_wf q'" "cq_items q' = cq_items q @ [eb_enc eb]"
    "cq_nodes q' = cq_nodes q @ [cq_last q']" "cq_last q' \<noteq> 0" "cq_size q' = cq_size q" "cq_cap q' = cq_cap q" "m_q q' = m_q q"
    by (rule cq_put_node [OF lists_okD(1) [OF assms(1)] l assms(2)])
  then show thesis using s by (intro that [of q']) (simp_all add: lists_ok_def blocks_def)
qed

lemma length_em_abs: "lists_ok (em_listeners e) \<Longrightarrow> length (em_abs e) \<le> length (cq_items (em_listeners e))"
  using length_filter_le [of "\<lambda>b. eb_name b \<noteq> 0" "blocks (em_listeners e)"]
  by (simp add: em_abs_def live_def blocks_def)

text \<open>Making room: the queue after the two lines of \<open>_on\<close> that may call the squeeze.\<close>

lemma make_room:
  assumes "lists_ok q" "length (cq_items q) < cq_cap q \<or> squeeze_safe q"
  obtains q' av where "rbind (cq_available q) (\<lambda>av. if av \<le> 0 then squeez_listeners q else Inr q) = Inr q'"
    "lists_ok q'" "live (blocks q') = live (blocks q)" "set (blocks q') \<subseteq> set (blocks q)" "cq_cap q' = cq_cap q"
    "cq_available q' = Inr av" "av \<le> 0 \<longleftrightarrow> length (live (blocks q)) = cq_cap q"
    "\<not> av \<le> 0 \<longrightarrow> length (cq_items q') < cq_cap q'"
proof -
  obtain a where a: "cq_available q = Inr a" "a \<le> 0 \<longleftrightarrow> length (cq_items q) = cq_cap q" by (rule lists_available [OF assms(1)])
  have le: "length (cq_items q) \<le> cq_cap q" by (rule cq_wf_len [OF lists_okD(1) [OF assms(1)]])
  have ll: "length (live (blocks q)) \<le> length (cq_items q)"
    using length_filter_le [of "\<lambda>b. eb_name b \<noteq> 0" "blocks q"] by (simp add: live_def blocks_def)
  show thesis
  proof (cases "length (cq_items q) = cq_cap q")
    case False
    then show thesis using a assms(1) le ll by (intro that [of q a]) simp_all
  next
    case True
    then have "squeeze_safe q" using assms(2) by simp
    then obtain q' where q': "squeez_listeners q = Inr q'" "lists_ok q'"
      "cq_items q' = filter (\<lambda>bs. \<not> dead bs) (cq_items q)" "cq_cap q' = cq_cap q"
      by (rule squeez_listeners_spec [OF assms(1)])
    note b = blocks_filter [OF q'(3)]
    obtain av where av: "cq_available q' = Inr av" "av \<le> 0 \<longleftrightarrow> length (cq_items q') = cq_cap q'"
      by (rule lists_available [OF q'(2)])
    have len: "length (cq_items q') = length (live (blocks q))" using b by (metis blocks_def length_map)
    have le': "length (cq_items q') \<le> cq_cap q'" by (rule cq_wf_len [OF lists_okD(1) [OF q'(2)]])
    show thesis
      using a True q' av b len le'
      by (intro that [of q' av]) (auto simp: live_filter [folded live_def] live_def)
  qed
qed

definition names_room :: "u8_t list \<Rightarrow> emitter \<Rightarrow> bool" where
  "names_room s e \<longleftrightarrow> \<not> names_full s (em_names e)"

lemma insert_between:
  "s \<in> B \<Longrightarrow> A - {n} \<subseteq> B \<Longrightarrow> B \<subseteq> insert s (insert n A) \<Longrightarrow> s \<noteq> n \<Longrightarrow> B - {n} = insert s (A - {n})"
  by blast

lemma em_add_spec:
  assumes "em_ok e" "0 \<in> set nm" "c_str nm \<noteq> []" "length (c_str nm) \<le> 15"
    and "length (cq_items (em_listeners e)) < cq_cap (em_listeners e) \<or> squeeze_safe (em_listeners e)"
  obtains ok e' where "em_add self nm l d once e = Inr (ok, e')" "em_ok e'"
    "ok \<longleftrightarrow> names_room (c_str nm) e \<and> length (em_abs e) < cq_cap (em_listeners e)"
    "em_abs e' = (if ok then em_abs e @ [(c_str nm, l, d, once)] else em_abs e)"
    "em_events e' = (if names_room (c_str nm) e then insert (c_str nm) (em_events e) else em_events e)"
    "cq_cap (em_names e') = cq_cap (em_names e)" "cq_cap (em_listeners e') = cq_cap (em_listeners e)"
    "em_solid e \<and> \<not> once \<longrightarrow> em_solid e'"
proof -
  note D = em_okD [OF assms(1)]
  let ?L = "(em_lock e)\<lparr>rw_writer := Some self\<rparr>" and ?s = "c_str nm" and ?q = "em_listeners e"
  note lock = locked_spec [where body = "em_on_body nm l d once", OF D(1)]
  have add: "em_add self nm l d once e = locked self (em_on_body nm l d once) e"
    using assms(2,4) by (simp add: em_add_def c_strlen_0)
  obtain p names where reg: "register_event_name nm (em_names e) = Inr (p, names)" "names_ok names" "names_unique names"
    "p \<noteq> 0 \<longrightarrow> p \<in> set (cq_nodes names) \<and> node_str names p = ?s"
    "\<forall>r \<in> set (cq_nodes (em_names e)). node_str (em_names e) r \<noteq> [] \<longrightarrow>
        r \<in> set (cq_nodes names) \<and> node_str names r = node_str (em_names e) r"
    "p = 0 \<longleftrightarrow> names_full ?s (em_names e)" "p = 0 \<longrightarrow> names = em_names e" "cq_cap names = cq_cap (em_names e)"
    "node_str names ` set (cq_nodes names) \<subseteq> insert ?s (insert [] (node_str (em_names e) ` set (cq_nodes (em_names e))))"
    by (rule register_event_name_spec [OF D(2,3) assms(2,4,3)])
  have nb: "named names bs" if "set bs \<subseteq> set (blocks ?q)" for bs
    unfolding named_def
  proof (intro ballI impI)
    fix b assume b: "b \<in> set bs" "eb_name b \<noteq> 0"
    then have "eb_name b \<in> set (cq_nodes (em_names e)) \<and> node_str (em_names e) (eb_name b) \<noteq> []"
      using that D(5) by (auto simp: named_def)
    then show "eb_name b \<in> set (cq_nodes names) \<and> node_str names (eb_name b) \<noteq> []"
      using bspec [OF reg(5), of "eb_name b"] by simp
  qed
  have entry: "entry_of names b = entry_of (em_names e) b" if "b \<in> set (live (blocks ?q))" for b
  proof -
    have "eb_name b \<in> set (cq_nodes (em_names e)) \<and> node_str (em_names e) (eb_name b) \<noteq> []"
      using that D(5) by (simp add: live_def named_def)
    then have "node_str names (eb_name b) = node_str (em_names e) (eb_name b)"
      using bspec [OF reg(5), of "eb_name b"] by simp
    then show ?thesis by (simp add: entry_of_def)
  qed
  have abs0: "map (entry_of names) (live (blocks ?q)) = em_abs e"
    unfolding em_abs_def by (rule map_cong [OF refl entry])
  have lab: "length (em_abs e) = length (live (blocks ?q))" by (simp add: em_abs_def)
  show thesis
  proof (cases "p = 0")
    case True
    have "em_on_body nm l d once (e\<lparr>em_lock := ?L\<rparr>) = Inr (False, e\<lparr>em_lock := ?L, em_names := names\<rparr>)"
      using reg(1) True by (simp add: em_on_body_def)
    from lock [OF this] have "em_add self nm l d once e = Inr (False, e\<lparr>em_names := names\<rparr>)" by (simp add: add)
    then show thesis
      using True reg(6,7) assms(1) by (intro that [of False e]) (simp_all add: names_room_def)
  next
    case False
    obtain ls av where ls: "rbind (cq_available ?q) (\<lambda>av. if av \<le> 0 then squeez_listeners ?q else Inr ?q) = Inr ls"
      "lists_ok ls" "live (blocks ls) = live (blocks ?q)" "set (blocks ls) \<subseteq> set (blocks ?q)" "cq_cap ls = cq_cap ?q"
      "cq_available ls = Inr av" "av \<le> 0 \<longleftrightarrow> length (live (blocks ?q)) = cq_cap ?q"
      "\<not> av \<le> 0 \<longrightarrow> length (cq_items ls) < cq_cap ls"
      by (rule make_room [OF D(4) assms(5)])
    have le: "length (live (blocks ?q)) \<le> cq_cap ?q"
      using length_em_abs [OF D(4)] cq_wf_len [OF lists_okD(1) [OF D(4)]] lab by simp
    obtain a where a: "cq_available ?q = Inr a" by (rule lists_available [OF D(4)])
    let ?eb = "\<lparr>eb_name = p, eb_listener = l, eb_data = d, eb_once = once\<rparr>"
    have body: "em_on_body nm l d once (e\<lparr>em_lock := ?L\<rparr>)
        = (if av \<le> 0 then Inr (False, e\<lparr>em_lock := ?L, em_names := names, em_listeners := ls\<rparr>)
           else rbind (cq_put (Some (eb_enc ?eb)) ls)
             (\<lambda>(ok, ls). Inr (ok, e\<lparr>em_lock := ?L, em_names := names, em_listeners := ls\<rparr>)))"
      using reg(1) False ls(1,6) a by (cases "a = 0") (simp_all add: em_on_body_def Let_def)
    have ev: "em_events (e\<lparr>em_names := names, em_listeners := x\<rparr>)
        = (if names_room ?s e then insert ?s (em_events e) else em_events e)" for x
    proof -
      have "?s \<in> node_str names ` set (cq_nodes names)" using reg(4) False by (metis imageI)
      moreover have "node_str (em_names e) ` set (cq_nodes (em_names e)) - {[]} \<subseteq> node_str names ` set (cq_nodes names)"
      proof (rule subsetI)
        fix y assume "y \<in> node_str (em_names e) ` set (cq_nodes (em_names e)) - {[]}"
        then obtain r where r: "r \<in> set (cq_nodes (em_names e))" "y = node_str (em_names e) r" "node_str (em_names e) r \<noteq> []"
          by blast
        then have "r \<in> set (cq_nodes names) \<and> node_str names r = y" using bspec [OF reg(5) r(1)] by simp
        then show "y \<in> node_str names ` set (cq_nodes names)" by blast
      qed
      ultimately have "node_str names ` set (cq_nodes names) - {[]}
          = insert ?s (node_str (em_names e) ` set (cq_nodes (em_names e)) - {[]})"
        using reg(9) assms(3) by (intro insert_between)
      then show ?thesis
        using False reg(6) by (simp add: em_events_def name_set_def names_room_def)
    qed
    show thesis
    proof (cases "av \<le> 0")
      case True
      then have "em_on_body nm l d once (e\<lparr>em_lock := ?L\<rparr>) = Inr (False, e\<lparr>em_lock := ?L, em_names := names, em_listeners := ls\<rparr>)"
        using body by simp
      from lock [OF this] have o: "em_add self nm l d once e = Inr (False, e\<lparr>em_names := names, em_listeners := ls\<rparr>)"
        by (simp add: add)
      show thesis
      proof (rule that [OF o])
        show "em_ok (e\<lparr>em_names := names, em_listeners := ls\<rparr>)" using D reg(2,3) ls(2) nb [OF ls(4)] by (simp add: em_ok_def)
        show "False \<longleftrightarrow> names_room ?s e \<and> length (em_abs e) < cq_cap ?q" using True ls(7) lab by simp
        show "em_abs (e\<lparr>em_names := names, em_listeners := ls\<rparr>) = (if False then em_abs e @ [(?s, l, d, once)] else em_abs e)"
          using abs0 by (simp add: em_abs_def ls(3))
      qed (use ev reg(8) ls(4,5) in \<open>auto simp: em_solid_def\<close>)
    next
      case av: False
      then have room: "length (cq_items ls) < cq_cap ls" using ls(8) by simp
      obtain ls' where ls': "cq_put (Some (eb_enc ?eb)) ls = Inr (True, ls')" "lists_ok ls'" "blocks ls' = blocks ls @ [?eb]"
        "cq_cap ls' = cq_cap ls"
        by (rule lists_put [OF ls(2) room])
      have "em_on_body nm l d once (e\<lparr>em_lock := ?L\<rparr>) = Inr (True, e\<lparr>em_lock := ?L, em_names := names, em_listeners := ls'\<rparr>)"
        using body av ls'(1) by simp
      from lock [OF this] have o: "em_add self nm l d once e = Inr (True, e\<lparr>em_names := names, em_listeners := ls'\<rparr>)"
        by (simp add: add)
      show thesis
      proof (rule that [OF o])
        show "em_ok (e\<lparr>em_names := names, em_listeners := ls'\<rparr>)"
          using D reg(2,3,4) ls'(2,3) nb [OF ls(4)] False assms(3) by (auto simp: em_ok_def named_def)
        show "True \<longleftrightarrow> names_room ?s e \<and> length (em_abs e) < cq_cap ?q"
          using av ls(7) lab le False reg(6) by (simp add: names_room_def)
        have "live (blocks ls @ [?eb]) = live (blocks ?q) @ [?eb]" using False ls(3) by (simp add: live_def)
        then show "em_abs (e\<lparr>em_names := names, em_listeners := ls'\<rparr>) = (if True then em_abs e @ [(?s, l, d, once)] else em_abs e)"
          using abs0 False reg(4) by (simp add: em_abs_def ls'(3) entry_of_def [of _ ?eb])
      qed (use ev reg(8) ls(4,5) ls'(3,4) False in \<open>auto simp: em_solid_def\<close>)
    qed
  qed
qed

end
