(* ===== verification/GclEventRun.thy ===== *)
theory GclEventRun
  imports GclEventSqueeze
begin

section \<open>EventEmitter: construction, the failing squeeze, and whole runs\<close>

text \<open>
  The constructor establishes the invariant; an unsafe squeeze ends \<open>_on\<close> outside the block.
  The abstract emitter \<open>aem\<close> is a set of event names and a list of registrations under two
  capacities, and a run of calls on the implementation is compared with it.
\<close>

lemma rw_new_free [simp]: "rw_free rw_new"
  by (simp add: rw_free_def rw_new_def)

lemma em_new_spec:
  assumes "mn \<noteq> 0" "ml \<noteq> 0" "unat mn < 2 ^ 27" "unat ml < 2 ^ 26"
    and "a \<noteq> 0" "b \<noteq> 0" "unat a + 2 ^ 32 < 2 ^ 64" "unat b + 2 ^ 32 < 2 ^ 64"
  obtains e heap' where "em_new mn ml (a, ja) (b, jb) heap = Inr (e, heap')" "em_ok e" "em_abs e = []" "em_events e = {}"
    "cq_cap (em_names e) = unat mn" "cq_cap (em_listeners e) = unat ml" "em_solid e"
proof -
  have new: "m_q cq_new = 0" by (simp add: cq_new_def)
  have i: "(16 :: u32_t) \<noteq> 0" "(32 :: u32_t) \<noteq> 0" by simp_all
  have f1: "20 + (unat mn + 1) * unat (16 :: u32_t) < 2 ^ 32" and f2: "20 + (unat ml + 1) * unat (32 :: u32_t) < 2 ^ 32"
    using assms(3,4) by simp_all
  have g1: "unat a + (20 + (unat mn + 1) * unat (16 :: u32_t)) < 2 ^ 64"
    and g2: "unat b + (20 + (unat ml + 1) * unat (32 :: u32_t)) < 2 ^ 64"
    using assms(3,4,7,8) by simp_all
  obtain q1 where q1: "cq_init mn 16 (a, ja) cq_new heap = Inr (True, q1, insert a heap)"
    "cq_rep q1 (unat (16 :: u32_t)) (unat mn + 1) 0 0" "m_q q1 = a"
    by (rule cq_rep_init [OF new assms(1) i(1) f1 assms(5) g1])
  obtain q2 where q2: "cq_init ml 32 (b, jb) cq_new (insert a heap) = Inr (True, q2, insert b (insert a heap))"
    "cq_rep q2 (unat (32 :: u32_t)) (unat ml + 1) 0 0" "m_q q2 = b"
    by (rule cq_rep_init [OF new assms(2) i(2) f2 assms(6) g2])
  note v1 = cq_rep_wf [OF q1(2)] cq_rep_size [OF q1(2)] cq_rep_items [OF q1(2)] cq_rep_cap [OF q1(2)] cq_rep_nodes [OF q1(2)]
  note v2 = cq_rep_wf [OF q2(2)] cq_rep_size [OF q2(2)] cq_rep_items [OF q2(2)] cq_rep_cap [OF q2(2)]
  show thesis
    using q1(1) q2(1) v1 v2
    by (intro that [of "\<lparr>em_names = q1, em_listeners = q2, em_lock = rw_new\<rparr>" "insert b (insert a heap)"])
      (simp_all add: em_new_def queue_init_def em_ok_def names_ok_def names_unique_def lists_ok_def named_def
        blocks_def em_abs_def live_def em_events_def name_set_def em_solid_def)
qed

lemma em_add_fault:
  assumes "em_ok e" "0 \<in> set nm" "c_str nm \<noteq> []" "length (c_str nm) \<le> 15" "names_room (c_str nm) e"
    and "length (cq_items (em_listeners e)) = cq_cap (em_listeners e)" "\<not> squeeze_safe (em_listeners e)"
    and "cq_cap (em_listeners e) < 2 ^ 25" "unat (m_q (em_listeners e)) + 2 ^ 32 < 2 ^ 64"
  shows "em_add self nm l d once e = Inl OutOfBounds"
proof -
  note D = em_okD [OF assms(1)]
  obtain p names where reg: "register_event_name nm (em_names e) = Inr (p, names)" "names_ok names" "names_unique names"
    "p \<noteq> 0 \<longrightarrow> p \<in> set (cq_nodes names) \<and> node_str names p = c_str nm"
    "\<forall>r \<in> set (cq_nodes (em_names e)). node_str (em_names e) r \<noteq> [] \<longrightarrow>
        r \<in> set (cq_nodes names) \<and> node_str names r = node_str (em_names e) r"
    "p = 0 \<longleftrightarrow> names_full (c_str nm) (em_names e)" "p = 0 \<longrightarrow> names = em_names e" "cq_cap names = cq_cap (em_names e)"
    "node_str names ` set (cq_nodes names) \<subseteq> insert (c_str nm) (insert [] (node_str (em_names e) ` set (cq_nodes (em_names e))))"
    by (rule register_event_name_spec [OF D(2,3) assms(2,4,3)])
  have p: "p \<noteq> 0" using reg(6) assms(5) by (simp add: names_room_def)
  obtain av where av: "cq_available (em_listeners e) = Inr av" "av \<le> 0 \<longleftrightarrow> length (cq_items (em_listeners e)) = cq_cap (em_listeners e)"
    by (rule lists_available [OF D(4)])
  have "squeez_listeners (em_listeners e) = Inl OutOfBounds"
    by (rule squeez_listeners_fault [OF D(4) assms(7-9)])
  then show ?thesis
    using reg(1) p av assms(2,4,6) D(1)
    by (simp add: em_add_def c_strlen_0 locked_def autolock_write_free em_on_body_def)
qed

subsection \<open>The abstract emitter\<close>

record aem =
  ae_names :: "u8_t list set"
  ae_entries :: "entry list"

datatype em_call = On "u8_t list" ptr ptr | Off "u8_t list" ptr | Emit "u8_t list"

text \<open>What a listener at address \<open>l\<close> does with the data pointer it was registered with.\<close>

type_synonym 'u effects = "ptr \<Rightarrow> ptr \<Rightarrow> 'u \<Rightarrow> 'u"

definition effect_of :: "'u effects \<Rightarrow> entry \<Rightarrow> 'u \<Rightarrow> 'u" where
  "effect_of f x u = (if fst (snd x) \<noteq> 0 then f (fst (snd x)) (fst (snd (snd x))) u else u)"

definition listeners_of :: "'u effects \<Rightarrow> 'u listeners" where
  "listeners_of f l b u = (b, f l (eb_data b) u)"

fun aem_do :: "nat \<Rightarrow> nat \<Rightarrow> 'u effects \<Rightarrow> em_call \<Rightarrow> 'u \<times> aem \<Rightarrow> bool \<times> 'u \<times> aem" where
  "aem_do nc lc f (On s l d) (u, a) =
     (let room = (s \<in> ae_names a \<or> card (ae_names a) < nc);
          ok = (room \<and> length (ae_entries a) < lc)
      in (ok, u, \<lparr>ae_names = (if room then insert s (ae_names a) else ae_names a),
                  ae_entries = (if ok then ae_entries a @ [(s, l, d, False)] else ae_entries a)\<rparr>))"
| "aem_do nc lc f (Off s l) (u, a) =
     (let es = filter (off_entry s l) (ae_entries a)
      in (s \<in> ae_names a, u, \<lparr>ae_names = (if s \<in> fst ` set es then ae_names a else ae_names a - {s}), ae_entries = es\<rparr>))"
| "aem_do nc lc f (Emit s) (u, a) =
     (s \<in> ae_names a, fold (effect_of f) (filter (\<lambda>x. fst x = s) (ae_entries a)) u, a)"

fun em_do :: "tid \<Rightarrow> 'u effects \<Rightarrow> em_call \<Rightarrow> 'u \<times> emitter \<Rightarrow> (bool \<times> 'u \<times> emitter) res" where
  "em_do self f (On s l d) (u, e) = rbind (em_on self (s @ [0]) l d e) (\<lambda>(ok, e). Inr (ok, u, e))"
| "em_do self f (Off s l) (u, e) = rbind (em_off self (s @ [0]) l e) (\<lambda>(ok, e). Inr (ok, u, e))"
| "em_do self f (Emit s) (u, e) = rbind (em_emit self (listeners_of f) (s @ [0]) u e) (\<lambda>((ok, u), e). Inr (ok, u, e))"

fun em_run :: "tid \<Rightarrow> 'u effects \<Rightarrow> em_call list \<Rightarrow> 'u \<times> emitter \<Rightarrow> (bool list \<times> 'u \<times> emitter) res" where
  "em_run self f [] z = Inr ([], z)"
| "em_run self f (c # cs) z =
     rbind (em_do self f c z) (\<lambda>(ok, z). rbind (em_run self f cs z) (\<lambda>(oks, z). Inr (ok # oks, z)))"

fun aem_run :: "nat \<Rightarrow> nat \<Rightarrow> 'u effects \<Rightarrow> em_call list \<Rightarrow> 'u \<times> aem \<Rightarrow> bool list \<times> 'u \<times> aem" where
  "aem_run nc lc f [] z = ([], z)"
| "aem_run nc lc f (c # cs) z =
     (case aem_do nc lc f c z of (ok, z) \<Rightarrow> case aem_run nc lc f cs z of (oks, z) \<Rightarrow> (ok # oks, z))"

text \<open>Names without null byte, not empty and at most fifteen characters.\<close>

fun call_ok :: "em_call \<Rightarrow> bool" where
  "call_ok (On s l d) \<longleftrightarrow> 0 \<notin> set s \<and> s \<noteq> [] \<and> length s \<le> 15"
| "call_ok (Off s l) \<longleftrightarrow> 0 \<notin> set s \<and> s \<noteq> []"
| "call_ok (Emit s) \<longleftrightarrow> 0 \<notin> set s \<and> s \<noteq> []"

definition aem_of :: "emitter \<Rightarrow> aem" where
  "aem_of e = \<lparr>ae_names = em_events e, ae_entries = em_abs e\<rparr>"

lemma solid_safe:
  assumes "em_solid e"
  shows "squeeze_safe (em_listeners e)"
proof (cases "rev (blocks (em_listeners e))")
  case (Cons b bs)
  then have "b \<in> set (blocks (em_listeners e))" by (metis list.set_intros(1) set_rev)
  then have "eb_name b \<noteq> 0" using assms by (simp add: em_solid_def)
  then show ?thesis by (simp add: squeeze_safe_def Cons)
qed (simp add: squeeze_safe_def)

lemma names_room_card:
  "em_ok e \<Longrightarrow> s \<noteq> [] \<Longrightarrow> names_room s e \<longleftrightarrow> s \<in> em_events e \<or> card (em_events e) < cq_cap (em_names e)"
  using names_full_card [of "em_names e" s] by (auto simp: names_room_def em_events_def em_okD)

lemma c_str_word [simp]: "0 \<notin> set s \<Longrightarrow> c_str (s @ [0]) = s"
  using c_str_append [of s "[]"] by simp

lemma solid_entries: "em_solid e \<Longrightarrow> x \<in> set (em_abs e) \<Longrightarrow> \<not> snd (snd (snd x))"
  by (auto simp: em_solid_def em_abs_def live_def entry_of_def)

lemma matching_effects:
  "fold (run_listener (listeners_of f)) (matching e s) u
     = fold (effect_of f) (filter (\<lambda>x. fst x = s) (em_abs e)) u"
proof -
  have "filter (\<lambda>x. fst x = s) (em_abs e) = map (entry_of (em_names e)) (matching e s)"
    by (simp add: em_abs_def matching_def live_def filter_map o_def entry_name conj_commute)
  moreover have "run_listener (listeners_of f) b = effect_of f (entry_of (em_names e) b)" for b
    by (auto simp: run_listener_def listeners_of_def effect_of_def entry_of_def)
  then have "run_listener (listeners_of f) = (\<lambda>b. effect_of f (entry_of (em_names e) b))" by (rule ext)
  ultimately show ?thesis by (simp add: fold_map o_def)
qed

lemma em_do_spec:
  assumes "em_ok e" "em_solid e" "call_ok c"
  obtains e' where
    "em_do self f c (u, e) = (case aem_do (cq_cap (em_names e)) (cq_cap (em_listeners e)) f c (u, aem_of e) of
       (ok, u', _) \<Rightarrow> Inr (ok, u', e'))"
    "aem_of e' = snd (snd (aem_do (cq_cap (em_names e)) (cq_cap (em_listeners e)) f c (u, aem_of e)))"
    "em_ok e'" "em_solid e'" "cq_cap (em_names e') = cq_cap (em_names e)" "cq_cap (em_listeners e') = cq_cap (em_listeners e)"
proof (cases c)
  case (On s l d)
  have s: "0 \<in> set (s @ [0])" "c_str (s @ [0]) \<noteq> []" "length (c_str (s @ [0])) \<le> 15" "c_str (s @ [0]) = s"
    using assms(3) On by simp_all
  have sq: "length (cq_items (em_listeners e)) < cq_cap (em_listeners e) \<or> squeeze_safe (em_listeners e)"
    using solid_safe [OF assms(2)] by simp
  obtain ok e' where "em_add self (s @ [0]) l d False e = Inr (ok, e')" "em_ok e'"
    "ok \<longleftrightarrow> names_room (c_str (s @ [0])) e \<and> length (em_abs e) < cq_cap (em_listeners e)"
    "em_abs e' = (if ok then em_abs e @ [(c_str (s @ [0]), l, d, False)] else em_abs e)"
    "em_events e' = (if names_room (c_str (s @ [0])) e then insert (c_str (s @ [0])) (em_events e) else em_events e)"
    "cq_cap (em_names e') = cq_cap (em_names e)" "cq_cap (em_listeners e') = cq_cap (em_listeners e)"
    "em_solid e \<and> \<not> False \<longrightarrow> em_solid e'"
    by (rule em_add_spec [OF assms(1) s(1-3) sq])
  then show thesis
    using On assms(2) names_room_card [OF assms(1) s(2)] unfolding s(4)
    by (intro that [of e']) (simp_all add: em_on_def aem_of_def Let_def)
next
  case (Off s l)
  have s: "0 \<in> set (s @ [0])" "c_str (s @ [0]) \<noteq> []" "c_str (s @ [0]) = s" using assms(3) Off by simp_all
  obtain e' where "em_off self (s @ [0]) l e = Inr (c_str (s @ [0]) \<in> em_events e, e')" "em_ok e'"
    "em_abs e' = filter (off_entry (c_str (s @ [0])) l) (em_abs e)"
    "em_events e' = (if c_str (s @ [0]) \<in> fst ` set (em_abs e') then em_events e else em_events e - {c_str (s @ [0])})"
    "cq_cap (em_names e') = cq_cap (em_names e)" "cq_cap (em_listeners e') = cq_cap (em_listeners e)"
    "em_solid e \<longrightarrow> em_solid e'"
    by (rule em_off_spec [OF assms(1) s(1,2)])
  then show thesis
    using Off assms(2) unfolding s(3) by (intro that [of e']) (simp_all add: aem_of_def Let_def)
next
  case (Emit s)
  have s: "0 \<in> set (s @ [0])" "c_str (s @ [0]) \<noteq> []" "c_str (s @ [0]) = s" using assms(3) Emit by simp_all
  have pure: "fst (listeners_of f l b u) = b" for l b u by (simp add: listeners_of_def)
  obtain e' where e': "em_emit self (listeners_of f) (s @ [0]) u e
      = Inr ((c_str (s @ [0]) \<in> em_events e, fold (run_listener (listeners_of f)) (matching e (c_str (s @ [0]))) u), e')" "em_ok e'"
    "em_abs e' = filter (emit_keep (c_str (s @ [0]))) (em_abs e)" "em_events e' = em_events e"
    "cq_cap (em_names e') = cq_cap (em_names e)" "cq_cap (em_listeners e') = cq_cap (em_listeners e)"
    "em_solid e \<longrightarrow> em_solid e'"
    by (rule em_emit_spec [OF assms(1) s(1,2) pure])
  have "filter (emit_keep s) (em_abs e) = em_abs e"
    using solid_entries [OF assms(2)] by (simp add: filter_id_conv emit_keep_def)
  with e' show thesis
    using Emit assms(2) unfolding s(3)
    by (intro that [of e']) (simp_all add: aem_of_def matching_effects)
qed

lemma em_run_spec:
  "em_ok e \<Longrightarrow> em_solid e \<Longrightarrow> list_all call_ok cs \<Longrightarrow>
   \<exists>e'. em_run self f cs (u, e)
      = (case aem_run (cq_cap (em_names e)) (cq_cap (em_listeners e)) f cs (u, aem_of e) of (oks, u', _) \<Rightarrow> Inr (oks, u', e'))
    \<and> aem_of e' = snd (snd (aem_run (cq_cap (em_names e)) (cq_cap (em_listeners e)) f cs (u, aem_of e)))
    \<and> em_ok e' \<and> em_solid e'"
proof (induction cs arbitrary: u e)
  case (Cons c cs)
  let ?a = "aem_do (cq_cap (em_names e)) (cq_cap (em_listeners e)) f c (u, aem_of e)"
  have c: "call_ok c" using Cons.prems(3) by simp
  obtain e1 where e1: "em_do self f c (u, e) = (case ?a of (ok, u', _) \<Rightarrow> Inr (ok, u', e1))"
    "aem_of e1 = snd (snd ?a)" "em_ok e1" "em_solid e1"
    "cq_cap (em_names e1) = cq_cap (em_names e)" "cq_cap (em_listeners e1) = cq_cap (em_listeners e)"
    by (rule em_do_spec [OF Cons.prems(1,2) c])
  obtain ok u1 a1 where a: "?a = (ok, u1, a1)" by (cases ?a)
  have "list_all call_ok cs" using Cons.prems(3) by simp
  from Cons.IH [OF e1(3,4) this, of u1] show ?case
    using e1 a by (auto split: prod.splits)
qed simp

end
