(* ===== verification/GclEventProps.thy ===== *)
theory GclEventProps
  imports GclEventRun
begin

section \<open>EventEmitter: properties\<close>

text \<open>
  The refinement of the abstract emitter by whole runs, the contract of each operation, and
  the inputs on which the emitter misbehaves.
\<close>

text \<open>A small emitter for the examples: two names, two listeners, nothing registered.\<close>

definition em_demo :: emitter where
  "em_demo = \<lparr>em_names = \<lparr>m_q = 4096, ctl = \<lparr>q_begin = 20, q_end = 68, q_head = 20, q_tail = 20, q_item_size = 16\<rparr>,
       dat = replicate 48 0\<rparr>,
     em_listeners = \<lparr>m_q = 8192, ctl = \<lparr>q_begin = 20, q_end = 116, q_head = 20, q_tail = 20, q_item_size = 32\<rparr>,
       dat = replicate 96 0\<rparr>,
     em_lock = rw_new\<rparr>"

lemma em_demo_new: "em_new 2 2 (4096, \<lambda>_. 0) (8192, \<lambda>_. 0) {} = Inr (em_demo, {4096, 8192})"
  by code_simp

lemma em_demo_ok: "em_ok em_demo" "em_abs em_demo = []" "em_events em_demo = {}"
  "cq_cap (em_names em_demo) = 2" "cq_cap (em_listeners em_demo) = 2"
proof -
  obtain e h where "em_new 2 2 (4096, \<lambda>_. 0) (8192, \<lambda>_. 0) {} = Inr (e, h)" "em_ok e" "em_abs e = []" "em_events e = {}"
    "cq_cap (em_names e) = unat (2 :: u32_t)" "cq_cap (em_listeners e) = unat (2 :: u32_t)" "em_solid e"
    by (rule em_new_spec [of 2 2 4096 8192 "\<lambda>_. 0" "\<lambda>_. 0" "{}"]) simp_all
  then show "em_ok em_demo" "em_abs em_demo = []" "em_events em_demo = {}"
    "cq_cap (em_names em_demo) = 2" "cq_cap (em_listeners em_demo) = 2"
    by (simp_all add: em_demo_new)
qed

lemma em_demo_blank: "cq_items (em_listeners em_demo) = []" "matching em_demo nm = []"
proof -
  show "cq_items (em_listeners em_demo) = []" by code_simp
  then show "matching em_demo nm = []" by (simp add: matching_def blocks_def)
qed

text \<open>
  C2: A freshly constructed emitter implements the abstract one: for every sequence of \<open>on\<close>,
  \<open>off\<close> and \<open>emit\<close> calls with proper names no call faults, every call returns what the
  abstract emitter returns, the listeners of an event run in the order of registration and
  with their data, and the registrations and known names agree at the end.
\<close>

theorem emitter_refines_registry:
  assumes "mn \<noteq> 0" "ml \<noteq> 0" "unat mn < 2 ^ 27" "unat ml < 2 ^ 26"
    and "a \<noteq> 0" "b \<noteq> 0" "unat a + 2 ^ 32 < 2 ^ 64" "unat b + 2 ^ 32 < 2 ^ 64"
    and "list_all call_ok calls"
  shows "\<exists>e e' heap'. em_new mn ml (a, ja) (b, jb) heap = Inr (e, heap') \<and>
    (case aem_run (unat mn) (unat ml) f calls (u, \<lparr>ae_names = {}, ae_entries = []\<rparr>) of
       (oks, u', final) \<Rightarrow> em_run self f calls (u, e) = Inr (oks, u', e') \<and> aem_of e' = final \<and> em_ok e')"
proof -
  obtain e heap' where e: "em_new mn ml (a, ja) (b, jb) heap = Inr (e, heap')" "em_ok e" "em_abs e = []" "em_events e = {}"
    "cq_cap (em_names e) = unat mn" "cq_cap (em_listeners e) = unat ml" "em_solid e"
    by (rule em_new_spec [OF assms(1-8)])
  have "aem_of e = \<lparr>ae_names = {}, ae_entries = []\<rparr>" using e(3,4) by (simp add: aem_of_def)
  then show ?thesis
    using em_run_spec [OF e(2,7) assms(9), of self f u] e(1,5,6) by (auto split: prod.splits)
qed

theorem emitter_refines_registry_witness:
  "\<exists>e e' heap'. em_new 2 2 (4096, \<lambda>_. 0) (8192, \<lambda>_. 0) {} = Inr (e, heap') \<and>
    em_run 1 (\<lambda>l d u. l # u) [On [97] 100 0, Emit [97], Off [97] 100, Emit [97]] ([], e)
      = Inr ([True, True, True, False], [100], e')"
  using emitter_refines_registry [where mn = 2 and ml = 2 and a = 4096 and b = 8192 and ja = "\<lambda>_. 0" and jb = "\<lambda>_. 0"
      and heap = "{}" and self = 1 and f = "\<lambda>l d u. l # u" and u = "[]"
      and calls = "[On [97] 100 0, Emit [97], Off [97] 100, Emit [97]]"]
  by (auto simp: Let_def off_entry_def effect_of_def)

text \<open>
  C22: \<open>on\<close> and \<open>once\<close> add a registration at the end exactly when the event has a name slot and
  the live registrations are fewer than the capacity, and otherwise leave the registrations
  alone; the invariant is kept. Spent entries make room, provided the squeeze is safe. A
  call that fails for lack of listener space has registered the name nevertheless.
\<close>

theorem emitter_on_spec:
  assumes "em_ok e" "0 \<in> set nm" "c_str nm \<noteq> []" "length (c_str nm) \<le> 15"
    and "length (cq_items (em_listeners e)) < cq_cap (em_listeners e) \<or> squeeze_safe (em_listeners e)"
  shows "\<exists>ok e'. em_add self nm l d once e = Inr (ok, e') \<and> em_ok e'
    \<and> (ok \<longleftrightarrow> names_room (c_str nm) e \<and> length (em_abs e) < cq_cap (em_listeners e))
    \<and> em_abs e' = (if ok then em_abs e @ [(c_str nm, l, d, once)] else em_abs e)
    \<and> em_events e' = (if names_room (c_str nm) e then insert (c_str nm) (em_events e) else em_events e)"
  by (rule em_add_spec [OF assms, of self l d once]) blast

theorem emitter_on_spec_witness:
  "\<exists>ok e'. em_add 1 [97, 0] 100 7 True em_demo = Inr (ok, e') \<and> em_ok e' \<and> em_abs e' = (if ok then [([97], 100, 7, True)] else [])"
  using emitter_on_spec [OF em_demo_ok(1), of "[97, 0]" 1 100 7 True] em_demo_blank
  by (auto simp: c_str_def em_demo_ok)

text \<open>
  C31: \<open>off\<close> succeeds exactly for a known event, removes exactly the registrations of that event
  with that listener, keeps the order of the others, and forgets the name exactly when no
  registration of the event is left.
\<close>

theorem emitter_off_spec:
  assumes "em_ok e" "0 \<in> set nm" "c_str nm \<noteq> []"
  shows "\<exists>e'. em_off self nm l e = Inr (c_str nm \<in> em_events e, e') \<and> em_ok e'
    \<and> em_abs e' = filter (\<lambda>x. \<not> (fst x = c_str nm \<and> fst (snd x) = l)) (em_abs e)
    \<and> em_events e' = (if c_str nm \<in> fst ` set (em_abs e') then em_events e else em_events e - {c_str nm})"
  by (rule em_off_spec [OF assms, of self l]) (auto simp: off_entry_def [abs_def])

theorem emitter_off_spec_witness: "\<exists>e'. em_off 1 [97, 0] 100 em_demo = Inr (False, e') \<and> em_abs e' = []"
  using emitter_off_spec [OF em_demo_ok(1), of "[97, 0]" 1 100] by (auto simp: c_str_def em_demo_ok)

text \<open>
  C32: \<open>emit\<close> succeeds exactly for a known event and runs exactly the live listeners of that event,
  in the order of registration, each once; the registrations made with \<open>once\<close> are gone
  afterwards and all others are kept (for listeners that leave their event block alone).
\<close>

theorem emitter_emit_spec:
  assumes "em_ok e" "0 \<in> set nm" "c_str nm \<noteq> []" "\<And>l b u. fst (call l b u) = b"
  shows "\<exists>e'. em_emit self call nm u e
      = Inr ((c_str nm \<in> em_events e,
              fold (\<lambda>b u. if eb_listener b \<noteq> 0 then snd (call (eb_listener b) b u) else u) (matching e (c_str nm)) u), e')
    \<and> em_ok e' \<and> em_abs e' = filter (\<lambda>x. \<not> (fst x = c_str nm \<and> snd (snd (snd x)))) (em_abs e)
    \<and> em_events e' = em_events e"
  by (rule em_emit_spec [where call = call and self = self and u = u, OF assms])
    (auto simp: emit_keep_def [abs_def] run_listener_def [abs_def])

theorem emitter_emit_spec_witness:
  "\<exists>e'. em_emit 1 (\<lambda>l b u. (b, l # u)) [97, 0] [] em_demo = Inr ((False, []), e') \<and> em_abs e' = []"
  using emitter_emit_spec [OF em_demo_ok(1), of "[97, 0]" "\<lambda>l b u. (b, l # u)" 1 "[]"]
  by (auto simp: c_str_def em_demo_ok em_demo_blank)

text \<open>Six calls that leave a full listener queue whose last entry is spent and whose tail is at the first slot.\<close>

definition em_after :: "('a \<times> emitter) res \<Rightarrow> emitter" where
  "em_after r = (case r of Inr (_, e) \<Rightarrow> e | Inl _ \<Rightarrow> em_demo)"

lemma em_after_ok:
  assumes "em_ok e" "0 \<in> set nm" "c_str nm \<noteq> []"
  shows "length (c_str nm) \<le> 15 \<Longrightarrow> length (cq_items (em_listeners e)) < cq_cap (em_listeners e) \<Longrightarrow>
      em_ok (em_after (em_add self nm l d once e))"
    and "em_ok (em_after (em_off self nm l e))"
    and "(\<And>l b u. fst (call l b u) = b) \<Longrightarrow> em_ok (em_after (em_emit self call nm u e))"
proof -
  assume "length (c_str nm) \<le> 15" "length (cq_items (em_listeners e)) < cq_cap (em_listeners e)"
  then show "em_ok (em_after (em_add self nm l d once e))"
    by (auto intro: em_add_spec [OF assms, of self l d once] simp: em_after_def)
next
  show "em_ok (em_after (em_off self nm l e))"
    by (rule em_off_spec [OF assms, of self l]) (simp add: em_after_def)
next
  assume "\<And>l b u. fst (call l b u) = b"
  then show "em_ok (em_after (em_emit self call nm u e))"
    by (auto intro: em_emit_spec [OF assms, of call self u] simp: em_after_def)
qed

definition em_hazard :: emitter where
  "em_hazard =
     (let e = em_after (em_on 1 [97, 0] 100 0 em_demo);
          e = em_after (em_once 1 [98, 0] 101 0 e);
          e = em_after (em_off 1 [97, 0] 999 e);
          e = em_after (em_off 1 [97, 0] 999 e)
      in em_after (em_emit 1 (\<lambda>l b u. (b, l # u)) [98, 0] [] e))"

lemma em_hazard_ok: "em_ok em_hazard"
proof -
  define e1 where "e1 = em_after (em_on 1 [97, 0] 100 0 em_demo)"
  define e2 where "e2 = em_after (em_once 1 [98, 0] 101 0 e1)"
  have [simp]: "c_str [97, 0 :: u8_t] = [97]" "c_str [98, 0 :: u8_t] = [98]" by (simp_all add: c_str_def)
  have room: "length (cq_items (em_listeners e1)) < cq_cap (em_listeners e1)" unfolding e1_def by code_simp
  have "em_ok e1" unfolding e1_def em_on_def
    by (rule em_after_ok(1)) (simp_all add: em_demo_ok em_demo_blank)
  then have "em_ok e2" unfolding e2_def em_once_def by (rule em_after_ok(1)) (simp_all add: room)
  then show ?thesis
    unfolding em_hazard_def Let_def e1_def [symmetric] e2_def [symmetric]
    by (intro em_after_ok(2,3)) simp_all
qed

lemma em_hazard_state:
  "em_hazard = em_demo
     \<lparr>em_names := (em_names em_demo)\<lparr>ctl := (ctl (em_names em_demo))\<lparr>q_tail := 52\<rparr>,
        dat := 97 # replicate 15 0 @ 98 # replicate 31 0\<rparr>,
      em_listeners := (em_listeners em_demo)\<lparr>ctl := (ctl (em_listeners em_demo))\<lparr>q_head := 52\<rparr>,
        dat := eb_enc \<lparr>eb_name = 4132, eb_listener = 101, eb_data = 0, eb_once = True\<rparr>
          @ eb_enc \<lparr>eb_name = 4116, eb_listener = 100, eb_data = 0, eb_once = False\<rparr>
          @ eb_enc \<lparr>eb_name = 0, eb_listener = 101, eb_data = 0, eb_once = True\<rparr>\<rparr>\<rparr>"
  by code_simp

lemma em_hazard_full:
  "length (cq_items (em_listeners em_hazard)) = cq_cap (em_listeners em_hazard)"
  "cq_cap (em_listeners em_hazard) = 2" "unat (m_q (em_listeners em_hazard)) = 8192"
  "\<not> squeeze_safe (em_listeners em_hazard)" "em_events em_hazard = {[97], [98]}"
  unfolding em_hazard_state by code_simp+

text \<open>
  When the listener queue is full, the last entries are spent, and the pops would have to
  step over the first slot of the ring, the squeeze inside \<open>on\<close> takes the tail below the
  block and the call reads outside of it. Six ordinary calls on an emitter for two listeners
  lead to such a state.
\<close>

theorem emitter_squeeze_fault:
  assumes "em_ok e" "0 \<in> set nm" "c_str nm \<noteq> []" "length (c_str nm) \<le> 15" "names_room (c_str nm) e"
    and "length (cq_items (em_listeners e)) = cq_cap (em_listeners e)" "\<not> squeeze_safe (em_listeners e)"
    and "cq_cap (em_listeners e) < 2 ^ 25" "unat (m_q (em_listeners e)) + 2 ^ 32 < 2 ^ 64"
  shows "em_add self nm l d once e = Inl OutOfBounds"
  using assms by (rule em_add_fault)

theorem emitter_squeeze_fault_witness: "em_add 1 [97, 0] 102 0 False em_hazard = Inl OutOfBounds"
  by (rule emitter_squeeze_fault) (simp_all add: em_hazard_ok em_hazard_full names_room_card c_str_def)

text \<open>
  The empty name is not refused: its slot has an empty string, which the next registration of
  a new event takes for a free slot. After \<open>on ""\<close> and \<open>on "a"\<close> on a fresh emitter an \<open>emit "a"\<close>
  runs the listener of the empty event too, and \<open>off\<close> of the empty event no longer finds it.
\<close>

theorem emitter_empty_name_clash:
  "rbind (em_on 1 [0] 100 0 em_demo) (\<lambda>(ok1, e). rbind (em_on 1 [97, 0] 101 0 e) (\<lambda>(ok2, e).
     rbind (em_emit 1 (\<lambda>l b u. (b, u @ [l])) [97, 0] [] e) (\<lambda>(r, e).
     rbind (em_off 1 [0] 100 e) (\<lambda>(ok3, e). Inr (ok1, ok2, r, ok3)))))
   = Inr (True, True, (True, [100, 101]), False)"
  by code_simp

lemma em_off_body_lock: "em_off_body nm l e = Inr (r, e') \<Longrightarrow> em_lock e' = em_lock e"
  by (auto simp: em_off_body_def rbind_eq_Inr Let_def split: if_splits prod.splits)

text \<open>
  The lock is not recursive and its return codes are ignored: a call that returns on a free
  emitter, made while the same thread is inside another call of the emitter (from a listener),
  releases the lock of the outer call, which then unlocks a lock it no longer holds.
\<close>

theorem emitter_nested_call_fault:
  assumes "rw_free (em_lock e)" "em_off self nm listener e = Inr (b, e')"
  shows "locked self (em_off self nm listener) e = Inl Deadlock"
proof -
  let ?L = "(em_lock e)\<lparr>rw_writer := Some self\<rparr>"
  have w: "autolock_write self (em_lock e) = Inr ?L" by (rule autolock_write_free [OF assms(1)])
  obtain r e1 where body: "em_off_body nm listener (e\<lparr>em_lock := ?L\<rparr>) = Inr (r, e1)"
    using assms(2) w by (auto simp: em_off_def locked_def rbind_eq_Inr)
  have L: "em_lock e1 = ?L" using em_off_body_lock [OF body] by simp
  have again: "autolock_write self ?L = Inr ?L" by (simp add: autolock_write_def rw_wrlock_def)
  have "autolock_end self ?L = Inr (?L\<lparr>rw_writer := None\<rparr>)" by (rule autolock_end_writer) simp
  then have "em_off self nm listener (e\<lparr>em_lock := ?L\<rparr>) = Inr (r, e1\<lparr>em_lock := ?L\<lparr>rw_writer := None\<rparr>\<rparr>)"
    using again body L by (simp add: em_off_def locked_def)
  moreover have "autolock_end self (?L\<lparr>rw_writer := None\<rparr>) = Inl Deadlock"
    using assms(1) by (simp add: autolock_end_def rw_unlock_def rw_free_def rbind_def)
  ultimately show ?thesis using w by (simp add: locked_def)
qed

theorem emitter_nested_call_fault_witness: "locked 1 (em_off 1 [97, 0] 100) em_demo = Inl Deadlock"
proof -
  have "em_off 1 [97, 0] 100 em_demo = Inr (False, em_demo)" by code_simp
  moreover have "rw_free (em_lock em_demo)" by code_simp
  ultimately show ?thesis using emitter_nested_call_fault by blast
qed

end
