(* ===== verification/GclEventNest.thy ===== *)
theory GclEventNest
  imports GclEventProps
begin

section \<open>EventEmitter: listeners that call the emitter\<close>

text \<open>
  \<open>emit\<close> runs the listeners inside of its \<open>AutoLockWrite\<close>, and nothing keeps a listener from
  calling the same emitter. A listener is a script here: it reads and writes its event through the
  reference it was given, calls the emitter and goes on with the answer, and ends in a state of the
  caller. The thread is the one that holds the lock, so every nested call runs on a lock its own
  thread owns. The depth of the calls and the turns of the loops are bounded by fuel; both can go on
  for ever in the code.
\<close>

datatype nested_call =
    AddCall "u8_t list" ptr ptr bool
  | OffCall "u8_t list" ptr
  | EmitCall "u8_t list"

datatype 'u script =
    Done 'u
  | Look "event_block \<Rightarrow> 'u script"
  | Rewrite event_block "'u script"
  | Ask nested_call 'u "bool \<Rightarrow> 'u \<Rightarrow> 'u script"

type_synonym 'u scripts = "ptr \<Rightarrow> 'u \<Rightarrow> 'u script"
type_synonym 'u caller = "nested_call \<Rightarrow> 'u \<times> emitter \<Rightarrow> (bool \<times> 'u \<times> emitter) res"

subsection \<open>The loop of \<open>emit\<close>, with calls from inside\<close>

text \<open>\<open>peek\<close> is the address of the event the script has a reference to.\<close>

primrec run_script :: "'u caller \<Rightarrow> ptr \<Rightarrow> 'u script \<Rightarrow> emitter \<Rightarrow> ('u \<times> emitter) res" where
  "run_script call peek (Done u) e = Inr (u, e)"
| "run_script call peek (Look k) e =
     rbind (cq_deref (em_listeners e) peek) (\<lambda>bs. run_script call peek (k (eb_dec bs)) e)"
| "run_script call peek (Rewrite eb s) e =
     rbind (cq_write peek (take 25 (eb_enc eb)) (em_listeners e)) (\<lambda>q. run_script call peek s (e\<lparr>em_listeners := q\<rparr>))"
| "run_script call peek (Ask c u k) e =
     rbind (call c (u, e)) (\<lambda>(ok, u, e). run_script call peek (k ok u) e)"

text \<open>After the listener has returned, \<open>peek->once\<close> is read from wherever \<open>peek\<close> points to by then.\<close>

definition nest_turn ::
    "'u caller \<Rightarrow> 'u scripts \<Rightarrow> ptr \<Rightarrow> ptr \<Rightarrow> 'u \<times> emitter \<Rightarrow> (unit option \<times> 'u \<times> emitter) res"
where
  "nest_turn call f name peek z =
     (case z of (u, e) \<Rightarrow>
      rbind (cq_deref (em_listeners e) peek) (\<lambda>bs. let eb = eb_dec bs in
        if eb_name eb = name
        then rbind (if eb_listener eb \<noteq> 0 then run_script call peek (f (eb_listener eb) u) e else Inr (u, e)) (\<lambda>(u, e).
             rbind (cq_deref (em_listeners e) peek) (\<lambda>bs.
             rbind (if eb_once (eb_dec bs) then cq_write peek (le_bytes 8 0) (em_listeners e) else Inr (em_listeners e)) (\<lambda>q.
               Inr (None, u, e\<lparr>em_listeners := q\<rparr>))))
        else Inr (None, u, e)))"

definition nest_loop :: "nat \<Rightarrow> 'u caller \<Rightarrow> 'u scripts \<Rightarrow> ptr \<Rightarrow> 'u \<times> emitter \<Rightarrow> (unit option \<times> 'u \<times> emitter) res" where
  "nest_loop n call f name z =
     each n (\<lambda>p z. cq_peek_next p (em_listeners (snd z))) (nest_turn call f name) (cq_peek (em_listeners (snd z))) z"

definition nest_body :: "nat \<Rightarrow> 'u caller \<Rightarrow> 'u scripts \<Rightarrow> u8_t list \<Rightarrow> 'u \<Rightarrow> emitter \<Rightarrow> ((bool \<times> 'u) \<times> emitter) res" where
  "nest_body n call f event_name u e =
     rbind (find_event_name event_name (em_names e)) (\<lambda>name.
       if name = 0 then Inr ((False, u), e)
       else rbind (nest_loop n call f name (u, e)) (\<lambda>(_, u, e). Inr ((True, u), e)))"

definition nest_emit ::
    "nat \<Rightarrow> 'u caller \<Rightarrow> tid \<Rightarrow> 'u scripts \<Rightarrow> u8_t list \<Rightarrow> 'u \<times> emitter \<Rightarrow> (bool \<times> 'u \<times> emitter) res"
where
  "nest_emit n call self f nm z = (case z of (u, e) \<Rightarrow>
     rbind (locked self (nest_body n call f nm u) e) (\<lambda>((ok, u), e). Inr (ok, u, e)))"

fun nest_call :: "nat \<Rightarrow> tid \<Rightarrow> 'u scripts \<Rightarrow> 'u caller" where
  "nest_call 0 self f c z = Inl Diverges"
| "nest_call (Suc n) self f (AddCall nm l d once) (u, e) = rbind (em_add self nm l d once e) (\<lambda>(ok, e). Inr (ok, u, e))"
| "nest_call (Suc n) self f (OffCall nm l) (u, e) = rbind (em_off self nm l e) (\<lambda>(ok, e). Inr (ok, u, e))"
| "nest_call (Suc n) self f (EmitCall nm) z = nest_emit n (nest_call n self f) self f nm z"

subsection \<open>What a call does to the lock\<close>

text \<open>The states of the lock a thread can meet from within: its own, or free again.\<close>

definition owns :: "tid \<Rightarrow> emitter \<Rightarrow> bool" where
  "owns self e \<longleftrightarrow> em_lock e = rw_new\<lparr>rw_writer := Some self\<rparr>"

definition entered :: "tid \<Rightarrow> emitter \<Rightarrow> bool" where
  "entered self e \<longleftrightarrow> owns self e \<or> em_lock e = rw_new"

text \<open>The one call that returns before it locks: a name that is too long.\<close>

fun refused :: "nested_call \<Rightarrow> bool" where
  "refused (AddCall nm _ _ _) = (case c_strlen nm of Inr n \<Rightarrow> n > EVENT_NAME_LENGTH_MAX | Inl _ \<Rightarrow> False)"
| "refused _ = False"

definition refuse :: "'u caller" where
  "refuse c z = (case z of (u, e) \<Rightarrow> if refused c then Inr (False, u, e) else Inl Deadlock)"

definition frees_lock :: "tid \<Rightarrow> 'u caller \<Rightarrow> bool" where
  "frees_lock self call \<longleftrightarrow> (\<forall>c u e r. entered self e \<longrightarrow> call c (u, e) = Inr r \<longrightarrow>
     refuse c (u, e) = Inr r \<or> em_lock (snd (snd r)) = rw_new)"

lemma refuse_apply [simp]: "refuse c (u, e) = (if refused c then Inr (False, u, e) else Inl Deadlock)"
  by (simp add: refuse_def)

text \<open>The two branches of a turn.\<close>

definition nest_after :: "ptr \<Rightarrow> 'u \<times> emitter \<Rightarrow> (unit option \<times> 'u \<times> emitter) res" where
  "nest_after peek z = (case z of (u, e) \<Rightarrow>
     rbind (cq_deref (em_listeners e) peek) (\<lambda>bs.
     rbind (if eb_once (eb_dec bs) then cq_write peek (le_bytes 8 0) (em_listeners e) else Inr (em_listeners e)) (\<lambda>q.
       Inr (None, u, e\<lparr>em_listeners := q\<rparr>))))"

definition nest_run :: "'u caller \<Rightarrow> 'u scripts \<Rightarrow> ptr \<Rightarrow> ptr \<Rightarrow> 'u \<Rightarrow> emitter \<Rightarrow> ('u \<times> emitter) res" where
  "nest_run call f peek l u e = (if l \<noteq> 0 then run_script call peek (f l u) e else Inr (u, e))"

lemma nest_turn_match:
  "cq_deref (em_listeners e) peek = Inr bs \<Longrightarrow> eb_name (eb_dec bs) = name \<Longrightarrow>
   nest_turn call f name peek (u, e) = rbind (nest_run call f peek (eb_listener (eb_dec bs)) u e) (nest_after peek)"
  by (simp add: nest_turn_def nest_after_def [abs_def] nest_run_def)

lemma nest_turn_other:
  "cq_deref (em_listeners e) peek = Inr bs \<Longrightarrow> eb_name (eb_dec bs) \<noteq> name \<Longrightarrow> nest_turn call f name peek (u, e) = Inr (None, u, e)"
  by (simp add: nest_turn_def)

lemma nest_afterE:
  assumes "nest_after peek (u, e) = Inr (r, u', e')"
  obtains bs q where "cq_deref (em_listeners e) peek = Inr bs" "r = None" "u' = u" "e' = e\<lparr>em_listeners := q\<rparr>"
    "(if eb_once (eb_dec bs) then cq_write peek (le_bytes 8 0) (em_listeners e) else Inr (em_listeners e)) = Inr q"
  using assms unfolding nest_after_def prod.case rbind_eq_Inr by blast

lemma entered_new: "em_lock e = rw_new \<Longrightarrow> entered self e"
  by (simp add: entered_def)

lemma autolock_entered: "entered self e \<Longrightarrow> autolock_write self (em_lock e) = Inr (rw_new\<lparr>rw_writer := Some self\<rparr>)"
  by (auto simp: entered_def owns_def autolock_write_def rw_wrlock_def rw_new_def)

lemma autolock_end_entered: "entered self e \<Longrightarrow> autolock_end self (em_lock e) = Inr l \<Longrightarrow> owns self e \<and> l = rw_new"
  by (auto simp: entered_def owns_def autolock_end_def rw_unlock_def rw_new_def rbind_eq_Inr)

lemma em_on_body_lock: "em_on_body nm l d once e = Inr (r, e') \<Longrightarrow> em_lock e' = em_lock e"
  by (auto simp: em_on_body_def rbind_eq_Inr Let_def split: if_splits prod.splits)

lemma locked_frees:
  assumes "entered self e" "locked self body e = Inr (r, e')"
    and "\<And>e1 r e2. owns self e1 \<Longrightarrow> body e1 = Inr (r, e2) \<Longrightarrow> entered self e2"
  shows "em_lock e' = rw_new"
    "\<exists>e2. body (e\<lparr>em_lock := rw_new\<lparr>rw_writer := Some self\<rparr>\<rparr>) = Inr (r, e2) \<and> owns self e2 \<and> e' = e2\<lparr>em_lock := rw_new\<rparr>"
proof -
  let ?e1 = "e\<lparr>em_lock := rw_new\<lparr>rw_writer := Some self\<rparr>\<rparr>"
  obtain e2 l where b: "body ?e1 = Inr (r, e2)" "autolock_end self (em_lock e2) = Inr l" "e' = e2\<lparr>em_lock := l\<rparr>"
    using assms(2) by (auto simp: locked_def autolock_entered [OF assms(1)] rbind_eq_Inr)
  have "owns self ?e1" by (simp add: owns_def)
  from assms(3) [OF this b(1)] b(2) have "owns self e2" "l = rw_new" by (auto dest: autolock_end_entered)
  with b show "em_lock e' = rw_new" "\<exists>e2. body ?e1 = Inr (r, e2) \<and> owns self e2 \<and> e' = e2\<lparr>em_lock := rw_new\<rparr>" by auto
qed

lemma locked_leaf_frees:
  assumes "entered self e" "locked self body e = Inr (r, e')"
    and "\<And>e1 r e2. body e1 = Inr (r, e2) \<Longrightarrow> em_lock e2 = em_lock e1"
  shows "em_lock e' = rw_new"
  using assms(3) by (intro locked_frees(1) [OF assms(1,2)]) (auto simp: entered_def owns_def)

subsection \<open>A call from within leaves the lock free\<close>

lemma run_script_frees:
  assumes "frees_lock self call"
  shows "entered self e \<Longrightarrow> run_script call peek s e = Inr (u', e') \<Longrightarrow>
    run_script refuse peek s e = Inr (u', e') \<and> em_lock e' = em_lock e \<or> em_lock e' = rw_new"
proof (induction s arbitrary: e)
  case (Look k)
  then show ?case by (auto simp: rbind_eq_Inr)
next
  case (Rewrite eb s)
  then obtain q where q: "cq_write peek (take 25 (eb_enc eb)) (em_listeners e) = Inr q"
    "run_script call peek s (e\<lparr>em_listeners := q\<rparr>) = Inr (u', e')" by (auto simp: rbind_eq_Inr)
  have "entered self (e\<lparr>em_listeners := q\<rparr>)" using Rewrite.prems(1) by (simp add: entered_def owns_def)
  from Rewrite.IH [OF this q(2)] q(1) show ?case by simp
next
  case (Ask c u k)
  then obtain ok u1 e1 where c: "call c (u, e) = Inr (ok, u1, e1)" "run_script call peek (k ok u1) e1 = Inr (u', e')"
    by (auto simp: rbind_eq_Inr)
  have IH: "entered self e \<Longrightarrow> run_script call peek (k ok u1) e = Inr (u', e') \<Longrightarrow>
    run_script refuse peek (k ok u1) e = Inr (u', e') \<and> em_lock e' = em_lock e \<or> em_lock e' = rw_new" for e
    by (rule Ask.IH) auto
  from assms c(1) Ask.prems(1) consider "refuse c (u, e) = Inr (ok, u1, e1)" | "em_lock e1 = rw_new"
    by (fastforce simp: frees_lock_def)
  then show ?case
  proof cases
    case 1
    then have "e1 = e" by (auto split: if_splits)
    then show ?thesis using 1 IH [of e] Ask.prems(1) c(2) by simp
  next
    case 2
    then show ?thesis using IH [OF entered_new [OF 2] c(2)] by auto
  qed
qed simp

lemma nest_turn_frees:
  assumes "frees_lock self call" "entered self e" "nest_turn call f name peek (u, e) = Inr (r, u', e')"
  shows "nest_turn refuse f name peek (u, e) = Inr (r, u', e') \<and> em_lock e' = em_lock e \<or> em_lock e' = rw_new"
proof -
  obtain bs where bs: "cq_deref (em_listeners e) peek = Inr bs"
    using assms(3) by (auto simp: nest_turn_def rbind_eq_Inr)
  show ?thesis
  proof (cases "eb_name (eb_dec bs) = name")
    case True
    note turn = nest_turn_match [OF bs True]
    obtain u1 e1 where run: "nest_run call f peek (eb_listener (eb_dec bs)) u e = Inr (u1, e1)" "nest_after peek (u1, e1) = Inr (r, u', e')"
      using assms(3) unfolding turn rbind_eq_Inr by fast
    have "nest_run refuse f peek (eb_listener (eb_dec bs)) u e = Inr (u1, e1) \<and> em_lock e1 = em_lock e \<or> em_lock e1 = rw_new"
      using run_script_frees [OF assms(1,2)] run(1) by (auto simp: nest_run_def split: if_splits)
    moreover have "em_lock e' = em_lock e1"
      by (rule nest_afterE [OF run(2)]) simp
    ultimately show ?thesis using run(2) unfolding turn by (elim disjE) simp_all
  next
    case False
    then show ?thesis using assms(3) unfolding nest_turn_other [OF bs False] by simp
  qed
qed

lemma entered_lock: "entered self e \<Longrightarrow> em_lock e' = em_lock e \<or> em_lock e' = rw_new \<Longrightarrow> entered self e'"
  by (auto simp: entered_def owns_def)

lemma nest_each_frees:
  assumes "frees_lock self call"
  shows "entered self e \<Longrightarrow> each n nxt (nest_turn call f name) p (u, e) = Inr (r, u', e') \<Longrightarrow>
    each n nxt (nest_turn refuse f name) p (u, e) = Inr (r, u', e') \<and> em_lock e' = em_lock e \<or> em_lock e' = rw_new"
proof (induction n arbitrary: p u e)
  case (Suc n)
  show ?case
  proof (cases "p = 0")
    case False
    obtain r1 u1 e1 where t: "nest_turn call f name p (u, e) = Inr (r1, u1, e1)"
      "(case r1 of Some x \<Rightarrow> Inr (Some x, u1, e1) | None \<Rightarrow> each n nxt (nest_turn call f name) (nxt p (u1, e1)) (u1, e1))
         = Inr (r, u', e')"
      using Suc.prems(2) False by (auto simp: rbind_eq_Inr)
    from nest_turn_frees [OF assms Suc.prems(1) t(1)]
    have T: "nest_turn refuse f name p (u, e) = Inr (r1, u1, e1) \<and> em_lock e1 = em_lock e \<or> em_lock e1 = rw_new" .
    then have e1: "entered self e1" using entered_lock [OF Suc.prems(1), of e1] by auto
    show ?thesis
    proof (cases r1)
      case None
      then show ?thesis using T t(2) Suc.IH [OF e1, of "nxt p (u1, e1)" u1] False by auto
    next
      case (Some x)
      then show ?thesis using T t(2) False by auto
    qed
  qed (use Suc.prems in auto)
qed (auto split: if_splits)

lemma nest_body_frees:
  assumes "frees_lock self call" "owns self e" "nest_body n call f nm u e = Inr (r, e')"
  shows "nest_body n refuse f nm u e = Inr (r, e') \<or> em_lock e' = rw_new" "entered self e'"
proof -
  have e: "entered self e" using assms(2) by (simp add: entered_def)
  obtain p where p: "find_event_name nm (em_names e) = Inr p" using assms(3) by (auto simp: nest_body_def rbind_eq_Inr)
  show "nest_body n refuse f nm u e = Inr (r, e') \<or> em_lock e' = rw_new" "entered self e'"
    using assms(3) p e nest_each_frees [OF assms(1) e] entered_lock [OF e]
    by (fastforce simp: nest_body_def nest_loop_def rbind_eq_Inr split: if_splits)+
qed

text \<open>A nested \<open>emit\<close> that returns was one in which no listener called, and it has freed the lock.\<close>

lemma nest_emit_frees:
  assumes "frees_lock self call" "entered self e" "nest_emit n call self f nm (u, e) = Inr r"
  shows "em_lock (snd (snd r)) = rw_new" "nest_emit n refuse self f nm (u, e) = Inr r"
proof -
  obtain r1 e' where l: "locked self (nest_body n call f nm u) e = Inr (r1, e')" "r = (fst r1, snd r1, e')"
    using assms(3) by (auto simp: nest_emit_def rbind_eq_Inr)
  have L: "em_lock e' = rw_new"
    "\<exists>e2. nest_body n call f nm u (e\<lparr>em_lock := rw_new\<lparr>rw_writer := Some self\<rparr>\<rparr>) = Inr (r1, e2)
       \<and> owns self e2 \<and> e' = e2\<lparr>em_lock := rw_new\<rparr>"
    by (rule locked_frees [OF assms(2) l(1)], erule (1) nest_body_frees(2) [OF assms(1)])+
  show "em_lock (snd (snd r)) = rw_new" using L(1) l(2) by simp
  let ?e1 = "e\<lparr>em_lock := rw_new\<lparr>rw_writer := Some self\<rparr>\<rparr>"
  obtain e2 where e2: "nest_body n call f nm u ?e1 = Inr (r1, e2)" "owns self e2" "e' = e2\<lparr>em_lock := rw_new\<rparr>"
    using L(2) by auto
  have o1: "owns self ?e1" by (simp add: owns_def)
  have "em_lock e2 \<noteq> rw_new" using e2(2) by (simp add: owns_def rw_new_def)
  then have "nest_body n refuse f nm u ?e1 = Inr (r1, e2)" using nest_body_frees(1) [OF assms(1) o1 e2(1)] by blast
  then have "locked self (nest_body n refuse f nm u) e = Inr (r1, e')"
    using e2(2,3) by (simp add: locked_def autolock_entered [OF assms(2)] owns_def autolock_end_writer rw_new_def)
  then show "nest_emit n refuse self f nm (u, e) = Inr r" by (simp add: nest_emit_def l(2) split: prod.split)
qed

lemma em_add_frees:
  assumes "entered self e" "em_add self nm l d once e = Inr (ok, e')"
  shows "refuse (AddCall nm l d once) (u, e) = Inr (ok, u, e') \<or> em_lock e' = rw_new"
proof -
  obtain n where n: "c_strlen nm = Inr n" using assms(2) by (auto simp: em_add_def rbind_eq_Inr)
  show ?thesis
  proof (cases "n > 15")
    case False
    then have "locked self (em_on_body nm l d once) e = Inr (ok, e')" using assms(2) n by (simp add: em_add_def)
    from locked_leaf_frees [OF assms(1) this em_on_body_lock] show ?thesis by simp
  qed (use assms(2) n in \<open>simp add: em_add_def\<close>)
qed

lemma nest_call_frees: "frees_lock self (nest_call n self f)"
proof (induction n)
  case (Suc n)
  show ?case
    unfolding frees_lock_def
  proof (intro allI impI)
    fix c u e and r :: "bool \<times> 'a \<times> emitter"
    assume e: "entered self e" "nest_call (Suc n) self f c (u, e) = Inr r"
    show "refuse c (u, e) = Inr r \<or> em_lock (snd (snd r)) = rw_new"
    proof (cases c)
      case (AddCall nm l d once)
      then show ?thesis using e(2) em_add_frees [OF e(1), of nm l d once _ _ u] by (auto simp: rbind_eq_Inr)
    next
      case (OffCall nm l)
      then obtain ok e' where o: "locked self (em_off_body nm l) e = Inr (ok, e')" "r = (ok, u, e')"
        using e(2) by (auto simp: rbind_eq_Inr em_off_def)
      from locked_leaf_frees [OF e(1) o(1) em_off_body_lock] o(2) show ?thesis by simp
    next
      case (EmitCall nm)
      then show ?thesis using e(2) nest_emit_frees(1) [OF Suc.IH e(1)] by simp
    qed
  qed
qed (simp add: frees_lock_def)

end
