(* ===== verification/GclEventNestProps.thy ===== *)
theory GclEventNestProps
  imports GclEventNest
begin

section \<open>EventEmitter: what becomes of calls from listeners\<close>

text \<open>
  An \<open>emit\<close> whose listeners leave the emitter alone is the \<open>emit\<close> of \<open>GclEvent\<close>. One whose listener
  calls the emitter never returns properly: either the lock is gone when it unlocks it, or it calls
  itself for ever.
\<close>

subsection \<open>Scripts that call\<close>

text \<open>Every way through the script comes to a call that takes the lock.\<close>

primrec must_call :: "'u script \<Rightarrow> bool" where
  "must_call (Done u) \<longleftrightarrow> False"
| "must_call (Look k) \<longleftrightarrow> (\<forall>eb. must_call (k eb))"
| "must_call (Rewrite eb s) \<longleftrightarrow> must_call s"
| "must_call (Ask c u k) \<longleftrightarrow> \<not> refused c \<or> must_call (k False u)"

lemma must_call_fails: "must_call s \<Longrightarrow> run_script refuse peek s e \<noteq> Inr r"
proof (induction s arbitrary: e)
  case (Ask c u k)
  then have IH: "must_call (k False u) \<Longrightarrow> run_script refuse peek (k False u) e \<noteq> Inr r" by (intro Ask.IH) auto
  show ?case using Ask.prems IH by auto
qed (auto simp: rbind_eq_Inr)

text \<open>The events of a script that is refused all calls: only the block of its own event changes.\<close>

definition own_block :: "nat \<Rightarrow> emitter \<Rightarrow> emitter \<Rightarrow> bool" where
  "own_block k e e' \<longleftrightarrow> (\<exists>q b. e' = e\<lparr>em_listeners := q\<rparr> \<and> lists_ok q \<and> cq_nodes q = cq_nodes (em_listeners e)
     \<and> blocks q = (blocks (em_listeners e))[k := b])"

lemma own_block_refl: "lists_ok (em_listeners e) \<Longrightarrow> own_block k e e"
  unfolding own_block_def by (intro exI [of _ "em_listeners e"] exI [of _ "blocks (em_listeners e) ! k"]) simp

lemma own_block_trans: "own_block k e e1 \<Longrightarrow> own_block k e1 e2 \<Longrightarrow> own_block k e e2"
  unfolding own_block_def by fastforce

lemma own_blockD: "own_block k e e' \<Longrightarrow> lists_ok (em_listeners e')" "own_block k e e' \<Longrightarrow> cq_nodes (em_listeners e') = cq_nodes (em_listeners e)"
  "own_block k e e' \<Longrightarrow> j \<noteq> k \<Longrightarrow> blocks (em_listeners e') ! j = blocks (em_listeners e) ! j"
  by (auto simp: own_block_def)

lemma write_own_block:
  assumes "lists_ok (em_listeners e)" "k < length (cq_nodes (em_listeners e))" "length cs \<le> 32"
    "cq_write (cq_nodes (em_listeners e) ! k) cs (em_listeners e) = Inr q"
  shows "own_block k e (e\<lparr>em_listeners := q\<rparr>)"
proof -
  obtain q' where "cq_write (cq_nodes (em_listeners e) ! k) cs (em_listeners e) = Inr q'" "lists_ok q'"
    "cq_nodes q' = cq_nodes (em_listeners e)"
    "cq_items q' = (cq_items (em_listeners e))[k := overwrite 0 cs (cq_items (em_listeners e) ! k)]"
    "cq_cap q' = cq_cap (em_listeners e)" "cq_tidx q' = cq_tidx (em_listeners e)"
    by (rule lists_write [OF assms(1-3)])
  then show ?thesis
    using assms(4) unfolding own_block_def blocks_def
    by (intro exI [of _ q'] exI [of _ "eb_dec (overwrite 0 cs (cq_items (em_listeners e) ! k))"]) (simp add: map_update)
qed

lemma refuse_own_block:
  "lists_ok (em_listeners e) \<Longrightarrow> k < length (cq_nodes (em_listeners e)) \<Longrightarrow>
   run_script refuse (cq_nodes (em_listeners e) ! k) s e = Inr (u', e') \<Longrightarrow> own_block k e e'"
proof (induction s arbitrary: e)
  case (Done u)
  then show ?case by (simp add: own_block_refl)
next
  case (Look g)
  then show ?case by (auto simp: rbind_eq_Inr)
next
  case (Rewrite eb s)
  then obtain q where q: "cq_write (cq_nodes (em_listeners e) ! k) (take 25 (eb_enc eb)) (em_listeners e) = Inr q"
    "run_script refuse (cq_nodes (em_listeners e) ! k) s (e\<lparr>em_listeners := q\<rparr>) = Inr (u', e')"
    by (auto simp: rbind_eq_Inr)
  have o: "own_block k e (e\<lparr>em_listeners := q\<rparr>)" by (rule write_own_block [OF Rewrite.prems(1,2) _ q(1)]) simp
  have "own_block k (e\<lparr>em_listeners := q\<rparr>) e'"
    using own_blockD(1,2) [OF o] Rewrite.prems(2) q(2) by (intro Rewrite.IH) simp_all
  with o show ?case by (rule own_block_trans)
next
  case (Ask c u g)
  have IH: "run_script refuse (cq_nodes (em_listeners e) ! k) (g False u) e = Inr (u', e') \<Longrightarrow> own_block k e e'"
    by (rule Ask.IH [OF _ _ Ask.prems(1,2)]) auto
  show ?case using Ask.prems(3) IH by (auto split: if_splits)
qed

lemma turn_own_block:
  assumes "lists_ok (em_listeners e)" "k < length (cq_nodes (em_listeners e))"
    "nest_turn refuse f name (cq_nodes (em_listeners e) ! k) (u, e) = Inr (r, u', e')"
  shows "own_block k e e'" "r = None"
proof -
  let ?p = "cq_nodes (em_listeners e) ! k"
  obtain bs where bs: "cq_deref (em_listeners e) ?p = Inr bs"
    using assms(3) by (auto simp: nest_turn_def rbind_eq_Inr)
  have "own_block k e e' \<and> r = None"
  proof (cases "eb_name (eb_dec bs) = name")
    case True
    obtain u1 e1 where run: "nest_run refuse f ?p (eb_listener (eb_dec bs)) u e = Inr (u1, e1)" "nest_after ?p (u1, e1) = Inr (r, u', e')"
      using assms(3) unfolding nest_turn_match [OF bs True] rbind_eq_Inr by fast
    have o: "own_block k e e1"
      using run(1) refuse_own_block [OF assms(1,2)] own_block_refl [OF assms(1)] by (auto simp: nest_run_def split: if_splits)
    obtain bs1 q where s: "r = None" "e' = e1\<lparr>em_listeners := q\<rparr>"
      "(if eb_once (eb_dec bs1) then cq_write ?p (le_bytes 8 0) (em_listeners e1) else Inr (em_listeners e1)) = Inr q"
      by (rule nest_afterE [OF run(2)]) blast
    have "own_block k e1 e'"
    proof (cases "eb_once (eb_dec bs1)")
      case True
      then show ?thesis
        using s(2,3) own_blockD(1,2) [OF o] assms(2) write_own_block [of e1 k "le_bytes 8 0" q] by simp
    next
      case False
      then have "q = em_listeners e1" using s(3) by simp
      then show ?thesis using s(2) own_block_refl [OF own_blockD(1) [OF o]] by simp
    qed
    with o s(1) show ?thesis by (auto intro: own_block_trans)
  next
    case False
    then show ?thesis using assms(3) own_block_refl [OF assms(1)] by (simp add: nest_turn_other [OF bs False])
  qed
  then show "own_block k e e'" "r = None" by simp_all
qed

subsection \<open>A listener that calls\<close>

definition calls_at :: "'u scripts \<Rightarrow> ptr \<Rightarrow> event_block \<Rightarrow> bool" where
  "calls_at f name b \<longleftrightarrow> eb_name b = name \<and> eb_listener b \<noteq> 0 \<and> (\<forall>u. must_call (f (eb_listener b) u))"

lemma deref_block: "lists_ok q \<Longrightarrow> k < length (cq_nodes q) \<Longrightarrow> \<exists>bs. cq_deref q (cq_nodes q ! k) = Inr bs \<and> eb_dec bs = blocks q ! k"
  using cq_deref_node [of q k] length_cq_nodes [of q] by (simp add: lists_okD(1) blocks_def)

lemma nest_list_fails:
  "lists_ok (em_listeners e) \<Longrightarrow> i \<le> j \<Longrightarrow> j < length (cq_nodes (em_listeners e)) \<Longrightarrow>
   calls_at f name (blocks (em_listeners e) ! j) \<Longrightarrow>
   each_list (nest_turn refuse f name) (drop i (cq_nodes (em_listeners e))) (u, e) \<noteq> Inr r"
proof (induction "j - i" arbitrary: i u e)
  case 0
  then have i: "i = j" by simp
  obtain bs where bs: "cq_deref (em_listeners e) (cq_nodes (em_listeners e) ! j) = Inr bs" "eb_dec bs = blocks (em_listeners e) ! j"
    using deref_block [OF "0.prems"(1,3)] by blast
  have c: "eb_name (eb_dec bs) = name" "eb_listener (eb_dec bs) \<noteq> 0" "must_call (f (eb_listener (eb_dec bs)) u)"
    using "0.prems"(4) by (simp_all add: bs(2) calls_at_def)
  have "nest_turn refuse f name (cq_nodes (em_listeners e) ! j) (u, e) \<noteq> Inr z" for z
    using must_call_fails [OF c(3)] c(2) by (simp add: nest_turn_match [OF bs(1) c(1)] rbind_eq_Inr nest_run_def)
  moreover have "drop i (cq_nodes (em_listeners e)) = cq_nodes (em_listeners e) ! j # drop (Suc j) (cq_nodes (em_listeners e))"
    using i "0.prems"(3) by (simp add: Cons_nth_drop_Suc)
  ultimately show ?case by (simp add: rbind_eq_Inr)
next
  case (Suc m)
  then have i: "i < length (cq_nodes (em_listeners e))" "m = j - Suc i" "Suc i \<le> j" by simp_all
  have d: "drop i (cq_nodes (em_listeners e)) = cq_nodes (em_listeners e) ! i # drop (Suc i) (cq_nodes (em_listeners e))"
    using i(1) by (simp add: Cons_nth_drop_Suc)
  show ?case
  proof (cases "nest_turn refuse f name (cq_nodes (em_listeners e) ! i) (u, e)")
    case (Inr z)
    then obtain r1 u1 e1 where t: "nest_turn refuse f name (cq_nodes (em_listeners e) ! i) (u, e) = Inr (r1, u1, e1)"
      by (cases z) auto
    note o = turn_own_block [OF Suc.prems(1) i(1) t]
    have "each_list (nest_turn refuse f name) (drop (Suc i) (cq_nodes (em_listeners e1))) (u1, e1) \<noteq> Inr r"
      using own_blockD [OF o(1)] i(2,3) Suc.prems by (intro Suc.hyps(1)) auto
    then show ?thesis using t o own_blockD(2) [OF o(1)] by (simp add: d)
  qed (simp add: d)
qed

lemma each_more: "each n nxt body p z = Inr r \<Longrightarrow> n \<le> m \<Longrightarrow> each m nxt body p z = Inr r"
proof (induction n arbitrary: m p z)
  case 0
  then show ?case by (cases m) (auto split: if_splits)
next
  case (Suc n)
  then obtain m' where m: "m = Suc m'" "n \<le> m'" by (cases m) auto
  show ?case
  proof (cases "p = 0 \<or> (\<exists>x. body p z = Inl x)")
    case False
    then obtain r1 z1 where "body p z = Inr (r1, z1)" "p \<noteq> 0" by (cases "body p z") auto
    then show ?thesis using Suc.prems(1) Suc.IH [OF _ m(2), of "nxt p z1" z1] m(1) by (auto split: option.splits)
  qed (use Suc.prems m in auto)
qed

lemma nest_loop_fails:
  assumes "lists_ok (em_listeners e)" "b \<in> set (blocks (em_listeners e))" "calls_at f name b"
  shows "nest_loop n refuse f name (u, e) \<noteq> Inr r"
proof
  let ?ns = "cq_nodes (em_listeners e)" and ?N = "max n (length (cq_nodes (em_listeners e)))"
  assume "nest_loop n refuse f name (u, e) = Inr r"
  then have "each ?N (\<lambda>p z. cq_peek_next p (em_listeners (snd z))) (nest_turn refuse f name)
      (cq_peek (em_listeners (snd (u, e)))) (u, e) = Inr r"
    unfolding nest_loop_def by (rule each_more) simp
  moreover have "each ?N (\<lambda>p z. cq_peek_next p (em_listeners (snd z))) (nest_turn refuse f name)
      (cq_peek (em_listeners (snd (u, e)))) (u, e) = each_list (nest_turn refuse f name) (cq_nodes (em_listeners (snd (u, e)))) (u, e)"
  proof (rule fwd.each_nodes [where v = "\<lambda>z. em_listeners (snd z)" and P = "\<lambda>z. lists_ok (em_listeners (snd z))"])
    fix p z' z''
    assume z: "lists_ok (em_listeners (snd z'))" "cq_nodes (em_listeners (snd z')) = cq_nodes (em_listeners (snd (u, e)))"
      "p \<in> set (cq_nodes (em_listeners (snd (u, e))))" "nest_turn refuse f name p z' = Inr (None, z'')"
    then obtain k where k: "k < length (cq_nodes (em_listeners (snd z')))" "p = cq_nodes (em_listeners (snd z')) ! k"
      by (metis in_set_conv_nth)
    have "own_block k (snd z') (snd z'')"
      by (rule turn_own_block(1) [OF z(1) k(1), of f name "fst z'" None "fst z''"]) (use z(4) k(2) in simp)
    from own_blockD(1,2) [OF this] show "cq_wf (em_listeners (snd z'')) \<and> lists_ok (em_listeners (snd z''))
        \<and> cq_nodes (em_listeners (snd z'')) = cq_nodes (em_listeners (snd (u, e)))"
      using z(2) lists_okD(1) by simp
  qed (use assms(1) lists_okD(1) in simp_all)
  moreover obtain j where "j < length ?ns" "blocks (em_listeners e) ! j = b"
    using assms(2) length_blocks [OF assms(1)] by (metis in_set_conv_nth)
  ultimately show False
    using nest_list_fails [OF assms(1), of 0 j f name u r] assms(3) by simp
qed

lemma em_ok_new: "em_ok e \<Longrightarrow> em_lock e = rw_new"
  using em_okD(1) [of e] by (simp add: rw_free_def rw_new_def)

lemma matching_name:
  assumes "em_ok e" "\<forall>r \<in> set (cq_nodes (em_names e)). node_str (em_names e) r = s \<longrightarrow> r = p" "b \<in> set (matching e s)"
  shows "eb_name b = p" "b \<in> set (blocks (em_listeners e))"
  using assms em_okD(5) [OF assms(1)] by (auto simp: matching_def named_def)

text \<open>
  C35: A listener that calls the emitter it listens to, in any way that gets as far as the lock, keeps the
  \<open>emit\<close> that runs it from returning: whatever else the listeners do and however deep the calls go,
  the run faults.
\<close>

theorem emitter_reentrant_fails:
  assumes "em_ok e" "0 \<in> set nm" "c_str nm \<noteq> []"
    and "b \<in> set (matching e (c_str nm))" "eb_listener b \<noteq> 0" "\<And>u. must_call (f (eb_listener b) u)"
  shows "\<exists>x. nest_call n self f (EmitCall nm) (u, e) = Inl x"
proof (rule ccontr)
  assume "\<not> ?thesis"
  then obtain r where "nest_call n self f (EmitCall nm) (u, e) = Inr r"
    by (cases "nest_call n self f (EmitCall nm) (u, e)") auto
  then obtain m where m: "nest_emit m (nest_call m self f) self f nm (u, e) = Inr r" by (cases n) auto
  have en: "entered self e" using em_ok_new [OF assms(1)] by (rule entered_new)
  have "nest_emit m refuse self f nm (u, e) = Inr r" by (rule nest_emit_frees(2) [OF nest_call_frees en m])
  then obtain r' e' where body: "nest_body m refuse f nm u (e\<lparr>em_lock := rw_new\<lparr>rw_writer := Some self\<rparr>\<rparr>) = Inr (r', e')"
    by (auto simp: nest_emit_def locked_def autolock_entered [OF en] rbind_eq_Inr)
  show False
  proof (cases rule: em_find [OF assms(1-3), case_names unknown known])
    case unknown
    then have "node_str (em_names e) (eb_name b) \<noteq> c_str nm"
      using assms(4) by (auto simp: matching_def em_abs_def live_def entry_of_def)
    then show False using assms(4) by (simp add: matching_def)
  next
    case (known p)
    have "calls_at f p b" using matching_name(1) [OF assms(1) known(6) assms(4)] assms(5,6) by (simp add: calls_at_def)
    then show False
      using body known(1,2) nest_loop_fails [of "e\<lparr>em_lock := rw_new\<lparr>rw_writer := Some self\<rparr>\<rparr>" b f p m u] em_okD(4) [OF assms(1)]
        matching_name(2) [OF assms(1) known(6) assms(4)]
      by (auto simp: nest_body_def rbind_eq_Inr)
  qed
qed

text \<open>
  When a nested call that took the lock has returned, the outer \<open>emit\<close> still runs its loop and any
  other thread gets the lock.
\<close>

theorem nested_call_admits_others:
  assumes "owns self e" "nest_call n self f c (u, e) = Inr (ok, u', e')" "\<not> refused c"
  shows "rw_wrlock other (em_lock e') = Some (0, rw_new\<lparr>rw_writer := Some other\<rparr>)"
proof -
  have "entered self e" using assms(1) by (simp add: entered_def)
  then have "em_lock e' = rw_new"
    using nest_call_frees [of self n f] assms(2,3) by (fastforce simp: frees_lock_def)
  then show ?thesis by (simp add: rw_wrlock_def rw_new_def)
qed

text \<open>A small emitter with one listener, for the examples.\<close>

definition em_one :: emitter where
  "em_one = em_after (em_on 1 [97, 0] 100 7 em_demo)"

lemma em_one_ok: "em_ok em_one" "matching em_one [97] = [\<lparr>eb_name = 4116, eb_listener = 100, eb_data = 7, eb_once = False\<rparr>]"
  "c_str [97, 0 :: u8_t] = [97]"
proof -
  show c: "c_str [97, 0 :: u8_t] = [97]" by (simp add: c_str_def)
  show "em_ok em_one" unfolding em_one_def em_on_def
    by (rule em_after_ok(1)) (simp_all add: em_demo_ok em_demo_blank c)
  show "matching em_one [97] = [\<lparr>eb_name = 4116, eb_listener = 100, eb_data = 7, eb_once = False\<rparr>]" by code_simp
qed

theorem emitter_reentrant_fails_witness:
  "\<exists>x. nest_call 9 1 (\<lambda>l u. Ask (OffCall [97, 0] l) u (\<lambda>ok u. Done u)) (EmitCall [97, 0]) ((), em_one) = Inl x"
  by (rule emitter_reentrant_fails [OF em_one_ok(1), of "[97, 0]" "\<lparr>eb_name = 4116, eb_listener = 100, eb_data = 7, eb_once = False\<rparr>"])
    (simp_all add: em_one_ok)

theorem nested_call_admits_others_witness:
  "rw_wrlock 2 (em_lock (snd (snd (False, (), em_one)))) = Some (0, rw_new\<lparr>rw_writer := Some 2\<rparr>)"
proof -
  let ?e = "em_one\<lparr>em_lock := rw_new\<lparr>rw_writer := Some 1\<rparr>\<rparr>"
  have "nest_call 1 1 (\<lambda>l u. Done u) (OffCall [98, 0] 100) ((), ?e) = Inr (False, (), em_one)" by code_simp
  from nested_call_admits_others [OF _ this, of 2] show ?thesis by (simp add: owns_def)
qed

subsection \<open>A listener that emits its own event\<close>

lemma each_stuck:
  assumes "\<And>j. j < i \<Longrightarrow> ns ! j \<noteq> 0 \<and> body (ns ! j) z = Inr (None :: 'r option, z) \<and> nxt (ns ! j) z = ns ! Suc j"
    and "ns ! i \<noteq> 0" "body (ns ! i) z = Inl Diverges"
  shows "j \<le> i \<Longrightarrow> each m nxt body (ns ! j) z = Inl Diverges"
proof (induction m arbitrary: j)
  case 0
  then show ?case using assms(1) [of j] assms(2) by (cases "j = i") auto
next
  case (Suc m)
  then show ?case using assms(1) [of j] assms(2,3) by (cases "j = i") auto
qed

definition asks_again :: "'u scripts \<Rightarrow> ptr \<Rightarrow> u8_t list \<Rightarrow> bool" where
  "asks_again f l nm \<longleftrightarrow> (\<forall>u. \<exists>u' k. f l u = Ask (EmitCall nm) u' k)"

lemma nest_emit_again:
  assumes "lists_ok (em_listeners e)" "find_event_name nm (em_names e) = Inr p" "p \<noteq> 0"
    and "i < length (cq_nodes (em_listeners e))" "eb_name (blocks (em_listeners e) ! i) = p"
    and "eb_listener (blocks (em_listeners e) ! i) \<noteq> 0" "asks_again f (eb_listener (blocks (em_listeners e) ! i)) nm"
    and "\<And>j. j < i \<Longrightarrow> eb_name (blocks (em_listeners e) ! j) \<noteq> p"
  shows "entered self (e\<lparr>em_lock := L\<rparr>) \<Longrightarrow> nest_call n self f (EmitCall nm) (u, e\<lparr>em_lock := L\<rparr>) = Inl Diverges"
proof (induction n arbitrary: u L)
  case (Suc n)
  let ?q = "em_listeners e" and ?e = "e\<lparr>em_lock := rw_new\<lparr>rw_writer := Some self\<rparr>\<rparr>"
  let ?turn = "nest_turn (nest_call n self f) f p"
  have again: "nest_call n self f (EmitCall nm) (u, ?e) = Inl Diverges" for u
    by (rule Suc.IH) (simp add: entered_def owns_def)
  note w = lists_okD(1) [OF assms(1)]
  have body: "?turn (cq_nodes ?q ! i) (u, ?e) = Inl Diverges" for u
  proof -
    obtain bs where bs: "cq_deref ?q (cq_nodes ?q ! i) = Inr bs" "eb_dec bs = blocks ?q ! i"
      using deref_block [OF assms(1,4)] by blast
    then have bs': "cq_deref (em_listeners ?e) (cq_nodes ?q ! i) = Inr bs" "eb_name (eb_dec bs) = p" using assms(5) by simp_all
    obtain u' k where "f (eb_listener (eb_dec bs)) u = Ask (EmitCall nm) u' k"
      using assms(7) [unfolded asks_again_def, THEN spec, of u] unfolding bs(2) by blast
    then show ?thesis
      using assms(6) bs(2) again by (simp add: nest_turn_match [OF bs'] nest_run_def)
  qed
  have before: "cq_nodes ?q ! j \<noteq> 0 \<and> ?turn (cq_nodes ?q ! j) (u, ?e) = Inr (None, u, ?e)
      \<and> cq_peek_next (cq_nodes ?q ! j) ?q = cq_nodes ?q ! Suc j" if j: "j < i" for j u
  proof -
    have jl: "j < length (cq_nodes ?q)" "Suc j < length (cq_nodes ?q)" using j assms(4) by simp_all
    obtain bs where bs: "cq_deref ?q (cq_nodes ?q ! j) = Inr bs" "eb_dec bs = blocks ?q ! j"
      using deref_block [OF assms(1) jl(1)] by blast
    then have "?turn (cq_nodes ?q ! j) (u, ?e) = Inr (None, u, ?e)"
      using assms(8) [OF j] by (intro nest_turn_other [of ?e _ bs]) simp_all
    then show ?thesis using fwd.nodes_nonnull [OF w] fwd.nxt_nth [OF w, of j] jl by simp
  qed
  have "cq_nodes ?q \<noteq> []" using assms(4) by auto
  then have start: "cq_peek ?q = cq_nodes ?q ! 0" using fwd.start_first [OF w] by simp
  have "each n (\<lambda>p z. cq_peek_next p (em_listeners (snd z))) ?turn (cq_nodes ?q ! 0) (u, ?e) = Inl Diverges"
    by (rule each_stuck [of i]) (use before body fwd.nodes_nonnull [OF w] assms(4) in simp_all)
  then have "nest_loop n (nest_call n self f) f p (u, ?e) = Inl Diverges" by (simp add: nest_loop_def start)
  then show ?case
    using assms(2,3) by (simp add: nest_emit_def locked_def autolock_entered [OF Suc.prems, simplified] nest_body_def)
qed simp

text \<open>
  A listener that begins by emitting the event it listens to, and is the first of its event, is
  called for ever: the lock does not stop the nested \<open>emit\<close>, and no number of turns and no depth of
  the stack is enough.
\<close>

theorem emitter_self_emit_diverges:
  assumes "em_ok e" "0 \<in> set nm" "c_str nm \<noteq> []"
    and "matching e (c_str nm) = b # bs" "eb_listener b \<noteq> 0" "\<And>u. \<exists>u' k. f (eb_listener b) u = Ask (EmitCall nm) u' k"
  shows "nest_call n self f (EmitCall nm) (u, e) = Inl Diverges"
proof (cases rule: em_find [OF assms(1-3), case_names unknown known])
  case unknown
  have "b \<in> set (matching e (c_str nm))" using assms(4) by simp
  then show ?thesis using unknown(3) by (auto simp: matching_def em_abs_def live_def entry_of_def)
next
  case (known p)
  let ?P = "\<lambda>b. eb_name b \<noteq> 0 \<and> node_str (em_names e) (eb_name b) = c_str nm"
  have "filter ?P (blocks (em_listeners e)) = b # bs" using assms(4) by (simp add: matching_def)
  then obtain xs ys where x: "blocks (em_listeners e) = xs @ b # ys" "\<forall>x \<in> set xs. \<not> ?P x"
    by (auto dest: filter_eq_ConsD)
  have lo: "lists_ok (em_listeners e)" by (rule em_okD(4) [OF assms(1)])
  have p: "eb_name b = p" by (rule matching_name(1) [OF assms(1) known(6)]) (simp add: assms(4))
  have bi: "blocks (em_listeners e) ! length xs = b" "length xs < length (cq_nodes (em_listeners e))"
    using x(1) length_blocks [OF lo] by simp_all
  have pre: "eb_name (blocks (em_listeners e) ! j) \<noteq> p" if "j < length xs" for j
  proof -
    have "xs ! j \<in> set xs" using that by simp
    then show ?thesis using x that known(2,4) by (auto simp: nth_append)
  qed
  have "nest_call n self f (EmitCall nm) (u, e\<lparr>em_lock := rw_new\<rparr>) = Inl Diverges"
    by (rule nest_emit_again [OF lo known(1,2) bi(2)])
      (use bi(1) p assms(5,6) pre in \<open>simp_all add: asks_again_def entered_def\<close>)
  moreover have "e\<lparr>em_lock := rw_new\<rparr> = e" using em_ok_new [OF assms(1)] by simp
  ultimately show ?thesis by simp
qed

theorem emitter_self_emit_diverges_witness:
  "nest_call 1000 1 (\<lambda>l u. Ask (EmitCall [97, 0]) (u + 1 :: nat) (\<lambda>ok u. Done u)) (EmitCall [97, 0]) (0, em_one) = Inl Diverges"
  by (rule emitter_self_emit_diverges [OF em_one_ok(1), of "[97, 0]" "\<lparr>eb_name = 4116, eb_listener = 100, eb_data = 7, eb_once = False\<rparr>"])
    (simp_all add: em_one_ok)

subsection \<open>Listeners that leave the emitter alone\<close>

text \<open>A listener of \<open>GclEvent\<close> as a script.\<close>

definition plain :: "'u listeners \<Rightarrow> 'u scripts" where
  "plain call l u = Look (\<lambda>eb. case call l eb u of (eb, u) \<Rightarrow> Rewrite eb (Done u))"

definition with_listeners :: "emitter \<Rightarrow> ('r option \<times> cqueue \<times> 'u) \<Rightarrow> ('r option \<times> 'u \<times> emitter)" where
  "with_listeners e z = (case z of (r, q, u) \<Rightarrow> (r, u, e\<lparr>em_listeners := q\<rparr>))"

lemma deref_written:
  assumes "lists_ok q" "k < length (cq_nodes q)" "cq_write (cq_nodes q ! k) (take 25 (eb_enc eb)) q = Inr q'"
  shows "\<exists>bs. cq_deref q' (cq_nodes q ! k) = Inr bs \<and> eb_dec bs = eb"
proof -
  have "length (take 25 (eb_enc eb)) \<le> 32" by simp
  then obtain q1 where q1: "cq_write (cq_nodes q ! k) (take 25 (eb_enc eb)) q = Inr q1" "lists_ok q1" "cq_nodes q1 = cq_nodes q"
    "cq_items q1 = (cq_items q)[k := overwrite 0 (take 25 (eb_enc eb)) (cq_items q ! k)]" "cq_cap q1 = cq_cap q" "cq_tidx q1 = cq_tidx q"
    by (rule lists_write [OF assms(1,2)])
  have "k < length (cq_items q)" using assms(2) length_cq_nodes [OF lists_okD(1) [OF assms(1)]] by simp
  then have "length (cq_items q ! k) = 32" "cq_items q1 ! k = overwrite 0 (take 25 (eb_enc eb)) (cq_items q ! k)"
    using lists_okD(2) [OF assms(1)] q1(4) by simp_all
  then show ?thesis
    using cq_deref_node [OF lists_okD(1) [OF q1(2)], of k] q1(1,3) assms(2,3) by (simp add: eb_dec_front)
qed

lemma plain_turn:
  assumes "lists_ok (em_listeners e)" "k < length (cq_nodes (em_listeners e))"
  shows "nest_turn c (plain call) name (cq_nodes (em_listeners e) ! k) (u, e)
    = rbind (emit_turn call name (cq_nodes (em_listeners e) ! k) (em_listeners e, u)) (\<lambda>z. Inr (with_listeners e z))"
proof -
  let ?q = "em_listeners e" and ?p = "cq_nodes (em_listeners e) ! k"
  obtain bs where bs: "cq_deref ?q ?p = Inr bs" "eb_dec bs = blocks ?q ! k" using deref_block [OF assms] by blast
  show ?thesis
  proof (cases "eb_name (eb_dec bs) = name")
    case False
    then show ?thesis using bs(1) by (simp add: nest_turn_other [OF bs(1) False] emit_turn_def with_listeners_def)
  next
    case True
    show ?thesis
    proof (cases "eb_listener (eb_dec bs) = 0")
      case True
      then show ?thesis
        using bs(1) \<open>eb_name (eb_dec bs) = name\<close>
        by (auto simp: nest_turn_match [OF bs(1)] nest_run_def nest_after_def emit_turn_def with_listeners_def rbind_def split: sum.split)
    next
      case False
      obtain eb1 u1 where c: "call (eb_listener (eb_dec bs)) (eb_dec bs) u = (eb1, u1)"
        by (cases "call (eb_listener (eb_dec bs)) (eb_dec bs) u")
      have le: "length (take 25 (eb_enc eb1)) \<le> 32" by simp
      obtain q1 where q1: "cq_write ?p (take 25 (eb_enc eb1)) ?q = Inr q1"
        using lists_write [OF assms le] by metis
      obtain bs1 where "cq_deref q1 ?p = Inr bs1" "eb_dec bs1 = eb1" using deref_written [OF assms q1] by blast
      then show ?thesis
        using bs(1) q1 c False
        by (auto simp: nest_turn_match [OF bs(1) True] nest_run_def plain_def nest_after_def emit_turn_def True with_listeners_def rbind_def
            split: sum.split)
    qed
  qed
qed

lemma plain_list:
  "lists_ok (em_listeners e) \<Longrightarrow> k \<le> length (cq_nodes (em_listeners e)) \<Longrightarrow>
   each_list (nest_turn c (plain call) name) (drop k (cq_nodes (em_listeners e))) (u, e)
     = rbind (each_list (emit_turn call name) (drop k (cq_nodes (em_listeners e))) (em_listeners e, u)) (\<lambda>z. Inr (with_listeners e z))"
proof (induction "length (cq_nodes (em_listeners e)) - k" arbitrary: k e u)
  case 0
  then show ?case by (simp add: with_listeners_def)
next
  case (Suc m)
  then have k: "k < length (cq_nodes (em_listeners e))" by simp
  let ?q = "em_listeners e"
  obtain q1 u1 where q1: "emit_turn call name (cq_nodes ?q ! k) (?q, u) = Inr (None, q1, u1)" "lists_ok q1" "cq_nodes q1 = cq_nodes ?q"
    using emit_turn_spec [OF Suc.prems(1) k] by metis
  have d: "drop k (cq_nodes ?q) = cq_nodes ?q ! k # drop (Suc k) (cq_nodes ?q)" using k by (simp add: Cons_nth_drop_Suc)
  have "each_list (nest_turn c (plain call) name) (drop (Suc k) (cq_nodes ?q)) (u1, e\<lparr>em_listeners := q1\<rparr>)
     = rbind (each_list (emit_turn call name) (drop (Suc k) (cq_nodes ?q)) (q1, u1)) (\<lambda>z. Inr (with_listeners e z))"
    using Suc.hyps(1) [of "e\<lparr>em_listeners := q1\<rparr>" "Suc k" u1] Suc.hyps(2) Suc.prems q1(2,3) k by (simp add: with_listeners_def)
  then show ?case
    using q1(1) by (simp add: d plain_turn [OF Suc.prems(1) k] with_listeners_def)
qed

lemma plain_loop:
  assumes "lists_ok (em_listeners e)" "length (dat (em_listeners e)) \<le> n"
  shows "nest_loop n c (plain call) name (u, e)
    = rbind (each (length (dat (em_listeners e))) (\<lambda>p z. cq_peek_next p (fst z)) (emit_turn call name)
        (cq_peek (em_listeners e)) (em_listeners e, u)) (\<lambda>z. Inr (with_listeners e z))"
proof -
  let ?q = "em_listeners e"
  have len: "length (cq_nodes ?q) \<le> length (dat ?q)" by (rule lists_okD(4) [OF assms(1)])
  have "each n (\<lambda>p z. cq_peek_next p (em_listeners (snd z))) (nest_turn c (plain call) name)
      (cq_peek (em_listeners (snd (u, e)))) (u, e)
      = each_list (nest_turn c (plain call) name) (cq_nodes (em_listeners (snd (u, e)))) (u, e)"
  proof (rule fwd.each_nodes [where v = "\<lambda>z. em_listeners (snd z)" and P = "\<lambda>z. lists_ok (em_listeners (snd z))"])
    fix p and z' z'' :: "'a \<times> emitter"
    assume z: "lists_ok (em_listeners (snd z'))" "cq_nodes (em_listeners (snd z')) = cq_nodes (em_listeners (snd (u, e)))"
      "p \<in> set (cq_nodes (em_listeners (snd (u, e))))" "nest_turn c (plain call) name p z' = Inr (None, z'')"
    then obtain k where k: "k < length (cq_nodes (em_listeners (snd z')))" "p = cq_nodes (em_listeners (snd z')) ! k"
      by (metis in_set_conv_nth)
    obtain q1 u1 where "emit_turn call name (cq_nodes (em_listeners (snd z')) ! k) (em_listeners (snd z'), fst z') = Inr (None, q1, u1)"
      "lists_ok q1" "cq_nodes q1 = cq_nodes (em_listeners (snd z'))"
      using emit_turn_spec [OF z(1) k(1)] by metis
    then show "cq_wf (em_listeners (snd z'')) \<and> lists_ok (em_listeners (snd z''))
        \<and> cq_nodes (em_listeners (snd z'')) = cq_nodes (em_listeners (snd (u, e)))"
      using z(2,4) plain_turn [OF z(1) k(1), of c call name "fst z'"] k(2) by (auto simp: with_listeners_def lists_okD(1))
  qed (use assms len lists_okD(1) in simp_all)
  moreover have "each (length (dat ?q)) (\<lambda>p z. cq_peek_next p (fst z)) (emit_turn call name) (cq_peek (fst (?q, u))) (?q, u)
      = each_list (emit_turn call name) (cq_nodes (fst (?q, u))) (?q, u)"
  proof (rule fwd.each_nodes [where v = fst and P = "\<lambda>z. lists_ok (fst z)"])
    fix p and z' z'' :: "cqueue \<times> 'a"
    assume z: "lists_ok (fst z')" "cq_nodes (fst z') = cq_nodes (fst (?q, u))"
      "p \<in> set (cq_nodes (fst (?q, u)))" "emit_turn call name p z' = Inr (None, z'')"
    then obtain k where k: "k < length (cq_nodes (fst z'))" "p = cq_nodes (fst z') ! k" by (metis in_set_conv_nth)
    obtain q1 u1 where "emit_turn call name (cq_nodes (fst z') ! k) (fst z', snd z') = Inr (None, q1, u1)"
      "lists_ok q1" "cq_nodes q1 = cq_nodes (fst z')"
      using emit_turn_spec [OF z(1) k(1)] by metis
    then show "cq_wf (fst z'') \<and> lists_ok (fst z'') \<and> cq_nodes (fst z'') = cq_nodes (fst (?q, u))"
      using z(2,4) k(2) lists_okD(1) by auto
  qed (use assms len lists_okD(1) in simp_all)
  ultimately show ?thesis
    using plain_list [OF assms(1), of 0 c call name u] by (simp add: nest_loop_def)
qed

text \<open>
  With listeners that do not call the emitter the loop with calls from inside is the loop without:
  an \<open>emit\<close> with as many turns as its queue has bytes gives the same answer, state of the caller and
  emitter, and whatever a nested call would have done does not matter.
\<close>

theorem emitter_plain_listeners:
  assumes "em_ok e" "length (dat (em_listeners e)) \<le> n"
  shows "nest_call (Suc n) self (plain call) (EmitCall nm) (u, e)
    = rbind (em_emit self call nm u e) (\<lambda>((ok, u), e). Inr (ok, u, e))"
proof -
  let ?e = "e\<lparr>em_lock := rw_new\<lparr>rw_writer := Some self\<rparr>\<rparr>" and ?c = "nest_call n self (plain call)"
  have en: "entered self e" using em_ok_new [OF assms(1)] by (rule entered_new)
  have l: "lists_ok (em_listeners ?e)" "length (dat (em_listeners ?e)) \<le> n" using assms(2) em_okD(4) [OF assms(1)] by simp_all
  have "nest_body n ?c (plain call) nm u ?e = em_emit_body call nm u ?e"
    using plain_loop [OF l, of ?c call _ u]
    by (simp add: nest_body_def em_emit_body_def with_listeners_def [abs_def] rbind_def split: sum.split prod.split)
  then show ?thesis
    by (simp add: nest_emit_def em_emit_def locked_def autolock_entered [OF en])
qed

theorem emitter_plain_listeners_witness:
  "nest_call 97 1 (plain (\<lambda>l b u. (b, u @ [l]))) (EmitCall [97, 0]) ([], em_one) = Inr (True, [100], em_one)"
proof -
  have "dat (em_listeners em_one) = dat (em_listeners em_one) \<and> length (dat (em_listeners em_one)) \<le> 96" by code_simp
  moreover have "em_emit 1 (\<lambda>l b u. (b, u @ [l])) [97, 0] [] em_one = Inr ((True, [100]), em_one)" by code_simp
  ultimately show ?thesis
    using emitter_plain_listeners [OF em_one_ok(1), of 96 1 "\<lambda>l b u. (b, u @ [l])" "[97, 0]" "[]"] by simp
qed

end
