(* ===== verification/GclQueMT.thy ===== *)
theory GclQueMT
  imports GclQueIter GclSync
begin

section \<open>QueueMT: \<open>include/gque.h\<close>\<close>

text \<open>
  Every method of \<open>QueueMT\<close> runs a method of the queue inside the scope of an \<open>AutoLockWrite\<close>
  or \<open>AutoLockRead\<close>. Here the methods are broken into the steps between which other threads
  run: the check of the indices, the copy of the item, the store of the index. A system is the
  queue, its lock and what every thread is doing; \<open>mt_step\<close> is one step of one thread. The
  history records the calls in the order in which their locks were released.
  \<open>init\<close> and \<open>clear\<close> of the class do not compile when used (a hidden two-argument overload, a
  \<open>const\<close> lock) and have no definition.
\<close>

subsection \<open>Calls\<close>

datatype mt_op = MtPut "u8_t list option" | MtGet bool | MtPush "u8_t list option" | MtPop bool
  | MtItemSize | MtIsEmpty | MtIsFull | MtLength | MtAvailable | MtCapacity

datatype mt_out = Flag bool | Item bool "u8_t list option" | Num u32_t

text \<open>The overloads with references pass the address of the item, which is never null.\<close>

definition mt_put_ref :: "u8_t list \<Rightarrow> mt_op" where
  "mt_put_ref item = MtPut (Some item)"

definition mt_get_ref :: mt_op where
  "mt_get_ref = MtGet True"

definition mt_push_ref :: "u8_t list \<Rightarrow> mt_op" where
  "mt_push_ref item = MtPush (Some item)"

definition mt_pop_ref :: mt_op where
  "mt_pop_ref = MtPop True"

text \<open>The methods that take the lock for writing.\<close>

fun mt_writes :: "mt_op \<Rightarrow> bool" where
  "mt_writes (MtPut _) = True"
| "mt_writes (MtGet _) = True"
| "mt_writes (MtPush _) = True"
| "mt_writes (MtPop _) = True"
| "mt_writes _ = False"

text \<open>What each method calls, as one step: \<open>pop\<close> calls \<open>get\<close>.\<close>

fun mt_atomic :: "mt_op \<Rightarrow> cqueue \<Rightarrow> (mt_out \<times> cqueue) res" where
  "mt_atomic (MtPut item) q = rbind (cq_put item q) (\<lambda>(b, q). Inr (Flag b, q))"
| "mt_atomic (MtGet item) q = rbind (cq_get item q) (\<lambda>(b, x, q). Inr (Item b x, q))"
| "mt_atomic (MtPush item) q = rbind (cq_push item q) (\<lambda>(b, q). Inr (Flag b, q))"
| "mt_atomic (MtPop item) q = rbind (cq_get item q) (\<lambda>(b, x, q). Inr (Item b x, q))"
| "mt_atomic MtItemSize q = Inr (Num (cq_item_size q), q)"
| "mt_atomic MtIsEmpty q = Inr (Flag (cq_is_empty q), q)"
| "mt_atomic MtIsFull q = Inr (Flag (cq_is_full q), q)"
| "mt_atomic MtLength q = rbind (cq_length q) (\<lambda>n. Inr (Num n, q))"
| "mt_atomic MtAvailable q = rbind (cq_available q) (\<lambda>n. Inr (Num n, q))"
| "mt_atomic MtCapacity q = rbind (cq_capacity q) (\<lambda>n. Inr (Num n, q))"

subsection \<open>The steps of a method\<close>

datatype mt_index = HeadIdx | TailIdx

datatype mt_local =
    Entry mt_op
  | CopyIn "u8_t list option" u32_t mt_index u32_t
  | CopyOut bool
  | SetIdx mt_index u32_t mt_out
  | Result mt_out
  | Failed fault

fun mt_check_put :: "u8_t list option \<Rightarrow> cqueue \<Rightarrow> mt_local" where
  "mt_check_put item q =
     (if m_q q = 0 then Result (Flag False)
      else let npos = q_tail (ctl q) + q_item_size (ctl q);
               npos = (if npos = q_end (ctl q) then q_begin (ctl q) else npos)
           in if npos = q_head (ctl q) then Result (Flag False)
              else CopyIn item (q_tail (ctl q)) TailIdx npos)"

fun mt_check_push :: "u8_t list option \<Rightarrow> cqueue \<Rightarrow> mt_local" where
  "mt_check_push item q =
     (if m_q q = 0 then Result (Flag False)
      else let pos = q_head (ctl q) - q_item_size (ctl q);
               pos = (if pos < q_begin (ctl q) then q_end (ctl q) - q_item_size (ctl q) else pos)
           in if pos = q_head (ctl q) then Result (Flag False) else CopyIn item pos HeadIdx pos)"

fun mt_check_get :: "bool \<Rightarrow> cqueue \<Rightarrow> mt_local" where
  "mt_check_get item q =
     (if m_q q = 0 \<or> q_head (ctl q) = q_tail (ctl q) then Result (Item False None) else CopyOut item)"

text \<open>One step; a finished or failed method stays as it is.\<close>

fun mt_micro :: "mt_local \<times> cqueue \<Rightarrow> mt_local \<times> cqueue" where
  "mt_micro (Entry (MtPut item), q) = (mt_check_put item q, q)"
| "mt_micro (Entry (MtPush item), q) = (mt_check_push item q, q)"
| "mt_micro (Entry (MtGet item), q) = (mt_check_get item q, q)"
| "mt_micro (Entry (MtPop item), q) = (mt_check_get item q, q)"
| "mt_micro (Entry op, q) =
     (case mt_atomic op q of Inl e \<Rightarrow> Failed e | Inr (out, _) \<Rightarrow> Result out, q)"
| "mt_micro (CopyIn item pos idx npos, q) =
     (case (case item of None \<Rightarrow> Inr q | Some bs \<Rightarrow> cq_copy_in pos bs q) of
        Inl e \<Rightarrow> (Failed e, q) | Inr q' \<Rightarrow> (SetIdx idx npos (Flag True), q'))"
| "mt_micro (CopyOut item, q) =
     (let npos = q_head (ctl q) + q_item_size (ctl q);
          npos = (if npos = q_end (ctl q) then q_begin (ctl q) else npos)
      in if item
         then case cq_copy_out (q_head (ctl q)) q of
                Inl e \<Rightarrow> (Failed e, q) | Inr bs \<Rightarrow> (SetIdx HeadIdx npos (Item True (Some bs)), q)
         else (SetIdx HeadIdx npos (Item True None), q))"
| "mt_micro (SetIdx HeadIdx npos out, q) = (Result out, cq_set_head npos q)"
| "mt_micro (SetIdx TailIdx npos out, q) = (Result out, cq_set_tail npos q)"
| "mt_micro (Result out, q) = (Result out, q)"
| "mt_micro (Failed e, q) = (Failed e, q)"

text \<open>The outcome of the remaining steps; three are always enough.\<close>

definition mt_outcome :: "mt_local \<times> cqueue \<Rightarrow> (mt_out \<times> cqueue) res" where
  "mt_outcome z =
     (case mt_micro (mt_micro (mt_micro z)) of
        (Result out, q) \<Rightarrow> Inr (out, q) | (Failed e, q) \<Rightarrow> Inl e | (_, q) \<Rightarrow> Inl Diverges)"

fun mt_rank :: "mt_local \<Rightarrow> nat" where
  "mt_rank (Entry _) = 3"
| "mt_rank (CopyIn _ _ _ _) = 2"
| "mt_rank (CopyOut _) = 2"
| "mt_rank (SetIdx _ _ _) = 1"
| "mt_rank _ = 0"

subsection \<open>Threads\<close>

datatype mt_pc = Outside | Calling mt_op | Inside mt_op mt_local

record mt_sys =
  mt_q :: cqueue
  mt_lock :: rwlock
  mt_pc :: "tid \<Rightarrow> mt_pc"
  mt_hist :: "(tid \<times> mt_op \<times> mt_out) list"

definition mt_init :: "cqueue \<Rightarrow> mt_sys" where
  "mt_init q = \<lparr>mt_q = q, mt_lock = rw_new, mt_pc = (\<lambda>_. Outside), mt_hist = []\<rparr>"

text \<open>The constructor of the lock object, which ignores the return code.\<close>

definition mt_acquire :: "mt_op \<Rightarrow> tid \<Rightarrow> rwlock \<Rightarrow> rwlock option" where
  "mt_acquire op t l =
     map_option snd (if mt_writes op then rw_wrlock t l else rw_rdlock t l)"

definition mt_at :: "tid \<Rightarrow> mt_pc \<Rightarrow> mt_sys \<Rightarrow> mt_sys" where
  "mt_at t pc s = s\<lparr>mt_pc := (mt_pc s)(t := pc)\<rparr>"

inductive mt_step :: "(mt_op \<Rightarrow> bool) \<Rightarrow> tid \<Rightarrow> mt_sys \<Rightarrow> mt_sys \<Rightarrow> bool" for allowed where
  mt_call: "mt_pc s t = Outside \<Longrightarrow> allowed op \<Longrightarrow> mt_step allowed t s (mt_at t (Calling op) s)"
| mt_enter: "mt_pc s t = Calling op \<Longrightarrow> mt_acquire op t (mt_lock s) = Some l \<Longrightarrow>
    mt_step allowed t s (mt_at t (Inside op (Entry op)) (s\<lparr>mt_lock := l\<rparr>))"
| mt_body: "mt_pc s t = Inside op l \<Longrightarrow> 0 < mt_rank l \<Longrightarrow> mt_micro (l, mt_q s) = (l', q') \<Longrightarrow>
    mt_step allowed t s (mt_at t (Inside op l') (s\<lparr>mt_q := q'\<rparr>))"
| mt_leave: "mt_pc s t = Inside op (Result out) \<Longrightarrow> rw_unlock t (mt_lock s) = Inr (r, l) \<Longrightarrow>
    mt_step allowed t s (mt_at t Outside (s\<lparr>mt_lock := l, mt_hist := mt_hist s @ [(t, op, out)]\<rparr>))"

inductive mt_reach :: "(mt_op \<Rightarrow> bool) \<Rightarrow> cqueue \<Rightarrow> mt_sys \<Rightarrow> bool" for allowed q0 where
  mt_reach_init: "mt_reach allowed q0 (mt_init q0)"
| mt_reach_step: "mt_reach allowed q0 s \<Longrightarrow> mt_step allowed t s s' \<Longrightarrow> mt_reach allowed q0 s'"

inductive_cases mt_stepE: "mt_step allowed t s s'"

text \<open>A history replayed one call at a time: every call must return what is recorded.\<close>

fun mt_replay :: "(tid \<times> mt_op \<times> mt_out) list \<Rightarrow> cqueue \<Rightarrow> cqueue option" where
  "mt_replay [] q = Some q"
| "mt_replay ((t, op, out) # h) q =
     (case mt_atomic op q of
        Inl e \<Rightarrow> None | Inr (out', q') \<Rightarrow> if out' = out then mt_replay h q' else None)"

subsection \<open>The steps of a method make up the method\<close>

lemma mt_micro_idle: "mt_rank (fst z) = 0 \<Longrightarrow> mt_micro z = z"
  by (cases z rule: mt_micro.cases) simp_all

lemma mt_micro_rank: "0 < mt_rank (fst z) \<Longrightarrow> mt_rank (fst (mt_micro z)) < mt_rank (fst z)"
  by (cases z rule: mt_micro.cases) (auto simp: Let_def split: sum.splits option.splits)

lemma mt_micro_ends: "mt_rank (fst (mt_micro (mt_micro (mt_micro z)))) = 0"
proof -
  have le: "mt_rank (fst z) \<le> 3" by (cases "fst z") simp_all
  have dec: "mt_rank (fst (mt_micro z)) \<le> mt_rank (fst z) - 1" for z
    using mt_micro_rank [of z] mt_micro_idle [of z] by (cases "mt_rank (fst z) = 0") simp_all
  show ?thesis using le dec [of z] dec [of "mt_micro z"] dec [of "mt_micro (mt_micro z)"] by linarith
qed

lemma mt_outcome_micro: "mt_outcome (mt_micro z) = mt_outcome z"
  unfolding mt_outcome_def mt_micro_idle [OF mt_micro_ends] ..

lemma mt_outcome_Result [simp]: "mt_outcome (Result out, q) = Inr (out, q)"
  and mt_outcome_Failed [simp]: "mt_outcome (Failed e, q) = Inl e"
  by (simp_all add: mt_outcome_def)

lemma mt_outcome_entry: "mt_outcome (Entry op, q) = mt_atomic op q"
  by (cases op; cases "cq_length q"; cases "cq_available q"; cases "cq_capacity q")
    (simp_all add: mt_outcome_def cq_put_def cq_push_def cq_get_def Let_def split: sum.splits option.splits)

lemma mt_atomic_reads:
  assumes "\<not> mt_writes op" "mt_atomic op q = Inr (out, q')"
  shows "q' = q"
  using assms
  by (cases op; cases "cq_length q"; cases "cq_available q"; cases "cq_capacity q") auto

lemma mt_micro_reads:
  assumes "\<not> mt_writes op" "l = Entry op \<or> mt_rank l = 0" "mt_micro (l, q) = (l', q')"
  shows "q' = q \<and> mt_rank l' = 0"
  using assms by (cases op) (auto simp: mt_micro_idle split: sum.splits)

subsection \<open>The invariant\<close>

text \<open>
  The lock is held by exactly the threads inside a method; a writer is alone. \<open>qb\<close> is the queue
  after the recorded calls: without a writer inside it is the queue itself, and every thread
  inside is on the way to the outcome its call has on \<open>qb\<close> as a single step.
\<close>

definition mt_inside :: "mt_sys \<Rightarrow> bool \<Rightarrow> tid \<Rightarrow> bool" where
  "mt_inside s w t \<longleftrightarrow> (case mt_pc s t of Inside op _ \<Rightarrow> mt_writes op = w | _ \<Rightarrow> False)"

definition mt_holds :: "mt_sys \<Rightarrow> bool" where
  "mt_holds s \<longleftrightarrow>
     (\<forall>t. rw_writer (mt_lock s) = Some t \<longleftrightarrow> mt_inside s True t)
     \<and> (\<forall>t. t \<in> set (rw_readers (mt_lock s)) \<longleftrightarrow> mt_inside s False t)
     \<and> distinct (rw_readers (mt_lock s))
     \<and> (rw_writer (mt_lock s) \<noteq> None \<longrightarrow> rw_readers (mt_lock s) = [])"

definition mt_bound :: "cqueue \<Rightarrow> mt_sys \<Rightarrow> bool" where
  "mt_bound qb s \<longleftrightarrow>
     (rw_writer (mt_lock s) = None \<longrightarrow> mt_q s = qb)
     \<and> (\<forall>t op l. mt_pc s t = Inside op l \<longrightarrow> mt_outcome (l, mt_q s) = mt_atomic op qb
          \<and> (mt_writes op \<or> l = Entry op \<or> mt_rank l = 0))"

lemma mt_at_simps [simp]:
  "mt_pc (mt_at t pc s) = (mt_pc s)(t := pc)" "mt_q (mt_at t pc s) = mt_q s"
  "mt_lock (mt_at t pc s) = mt_lock s" "mt_hist (mt_at t pc s) = mt_hist s"
  by (simp_all add: mt_at_def)

lemma mt_inside_at [simp]:
  "mt_inside (mt_at t pc s) w u \<longleftrightarrow>
     (if u = t then (case pc of Inside op _ \<Rightarrow> mt_writes op = w | _ \<Rightarrow> False) else mt_inside s w u)"
  "mt_inside (s\<lparr>mt_lock := l\<rparr>) w u = mt_inside s w u"
  "mt_inside (s\<lparr>mt_q := q\<rparr>) w u = mt_inside s w u"
  "mt_inside (s\<lparr>mt_lock := l, mt_hist := h\<rparr>) w u = mt_inside s w u"
  by (simp_all add: mt_inside_def)

lemma mt_acquireD:
  assumes "mt_acquire op t l = Some l'" "rw_writer l \<noteq> Some t" "t \<notin> set (rw_readers l)"
  shows "rw_writer l = None \<and> (if mt_writes op then rw_readers l = [] \<and> l' = l\<lparr>rw_writer := Some t\<rparr>
      else l' = l\<lparr>rw_readers := t # rw_readers l\<rparr>)"
  using assms by (auto simp: mt_acquire_def rw_wrlock_def rw_rdlock_def split: option.splits if_splits)

lemma mt_holdsD:
  assumes "mt_holds s"
  shows "rw_writer (mt_lock s) = Some t \<longleftrightarrow> mt_inside s True t"
    "t \<in> set (rw_readers (mt_lock s)) \<longleftrightarrow> mt_inside s False t"
    "distinct (rw_readers (mt_lock s))" "rw_writer (mt_lock s) \<noteq> None \<Longrightarrow> rw_readers (mt_lock s) = []"
  using assms by (simp_all add: mt_holds_def)

lemma mt_boundD:
  assumes "mt_bound qb s"
  shows "rw_writer (mt_lock s) = None \<Longrightarrow> mt_q s = qb"
    "mt_pc s t = Inside op l \<Longrightarrow> mt_outcome (l, mt_q s) = mt_atomic op qb"
    "mt_pc s t = Inside op l \<Longrightarrow> mt_writes op \<or> l = Entry op \<or> mt_rank l = 0"
  using assms unfolding mt_bound_def by simp_all

lemma mt_holds_unique: "mt_holds s \<Longrightarrow> mt_inside s True t \<Longrightarrow> mt_inside s w u \<Longrightarrow> u = t"
  using mt_holdsD(1) [of s t] mt_holdsD(1,2) [of s u] mt_holdsD(4) [of s] by (cases w) auto

lemma mt_holds_step: "mt_holds s \<Longrightarrow> mt_step allowed t s s' \<Longrightarrow> mt_holds s'"
proof (erule mt_stepE)
  fix op assume "mt_holds s" "s' = mt_at t (Calling op) s" "mt_pc s t = Outside"
  then show ?thesis by (auto simp: mt_holds_def mt_inside_def)
next
  fix op l assume a: "mt_holds s" "s' = mt_at t (Inside op (Entry op)) (s\<lparr>mt_lock := l\<rparr>)" "mt_pc s t = Calling op"
    "mt_acquire op t (mt_lock s) = Some l"
  have "\<not> mt_inside s w t" for w using a(3) by (simp add: mt_inside_def)
  then show ?thesis
    using a(1,2) mt_acquireD [OF a(4)] by (auto simp: mt_holds_def split: if_splits)
next
  fix op l l' q' assume "mt_holds s" "s' = mt_at t (Inside op l') (s\<lparr>mt_q := q'\<rparr>)" "mt_pc s t = Inside op l"
  then show ?thesis by (auto simp: mt_holds_def mt_inside_def)
next
  fix op out r l assume a: "mt_holds s" "s' = mt_at t Outside (s\<lparr>mt_lock := l, mt_hist := mt_hist s @ [(t, op, out)]\<rparr>)"
    "mt_pc s t = Inside op (Result out)" "rw_unlock t (mt_lock s) = Inr (r, l)"
  have "mt_inside s (mt_writes op) t" "\<not> mt_inside s (\<not> mt_writes op) t" using a(3) by (auto simp: mt_inside_def)
  then show ?thesis
    using a(1,2,4) mt_holds_unique [OF a(1)] by (cases "mt_writes op") (auto simp: mt_holds_def rw_unlock_def split: if_splits)
qed

lemma mt_bound_step:
  assumes "mt_holds s" "mt_bound qb s" "mt_step allowed t s s'"
  obtains h qb' where "mt_hist s' = mt_hist s @ h" "mt_replay h qb = Some qb'" "mt_bound qb' s'"
  using assms(3)
proof cases
  case (mt_call op)
  then have "mt_bound qb s'" using assms(2) by (auto simp: mt_bound_def)
  then show thesis using that [of "[]" qb] mt_call by simp
next
  case (mt_enter op l)
  have out: "\<not> mt_inside s w t" for w using mt_enter by (simp add: mt_inside_def)
  then have "rw_writer (mt_lock s) = None" using mt_acquireD [OF mt_enter(3)] mt_holdsD(1,2) [OF assms(1)] by blast
  then have "mt_q s = qb" using assms(2) by (simp add: mt_bound_def)
  then have "mt_bound qb s'" using assms(2) mt_enter by (auto simp: mt_bound_def mt_outcome_entry)
  then show thesis using that [of "[]" qb] mt_enter by simp
next
  case (mt_body op l l' q')
  have o: "mt_outcome (l', q') = mt_atomic op qb"
    using assms(2) mt_body mt_outcome_micro [of "(l, mt_q s)"] by (auto simp: mt_bound_def)
  have "mt_bound qb s'"
  proof (cases "mt_writes op")
    case True
    then have w: "rw_writer (mt_lock s) = Some t" using mt_holdsD(1) [OF assms(1)] mt_body by (simp add: mt_inside_def)
    have "mt_pc s u \<noteq> Inside op' k" if "u \<noteq> t" for u op' k
      using mt_holds_unique [OF assms(1), of t "mt_writes op'" u] mt_holdsD(1) [OF assms(1), of t] w that
      by (auto simp: mt_inside_def)
    then show ?thesis using w o True mt_body by (auto simp: mt_bound_def)
  next
    case False
    then have "l = Entry op \<or> mt_rank l = 0" using mt_boundD(3) [OF assms(2) mt_body(2)] by simp
    then have "q' = mt_q s \<and> mt_rank l' = 0" using mt_micro_reads [OF False] mt_body by auto
    then show ?thesis using o assms(2) mt_body by (auto simp: mt_bound_def)
  qed
  then show thesis using that [of "[]" qb] mt_body by simp
next
  case (mt_leave op out r l)
  have "mt_atomic op qb = Inr (out, mt_q s)" using mt_boundD(2) [OF assms(2) mt_leave(2)] by simp
  then have "mt_replay [(t, op, out)] qb = Some (mt_q s)" by simp
  moreover have "mt_bound (mt_q s) s'"
  proof (cases "mt_writes op")
    case True
    then have w: "rw_writer (mt_lock s) = Some t" using mt_holdsD(1) [OF assms(1)] mt_leave by (simp add: mt_inside_def)
    have "mt_pc s u \<noteq> Inside op' k" if "u \<noteq> t" for u op' k
      using mt_holds_unique [OF assms(1), of t "mt_writes op'" u] mt_holdsD(1) [OF assms(1), of t] w that
      by (auto simp: mt_inside_def)
    then show ?thesis using mt_leave by (auto simp: mt_bound_def)
  next
    case False
    have "qb = mt_q s" using mt_atomic_reads [OF False \<open>mt_atomic op qb = Inr (out, mt_q s)\<close>] by simp
    then show ?thesis using assms(2) mt_leave by (auto simp: mt_bound_def)
  qed
  ultimately show thesis using that [of "[(t, op, out)]" "mt_q s"] mt_leave by simp
qed

end
