(* ===== verification/GclQueMTProps.thy ===== *)
theory GclQueMTProps
  imports GclQueMT
begin

section \<open>QueueMT: properties\<close>

text \<open>
  Mutual exclusion, linearizability, progress, and the
  refinement of a bounded list by every concurrent run of \<open>put\<close>, \<open>get\<close>, \<open>pop\<close> and the
  counters. The abstract mailbox \<open>mt_spec\<close> returns what each call should return; \<open>pop\<close> is the
  method as written, which hands out the oldest item.
\<close>

subsection \<open>All reachable states\<close>

lemma mt_reach_inv:
  assumes "mt_reach allowed q0 s"
  obtains qb where "mt_holds s" "mt_replay (mt_hist s) q0 = Some qb" "mt_bound qb s"
proof -
  have replay: "mt_replay (h @ h') q = (case mt_replay h q of None \<Rightarrow> None | Some q \<Rightarrow> mt_replay h' q)" for h h' q
    by (induction h q rule: mt_replay.induct) (auto split: sum.splits)
  have "\<exists>qb. mt_holds s \<and> mt_replay (mt_hist s) q0 = Some qb \<and> mt_bound qb s"
    using assms
  proof induction
    case mt_reach_init
    show ?case by (simp add: mt_init_def mt_holds_def mt_bound_def mt_inside_def rw_new_def)
  next
    case (mt_reach_step s t s')
    then obtain qb where qb: "mt_holds s" "mt_replay (mt_hist s) q0 = Some qb" "mt_bound qb s" by blast
    obtain h qb' where "mt_hist s' = mt_hist s @ h" "mt_replay h qb = Some qb'" "mt_bound qb' s'"
      by (rule mt_bound_step [OF qb(1,3) mt_reach_step(2)])
    then show ?case using mt_holds_step [OF qb(1) mt_reach_step(2)] qb(2) by (auto simp: replay)
  qed
  then show thesis using that by blast
qed

lemma mt_inside_iff: "mt_inside s w t \<longleftrightarrow> (\<exists>op l. mt_pc s t = Inside op l \<and> mt_writes op = w)"
  by (simp add: mt_inside_def split: mt_pc.split)

lemma mt_reach_call: "mt_reach allowed q0 s \<Longrightarrow> mt_pc s t = Calling op \<or> mt_pc s t = Inside op l \<Longrightarrow> allowed op"
proof (induction arbitrary: t op l rule: mt_reach.induct)
  case mt_reach_init
  then show ?case by (simp add: mt_init_def)
next
  case (mt_reach_step s u s')
  from mt_reach_step(2) show ?case
    by (rule mt_stepE) (use mt_reach_step(1,3,4) in \<open>auto split: if_splits\<close>)
qed

text \<open>A schedule: which thread moves next, and which method it calls when it is outside.\<close>

fun mt_move :: "tid \<times> mt_op \<Rightarrow> mt_sys \<Rightarrow> mt_sys" where
  "mt_move (t, op) s =
     (case mt_pc s t of
        Outside \<Rightarrow> mt_at t (Calling op) s
      | Calling op \<Rightarrow> (case mt_acquire op t (mt_lock s) of None \<Rightarrow> s
          | Some l \<Rightarrow> mt_at t (Inside op (Entry op)) (s\<lparr>mt_lock := l\<rparr>))
      | Inside op (Result out) \<Rightarrow> (case rw_unlock t (mt_lock s) of Inl _ \<Rightarrow> s
          | Inr (r, l) \<Rightarrow> mt_at t Outside (s\<lparr>mt_lock := l, mt_hist := mt_hist s @ [(t, op, out)]\<rparr>))
      | Inside op l \<Rightarrow> if mt_rank l = 0 then s
          else (case mt_micro (l, mt_q s) of (l', q') \<Rightarrow> mt_at t (Inside op l') (s\<lparr>mt_q := q'\<rparr>)))"

lemma mt_move_reach: "mt_reach allowed q0 s \<Longrightarrow> allowed (snd m) \<Longrightarrow> mt_reach allowed q0 (mt_move m s)"
proof (cases m)
  case (Pair t op)
  assume r: "mt_reach allowed q0 s" "allowed (snd m)"
  have body: "mt_reach allowed q0 (case mt_micro (l, mt_q s) of (l', q') \<Rightarrow> mt_at t (Inside op l') (s\<lparr>mt_q := q'\<rparr>))"
    if "mt_pc s t = Inside op l" "0 < mt_rank l" for op l
    using mt_reach_step [OF r(1) mt_body [OF that]] by (auto split: prod.splits)
  show ?thesis
    using r Pair body mt_reach_step [OF r(1) mt_call] mt_reach_step [OF r(1) mt_enter] mt_reach_step [OF r(1) mt_leave]
    by (auto split: mt_pc.splits mt_local.splits option.splits sum.splits)
qed

lemma mt_moves_reach:
  "mt_reach allowed q0 s \<Longrightarrow> list_all (\<lambda>m. allowed (snd m)) ms \<Longrightarrow> mt_reach allowed q0 (fold mt_move ms s)"
  by (induction ms arbitrary: s) (auto intro: mt_move_reach)

text \<open>An empty queue of two items of one byte for the examples.\<close>

definition mt_demo :: cqueue where
  "mt_demo = \<lparr>m_q = 4096, ctl = \<lparr>q_begin = 20, q_end = 23, q_head = 20, q_tail = 20, q_item_size = 1\<rparr>, dat = [0, 0, 0]\<rparr>"

lemma mt_demo_rep: "cq_rep mt_demo 1 3 0 0"
  by (simp add: cq_rep_def mt_demo_def)

subsection \<open>Locking\<close>

text \<open>What a step changes and what a method can change, on the way to the lock it takes.\<close>

lemma mt_step_writes:
  assumes "mt_reach allowed q0 s" "mt_step allowed t s s'" "mt_q s' \<noteq> mt_q s"
  obtains op l where "mt_pc s t = Inside op l" "mt_writes op"
  using assms(2)
proof cases
  case (mt_body op l l' q')
  obtain qb where "mt_bound qb s" by (rule mt_reach_inv [OF assms(1)])
  from mt_boundD(3) [OF this mt_body(2)] have "mt_writes op \<or> l = Entry op \<or> mt_rank l = 0" .
  then have "mt_writes op" using mt_micro_reads [of op l "mt_q s" l' q'] mt_body assms(3) by auto
  then show thesis using that mt_body(2) by simp
qed (use assms(3) in simp_all)

lemma mt_writer_alone:
  assumes "mt_reach allowed q0 s" "mt_pc s t = Inside op l" "mt_writes op" "mt_pc s u = Inside op' l'"
  shows "u = t"
proof -
  obtain qb where "mt_holds s" by (rule mt_reach_inv [OF assms(1)])
  then show ?thesis
    using assms(2-4) by (intro mt_holds_unique [of s t "mt_writes op'" u]) (simp_all add: mt_inside_def)
qed

text \<open>
  C6: Mutual exclusion, stated on the queue itself: while a thread is inside a method, be it one
  that only looks, no step of another thread changes the queue, its bytes or its indices; and
  another thread can only be inside a method that leaves every queue it is run on as it is. In every
  interleaving of all methods.
\<close>

theorem queuemt_exclusive:
  assumes "mt_reach allowed q0 s" "mt_pc s u = Inside op' l'" "u \<noteq> t"
  shows "(\<forall>s'. mt_step allowed t s s' \<longrightarrow> mt_q s' = mt_q s)
    \<and> (\<forall>op l q out q'. mt_pc s t = Inside op l \<and> mt_atomic op q = Inr (out, q') \<longrightarrow> q' = q)"
proof (intro conjI allI impI)
  fix s' assume step: "mt_step allowed t s s'"
  show "mt_q s' = mt_q s"
  proof (rule ccontr)
    assume "mt_q s' \<noteq> mt_q s"
    then obtain op l where "mt_pc s t = Inside op l" "mt_writes op" by (rule mt_step_writes [OF assms(1) step])
    from mt_writer_alone [OF assms(1) this assms(2)] show False using assms(3) by simp
  qed
next
  fix op l q out q' assume "mt_pc s t = Inside op l \<and> mt_atomic op q = Inr (out, q')"
  then show "q' = q" using mt_writer_alone [OF assms(1) _ _ assms(2)] mt_atomic_reads assms(3) by blast
qed

definition mt_demo_mid :: mt_sys where
  "mt_demo_mid = fold mt_move [(1, MtLength), (1, MtLength), (2, MtIsEmpty), (2, MtIsEmpty)] (mt_init mt_demo)"

theorem queuemt_exclusive_witness:
  "mt_pc mt_demo_mid 1 = Inside MtLength (Entry MtLength) \<and> mt_pc mt_demo_mid 2 = Inside MtIsEmpty (Entry MtIsEmpty)
    \<and> mt_step (\<lambda>_. True) 2 mt_demo_mid (mt_move (2, MtIsEmpty) mt_demo_mid)
    \<and> mt_q (mt_move (2, MtIsEmpty) mt_demo_mid) = mt_q mt_demo_mid"
proof -
  have r: "mt_reach (\<lambda>_. True) mt_demo mt_demo_mid" unfolding mt_demo_mid_def by (intro mt_moves_reach mt_reach_init) simp
  have pc: "mt_pc mt_demo_mid 1 = Inside MtLength (Entry MtLength)" "mt_pc mt_demo_mid 2 = Inside MtIsEmpty (Entry MtIsEmpty)"
    by (simp_all add: mt_demo_mid_def mt_init_def mt_at_def mt_acquire_def rw_rdlock_def rw_new_def)
  have step: "mt_step (\<lambda>_. True) 2 mt_demo_mid (mt_move (2, MtIsEmpty) mt_demo_mid)"
    using mt_body [OF pc(2)] pc(2) by (simp split: prod.split)
  have "mt_q (mt_move (2, MtIsEmpty) mt_demo_mid) = mt_q mt_demo_mid"
    by (rule queuemt_exclusive [OF r pc(1), THEN conjunct1, rule_format, OF _ step]) simp
  then show ?thesis using pc step by blast
qed

text \<open>
  C5: Linearizability: in every reachable state the recorded calls, run one after the other in
  the order of the record, return exactly what they returned to their threads; and the queue
  is the queue after these calls whenever no thread is inside a changing method.
\<close>

theorem queuemt_linearizable:
  assumes "mt_reach allowed q0 s"
  shows "\<exists>qb. mt_replay (mt_hist s) q0 = Some qb \<and> (rw_writer (mt_lock s) = None \<longrightarrow> mt_q s = qb)
    \<and> (rw_writer (mt_lock s) = None \<longleftrightarrow> (\<forall>t op l. mt_pc s t = Inside op l \<longrightarrow> \<not> mt_writes op))"
proof -
  obtain qb where q: "mt_holds s" "mt_replay (mt_hist s) q0 = Some qb" "mt_bound qb s" by (rule mt_reach_inv [OF assms])
  have "rw_writer (mt_lock s) = None \<longleftrightarrow> (\<forall>t. \<not> mt_inside s True t)"
    using mt_holdsD(1) [OF q(1)] by (metis not_None_eq)
  then show ?thesis using q(2) mt_boundD(1) [OF q(3)] by (auto simp: mt_inside_iff)
qed

definition mt_demo_run :: mt_sys where
  "mt_demo_run = fold mt_move [(1, MtPut (Some [7])), (2, MtGet True), (2, MtLength), (2, MtLength), (2, MtLength),
     (1, MtLength), (1, MtLength), (1, MtLength), (1, MtLength), (1, MtLength)] (mt_init mt_demo)"

theorem queuemt_linearizable_witness:
  "mt_replay [(2, MtGet True, Item False None), (1, MtPut (Some [7]), Flag True)] mt_demo = Some (mt_q mt_demo_run)"
proof -
  have "mt_reach (\<lambda>_. True) mt_demo mt_demo_run" unfolding mt_demo_run_def by (intro mt_moves_reach mt_reach_init) simp
  note lin = queuemt_linearizable [OF this]
  have "mt_hist mt_demo_run = [(2, MtGet True, Item False None), (1, MtPut (Some [7]), Flag True)]"
    "rw_writer (mt_lock mt_demo_run) = None" by code_simp+
  then show ?thesis using lin by auto
qed

subsection \<open>The abstract mailbox\<close>

fun mt_proper :: "nat \<Rightarrow> mt_op \<Rightarrow> bool" where
  "mt_proper sz (MtPut item) = (case item of Some bs \<Rightarrow> length bs = sz | None \<Rightarrow> False)"
| "mt_proper sz (MtPush _) = False"
| "mt_proper sz (MtGet item) = item"
| "mt_proper sz (MtPop item) = item"
| "mt_proper sz _ = True"

fun mt_spec :: "nat \<Rightarrow> nat \<Rightarrow> mt_op \<Rightarrow> u8_t list list \<Rightarrow> mt_out \<times> u8_t list list" where
  "mt_spec c sz (MtPut (Some bs)) xs = (if length xs < c then (Flag True, xs @ [bs]) else (Flag False, xs))"
| "mt_spec c sz (MtGet _) xs = (case xs of [] \<Rightarrow> (Item False None, []) | x # xs' \<Rightarrow> (Item True (Some x), xs'))"
| "mt_spec c sz (MtPop _) xs = (case xs of [] \<Rightarrow> (Item False None, []) | x # xs' \<Rightarrow> (Item True (Some x), xs'))"
| "mt_spec c sz MtItemSize xs = (Num (of_nat sz), xs)"
| "mt_spec c sz MtIsEmpty xs = (Flag (xs = []), xs)"
| "mt_spec c sz MtIsFull xs = (Flag (length xs = c), xs)"
| "mt_spec c sz MtLength xs = (Num (of_nat (length xs)), xs)"
| "mt_spec c sz MtAvailable xs = (Num (of_nat (c - length xs)), xs)"
| "mt_spec c sz MtCapacity xs = (Num (of_nat c), xs)"
| "mt_spec c sz op xs = (Flag False, xs)"

fun mt_spec_run :: "nat \<Rightarrow> nat \<Rightarrow> (tid \<times> mt_op \<times> mt_out) list \<Rightarrow> u8_t list list \<Rightarrow> u8_t list list option" where
  "mt_spec_run c sz [] xs = Some xs"
| "mt_spec_run c sz ((t, op, out) # h) xs =
     (case mt_spec c sz op xs of (out', xs') \<Rightarrow> if out' = out then mt_spec_run c sz h xs' else None)"

lemma unat_eqI: "unat k = m \<Longrightarrow> k = of_nat m"
  by auto

lemma mt_atomic_spec:
  assumes "cq_rep q s n h t" "mt_proper s op"
  obtains out q' h' t' where "mt_atomic op q = Inr (out, q')" "cq_rep q' s n h' t'" 
    "mt_spec (n - 1) s op (cq_items q) = (out, cq_items q')"
proof -
  note r = assms(1) and D = cq_repD [OF assms(1)] and found = that
  have len: "length (cq_items q) \<le> cq_cap q" by (rule cq_wf_len [OF cq_rep_wf [OF r]])
  have get: ?thesis if "mt_atomic op q = rbind (cq_get True q) (\<lambda>(b, x, q). Inr (Item b x, q))"
    "mt_spec (n - 1) s op (cq_items q) = mt_spec (n - 1) s (MtGet True) (cq_items q)"
  proof (cases "h = t")
    case True
    then have "cq_items q = []" using r by (simp add: cq_rep_items)
    then show thesis using found [of "Item False None" q h t] that r cq_get_empty [OF cq_rep_wf [OF r]] by simp
  next
    case False
    obtain q' where q': "cq_get True q = Inr (True, Some (hd (cq_items q)), q')"
      "cq_rep q' s n (rsuc n h) t" "cq_items q' = tl (cq_items q)"
      using cq_get_rep [OF r False, of True] by auto
    have "cq_items q \<noteq> []" using False r cq_rep_length [OF r] rlen_eq_0 [OF D(4,5)] by force
    then show thesis
      using found [of "Item True (Some (hd (cq_items q)))" q' "rsuc n h" t] that q' by (auto simp: neq_Nil_conv)
  qed
  show thesis
  proof (cases op)
    case (MtPut item)
    then obtain bs where bs: "item = Some bs" "length bs = s" using assms(2) by (auto split: option.splits)
    show ?thesis
    proof (cases "rsuc n t = h")
      case True
      then show thesis
        using found [of "Flag False" q h t] MtPut bs r cq_put_full [OF r True] cq_rep_full_iff [OF r] cq_rep_cap [OF r] by simp
    next
      case False
      obtain q' where "cq_put (Some bs) q = Inr (True, q')" "cq_rep q' s n h (rsuc n t)"
        "cq_items q' = cq_items q @ [take s bs]"
        using cq_put_rep [OF r False, of bs] bs by auto
      then show thesis
        using found [of "Flag True" q' h "rsuc n t"] MtPut bs False cq_rep_full_iff [OF r] cq_rep_cap [OF r] len by simp
    qed
  next
    case (MtGet item)
    then show ?thesis using get assms(2) by simp
  next
    case (MtPop item)
    then show ?thesis using get assms(2) by simp
  next
    case MtItemSize
    have "cq_item_size q = of_nat s" using D(1,6) by (auto simp: cq_item_size_def word_eq_unat)
    then show ?thesis using found [of "Num (of_nat s)" q h t] MtItemSize r by simp
  next
    case MtIsEmpty
    have "cq_is_empty q \<longleftrightarrow> cq_items q = []"
      using cq_rep_is_empty [OF r] cq_rep_length [OF r] rlen_eq_0 [OF D(4,5)] by (simp flip: length_0_conv)
    then show ?thesis using found [of "Flag (cq_is_empty q)" q h t] MtIsEmpty r by simp
  next
    case MtIsFull
    then show ?thesis
      using found [of "Flag (cq_is_full q)" q h t] r cq_rep_is_full [OF r] cq_rep_full_iff [OF r] cq_rep_cap [OF r] by simp
  next
    case MtLength
    obtain k where k: "cq_length q = Inr k" "unat k = rlen n h t" by (rule cq_rep_len_word [OF r])
    have "cq_length q = Inr (of_nat (rlen n h t))" using k(1) unfolding unat_eqI [OF k(2)] .
    then show ?thesis using found [of "Num (of_nat (rlen n h t))" q h t] MtLength r cq_rep_length [OF r] by simp
  next
    case MtAvailable
    obtain k where k: "cq_available q = Inr k" "unat k = n - 1 - rlen n h t" by (rule cq_rep_available_word [OF r])
    have "cq_available q = Inr (of_nat (n - 1 - rlen n h t))" using k(1) unfolding unat_eqI [OF k(2)] .
    then show ?thesis using found [of "Num (of_nat (n - 1 - rlen n h t))" q h t] MtAvailable r cq_rep_length [OF r] by simp
  next
    case MtCapacity
    obtain k where k: "cq_capacity q = Inr k" "unat k = n - 1" by (rule cq_rep_capacity_word [OF r])
    have "cq_capacity q = Inr (of_nat (n - 1))" using k(1) unfolding unat_eqI [OF k(2)] .
    then show ?thesis using found [of "Num (of_nat (n - 1))" q h t] MtCapacity r cq_rep_length [OF r] by simp
  qed (use assms(2) in simp)
qed

lemma mt_replay_spec:
  "cq_rep q sz n h t \<Longrightarrow> \<forall>(u, op, out) \<in> set hist. mt_proper sz op \<Longrightarrow> mt_replay hist q = Some q' \<Longrightarrow>
   mt_spec_run (n - 1) sz hist (cq_items q) = Some (cq_items q') \<and> (\<exists>h' t'. cq_rep q' sz n h' t')"
proof (induction hist q arbitrary: h t rule: mt_replay.induct)
  case (2 u op out hist q)
  obtain out1 q1 h1 t1 where "mt_atomic op q = Inr (out1, q1)" "cq_rep q1 sz n h1 t1"
    "mt_spec (n - 1) sz op (cq_items q) = (out1, cq_items q1)"
    by (rule mt_atomic_spec [OF 2(2), of op]) (use 2(3) in simp)
  then show ?case using 2 by (auto split: if_splits)
qed auto

lemma mt_reach_hist: "mt_reach allowed q0 s \<Longrightarrow> \<forall>(t, op, out) \<in> set (mt_hist s). allowed op"
proof (induction rule: mt_reach.induct)
  case (mt_reach_step s t s')
  from mt_reach_step(2) show ?case
    by (rule mt_stepE) (use mt_reach_step(1,3) mt_reach_call [OF mt_reach_step(1), of t] in auto)
qed (simp add: mt_init_def)

lemma mt_mailbox:
  assumes "cq_rep q0 sz n 0 0" "mt_reach (mt_proper sz) q0 s"
  obtains qb where "mt_holds s" "mt_bound qb s" "mt_spec_run (n - 1) sz (mt_hist s) [] = Some (cq_items qb)"
    "\<And>t op l. mt_pc s t = Inside op l \<Longrightarrow> \<exists>z. mt_outcome (l, mt_q s) = Inr z"
proof -
  obtain qb where q: "mt_holds s" "mt_replay (mt_hist s) q0 = Some qb" "mt_bound qb s" by (rule mt_reach_inv [OF assms(2)])
  note run = mt_replay_spec [OF assms(1) mt_reach_hist [OF assms(2)] q(2)]
  obtain h t where "cq_rep qb sz n h t" using run by blast
  then have "\<exists>z. mt_outcome (l, mt_q s) = Inr z" if "mt_pc s u = Inside op l" for u op l
    using mt_atomic_spec [of qb sz n h t op] mt_boundD(2) [OF q(3) that] mt_reach_call [OF assms(2), of u op l] that by metis
  moreover have "cq_items q0 = []" using assms(1) by (simp add: cq_rep_items)
  ultimately show thesis using that q(1,3) run by metis
qed

text \<open>
  C3: A freshly initialised \<open>QueueMT\<close> used by any number of threads through \<open>put\<close>, \<open>get\<close>,
  \<open>pop\<close> and the counters is a bounded list: no method fails in any interleaving, the calls
  in the order of the record return what the list operations return, and the items are the
  list whenever no changing method is running. \<open>pop\<close> takes the oldest item, where the class
  it wraps takes the newest.
\<close>

theorem queuemt_mailbox:
  assumes "capacity \<noteq> 0" "item_size \<noteq> 0" "20 + (unat capacity + 1) * unat item_size < 2 ^ 32"
    and "a \<noteq> 0" "unat a + (20 + (unat capacity + 1) * unat item_size) < 2 ^ 64"
  shows "\<exists>q0. queue_init item_size capacity (a, junk) cq_new live = Inr (True, q0, insert a live) \<and>
    (\<forall>s. mt_reach (mt_proper (unat item_size)) q0 s \<longrightarrow>
      (\<forall>t op e. mt_pc s t \<noteq> Inside op (Failed e)) \<and>
      (\<exists>xs. mt_spec_run (unat capacity) (unat item_size) (mt_hist s) [] = Some xs \<and>
        (rw_writer (mt_lock s) = None \<longrightarrow> cq_items (mt_q s) = xs)))"
proof -
  obtain q0 where q0: "cq_init capacity item_size (a, junk) cq_new live = Inr (True, q0, insert a live)"
    "cq_rep q0 (unat item_size) (unat capacity + 1) 0 0"
    by (rule cq_rep_init [of cq_new, OF _ assms]) (simp_all add: cq_new_def)
  have "(\<forall>t op e. mt_pc s t \<noteq> Inside op (Failed e)) \<and>
      (\<exists>xs. mt_spec_run (unat capacity) (unat item_size) (mt_hist s) [] = Some xs \<and>
        (rw_writer (mt_lock s) = None \<longrightarrow> cq_items (mt_q s) = xs))"
    if s: "mt_reach (mt_proper (unat item_size)) q0 s" for s
  proof -
    obtain qb where qb: "mt_bound qb s" "mt_spec_run (unat capacity) (unat item_size) (mt_hist s) [] = Some (cq_items qb)"
      "\<And>t op l. mt_pc s t = Inside op l \<Longrightarrow> \<exists>z. mt_outcome (l, mt_q s) = Inr z"
      by (rule mt_mailbox [OF q0(2) s]) simp
    have "mt_pc s t \<noteq> Inside op (Failed e)" for t op e using qb(3) [of t op "Failed e"] by auto
    then show ?thesis using qb(2) mt_boundD(1) [OF qb(1)] by auto
  qed
  then show ?thesis using q0(1) by (auto simp: queue_init_def)
qed

theorem queuemt_mailbox_witness:
  "\<exists>q0. queue_init 1 2 (4096, \<lambda>_. 0) cq_new {} = Inr (True, q0, {4096}) \<and>
     (\<forall>s. mt_reach (mt_proper 1) q0 s \<longrightarrow> mt_spec_run 2 1 (mt_hist s) [] \<noteq> None)"
  using queuemt_mailbox [of 2 1 4096 "\<lambda>_. 0" "{}"] by auto blast

text \<open>The most moves a thread in a call can make before it is outside again.\<close>

fun mt_work :: "mt_pc \<Rightarrow> nat" where
  "mt_work Outside = 0"
| "mt_work (Calling _) = 5"
| "mt_work (Inside _ l) = Suc (mt_rank l)"

lemma mt_some_moves:
  assumes "cq_rep q0 sz n 0 0" "mt_reach (mt_proper sz) q0 s" "mt_pc s t \<noteq> Outside"
  shows "\<exists>u s'. mt_step (\<lambda>_. False) u s s' \<and> mt_work (mt_pc s' u) < mt_work (mt_pc s u)
    \<and> (\<forall>v. v \<noteq> u \<longrightarrow> mt_pc s' v = mt_pc s v)"
proof -
  obtain qb where qb: "mt_holds s" "\<And>t op l. mt_pc s t = Inside op l \<Longrightarrow> \<exists>z. mt_outcome (l, mt_q s) = Inr z"
    by (rule mt_mailbox [OF assms(1,2)]) simp
  show ?thesis
  proof (cases "\<exists>u op l. mt_pc s u = Inside op l")
    case True
    then obtain u op l where u: "mt_pc s u = Inside op l" by blast
    show ?thesis
    proof (cases "mt_rank l")
      case 0
      then obtain out where l: "l = Result out" using qb(2) [OF u] by (cases l) auto
      have "mt_inside s (mt_writes op) u" using u by (simp add: mt_inside_def)
      then obtain r k where "rw_unlock u (mt_lock s) = Inr (r, k)"
        using mt_holdsD(1,2) [OF qb(1), of u] by (cases "mt_writes op") (auto simp: rw_unlock_def)
      from mt_leave [OF u [unfolded l] this] show ?thesis using u l by (intro exI conjI) auto
    next
      case (Suc k)
      obtain l' q' where m: "mt_micro (l, mt_q s) = (l', q')" by (cases "mt_micro (l, mt_q s)")
      have "mt_rank l' < mt_rank l" using mt_micro_rank [of "(l, mt_q s)"] m Suc by simp
      then show ?thesis using mt_body [OF u _ m] Suc u by (intro exI [of _ u] exI conjI) auto
    qed
  next
    case False
    then obtain op where op: "mt_pc s t = Calling op" using assms(3) by (cases "mt_pc s t") auto
    have "\<not> mt_inside s w v" for w v using False by (auto simp: mt_inside_iff)
    note out = this
    have "rw_writer (mt_lock s) = None" using mt_holdsD(1) [OF qb(1)] out by (cases "rw_writer (mt_lock s)") auto
    moreover have "rw_readers (mt_lock s) = []"
      using mt_holdsD(2) [OF qb(1)] out by (cases "rw_readers (mt_lock s)") auto
    ultimately obtain k where "mt_acquire op t (mt_lock s) = Some k"
      by (cases "mt_writes op") (auto simp: mt_acquire_def rw_wrlock_def rw_rdlock_def)
    from mt_enter [OF op this] show ?thesis using op by (intro exI [of _ t] exI conjI) auto
  qed
qed

text \<open>
  C21: No lock is lost: as long as some thread is in a call, some thread in a call can move, and
  every such move brings that thread closer to the end of its call (five moves at most) and
  leaves the others where they are.
\<close>
theorem queuemt_progress:
  assumes "cq_rep q0 sz n 0 0" "mt_reach (mt_proper sz) q0 s" "mt_pc s t \<noteq> Outside"
  shows "\<exists>u s'. mt_step (\<lambda>_. False) u s s' \<and> mt_work (mt_pc s' u) < mt_work (mt_pc s u)
    \<and> (\<forall>v. v \<noteq> u \<longrightarrow> mt_pc s' v = mt_pc s v)"
  by (rule mt_some_moves [OF assms])

theorem queuemt_progress_witness:
  "\<exists>u s'. mt_step (\<lambda>_. False) u (mt_at 1 (Calling MtLength) (mt_init mt_demo)) s'"
proof -
  have "mt_reach (mt_proper 1) mt_demo (mt_at 1 (Calling MtLength) (mt_init mt_demo))"
    by (rule mt_reach_step [OF mt_reach_init mt_call]) (simp_all add: mt_init_def)
  from queuemt_progress [OF mt_demo_rep this, of 1] show ?thesis by auto
qed

end
