(* ===== verification/GclGuarded.thy ===== *)
theory GclGuarded
  imports GclSync
begin

section \<open>Objects behind an exclusive lock\<close>

text \<open>
  A class every method of which runs inside the scope of an \<open>AutoLockWrite\<close>, used by any number of
  threads. \<open>body op s\<close> is what a method does to the object. While a thread is inside, the object may be
  in any intermediate state: the step \<open>g_mid\<close> writes an arbitrary one, so nothing that another thread would see there
  can be relied on. The interface \<open>guarded\<close> is the sequential contract of the class, against
  an abstract object; what holds of all interleavings is proved from it once.
\<close>

datatype ('op, 's, 'r) g_pc = Out | Wants 'op | Within 'op 's | Leaves 'op 'r | Broken fault

record ('op, 's, 'r) g_sys =
  g_obj :: 's
  g_lock :: rwlock
  g_pc :: "tid \<Rightarrow> ('op, 's, 'r) g_pc"
  g_hist :: "(tid \<times> 'op \<times> 'r) list"

definition g_init :: "'s \<Rightarrow> ('op, 's, 'r) g_sys" where
  "g_init s = \<lparr>g_obj = s, g_lock = rw_new, g_pc = (\<lambda>_. Out), g_hist = []\<rparr>"

definition g_at :: "tid \<Rightarrow> ('op, 's, 'r) g_pc \<Rightarrow> ('op, 's, 'r) g_sys \<Rightarrow> ('op, 's, 'r) g_sys" where
  "g_at t pc w = w\<lparr>g_pc := (g_pc w)(t := pc)\<rparr>"

inductive g_step ::
    "('op \<Rightarrow> 's \<Rightarrow> ('r \<times> 's) res) \<Rightarrow> ('op \<Rightarrow> bool) \<Rightarrow> tid \<Rightarrow> ('op, 's, 'r) g_sys \<Rightarrow> ('op, 's, 'r) g_sys \<Rightarrow> bool"
  for body allowed
where
  g_call: "g_pc w t = Out \<Longrightarrow> allowed op \<Longrightarrow> g_step body allowed t w (g_at t (Wants op) w)"
| g_enter: "g_pc w t = Wants op \<Longrightarrow> rw_wrlock t (g_lock w) = Some (r, l) \<Longrightarrow>
    g_step body allowed t w (g_at t (Within op (g_obj w)) (w\<lparr>g_lock := l\<rparr>))"
| g_mid: "g_pc w t = Within op s \<Longrightarrow> g_step body allowed t w (w\<lparr>g_obj := x\<rparr>)"
| g_done: "g_pc w t = Within op s \<Longrightarrow> body op s = Inr (r, s') \<Longrightarrow>
    g_step body allowed t w (g_at t (Leaves op r) (w\<lparr>g_obj := s'\<rparr>))"
| g_fault: "g_pc w t = Within op s \<Longrightarrow> body op s = Inl e \<Longrightarrow> g_step body allowed t w (g_at t (Broken e) w)"
| g_leave: "g_pc w t = Leaves op r \<Longrightarrow> rw_unlock t (g_lock w) = Inr (i, l) \<Longrightarrow>
    g_step body allowed t w (g_at t Out (w\<lparr>g_lock := l, g_hist := g_hist w @ [(t, op, r)]\<rparr>))"

inductive g_reach ::
    "('op \<Rightarrow> 's \<Rightarrow> ('r \<times> 's) res) \<Rightarrow> ('op \<Rightarrow> bool) \<Rightarrow> 's \<Rightarrow> ('op, 's, 'r) g_sys \<Rightarrow> bool"
  for body allowed s0
where
  g_start: "g_reach body allowed s0 (g_init s0)"
| g_next: "g_reach body allowed s0 w \<Longrightarrow> g_step body allowed t w w' \<Longrightarrow> g_reach body allowed s0 w'"

inductive_cases g_stepE: "g_step body allowed t w w'"

text \<open>The recorded calls replayed on the abstract object: every call returns what is recorded.\<close>

fun g_replay :: "('op \<Rightarrow> 'a \<Rightarrow> 'r \<times> 'a) \<Rightarrow> (tid \<times> 'op \<times> 'r) list \<Rightarrow> 'a \<Rightarrow> 'a option" where
  "g_replay spec [] a = Some a"
| "g_replay spec ((t, op, r) # h) a = (case spec op a of (r', a') \<Rightarrow> if r' = r then g_replay spec h a' else None)"

lemma g_replay_append: "g_replay spec (h @ h') a = Option.bind (g_replay spec h a) (g_replay spec h')"
  by (induction spec h a rule: g_replay.induct) (auto split: prod.splits)

lemma g_at_simps [simp]:
  "g_pc (g_at t pc w) = (g_pc w)(t := pc)" "g_obj (g_at t pc w) = g_obj w"
  "g_lock (g_at t pc w) = g_lock w" "g_hist (g_at t pc w) = g_hist w"
  by (simp_all add: g_at_def)

lemma g_init_simps [simp]:
  "g_pc (g_init s) t = Out" "g_obj (g_init s) = s" "g_lock (g_init s) = rw_new" "g_hist (g_init s) = []"
  by (simp_all add: g_init_def)

subsection \<open>Mutual exclusion\<close>

definition g_inside :: "('op, 's, 'r) g_pc \<Rightarrow> bool" where
  "g_inside pc \<longleftrightarrow> (case pc of Within _ _ \<Rightarrow> True | Leaves _ _ \<Rightarrow> True | Broken _ \<Rightarrow> True | _ \<Rightarrow> False)"

lemma g_inside_simps [simp]:
  "\<not> g_inside Out" "\<not> g_inside (Wants op)" "g_inside (Within op s)" "g_inside (Leaves op r)" "g_inside (Broken e)"
  by (simp_all add: g_inside_def)

definition g_holds :: "('op, 's, 'r) g_sys \<Rightarrow> bool" where
  "g_holds w \<longleftrightarrow> rw_readers (g_lock w) = [] \<and> (\<forall>t. rw_writer (g_lock w) = Some t \<longleftrightarrow> g_inside (g_pc w t))"

lemma g_holds_init: "g_holds (g_init s)"
  by (simp add: g_holds_def rw_new_def)

lemma g_holds_same:
  "g_holds w \<Longrightarrow> g_lock w' = g_lock w \<Longrightarrow> (\<And>u. g_inside (g_pc w' u) = g_inside (g_pc w u)) \<Longrightarrow> g_holds w'"
  by (simp add: g_holds_def)

lemma g_holds_step:
  assumes "g_holds w" "g_step body allowed t w w'"
  shows "g_holds w'"
  using assms(2)
proof cases
  case (g_enter op r l)
  have "rw_writer (g_lock w) \<noteq> Some t" using assms(1) g_enter by (simp add: g_holds_def)
  then have "rw_writer (g_lock w) = None" "l = (g_lock w)\<lparr>rw_writer := Some t\<rparr>"
    using g_enter(3) by (auto simp: rw_wrlock_def split: option.splits if_splits)
  then show ?thesis using assms(1) g_enter by (auto simp: g_holds_def)
next
  case (g_leave op r i l)
  have own: "rw_writer (g_lock w) = Some t" using assms(1) g_leave by (simp add: g_holds_def)
  have "\<not> g_inside (g_pc w u)" if "u \<noteq> t" for u
    using assms(1) own that unfolding g_holds_def by (metis option.inject)
  moreover have "l = (g_lock w)\<lparr>rw_writer := None\<rparr>" using g_leave(3) own by (simp add: rw_unlock_def)
  ultimately show ?thesis using assms(1) g_leave(1) by (simp add: g_holds_def)
qed (rule g_holds_same [OF assms(1)]; simp)+

lemma g_holds_one: "g_holds w \<Longrightarrow> g_inside (g_pc w t) \<Longrightarrow> g_inside (g_pc w u) \<Longrightarrow> u = t"
  unfolding g_holds_def by (metis option.inject)

lemma g_reach_holds: "g_reach body allowed s0 w \<Longrightarrow> g_holds w"
  by (induction rule: g_reach.induct) (auto intro: g_holds_init g_holds_step)

lemma g_reach_allowed:
  "g_reach body allowed s0 w \<Longrightarrow> (g_pc w t = Wants op \<longrightarrow> allowed op) \<and> (g_pc w t = Within op s \<longrightarrow> allowed op)
     \<and> (g_pc w t = Leaves op r \<longrightarrow> allowed op)"
proof (induction arbitrary: op s r rule: g_reach.induct)
  case (g_next w u w')
  from g_next(2) show ?case
    by (rule g_stepE) (use g_next.IH in \<open>auto split: if_splits\<close>)
qed simp

lemma g_reach_hist: "g_reach body allowed s0 w \<Longrightarrow> (t, op, r) \<in> set (g_hist w) \<Longrightarrow> allowed op"
proof (induction arbitrary: t op r rule: g_reach.induct)
  case (g_next w u w')
  from g_next(2) show ?case
    by (rule g_stepE) (use g_next.IH g_next.prems g_reach_allowed [OF g_next(1), of u] in auto)
qed simp

subsection \<open>The interface\<close>

locale guarded =
  fixes body :: "'op \<Rightarrow> 's \<Rightarrow> ('r \<times> 's) res"
    and inv :: "'s \<Rightarrow> bool"
    and allowed :: "'op \<Rightarrow> bool"
    and spec :: "'op \<Rightarrow> 'a \<Rightarrow> 'r \<times> 'a"
    and abst :: "'s \<Rightarrow> 'a"
  assumes body_meets_spec: "inv s \<Longrightarrow> allowed op \<Longrightarrow>
    \<exists>s'. body op s = Inr (fst (spec op (abst s)), s') \<and> inv s' \<and> abst s' = snd (spec op (abst s))"
begin

text \<open>
  The object after the recorded calls: with nobody inside it is the object itself; for a thread in a
  method it is what the method found; for a thread that leaves it is what it was before the call.
\<close>

definition g_view :: "'s \<Rightarrow> 's \<Rightarrow> ('op, 's, 'r) g_pc \<Rightarrow> bool" where
  "g_view s y pc \<longleftrightarrow> (case pc of Within op x \<Rightarrow> x = s \<and> allowed op | Leaves op r \<Rightarrow> body op s = Inr (r, y) \<and> allowed op
     | Wants op \<Rightarrow> allowed op | Broken e \<Rightarrow> False | Out \<Rightarrow> True)"

lemma g_view_simps [simp]:
  "g_view s y Out" "g_view s y (Wants op) = allowed op" "g_view s y (Within op x) \<longleftrightarrow> x = s \<and> allowed op"
  "g_view s y (Leaves op r) \<longleftrightarrow> body op s = Inr (r, y) \<and> allowed op" "\<not> g_view s y (Broken e)"
  by (simp_all add: g_view_def)

lemma g_view_outside: "\<not> g_inside pc \<Longrightarrow> g_view s y pc \<Longrightarrow> g_view s' y' pc"
  by (cases pc) simp_all

definition g_linear :: "'s \<Rightarrow> ('op, 's, 'r) g_sys \<Rightarrow> 's \<Rightarrow> bool" where
  "g_linear s0 w s \<longleftrightarrow> g_replay spec (g_hist w) (abst s0) = Some (abst s) \<and> inv s \<and>
     ((\<forall>t. \<not> g_inside (g_pc w t)) \<longrightarrow> g_obj w = s) \<and> (\<forall>t. g_view s (g_obj w) (g_pc w t))"

lemma g_linear_init: "inv s0 \<Longrightarrow> g_linear s0 (g_init s0) s0"
  by (simp add: g_linear_def)

lemma g_linear_inside:
  assumes "g_holds w" "g_linear s0 w s" "g_inside (g_pc w t)" "g_inside pc" "g_view s y pc"
    "g_hist w' = g_hist w" "g_pc w' = (g_pc w)(t := pc)" "g_obj w' = y"
  shows "g_linear s0 w' s"
proof -
  have "g_view s y (((g_pc w)(t := pc)) u)" for u
  proof (cases "u = t")
    case False
    then have "\<not> g_inside (g_pc w u)" using g_holds_one [OF assms(1,3)] by blast
    then show ?thesis using assms(2) g_view_outside [of "g_pc w u" s "g_obj w"] False by (simp add: g_linear_def)
  qed (simp add: assms(5))
  moreover have "\<not> (\<forall>u. \<not> g_inside (((g_pc w)(t := pc)) u))" using assms(4) by (metis fun_upd_same)
  ultimately show ?thesis using assms(2) unfolding g_linear_def assms(6-8) by blast
qed

lemma g_linear_step:
  assumes "g_holds w" "g_linear s0 w s" "g_step body allowed t w w'"
  shows "\<exists>s. g_linear s0 w' s"
proof -
  have rep: "g_replay spec (g_hist w) (abst s0) = Some (abst s)" and inv: "inv s"
    and quiet: "(\<forall>t. \<not> g_inside (g_pc w t)) \<longrightarrow> g_obj w = s" and view: "g_view s (g_obj w) (g_pc w u)" for u
    using assms(2) unfolding g_linear_def by blast+
  from assms(3) show ?thesis
  proof cases
    case (g_call op)
    have "(\<forall>u. \<not> g_inside (g_pc w' u)) \<Longrightarrow> g_obj w = s"
      using quiet g_call by (metis g_at_simps(1) fun_upd_other g_inside_simps(1))
    then have "g_linear s0 w' s" using rep inv view g_call by (simp add: g_linear_def)
    then show ?thesis ..
  next
    case (g_enter op r l)
    have "rw_writer (g_lock w) \<noteq> Some t" using assms(1) g_enter by (simp add: g_holds_def)
    then have "rw_writer (g_lock w) = None" using g_enter(3) by (auto simp: rw_wrlock_def split: option.splits if_splits)
    then have "\<forall>u. \<not> g_inside (g_pc w u)" using assms(1) by (auto simp: g_holds_def)
    then have "g_obj w = s" using quiet by blast
    moreover have "\<not> (\<forall>u. \<not> g_inside (g_pc w' u))" using g_enter by (metis g_at_simps(1) fun_upd_same g_inside_simps(3))
    ultimately have "g_linear s0 w' s" using rep inv view view [of t] g_enter by (simp add: g_linear_def)
    then show ?thesis ..
  next
    case (g_mid op x y)
    have "g_linear s0 w' s"
      by (rule g_linear_inside [OF assms(1,2), of t "Within op x" y])
        (use g_mid view [of t] fun_upd_idem [of "g_pc w" t "Within op x"] in simp_all)
    then show ?thesis ..
  next
    case (g_done op x r s')
    have "g_linear s0 w' s"
      by (rule g_linear_inside [OF assms(1,2), of t "Leaves op r" s']) (use g_done view [of t] in simp_all)
    then show ?thesis ..
  next
    case (g_fault op x e)
    then show ?thesis using view [of t] body_meets_spec [OF inv, of op] by auto
  next
    case (g_leave op r i l)
    have b: "body op s = Inr (r, g_obj w)" "allowed op" using view [of t] g_leave by auto
    then have sp: "spec op (abst s) = (r, abst (g_obj w))" "inv (g_obj w)"
      using body_meets_spec [OF inv b(2)] by (auto simp: prod_eq_iff)
    have "g_view (g_obj w) (g_obj w) (((g_pc w)(t := Out)) u)" for u
    proof (cases "u = t")
      case False
      then have "\<not> g_inside (g_pc w u)" using g_holds_one [OF assms(1), of t u] g_leave by auto
      then show ?thesis using g_view_outside [OF _ view] False by simp
    qed simp
    then have "g_linear s0 w' (g_obj w)" using rep sp g_leave by (simp add: g_linear_def g_replay_append)
    then show ?thesis ..
  qed
qed

theorem g_linearizable:
  assumes "inv s0" "g_reach body allowed s0 w"
  shows "\<exists>a. g_replay spec (g_hist w) (abst s0) = Some a \<and> (\<forall>t e. g_pc w t \<noteq> Broken e) \<and>
    ((\<forall>t. \<not> g_inside (g_pc w t)) \<longrightarrow> inv (g_obj w) \<and> abst (g_obj w) = a)"
proof -
  have "\<exists>s. g_linear s0 w s"
    using assms(2)
  proof (induction rule: g_reach.induct)
    case g_start
    then show ?case using g_linear_init [OF assms(1)] by blast
  next
    case (g_next w t w')
    then show ?case using g_linear_step [OF g_reach_holds [OF g_next(1)]] by blast
  qed
  then obtain s where s: "g_linear s0 w s" ..
  have "g_pc w t \<noteq> Broken e" for t e
  proof
    assume "g_pc w t = Broken e"
    then show False using s by (metis g_linear_def g_view_simps(5))
  qed
  then show ?thesis using s unfolding g_linear_def by blast
qed

text \<open>As long as a thread is in a call, some thread in a call can take a step that is not a mere \<open>g_mid\<close>.\<close>

fun g_work :: "('op, 's, 'r) g_pc \<Rightarrow> nat" where
  "g_work (Wants _) = 3" | "g_work (Within _ _) = 2" | "g_work (Leaves _ _) = 1" | "g_work _ = 0"

lemma g_progress:
  assumes "inv s0" "g_reach body allowed s0 w" "g_pc w t \<noteq> Out"
  shows "\<exists>u w'. g_step body (\<lambda>_. False) u w w' \<and> g_work (g_pc w' u) < g_work (g_pc w u) \<and> (\<forall>v. v \<noteq> u \<longrightarrow> g_pc w' v = g_pc w v)"
proof (cases "\<exists>u. g_inside (g_pc w u)")
  case True
  then obtain u where u: "g_inside (g_pc w u)" by blast
  have nb: "g_pc w u \<noteq> Broken e" for e using g_linearizable [OF assms(1,2)] by blast
  have hold: "rw_writer (g_lock w) = Some u" using g_reach_holds [OF assms(2)] u by (simp add: g_holds_def)
  show ?thesis
  proof (cases "g_pc w u")
    case (Within op s)
    show ?thesis
    proof (cases "body op s")
      case (Inl e)
      have "g_step body (\<lambda>_. False) u w (g_at u (Broken e) w)" using g_fault [of w u op s body e] Within Inl by simp
      then show ?thesis using Within by (intro exI conjI) auto
    next
      case (Inr p)
      then obtain r s' where "body op s = Inr (r, s')" by (cases p) simp
      then have "g_step body (\<lambda>_. False) u w (g_at u (Leaves op r) (w\<lparr>g_obj := s'\<rparr>))" by (rule g_done [OF Within])
      then show ?thesis using Within by (intro exI conjI) auto
    qed
  next
    case (Leaves op r)
    have "rw_unlock u (g_lock w) = Inr (0, (g_lock w)\<lparr>rw_writer := None\<rparr>)" using hold by (simp add: rw_unlock_def)
    from g_leave [OF Leaves this] show ?thesis using Leaves by (intro exI conjI) auto
  qed (use u nb in auto)
next
  case False
  then have "\<not> g_inside (g_pc w t)" by blast
  then obtain op where op: "g_pc w t = Wants op" using assms(3) by (cases "g_pc w t") auto
  have "rw_writer (g_lock w) = None" "rw_readers (g_lock w) = []"
    using g_reach_holds [OF assms(2)] False by (auto simp: g_holds_def)
  then have "rw_wrlock t (g_lock w) = Some (0, (g_lock w)\<lparr>rw_writer := Some t\<rparr>)" by (simp add: rw_wrlock_def)
  from g_enter [OF op this] show ?thesis using op by (intro exI conjI) auto
qed

end

end
