(* ===== verification/GclEventMT.thy ===== *)
theory GclEventMT
  imports GclEventRun GclGuarded
begin

section \<open>EventEmitter used by threads\<close>

text \<open>
  Every operation of the emitter runs inside an \<open>AutoLockWrite\<close> on its lock. \<open>em_body\<close> is what runs
  inside; on an emitter nobody has locked it is the whole operation, so the sequential contract makes
  the emitter an instance of \<open>guarded\<close>. Then the program \<open>basic_test\<close> of \<open>samples/ex-event.cpp\<close>: one
  thread emits in a loop, the main thread registers the handler before and removes it meanwhile.
\<close>

subsection \<open>The bodies\<close>

fun em_body :: "'u effects \<Rightarrow> em_call \<Rightarrow> 'u \<times> emitter \<Rightarrow> (bool \<times> 'u \<times> emitter) res" where
  "em_body f (On s l d) (u, e) = rbind (em_on_body (s @ [0]) l d False e) (\<lambda>(ok, e). Inr (ok, u, e))"
| "em_body f (Off s l) (u, e) = rbind (em_off_body (s @ [0]) l e) (\<lambda>(ok, e). Inr (ok, u, e))"
| "em_body f (Emit s) (u, e) = rbind (em_emit_body (listeners_of f) (s @ [0]) u e) (\<lambda>((ok, u), e). Inr (ok, u, e))"

definition relock :: "rwlock \<Rightarrow> ('r \<times> emitter) res \<Rightarrow> ('r \<times> emitter) res" where
  "relock L x = rbind x (\<lambda>(r, e). Inr (r, e\<lparr>em_lock := L\<rparr>))"

lemma on_body_lock: "em_on_body nm l d once (e\<lparr>em_lock := L\<rparr>) = relock L (em_on_body nm l d once e)"
  by (auto simp: em_on_body_def relock_def rbind_def Let_def split: sum.splits prod.splits)

lemma off_body_lock: "em_off_body nm l (e\<lparr>em_lock := L\<rparr>) = relock L (em_off_body nm l e)"
  by (auto simp: em_off_body_def relock_def rbind_def Let_def split: sum.splits prod.splits)

lemma emit_body_lock: "em_emit_body call nm u (e\<lparr>em_lock := L\<rparr>) = relock L (em_emit_body call nm u e)"
  by (auto simp: em_emit_body_def relock_def rbind_def split: sum.splits prod.splits)

lemma body_keeps_lock:
  assumes "\<And>e L. body (e\<lparr>em_lock := L\<rparr>) = relock L (body e)" "body e = Inr (r, e')"
  shows "em_lock e' = em_lock e"
proof -
  have "body e = relock (em_lock e) (body e)" using assms(1) [where e = e and L = "em_lock e"] by simp
  then show ?thesis using assms(2) by (simp add: relock_def) (metis emitter.ext_inject emitter.surjective emitter.update_convs(3))
qed

lemma locked_body:
  assumes "rw_free (em_lock e)" "\<And>e L. body (e\<lparr>em_lock := L\<rparr>) = relock L (body e)"
  shows "locked self body e = body e"
proof (cases "body e")
  case (Inl x)
  then show ?thesis using assms by (simp add: locked_def autolock_write_free relock_def rbind_def)
next
  case (Inr p)
  then obtain r e' where p: "body e = Inr (r, e')" by (cases p) simp
  have "(em_lock e)\<lparr>rw_writer := None\<rparr> = em_lock e" using assms(1) by (cases "em_lock e") (simp add: rw_free_def)
  moreover have "e'\<lparr>em_lock := em_lock e\<rparr> = e'" using body_keeps_lock [of body, OF assms(2) p] by (cases e') simp
  ultimately show ?thesis
    using assms p by (simp add: locked_def autolock_write_free relock_def autolock_end_writer)
qed

lemma em_do_body: "rw_free (em_lock e) \<Longrightarrow> call_ok c \<Longrightarrow> em_do self f c (u, e) = em_body f c (u, e)"
  by (cases c) (simp_all add: em_on_def em_add_def c_strlen_0 em_off_def em_emit_def
    locked_body on_body_lock off_body_lock emit_body_lock)

subsection \<open>The emitter as a guarded object\<close>

definition em_inv :: "nat \<Rightarrow> nat \<Rightarrow> 'u \<times> emitter \<Rightarrow> bool" where
  "em_inv nc lc z \<longleftrightarrow> em_ok (snd z) \<and> em_solid (snd z) \<and> cq_cap (em_names (snd z)) = nc \<and> cq_cap (em_listeners (snd z)) = lc"

definition em_abstract :: "'u \<times> emitter \<Rightarrow> 'u \<times> aem" where
  "em_abstract z = (fst z, aem_of (snd z))"

interpretation emitter: guarded "em_body f" "em_inv nc lc" call_ok "aem_do nc lc f" em_abstract
proof
  fix z :: "'a \<times> emitter" and c assume inv: "em_inv nc lc z" and c: "call_ok c"
  obtain u e where z: "z = (u, e)" by (cases z)
  have e: "em_ok e" "em_solid e" "cq_cap (em_names e) = nc" "cq_cap (em_listeners e) = lc"
    using inv z by (simp_all add: em_inv_def)
  obtain e' where e': "em_do 0 f c (u, e) = (case aem_do nc lc f c (u, aem_of e) of (ok, u', _) \<Rightarrow> Inr (ok, u', e'))"
    "aem_of e' = snd (snd (aem_do nc lc f c (u, aem_of e)))" "em_ok e'" "em_solid e'"
    "cq_cap (em_names e') = nc" "cq_cap (em_listeners e') = lc"
    by (rule em_do_spec [OF e(1,2) c, of 0 f u]) (simp add: e(3,4))
  have "em_body f c z = Inr (fst (aem_do nc lc f c (u, aem_of e)), fst (snd (aem_do nc lc f c (u, aem_of e))), e')"
    using e'(1) em_do_body [OF em_okD(1) [OF e(1)] c, of 0 f u] z by (simp split: prod.splits)
  then show "\<exists>z'. em_body f c z = Inr (fst (aem_do nc lc f c (em_abstract z)), z') \<and> em_inv nc lc z'
      \<and> em_abstract z' = snd (aem_do nc lc f c (em_abstract z))"
    using e' unfolding z
    by (intro exI [of _ "(fst (snd (aem_do nc lc f c (u, aem_of e))), e')"] conjI)
       (simp_all add: em_abstract_def em_inv_def prod_eq_iff)
qed

lemma em_inv_fresh:
  assumes "em_ok e" "em_abs e = []" "em_events e = {}" "em_solid e"
  shows "em_inv (cq_cap (em_names e)) (cq_cap (em_listeners e)) (u, e)"
    "em_abstract (u, e) = (u, \<lparr>ae_names = {}, ae_entries = []\<rparr>)"
  using assms by (simp_all add: em_inv_def em_abstract_def aem_of_def)

subsection \<open>The program of the sample\<close>

text \<open>
  Thread 0 is \<open>main\<close>: it registers the handler, starts the thread, removes the handler and cancels
  the thread, so that at some time it takes no more steps. Thread 1 is the runner, which emits once
  more whenever it is outside of a call. The handler \<open>h\<close> is recorded when it runs.
\<close>

definition suspend :: "u8_t list" where
  "suspend = [115, 117, 115, 112, 101, 110, 100]"

definition event_handler :: "ptr list effects" where
  "event_handler l d u = u @ [l]"

abbreviation (input) ev_body :: "em_call \<Rightarrow> ptr list \<times> emitter \<Rightarrow> (bool \<times> ptr list \<times> emitter) res" where
  "ev_body \<equiv> em_body event_handler"

datatype ev_stage = BeforeOn | Started | OffCalled

record ev_world =
  ev_sys :: "(em_call, ptr list \<times> emitter, bool) g_sys"
  ev_main :: ev_stage

inductive ev_step :: "ptr \<Rightarrow> ptr \<Rightarrow> ev_world \<Rightarrow> ev_world \<Rightarrow> bool" for h d where
  ev_on: "ev_main w = BeforeOn \<Longrightarrow> ev_step h d w (w\<lparr>ev_sys := g_at 0 (Wants (On suspend h d)) (ev_sys w), ev_main := Started\<rparr>)"
| ev_off: "ev_main w = Started \<Longrightarrow> g_pc (ev_sys w) 0 = Out \<Longrightarrow>
    ev_step h d w (w\<lparr>ev_sys := g_at 0 (Wants (Off suspend h)) (ev_sys w), ev_main := OffCalled\<rparr>)"
| ev_emit: "ev_main w = Started \<and> g_pc (ev_sys w) 0 = Out \<or> ev_main w = OffCalled \<Longrightarrow> g_pc (ev_sys w) 1 = Out \<Longrightarrow>
    ev_step h d w (w\<lparr>ev_sys := g_at 1 (Wants (Emit suspend)) (ev_sys w)\<rparr>)"
| ev_move: "g_step ev_body (\<lambda>_. False) t (ev_sys w) s \<Longrightarrow> ev_step h d w (w\<lparr>ev_sys := s\<rparr>)"

inductive ev_reach :: "ptr \<Rightarrow> ptr \<Rightarrow> emitter \<Rightarrow> ev_world \<Rightarrow> bool" for h d e where
  ev_start: "ev_reach h d e \<lparr>ev_sys = g_init ([], e), ev_main = BeforeOn\<rparr>"
| ev_next: "ev_reach h d e w \<Longrightarrow> ev_step h d w w' \<Longrightarrow> ev_reach h d e w'"

lemma suspend_ok: "call_ok (On suspend h d)" "call_ok (Off suspend h)" "call_ok (Emit suspend)"
  by (simp_all add: suspend_def)

text \<open>The call a thread is in, and the form of the record of calls.\<close>

definition g_op :: "('op, 's, 'r) g_pc \<Rightarrow> 'op option" where
  "g_op pc = (case pc of Wants op \<Rightarrow> Some op | Within op _ \<Rightarrow> Some op | Leaves op _ \<Rightarrow> Some op | _ \<Rightarrow> None)"

lemma g_op_simps [simp]:
  "g_op Out = None" "g_op (Wants op) = Some op" "g_op (Within op s) = Some op" "g_op (Leaves op r) = Some op"
  by (simp_all add: g_op_def)

definition emits :: "(tid \<times> em_call \<times> bool) list \<Rightarrow> bool" where
  "emits hist \<longleftrightarrow> (\<forall>c \<in> set hist. \<exists>r. c = (1, Emit suspend, r))"

lemma emits_simps [simp]: "emits []" "emits (hist @ [(1, Emit suspend, r)]) = emits hist"
  by (auto simp: emits_def)

fun ev_shape :: "ptr \<Rightarrow> ptr \<Rightarrow> ev_stage \<Rightarrow> em_call option \<Rightarrow> (tid \<times> em_call \<times> bool) list \<Rightarrow> bool" where
  "ev_shape h d BeforeOn m hist \<longleftrightarrow> m = None \<and> hist = []"
| "ev_shape h d Started m hist \<longleftrightarrow> m = Some (On suspend h d) \<and> hist = [] \<or>
     m = None \<and> (\<exists>r es. hist = (0, On suspend h d, r) # es \<and> emits es)"
| "ev_shape h d OffCalled m hist \<longleftrightarrow> (\<exists>r es. emits es \<and>
     (m = Some (Off suspend h) \<and> hist = (0, On suspend h d, r) # es \<or>
      m = None \<and> (\<exists>r' es'. hist = (0, On suspend h d, r) # es @ (0, Off suspend h, r') # es' \<and> emits es')))"

definition ev_others :: "(tid \<Rightarrow> em_call option) \<Rightarrow> (tid \<times> em_call \<times> bool) list \<Rightarrow> bool" where
  "ev_others ops hist \<longleftrightarrow> (\<forall>t. t \<noteq> 0 \<longrightarrow> ops t = None \<or> t = 1 \<and> ops t = Some (Emit suspend) \<and> hist \<noteq> [])"

definition ev_ops :: "ev_world \<Rightarrow> tid \<Rightarrow> em_call option" where
  "ev_ops w t = g_op (g_pc (ev_sys w) t)"

definition ev_form :: "ptr \<Rightarrow> ptr \<Rightarrow> ev_world \<Rightarrow> bool" where
  "ev_form h d w \<longleftrightarrow> ev_shape h d (ev_main w) (ev_ops w 0) (g_hist (ev_sys w)) \<and> ev_others (ev_ops w) (g_hist (ev_sys w))"

subsection \<open>The form of every run\<close>

lemma g_op_out: "g_op pc = None \<Longrightarrow> \<forall>e. pc \<noteq> Broken e \<Longrightarrow> pc = Out"
  by (cases pc) simp_all

text \<open>A step that starts no call either records the call of its thread or changes no record.\<close>

lemma g_step_op:
  assumes "g_step body (\<lambda>_. False) t w w'" "\<forall>u e. g_pc w' u \<noteq> Broken e"
  obtains (same) "g_hist w' = g_hist w" "\<And>u. g_op (g_pc w' u) = g_op (g_pc w u)"
  | (recorded) op r where "g_op (g_pc w t) = Some op" "g_hist w' = g_hist w @ [(t, op, r)]"
      "g_pc w' = (g_pc w)(t := Out)"
  using assms(1)
proof cases
  case (g_fault op s e)
  then have "g_pc w' t = Broken e" by simp
  then show ?thesis using assms(2) by blast
qed (auto intro: same recorded)

lemma ev_shape_main:
  assumes "ev_shape h d st (Some op) hist"
  shows "ev_shape h d st None (hist @ [(0, op, r)])"
proof (cases st)
  case OffCalled
  then obtain r0 es where "emits es" "op = Off suspend h" "hist = (0, On suspend h d, r0) # es" using assms by auto
  then have "emits es \<and> hist @ [(0, op, r)] = (0, On suspend h d, r0) # es @ (0, Off suspend h, r) # [] \<and> emits []" by simp
  then show ?thesis unfolding OffCalled ev_shape.simps by blast
qed (use assms in auto)

lemma ev_shape_emit:
  assumes "ev_shape h d st m hist" "hist \<noteq> []"
  shows "ev_shape h d st m (hist @ [(1, Emit suspend, r)])"
proof (cases st)
  case Started
  then obtain r0 es where "m = None" "hist = (0, On suspend h d, r0) # es" "emits es" using assms by auto
  then have "m = None \<and> hist @ [(1, Emit suspend, r)] = (0, On suspend h d, r0) # (es @ [(1, Emit suspend, r)])
    \<and> emits (es @ [(1, Emit suspend, r)])" by (simp only: emits_simps append_Cons simp_thms)
  then show ?thesis unfolding Started ev_shape.simps by blast
next
  case OffCalled
  then obtain r0 es where es: "emits es" "m = Some (Off suspend h) \<and> hist = (0, On suspend h d, r0) # es
    \<or> m = None \<and> (\<exists>r' es'. hist = (0, On suspend h d, r0) # es @ (0, Off suspend h, r') # es' \<and> emits es')"
    using assms(1) unfolding OffCalled ev_shape.simps by blast
  from es(2) show ?thesis
  proof (elim disjE conjE exE)
    assume m: "m = Some (Off suspend h)" "hist = (0, On suspend h d, r0) # es"
    then have "emits (es @ [(1, Emit suspend, r)]) \<and> m = Some (Off suspend h) \<and>
      hist @ [(1, Emit suspend, r)] = (0, On suspend h d, r0) # (es @ [(1, Emit suspend, r)])"
      using es(1) by (simp only: emits_simps append_Cons simp_thms)
    then show ?thesis unfolding OffCalled ev_shape.simps by blast
  next
    fix r' es' assume m: "m = None" "hist = (0, On suspend h d, r0) # es @ (0, Off suspend h, r') # es'" "emits es'"
    then have "emits es \<and> m = None \<and> hist @ [(1, Emit suspend, r)]
        = (0, On suspend h d, r0) # es @ (0, Off suspend h, r') # (es' @ [(1, Emit suspend, r)])
      \<and> emits (es' @ [(1, Emit suspend, r)])"
      using es(1) by (simp only: emits_simps append_Cons append_assoc simp_thms)
    then show ?thesis unfolding OffCalled ev_shape.simps by blast
  qed
qed (use assms in auto)

lemma ev_othersD: "ev_others ops hist \<Longrightarrow> t \<noteq> 0 \<Longrightarrow> ops t = Some op \<Longrightarrow> t = 1 \<and> op = Emit suspend \<and> hist \<noteq> []"
  unfolding ev_others_def by (metis option.distinct(1) option.inject)

lemma ev_others_mono:
  "ev_others ops hist \<Longrightarrow> \<forall>t. ops' t = ops t \<or> ops' t = None \<Longrightarrow> hist = [] \<or> hist' \<noteq> [] \<Longrightarrow> ev_others ops' hist'"
  unfolding ev_others_def by metis

lemma ev_form_step:
  assumes "ev_form h d w" "ev_step h d w w'" "\<forall>u e. g_pc (ev_sys w) u \<noteq> Broken e" "\<forall>u e. g_pc (ev_sys w') u \<noteq> Broken e"
  shows "ev_form h d w'"
proof -
  note f = assms(1) [unfolded ev_form_def]
  from assms(2) show ?thesis
  proof cases
    case ev_on
    then show ?thesis using f by (auto simp: ev_form_def ev_ops_def ev_others_def)
  next
    case ev_off
    then show ?thesis using f by (auto simp: ev_form_def ev_ops_def ev_others_def)
  next
    case ev_emit
    have "g_hist (ev_sys w) \<noteq> []" using ev_emit(2) f by (auto simp: ev_ops_def)
    moreover have "ev_ops w' = (ev_ops w)(1 := Some (Emit suspend))" using ev_emit(1) by (auto simp: ev_ops_def)
    ultimately show ?thesis using f ev_emit(1) by (auto simp: ev_form_def ev_others_def)
  next
    case (ev_move t s)
    have nb: "\<forall>u e. g_pc s u \<noteq> Broken e" using assms(4) ev_move(1) by simp
    from ev_move(2) nb show ?thesis
    proof (cases rule: g_step_op)
      case same
      then show ?thesis using f ev_move(1) by (simp add: ev_form_def ev_ops_def ev_others_def)
    next
      case (recorded op r)
      have ops: "ev_ops w' = (ev_ops w)(t := None)" using recorded(3) ev_move(1) by (auto simp: ev_ops_def)
      have op: "ev_ops w t = Some op" using recorded(1) by (simp add: ev_ops_def)
      have hist: "g_hist (ev_sys w') = g_hist (ev_sys w) @ [(t, op, r)]" "ev_main w' = ev_main w"
        using recorded(2) ev_move(1) by simp_all
      have oth: "ev_others (ev_ops w') (g_hist (ev_sys w'))" 
        using ev_others_mono [of "ev_ops w" "g_hist (ev_sys w)"] f unfolding ops hist by simp
      show ?thesis
      proof (cases "t = 0")
        case True
        then show ?thesis using f op oth ev_shape_main [of h d "ev_main w" op "g_hist (ev_sys w)" r]
          by (simp add: ev_form_def ops hist)
      next
        case False
        then have "t = 1" "op = Emit suspend" "g_hist (ev_sys w) \<noteq> []"
          using f ev_othersD [of "ev_ops w" "g_hist (ev_sys w)" t op] op by blast+
        then show ?thesis using f oth ev_shape_emit [of h d "ev_main w" "ev_ops w 0" "g_hist (ev_sys w)" r]
          by (simp add: ev_form_def ops hist)
      qed
    qed
  qed
qed

lemma ev_form_start: "ev_form h d \<lparr>ev_sys = g_init z, ev_main = BeforeOn\<rparr>"
  by (simp add: ev_form_def ev_ops_def ev_others_def)

text \<open>Every step of the program is one of the general system, so what holds there holds here.\<close>

lemma ev_step_g:
  assumes "ev_form h d w" "ev_step h d w w'" "\<forall>u e. g_pc (ev_sys w) u \<noteq> Broken e"
  shows "\<exists>t. g_step ev_body call_ok t (ev_sys w) (ev_sys w')"
  using assms(2)
proof cases
  case ev_on
  then have "g_pc (ev_sys w) 0 = Out" using assms(1,3) by (simp add: ev_form_def ev_ops_def g_op_out)
  from g_call [where body = ev_body and allowed = call_ok, OF this suspend_ok(1) [of h d]] show ?thesis using ev_on by auto
next
  case ev_off
  from g_call [where body = ev_body and allowed = call_ok, OF ev_off(3) suspend_ok(2) [of h]] show ?thesis using ev_off by auto
next
  case ev_emit
  from g_call [where body = ev_body and allowed = call_ok, OF ev_emit(3) suspend_ok(3)] show ?thesis using ev_emit by auto
next
  case (ev_move t s)
  from ev_move(2) have "g_step ev_body call_ok t (ev_sys w) s"
    by (rule g_stepE) (auto intro: g_step.intros)
  then show ?thesis using ev_move(1) by auto
qed

lemma ev_reach_g:
  assumes "ev_reach h d e w" "em_inv nc lc ([] :: ptr list, e)"
  shows "g_reach ev_body call_ok ([], e) (ev_sys w) \<and> ev_form h d w"
  using assms(1)
proof (induction rule: ev_reach.induct)
  case ev_start
  then show ?case using ev_form_start g_start by simp
next
  case (ev_next w w')
  note nb = emitter.g_linearizable [OF assms(2)]
  have r: "g_reach ev_body call_ok ([], e) (ev_sys w)" and f: "ev_form h d w" using ev_next.IH by auto
  have b: "\<forall>u e. g_pc (ev_sys w) u \<noteq> Broken e" using nb [OF r] by blast
  obtain t where "g_step ev_body call_ok t (ev_sys w) (ev_sys w')" using ev_step_g [OF f ev_next(2) b] by blast
  from g_next [OF r this] have r': "g_reach ev_body call_ok ([], e) (ev_sys w')" .
  have "\<forall>u e. g_pc (ev_sys w') u \<noteq> Broken e" using nb [OF r'] by blast
  then show ?case using r' ev_form_step [OF f ev_next(2) b] by blast
qed

end
