(* ===== verification/GclEventMTProps.thy ===== *)
theory GclEventMTProps
  imports GclEventMT
begin

section \<open>Properties of the emitter under threads\<close>

text \<open>
  The interface \<open>guarded\<close> gives the general statements; for the program of \<open>samples/ex-event.cpp\<close>
  the record of calls is known up to the number of emits, so the abstract emitter can be replayed.
\<close>

text \<open>A constructed emitter is where the abstract one starts.\<close>

lemma em_new_inv:
  assumes "mn \<noteq> 0" "ml \<noteq> 0" "unat mn < 2 ^ 27" "unat ml < 2 ^ 26"
    and "a \<noteq> 0" "b \<noteq> 0" "unat a + 2 ^ 32 < 2 ^ 64" "unat b + 2 ^ 32 < 2 ^ 64"
  obtains e heap' where "em_new mn ml (a, ja) (b, jb) heap = Inr (e, heap')"
    "em_inv (unat mn) (unat ml) (u, e)" "em_abstract (u, e) = (u, \<lparr>ae_names = {}, ae_entries = []\<rparr>)"
proof -
  obtain e heap' where e: "em_new mn ml (a, ja) (b, jb) heap = Inr (e, heap')" "em_ok e" "em_abs e = []" "em_events e = {}"
    "cq_cap (em_names e) = unat mn" "cq_cap (em_listeners e) = unat ml" "em_solid e"
    by (rule em_new_spec [OF assms])
  show thesis using em_inv_fresh [OF e(2,3,4,7)] e by (intro that [of e heap']) simp_all
qed

lemma em_new_linearizable:
  assumes "mn \<noteq> 0" "ml \<noteq> 0" "unat mn < 2 ^ 27" "unat ml < 2 ^ 26"
    and "a \<noteq> 0" "b \<noteq> 0" "unat a + 2 ^ 32 < 2 ^ 64" "unat b + 2 ^ 32 < 2 ^ 64"
    and "em_new mn ml (a, ja) (b, jb) heap = Inr (e, heap')"
    and "g_reach (em_body f) call_ok (u, e) w"
  shows "\<exists>final. g_replay (aem_do (unat mn) (unat ml) f) (g_hist w) (u, \<lparr>ae_names = {}, ae_entries = []\<rparr>) = Some final
    \<and> (\<forall>t x. g_pc w t \<noteq> Broken x) \<and> ((\<forall>t. \<not> g_inside (g_pc w t)) \<longrightarrow> em_abstract (g_obj w) = final)"
proof -
  obtain e0 heap0 where e0: "em_new mn ml (a, ja) (b, jb) heap = Inr (e0, heap0)" "em_inv (unat mn) (unat ml) (u, e0)"
    "em_abstract (u, e0) = (u, \<lparr>ae_names = {}, ae_entries = []\<rparr>)"
    by (rule em_new_inv [OF assms(1-8)])
  have "e0 = e" using e0(1) assms(9) by simp
  with emitter.g_linearizable [OF e0(2), of f w] assms(10) show ?thesis unfolding e0(3) by blast
qed

text \<open>
  C4: An emitter shared by any number of threads, each calling \<open>on\<close>, \<open>off\<close> and \<open>emit\<close> as it likes:
  in every interleaving no call faults, and there is one order of the finished calls, the order in
  which the threads leave, in which every call returned what the abstract emitter returns. When
  no thread is inside, the emitter and the effects of its listeners are those of that order.
\<close>

theorem emitter_threads_linearizable:
  assumes "mn \<noteq> 0" "ml \<noteq> 0" "unat mn < 2 ^ 27" "unat ml < 2 ^ 26"
    and "a \<noteq> 0" "b \<noteq> 0" "unat a + 2 ^ 32 < 2 ^ 64" "unat b + 2 ^ 32 < 2 ^ 64"
    and "em_new mn ml (a, ja) (b, jb) heap = Inr (e, heap')"
    and "g_reach (em_body f) call_ok (u, e) w"
  shows "\<exists>final. g_replay (aem_do (unat mn) (unat ml) f) (g_hist w) (u, \<lparr>ae_names = {}, ae_entries = []\<rparr>) = Some final
    \<and> (\<forall>t x. g_pc w t \<noteq> Broken x) \<and> ((\<forall>t. \<not> g_inside (g_pc w t)) \<longrightarrow> em_abstract (g_obj w) = final)"
  by (rule em_new_linearizable [OF assms])

text \<open>A call that nobody disturbs: three steps from the request to the return.\<close>

lemma g_run_call:
  assumes "g_pc w t = Wants op" "g_lock w = rw_new" "body op (g_obj w) = Inr (r, s')"
  obtains w1 w2 w3 where "g_step body allowed t w w1" "g_step body allowed t w1 w2" "g_step body allowed t w2 w3"
    "g_hist w3 = g_hist w @ [(t, op, r)]" "g_obj w3 = s'" "g_lock w3 = rw_new" "g_pc w3 = (g_pc w)(t := Out)"
proof -
  let ?L = "rw_new\<lparr>rw_writer := Some t\<rparr>"
  let ?w1 = "g_at t (Within op (g_obj w)) (w\<lparr>g_lock := ?L\<rparr>)"
  let ?w2 = "g_at t (Leaves op r) (?w1\<lparr>g_obj := s'\<rparr>)"
  let ?w3 = "g_at t Out (?w2\<lparr>g_lock := rw_new, g_hist := g_hist ?w2 @ [(t, op, r)]\<rparr>)"
  have "rw_wrlock t (g_lock w) = Some (0, ?L)" unfolding assms(2) by (simp add: rw_wrlock_def rw_new_def)
  from g_enter [where body = body and allowed = allowed, OF assms(1) this] have 1: "g_step body allowed t w ?w1" .
  have 2: "g_step body allowed t ?w1 ?w2" by (rule g_done [where s = "g_obj w"]) (simp_all add: assms(3))
  have "rw_unlock t (g_lock ?w2) = Inr (0, rw_new)" by (simp add: rw_unlock_def rw_new_def)
  from g_leave [where body = body and allowed = allowed, OF _ this] have 3: "g_step body allowed t ?w2 ?w3" by simp
  show thesis by (rule that [OF 1 2 3]) simp_all
qed

lemma emitter_threads_linearizable_witness:
  "\<exists>e heap' w. em_new 2 2 (4096, \<lambda>_. 0) (8192, \<lambda>_. 0) {} = Inr (e, heap') \<and>
     g_reach (em_body event_handler) call_ok ([] :: ptr list, e) w \<and> g_hist w = [(5, On [97] 100 0, True)]"
proof -
  obtain e heap' where e: "em_new 2 2 (4096, \<lambda>_. 0) (8192, \<lambda>_. 0) {} = Inr (e, heap')"
    "em_inv (unat (2 :: u32_t)) (unat (2 :: u32_t)) ([] :: ptr list, e)"
    "em_abstract ([] :: ptr list, e) = ([], \<lparr>ae_names = {}, ae_entries = []\<rparr>)"
    by (rule em_new_inv [of 2 2 4096 8192 "\<lambda>_. 0" "\<lambda>_. 0" "{}" "[] :: ptr list"]) simp_all
  obtain r z where b: "em_body event_handler (On [97] 100 0) ([] :: ptr list, e) = Inr (r, z)"
    using emitter.body_meets_spec [OF e(2), of "On [97] 100 0" event_handler] by auto
  obtain w where w: "g_reach (em_body event_handler) call_ok ([] :: ptr list, e) w" "g_hist w = [(5, On [97] 100 0, r)]"
  proof -
    let ?w = "g_at 5 (Wants (On [97] 100 0)) (g_init ([] :: ptr list, e))"
    have 0: "g_reach (em_body event_handler) call_ok ([], e) ?w" by (rule g_next [OF g_start g_call]) simp_all
    obtain w1 w2 w3 where w: "g_step (em_body event_handler) call_ok 5 ?w w1" "g_step (em_body event_handler) call_ok 5 w1 w2"
      "g_step (em_body event_handler) call_ok 5 w2 w3" "g_hist w3 = g_hist ?w @ [(5, On [97] 100 0, r)]"
      by (rule g_run_call [where w = ?w and t = 5 and op = "On [97] 100 0" and body = "em_body event_handler"
            and r = r and s' = z and allowed = call_ok]) (simp_all add: b del: em_body.simps)
    show thesis by (rule that [OF g_next [OF g_next [OF g_next [OF 0 w(1)] w(2)] w(3)]]) (simp add: w(4))
  qed
  have r: "r = True"
    using emitter_threads_linearizable [OF _ _ _ _ _ _ _ _ e(1) w(1)] w(2) by (auto simp: Let_def split: if_splits)
  show ?thesis using e(1) w unfolding r by blast
qed

subsection \<open>The sample\<close>

text \<open>What the abstract emitter answers to emits while \<open>h\<close> is registered, and after \<open>off\<close>.\<close>

lemma aem_do_on:
  "nc \<noteq> 0 \<Longrightarrow> lc \<noteq> 0 \<Longrightarrow> aem_do nc lc f (On nm h d) (u, \<lparr>ae_names = {}, ae_entries = []\<rparr>)
     = (True, u, \<lparr>ae_names = {nm}, ae_entries = [(nm, h, d, False)]\<rparr>)"
  by (simp add: Let_def)

lemma aem_do_off:
  "aem_do nc lc f (Off nm h) (u, \<lparr>ae_names = {nm}, ae_entries = [(nm, h, d, False)]\<rparr>)
     = (True, u, \<lparr>ae_names = {}, ae_entries = []\<rparr>)"
  by (simp add: Let_def off_entry_def)

lemma handler_effect: "h \<noteq> 0 \<Longrightarrow> effect_of event_handler (nm, h, d, once) u = u @ [h]"
  by (simp add: effect_of_def event_handler_def)

lemma replay_emits_on:
  "emits es \<Longrightarrow> h \<noteq> 0 \<Longrightarrow>
   g_replay (aem_do nc lc event_handler) es (u, \<lparr>ae_names = {suspend}, ae_entries = [(suspend, h, d, False)]\<rparr>) = Some z \<Longrightarrow>
   es = replicate (length es) (1, Emit suspend, True)
     \<and> z = (u @ replicate (length es) h, \<lparr>ae_names = {suspend}, ae_entries = [(suspend, h, d, False)]\<rparr>)"
proof (induction es arbitrary: u)
  case (Cons c es)
  then obtain r where c: "c = (1, Emit suspend, r)" "emits es" by (auto simp: emits_def)
  have r: "r" and rest: "g_replay (aem_do nc lc event_handler) es
      (u @ [h], \<lparr>ae_names = {suspend}, ae_entries = [(suspend, h, d, False)]\<rparr>) = Some z"
    using Cons.prems(2,3) unfolding c by (auto simp: handler_effect split: if_splits)
  from Cons.IH [OF c(2) Cons.prems(2) rest] r show ?case unfolding c by (simp add: replicate_append_same [symmetric])
qed simp

lemma replay_emits_off:
  "emits es \<Longrightarrow> g_replay (aem_do nc lc event_handler) es (u, \<lparr>ae_names = {}, ae_entries = []\<rparr>) = Some z \<Longrightarrow>
   es = replicate (length es) (1, Emit suspend, False) \<and> z = (u, \<lparr>ae_names = {}, ae_entries = []\<rparr>)"
proof (induction es)
  case (Cons c es)
  then obtain r where c: "c = (1, Emit suspend, r)" "emits es" by (auto simp: emits_def)
  have "\<not> r" "g_replay (aem_do nc lc event_handler) es (u, \<lparr>ae_names = {}, ae_entries = []\<rparr>) = Some z"
    using Cons.prems(2) unfolding c by (auto split: if_splits)
  with Cons.IH [OF c(2)] show ?case unfolding c by simp
qed simp

text \<open>The record of calls once \<open>on\<close> is done: \<open>k\<close> emits before \<open>off\<close>, the rest after it.\<close>

lemma ev_record:
  assumes "nc \<noteq> 0" "lc \<noteq> 0" "h \<noteq> 0" "ev_shape h d st m hist" "hist \<noteq> []"
    and "g_replay (aem_do nc lc event_handler) hist ([], \<lparr>ae_names = {}, ae_entries = []\<rparr>) = Some z"
  shows "\<exists>k tail. hist = (0, On suspend h d, True) # replicate k (1, Emit suspend, True) @ tail
    \<and> (tail = [] \<or> (\<exists>j. tail = (0, Off suspend h, True) # replicate j (1, Emit suspend, False))) \<and> fst z = replicate k h"
proof -
  obtain r es tail where hist: "hist = (0, On suspend h d, r) # es @ tail" "emits es"
    "tail = [] \<or> (\<exists>r' es'. tail = (0, Off suspend h, r') # es' \<and> emits es')"
    using assms(4,5) by (cases st) (auto, (metis append_Nil2)+)
  have r: r and rep: "g_replay (aem_do nc lc event_handler) (es @ tail)
      ([], \<lparr>ae_names = {suspend}, ae_entries = [(suspend, h, d, False)]\<rparr>) = Some z"
    using assms(6) unfolding hist(1) by (simp_all only: g_replay.simps aem_do_on [OF assms(1,2)] split: prod.splits if_splits) auto
  obtain z1 where z1: "g_replay (aem_do nc lc event_handler) es
      ([], \<lparr>ae_names = {suspend}, ae_entries = [(suspend, h, d, False)]\<rparr>) = Some z1" "g_replay (aem_do nc lc event_handler) tail z1 = Some z"
    using rep unfolding g_replay_append by (auto simp: bind_eq_Some_conv)
  note E = replay_emits_on [OF hist(2) assms(3) z1(1)]
  from hist(3) show ?thesis
  proof
    assume "tail = []"
    then show ?thesis using E z1(2) hist(1) r by (intro exI [of _ "length es"] exI [of _ "[]"]) auto
  next
    assume "\<exists>r' es'. tail = (0, Off suspend h, r') # es' \<and> emits es'"
    then obtain r' es' where t: "tail = (0, Off suspend h, r') # es'" "emits es'" by blast
    have r': "r'" and off: "g_replay (aem_do nc lc event_handler) es' (replicate (length es) h, \<lparr>ae_names = {}, ae_entries = []\<rparr>) = Some z"
      using z1(2) unfolding t(1) conjunct2 [OF E] by (auto simp: aem_do_off simp del: aem_do.simps split: if_splits)
    have "tail = (0, Off suspend h, True) # replicate (length es') (1, Emit suspend, False)" "fst z = replicate (length es) h"
      using replay_emits_off [OF t(2) off] r' t(1) by simp_all
    moreover have "hist = (0, On suspend h d, True) # replicate (length es) (1, Emit suspend, True) @ tail"
      using E hist(1) r by simp
    ultimately show ?thesis by blast
  qed
qed

text \<open>
  C11: The program of the event sample, main and runner interleaved in any way: the record of its
  finished calls is empty or a successful \<open>on\<close>, some emits that all succeed, and when \<open>off\<close> has
  returned, emits that all answer that there is no such event. Whenever no thread is inside the
  emitter the handler has run exactly once for every successful emit: it never runs after \<open>off\<close>.
\<close>

theorem sample_event_off_is_final:
  assumes "mn \<noteq> 0" "ml \<noteq> 0" "unat mn < 2 ^ 27" "unat ml < 2 ^ 26"
    and "a \<noteq> 0" "b \<noteq> 0" "unat a + 2 ^ 32 < 2 ^ 64" "unat b + 2 ^ 32 < 2 ^ 64"
    and "em_new mn ml (a, ja) (b, jb) heap = Inr (e, heap')" "h \<noteq> 0" "ev_reach h d e w" "g_hist (ev_sys w) \<noteq> []"
  shows "\<exists>k tail. g_hist (ev_sys w) = (0, On suspend h d, True) # replicate k (1, Emit suspend, True) @ tail
    \<and> (tail = [] \<or> (\<exists>j. tail = (0, Off suspend h, True) # replicate j (1, Emit suspend, False)))
    \<and> ((\<forall>t. \<not> g_inside (g_pc (ev_sys w) t)) \<longrightarrow> fst (g_obj (ev_sys w)) = replicate k h)"
proof -
  obtain e0 heap0 where e0: "em_new mn ml (a, ja) (b, jb) heap = Inr (e0, heap0)" "em_inv (unat mn) (unat ml) ([] :: ptr list, e0)"
    by (rule em_new_inv [OF assms(1-8)])
  have e: "e0 = e" using e0(1) assms(9) by simp
  have nz: "unat mn \<noteq> 0" "unat ml \<noteq> 0" using assms(1,2) by (simp_all add: unat_eq_zero)
  have r: "g_reach ev_body call_ok ([], e) (ev_sys w)" and form: "ev_form h d w"
    using ev_reach_g [OF assms(11)] e0(2) unfolding e by blast+
  obtain final where f: "g_replay (aem_do (unat mn) (unat ml) event_handler) (g_hist (ev_sys w)) ([], \<lparr>ae_names = {}, ae_entries = []\<rparr>) = Some final"
    "(\<forall>t. \<not> g_inside (g_pc (ev_sys w) t)) \<longrightarrow> em_abstract (g_obj (ev_sys w)) = final"
    using em_new_linearizable [OF assms(1-9) r] by blast
  from ev_record [OF nz assms(10) _ assms(12) f(1)] form
  obtain k tail where k: "g_hist (ev_sys w) = (0, On suspend h d, True) # replicate k (1, Emit suspend, True) @ tail"
    "tail = [] \<or> (\<exists>j. tail = (0, Off suspend h, True) # replicate j (1, Emit suspend, False))" "fst final = replicate k h"
    unfolding ev_form_def by blast
  have "(\<forall>t. \<not> g_inside (g_pc (ev_sys w) t)) \<longrightarrow> fst (g_obj (ev_sys w)) = replicate k h"
    using f(2) k(3) by (auto simp: em_abstract_def)
  then show ?thesis using k(1,2) by blast
qed

lemma sample_event_off_is_final_witness:
  "\<exists>e heap' w. em_new 2 2 (4096, \<lambda>_. 0) (8192, \<lambda>_. 0) {} = Inr (e, heap') \<and>
     ev_reach 100 7 e w \<and> g_hist (ev_sys w) = [(0, On suspend 100 7, True)] \<and> fst (g_obj (ev_sys w)) = []"
proof -
  obtain e heap' where e: "em_new 2 2 (4096, \<lambda>_. 0) (8192, \<lambda>_. 0) {} = Inr (e, heap')"
    "em_inv (unat (2 :: u32_t)) (unat (2 :: u32_t)) ([] :: ptr list, e)"
    "em_abstract ([] :: ptr list, e) = ([], \<lparr>ae_names = {}, ae_entries = []\<rparr>)"
    by (rule em_new_inv [of 2 2 4096 8192 "\<lambda>_. 0" "\<lambda>_. 0" "{}" "[] :: ptr list"]) simp_all
  obtain r z where b: "ev_body (On suspend 100 7) ([], e) = Inr (r, z)"
    using emitter.body_meets_spec [OF e(2) suspend_ok(1) [of 100 7], of event_handler] by auto
  let ?w = "\<lparr>ev_sys = g_at 0 (Wants (On suspend 100 7)) (g_init ([], e)), ev_main = Started\<rparr>"
  have 0: "ev_reach 100 7 e ?w" using ev_next [OF ev_start ev_on, of e 100 7] by simp
  obtain w1 w2 w3 where w: "g_step ev_body (\<lambda>_. False) 0 (ev_sys ?w) w1" "g_step ev_body (\<lambda>_. False) 0 w1 w2"
    "g_step ev_body (\<lambda>_. False) 0 w2 w3" "g_hist w3 = g_hist (ev_sys ?w) @ [(0, On suspend 100 7, r)]"
    "g_pc w3 = (g_pc (ev_sys ?w))(0 := Out)"
    by (rule g_run_call [where w = "ev_sys ?w" and t = 0 and op = "On suspend 100 7" and body = ev_body
          and r = r and s' = z and allowed = "\<lambda>_. False"]) (simp_all add: b del: em_body.simps)
  have 1: "ev_reach 100 7 e (?w\<lparr>ev_sys := w1\<rparr>)" using ev_next [OF 0 ev_move [OF w(1)]] by simp
  have 2: "ev_reach 100 7 e (?w\<lparr>ev_sys := w2\<rparr>)" using ev_next [OF 1 ev_move] w(2) by fastforce
  have 3: "ev_reach 100 7 e (?w\<lparr>ev_sys := w3\<rparr>)" using ev_next [OF 2 ev_move] w(3) by fastforce
  have h: "g_hist w3 = [(0, On suspend 100 7, r)]" using w(4) by simp
  obtain k tail where "g_hist w3 = (0, On suspend 100 7, True) # replicate k (1, Emit suspend, True) @ tail"
    "(\<forall>t. \<not> g_inside (g_pc w3 t)) \<longrightarrow> fst (g_obj w3) = replicate k 100"
    using sample_event_off_is_final [OF _ _ _ _ _ _ _ _ e(1) _ 3] h by auto
  moreover have "\<not> g_inside (g_pc w3 t)" for t using w(5) by simp
  ultimately show ?thesis using e(1) 3 h by (intro exI conjI) auto
qed

end
