(* ===== verification/GclThread.thy ===== *)
theory GclThread
  imports GclSync
begin

section \<open>Thread: \<open>include/gthread.h\<close>, \<open>src/gthread.cpp\<close>\<close>

text \<open>
  The state of the module is the \<open>Thread\<close> objects, the two static variables (the number of
  running threads and the key of the thread-specific pointer) and what the threads library
  keeps for them: the live keys, the value of every key in every thread, which thread runs
  the wrapper of which object, and the pending cancellations. An object that is gone is no
  longer in the map, and using it is a fault, as is using a deleted key.

  \<open>start\<close> waits on a semaphore until the wrapper of the new thread has taken over its
  arguments and set the id, so the call and this first part of the wrapper are one operation;
  the end of the wrapper, with its cleanup handler, is the operation \<open>thread_finish\<close>. What the
  operating system decides (error codes, new thread and key numbers) is an argument. The
  unsynchronised updates of the counter by different threads are taken as atomic.
\<close>

subsection \<open>State\<close>

record thread_obj =
  m_t :: "tid option"
  m_tid :: u32_t

record tworld =
  tw_main :: ptr
  tw_objs :: "ptr \<Rightarrow> thread_obj option"
  tw_count :: u32_t
  tw_key :: nat
  tw_keys :: "nat set"
  tw_tls :: "nat \<Rightarrow> tid \<Rightarrow> ptr"
  tw_running :: "tid \<Rightarrow> ptr option"
  tw_cancelled :: "tid set"

text \<open>Static storage before the first constructor runs.\<close>

definition tw_zero :: "ptr \<Rightarrow> tworld" where
  "tw_zero main = \<lparr>tw_main = main, tw_objs = [main \<mapsto> \<lparr>m_t = None, m_tid = 0\<rparr>], tw_count = 0, tw_key = 0,
     tw_keys = {}, tw_tls = (\<lambda>_ _. 0), tw_running = (\<lambda>_. None), tw_cancelled = {}\<rparr>"

definition thread_obj_at :: "ptr \<Rightarrow> tworld \<Rightarrow> thread_obj res" where
  "thread_obj_at p w = (case tw_objs w p of None \<Rightarrow> Inl UseAfterFree | Some x \<Rightarrow> Inr x)"

text \<open>\<open>pthread_setspecific\<close>, \<open>pthread_getspecific\<close>, \<open>pthread_key_create\<close>, \<open>pthread_key_delete\<close>.\<close>

definition tls_set :: "tid \<Rightarrow> ptr \<Rightarrow> tworld \<Rightarrow> tworld res" where
  "tls_set t p w =
     (if tw_key w \<in> tw_keys w
      then Inr (w\<lparr>tw_tls := (tw_tls w)(tw_key w := (tw_tls w (tw_key w))(t := p))\<rparr>)
      else Inl BadHandle)"

definition tls_get :: "tid \<Rightarrow> tworld \<Rightarrow> ptr res" where
  "tls_get t w = (if tw_key w \<in> tw_keys w then Inr (tw_tls w (tw_key w) t) else Inl BadHandle)"

definition key_create :: "nat option \<Rightarrow> tworld \<Rightarrow> tworld" where
  "key_create new w =
     (case new of None \<Rightarrow> w
      | Some k \<Rightarrow> w\<lparr>tw_key := k, tw_keys := insert k (tw_keys w), tw_tls := (tw_tls w)(k := (\<lambda>_. 0))\<rparr>)"

definition key_delete :: "tworld \<Rightarrow> tworld res" where
  "key_delete w =
     (if tw_key w \<in> tw_keys w then Inr (w\<lparr>tw_keys := tw_keys w - {tw_key w}\<rparr>) else Inl BadHandle)"

subsection \<open>Accessors\<close>

definition thread_is_running :: "ptr \<Rightarrow> tworld \<Rightarrow> bool res" where
  "thread_is_running p w = rbind (thread_obj_at p w) (\<lambda>x. Inr (m_tid x \<noteq> -1))"

definition thread_id :: "ptr \<Rightarrow> tworld \<Rightarrow> int res" where
  "thread_id p w = rbind (thread_obj_at p w) (\<lambda>x. Inr (sint (m_tid x)))"

definition thread_get_handle :: "ptr \<Rightarrow> tworld \<Rightarrow> tid res" where
  "thread_get_handle p w =
     rbind (thread_obj_at p w) (\<lambda>x. case m_t x of None \<Rightarrow> Inl Uninit | Some t \<Rightarrow> Inr t)"

definition thread_get_current :: "tid \<Rightarrow> tworld \<Rightarrow> ptr res" where
  "thread_get_current self w = (if tw_count w = 0 then Inr (tw_main w) else tls_get self w)"

definition thread_get_counts :: "tworld \<Rightarrow> u32_t" where
  "thread_get_counts w = tw_count w"

subsection \<open>Construction and start\<close>

definition thread_new :: "tid \<Rightarrow> ptr \<Rightarrow> nat option \<Rightarrow> tworld \<Rightarrow> tworld res" where
  "thread_new self p newkey w =
     (let w = w\<lparr>tw_objs := (tw_objs w)(p \<mapsto> \<lparr>m_t = None, m_tid = -1\<rparr>)\<rparr>
      in if tw_count w = 0
         then let w = key_create newkey w;
                  w = w\<lparr>tw_objs := (tw_objs w)(tw_main w \<mapsto> \<lparr>m_t = Some self, m_tid = 0\<rparr>)\<rparr>
              in tls_set self (tw_main w) w
         else Inr w)"

text \<open>The wrapper up to \<open>sem_post\<close>, in the new thread.\<close>

definition thread_wrapper_begin :: "tid \<Rightarrow> ptr \<Rightarrow> tworld \<Rightarrow> tworld res" where
  "thread_wrapper_begin self p w =
     rbind (tls_set self p w) (\<lambda>w.
     rbind (thread_obj_at p w) (\<lambda>x.
       let count = tw_count w + 1
       in Inr (w\<lparr>tw_count := count, tw_objs := (tw_objs w)(p \<mapsto> x\<lparr>m_tid := count\<rparr>),
                tw_running := (tw_running w)(self \<mapsto> p)\<rparr>)))"

definition thread_start :: "ptr \<Rightarrow> int \<Rightarrow> tid \<Rightarrow> tworld \<Rightarrow> (int \<times> tworld) res" where
  "thread_start p err child w =
     rbind (thread_obj_at p w) (\<lambda>x.
       if m_tid x \<noteq> -1 then Inr (EINVAL, w)
       else if err \<noteq> 0 then Inr (err, w\<lparr>tw_objs := (tw_objs w)(p \<mapsto> x\<lparr>m_t := None\<rparr>)\<rparr>)
       else rbind (thread_wrapper_begin child p (w\<lparr>tw_objs := (tw_objs w)(p \<mapsto> x\<lparr>m_t := Some child\<rparr>)\<rparr>))
              (\<lambda>w. Inr (0, w)))"

subsection \<open>The end of a thread\<close>

text \<open>The cleanup handler: it runs when the body returns and when the thread is cancelled.\<close>

definition thread_destructor :: "ptr \<Rightarrow> tworld \<Rightarrow> tworld res" where
  "thread_destructor p w =
     rbind (thread_obj_at p w) (\<lambda>x.
       let w = w\<lparr>tw_objs := (tw_objs w)(p \<mapsto> x\<lparr>m_tid := -1\<rparr>), tw_count := tw_count w - 1\<rparr>
       in if tw_count w = 0
          then rbind (key_delete w) (\<lambda>w. Inr (w\<lparr>tw_key := 0\<rparr>))
          else Inr w)"

text \<open>The cleanup handler and the exit of the thread; its thread-specific values go with it.\<close>

definition thread_finish :: "tid \<Rightarrow> tworld \<Rightarrow> tworld res" where
  "thread_finish t w =
     (case tw_running w t of
        None \<Rightarrow> Inl Deadlock
      | Some p \<Rightarrow> rbind (thread_destructor p w) (\<lambda>w.
          Inr (w\<lparr>tw_running := (tw_running w)(t := None), tw_tls := (\<lambda>k. (tw_tls w k)(t := 0)),
                 tw_cancelled := tw_cancelled w - {t}\<rparr>)))"

text \<open>\<open>pthread_join\<close>: the target runs to its end; joining oneself is refused.\<close>

definition pthread_join :: "tid \<Rightarrow> tid \<Rightarrow> tworld \<Rightarrow> (int \<times> tworld) res" where
  "pthread_join self t w =
     (if t = self then Inr (EDEADLK, w) else rbind (thread_finish t w) (\<lambda>w. Inr (0, w)))"

definition thread_join :: "tid \<Rightarrow> ptr \<Rightarrow> tworld \<Rightarrow> (int \<times> tworld) res" where
  "thread_join self p w =
     rbind (thread_is_running p w) (\<lambda>running.
       if running then rbind (thread_get_handle p w) (\<lambda>t. pthread_join self t w) else Inr (0, w))"

definition thread_cancel :: "ptr \<Rightarrow> int \<Rightarrow> tworld \<Rightarrow> (int \<times> tworld) res" where
  "thread_cancel p err w =
     rbind (thread_is_running p w) (\<lambda>running.
       if running
       then rbind (thread_get_handle p w) (\<lambda>t.
              Inr (err, if err = 0 then w\<lparr>tw_cancelled := insert t (tw_cancelled w)\<rparr> else w))
       else Inr (0, w))"

text \<open>\<open>stop\<close>: \<open>err\<close> is what \<open>pthread_cancel\<close> returns.\<close>

definition thread_stop :: "tid \<Rightarrow> ptr \<Rightarrow> int \<Rightarrow> tworld \<Rightarrow> (int \<times> tworld) res" where
  "thread_stop self p err w =
     rbind (thread_is_running p w) (\<lambda>running.
       if running
       then rbind (thread_get_current self w) (\<lambda>current.
            rbind (thread_cancel p err w) (\<lambda>(err, w).
              if current \<noteq> p
              then if err = 0 then rbind (thread_get_handle p w) (\<lambda>t. pthread_join self t w) else Inr (err, w)
              else Inr (0, w)))
       else Inr (0, w))"

definition thread_delete :: "tid \<Rightarrow> ptr \<Rightarrow> int \<Rightarrow> tworld \<Rightarrow> tworld res" where
  "thread_delete self p err w =
     rbind (thread_stop self p err w) (\<lambda>(_, w). Inr (w\<lparr>tw_objs := (tw_objs w)(p := None)\<rparr>))"

subsection \<open>Programs of calls\<close>

datatype th_call =
    New tid ptr "nat option"
  | Start ptr int tid
  | Finish tid
  | Join tid ptr
  | Cancel ptr int
  | Stop tid ptr int
  | Delete tid ptr int

fun th_do :: "th_call \<Rightarrow> tworld \<Rightarrow> (int \<times> tworld) res" where
  "th_do (New self p newkey) w = rbind (thread_new self p newkey w) (\<lambda>w. Inr (0, w))"
| "th_do (Start p err child) w = thread_start p err child w"
| "th_do (Finish t) w = rbind (thread_finish t w) (\<lambda>w. Inr (0, w))"
| "th_do (Join self p) w = thread_join self p w"
| "th_do (Cancel p err) w = thread_cancel p err w"
| "th_do (Stop self p err) w = thread_stop self p err w"
| "th_do (Delete self p err) w = rbind (thread_delete self p err w) (\<lambda>w. Inr (0, w))"

fun th_run :: "th_call list \<Rightarrow> tworld \<Rightarrow> (int list \<times> tworld) res" where
  "th_run [] w = Inr ([], w)"
| "th_run (c # cs) w =
     rbind (th_do c w) (\<lambda>(r, w). rbind (th_run cs w) (\<lambda>(rs, w). Inr (r # rs, w)))"

text \<open>
  What the operating system and the program have to respect for a call to have a defined
  effect: fresh addresses, thread and key numbers, live objects, a live key for \<open>start\<close>, no
  object destroyed by its own thread or after a failed cancellation, no join with oneself or
  with the main thread.
\<close>

fun th_adm :: "th_call \<Rightarrow> tworld \<Rightarrow> bool" where
  "th_adm (New self p newkey) w \<longleftrightarrow> p \<noteq> 0 \<and> tw_objs w p = None \<and> tw_running w self \<noteq> Some p \<and>
     (case newkey of None \<Rightarrow> tw_key w \<in> tw_keys w | Some k \<Rightarrow> k \<notin> tw_keys w)"
| "th_adm (Start p err child) w \<longleftrightarrow> tw_objs w p \<noteq> None \<and> tw_running w child = None \<and> tw_key w \<in> tw_keys w
     \<and> tw_count w < 0xFFFFFFFE"
| "th_adm (Finish t) w \<longleftrightarrow> tw_running w t \<noteq> None"
| "th_adm (Join self p) w \<longleftrightarrow> tw_objs w p \<noteq> None \<and> p \<noteq> tw_main w"
| "th_adm (Cancel p err) w \<longleftrightarrow> tw_objs w p \<noteq> None \<and> p \<noteq> tw_main w"
| "th_adm (Stop self p err) w \<longleftrightarrow> tw_objs w p \<noteq> None \<and> p \<noteq> tw_main w"
| "th_adm (Delete self p err) w \<longleftrightarrow> tw_objs w p \<noteq> None \<and> p \<noteq> tw_main w \<and> tw_running w self \<noteq> Some p \<and> err = 0"

fun th_adm_all :: "th_call list \<Rightarrow> tworld \<Rightarrow> bool" where
  "th_adm_all [] w = True"
| "th_adm_all (c # cs) w =
     (th_adm c w \<and> (case th_do c w of Inl _ \<Rightarrow> True | Inr (_, w') \<Rightarrow> th_adm_all cs w'))"

end
