(* ===== verification/GclThreadFacts.thy ===== *)
theory GclThreadFacts
  imports GclThread
begin

section \<open>Thread: the invariant\<close>

text \<open>
  The counter is the number of running threads, every running thread runs a live object that
  carries its handle, an id and the thread-specific pointer of that thread, an object with an
  id is run by exactly its thread, and the key is live as long as threads are running.
\<close>

definition tw_ok :: "tworld \<Rightarrow> bool" where
  "tw_ok w \<longleftrightarrow>
     finite (dom (tw_running w)) \<and> unat (tw_count w) = card (dom (tw_running w))
     \<and> unat (tw_count w) < 2 ^ 32 - 1
     \<and> (\<forall>t p. tw_running w t = Some p \<longrightarrow> p \<noteq> tw_main w \<and> p \<noteq> 0 \<and> tw_tls w (tw_key w) t = p \<and>
           (\<exists>i. tw_objs w p = Some \<lparr>m_t = Some t, m_tid = i\<rparr> \<and> i \<noteq> -1))
     \<and> (\<forall>p x. tw_objs w p = Some x \<longrightarrow> p \<noteq> tw_main w \<longrightarrow> m_tid x \<noteq> -1 \<longrightarrow>
           (\<exists>t. m_t x = Some t \<and> tw_running w t = Some p))
     \<and> (\<exists>x. tw_objs w (tw_main w) = Some x \<and> m_tid x = 0)
     \<and> tw_objs w 0 = None
     \<and> (dom (tw_running w) \<noteq> {} \<longrightarrow> tw_key w \<in> tw_keys w)
     \<and> (\<forall>k t. tw_tls w k t = 0 \<or> tw_tls w k t = tw_main w \<or> tw_running w t = Some (tw_tls w k t))"

lemma tw_okD:
  assumes "tw_ok w"
  shows "finite (dom (tw_running w))" "unat (tw_count w) = card (dom (tw_running w))"
    "unat (tw_count w) < 2 ^ 32 - 1" "tw_objs w 0 = None"
    "\<exists>x. tw_objs w (tw_main w) = Some x \<and> m_tid x = 0"
    "dom (tw_running w) \<noteq> {} \<Longrightarrow> tw_key w \<in> tw_keys w"
    "tw_tls w k t = 0 \<or> tw_tls w k t = tw_main w \<or> tw_running w t = Some (tw_tls w k t)"
  using assms unfolding tw_ok_def by simp_all

lemma tw_ok_running:
  assumes "tw_ok w" "tw_running w t = Some p"
  obtains i where "tw_objs w p = Some \<lparr>m_t = Some t, m_tid = i\<rparr>" "i \<noteq> -1" "p \<noteq> tw_main w" "p \<noteq> 0"
    "tw_tls w (tw_key w) t = p" "tw_key w \<in> tw_keys w"
proof -
  have "dom (tw_running w) \<noteq> {}" using assms(2) by auto
  then have "tw_key w \<in> tw_keys w" by (rule tw_okD(6) [OF assms(1)])
  then show thesis using assms that unfolding tw_ok_def by blast
qed

lemma tw_ok_object:
  assumes "tw_ok w" "tw_objs w p = Some x" "p \<noteq> tw_main w" "m_tid x \<noteq> -1"
  obtains t where "m_t x = Some t" "tw_running w t = Some p"
  using assms unfolding tw_ok_def by blast

lemma tw_ok_idle: "tw_ok w \<Longrightarrow> tw_objs w p = Some x \<Longrightarrow> m_tid x = -1 \<Longrightarrow> tw_running w t \<noteq> Some p"
  by (metis option.inject thread_obj.select_convs(2) tw_ok_running)

lemma tw_ok_unique: "tw_ok w \<Longrightarrow> tw_running w t = Some p \<Longrightarrow> tw_running w u = Some p \<Longrightarrow> u = t"
  using tw_ok_running [of w t p thesis] tw_ok_running [of w u p thesis]
  by (metis option.inject thread_obj.ext_inject tw_ok_running)

lemma tw_ok_count_0: "tw_ok w \<Longrightarrow> tw_count w = 0 \<longleftrightarrow> tw_running w = Map.empty"
proof -
  assume w: "tw_ok w"
  have "tw_count w = 0 \<longleftrightarrow> card (dom (tw_running w)) = 0" using tw_okD(2) [OF w] by (simp add: word_eq_unat)
  then show ?thesis using tw_okD(1) [OF w] by simp
qed

lemma tw_okI:
  assumes "finite (dom (tw_running w))" "unat (tw_count w) = card (dom (tw_running w))"
    "unat (tw_count w) < 2 ^ 32 - 1"
    "\<And>t p. tw_running w t = Some p \<Longrightarrow> p \<noteq> tw_main w \<and> p \<noteq> 0 \<and> tw_tls w (tw_key w) t = p \<and>
           (\<exists>i. tw_objs w p = Some \<lparr>m_t = Some t, m_tid = i\<rparr> \<and> i \<noteq> -1)"
    "\<And>p x. tw_objs w p = Some x \<Longrightarrow> p \<noteq> tw_main w \<Longrightarrow> m_tid x \<noteq> -1 \<Longrightarrow>
           (\<exists>t. m_t x = Some t \<and> tw_running w t = Some p)"
    "\<exists>x. tw_objs w (tw_main w) = Some x \<and> m_tid x = 0" "tw_objs w 0 = None"
    "tw_running w \<noteq> Map.empty \<Longrightarrow> tw_key w \<in> tw_keys w"
    "\<And>k t. tw_tls w k t = 0 \<or> tw_tls w k t = tw_main w \<or> tw_running w t = Some (tw_tls w k t)"
  shows "tw_ok w"
  unfolding tw_ok_def using assms by (intro conjI allI impI) auto

subsection \<open>Construction\<close>

lemma thread_boot:
  assumes "main \<noteq> 0"
  obtains w where "thread_new self main (Some k) (tw_zero main) = Inr w" "tw_ok w" "tw_running w = Map.empty"
    "tw_main w = main" "tw_key w = k" "tw_keys w = {k}" "tw_tls w k self = main" "dom (tw_objs w) = {main}"
proof -
  define w where "w = (tw_zero main)\<lparr>tw_objs := [main \<mapsto> \<lparr>m_t = Some self, m_tid = 0\<rparr>], tw_key := k, tw_keys := {k},
      tw_tls := (\<lambda>_ _. 0)(k := (\<lambda>_. 0)(self := main))\<rparr>"
  have "thread_new self main (Some k) (tw_zero main) = Inr w"
    by (simp add: thread_new_def key_create_def tls_set_def tw_zero_def w_def fun_eq_iff Let_def)
  moreover have "tw_ok w" by (rule tw_okI) (use assms in \<open>auto simp: w_def tw_zero_def\<close>)
  ultimately show thesis by (rule that) (simp_all add: w_def tw_zero_def)
qed

lemma thread_new_spec:
  assumes "tw_ok w" "p \<noteq> 0" "tw_objs w p = None"
    "case newkey of None \<Rightarrow> tw_key w \<in> tw_keys w | Some k \<Rightarrow> k \<notin> tw_keys w"
  obtains w' where "thread_new self p newkey w = Inr w'" "tw_ok w'" "tw_running w' = tw_running w" "tw_main w' = tw_main w"
    "tw_objs w' p = Some \<lparr>m_t = None, m_tid = -1\<rparr>" "tw_count w' = tw_count w"
    "tw_running w = Map.empty \<Longrightarrow> tw_key w' \<in> tw_keys w'"
    "tw_keys w' = (if tw_running w = Map.empty then set_option newkey \<union> tw_keys w else tw_keys w)"
    "dom (tw_objs w') = insert p (dom (tw_objs w))"
proof -
  note D = tw_okD [OF assms(1)]
  have pm: "p \<noteq> tw_main w" using D(5) assms(3) by auto
  have np: "tw_running w t \<noteq> Some p" for t
    using assms(3) by (auto elim: tw_ok_running [OF assms(1)])
  show thesis
  proof (cases "tw_running w = Map.empty")
    case True
    define k where "k = (case newkey of None \<Rightarrow> tw_key w | Some k \<Rightarrow> k)"
    define w' where "w' = w\<lparr>tw_objs := (tw_objs w)(p \<mapsto> \<lparr>m_t = None, m_tid = -1\<rparr>, tw_main w \<mapsto> \<lparr>m_t = Some self, m_tid = 0\<rparr>),
       tw_key := k, tw_keys := set_option newkey \<union> tw_keys w,
       tw_tls := (tw_tls w)(k := (case newkey of None \<Rightarrow> tw_tls w k | Some _ \<Rightarrow> (\<lambda>_. 0))(self := tw_main w))\<rparr>"
    have "tw_count w = 0" using True tw_ok_count_0 [OF assms(1)] by simp
    then have new: "thread_new self p newkey w = Inr w'"
      using assms(4) by (cases newkey) (simp_all add: thread_new_def key_create_def tls_set_def w'_def k_def Let_def fun_upd_def fun_eq_iff)
    have m0: "tw_main w \<noteq> 0" using D(4,5) by auto
    have idle: "m_tid x = -1" if "tw_objs w q = Some x" "q \<noteq> tw_main w" for q x
      using tw_ok_object [OF assms(1) that] True by auto
    have "tw_ok w'"
      using m0 assms(2) D(2-4) D(7) True
      by (intro tw_okI) (auto simp: w'_def k_def idle split: option.splits if_splits)
    moreover have "tw_main w \<in> dom (tw_objs w)" using D(5) by blast
    ultimately show thesis using that [OF new] pm True assms(4) by (auto simp: w'_def k_def split: option.splits)
  next
    case False
    define w' where "w' = w\<lparr>tw_objs := (tw_objs w)(p \<mapsto> \<lparr>m_t = None, m_tid = -1\<rparr>)\<rparr>"
    have "tw_count w \<noteq> 0" using False tw_ok_count_0 [OF assms(1)] by simp
    then have new: "thread_new self p newkey w = Inr w'" by (simp add: thread_new_def w'_def)
    have "tw_ok w'"
    proof (rule tw_okI)
      fix t q assume "tw_running w' t = Some q"
      then show "q \<noteq> tw_main w' \<and> q \<noteq> 0 \<and> tw_tls w' (tw_key w') t = q \<and> (\<exists>i. tw_objs w' q = Some \<lparr>m_t = Some t, m_tid = i\<rparr> \<and> i \<noteq> - 1)"
        using np [of t] by (auto simp: w'_def elim: tw_ok_running [OF assms(1)])
    qed (use D assms(2) pm in \<open>auto simp: w'_def split: if_splits elim: tw_ok_object [OF assms(1)]\<close>)
    then show thesis using that [OF new] False by (simp add: w'_def)
  qed
qed

subsection \<open>Start and end of a thread\<close>

lemma thread_start_running:
  "tw_objs w p = Some x \<Longrightarrow> m_tid x \<noteq> -1 \<Longrightarrow> thread_start p err child w = Inr (EINVAL, w)"
  by (simp add: thread_start_def thread_obj_at_def)

lemma thread_start_refused:
  assumes "tw_ok w" "tw_objs w p = Some x" "m_tid x = -1" "err \<noteq> 0"
  obtains w' where "thread_start p err child w = Inr (err, w')" "tw_ok w'" "tw_running w' = tw_running w"
    "tw_count w' = tw_count w" "tw_objs w' p = Some \<lparr>m_t = None, m_tid = -1\<rparr>" "tw_main w' = tw_main w"
proof -
  note D = tw_okD [OF assms(1)]
  define w' where "w' = w\<lparr>tw_objs := (tw_objs w)(p \<mapsto> x\<lparr>m_t := None\<rparr>)\<rparr>"
  note np = tw_ok_idle [OF assms(1-3)]
  have pm: "p \<noteq> tw_main w" using D(5) assms(2,3) by auto
  have "tw_ok w'"
  proof (rule tw_okI)
    fix t q assume "tw_running w' t = Some q"
    then show "q \<noteq> tw_main w' \<and> q \<noteq> 0 \<and> tw_tls w' (tw_key w') t = q \<and> (\<exists>i. tw_objs w' q = Some \<lparr>m_t = Some t, m_tid = i\<rparr> \<and> i \<noteq> - 1)"
      using np [of t] by (auto simp: w'_def elim: tw_ok_running [OF assms(1)])
  qed (use D assms pm in \<open>auto simp: w'_def split: if_splits elim: tw_ok_object [OF assms(1)]\<close>)
  then show thesis
    using assms(2-4) by (intro that [of w']) (simp_all add: thread_start_def thread_obj_at_def w'_def)
qed

lemma thread_start_ok:
  assumes "tw_ok w" "tw_objs w p = Some x" "m_tid x = -1" "tw_running w child = None" "tw_key w \<in> tw_keys w"
    "unat (tw_count w) < 2 ^ 32 - 2"
  obtains w' where "thread_start p 0 child w = Inr (0, w')" "tw_ok w'" "tw_running w' = (tw_running w)(child \<mapsto> p)"
    "tw_count w' = tw_count w + 1" "tw_objs w' p = Some \<lparr>m_t = Some child, m_tid = tw_count w + 1\<rparr>" "tw_main w' = tw_main w"
    "tw_key w' = tw_key w" "tw_keys w' = tw_keys w" "\<And>q. q \<noteq> p \<Longrightarrow> tw_objs w' q = tw_objs w q"
proof -
  note D = tw_okD [OF assms(1)]
  let ?o = "\<lparr>m_t = Some child, m_tid = tw_count w + 1\<rparr>"
  define w' where "w' = w\<lparr>tw_objs := (tw_objs w)(p \<mapsto> ?o), tw_count := tw_count w + 1,
    tw_running := (tw_running w)(child \<mapsto> p),
    tw_tls := (tw_tls w)(tw_key w := (tw_tls w (tw_key w))(child := p))\<rparr>"
  have run: "thread_start p 0 child w = Inr (0, w')"
    using assms(2,3,5)
    by (simp add: thread_start_def thread_obj_at_def thread_wrapper_begin_def tls_set_def w'_def Let_def fun_eq_iff)
  note np = tw_ok_idle [OF assms(1-3)]
  have pm: "p \<noteq> tw_main w" "p \<noteq> 0" using D(4,5) assms(2,3) by auto
  have "unat (tw_count w + 1) = unat (tw_count w) + 1" using assms(6) by (subst unat_add_nowrap) simp_all
  moreover have "tw_count w + 1 \<noteq> - 1"
  proof
    assume "tw_count w + 1 = - 1"
    then have "unat (tw_count w + 1) = unat (- 1 :: u32_t)" by (rule arg_cong)
    then show False using assms(6) calculation by (simp add: unsigned_minus_1_eq_mask mask_eq_exp_minus_1)
  qed
  moreover have "card (dom (tw_running w')) = Suc (card (dom (tw_running w)))"
    using assms(4) D(1) by (simp add: w'_def domIff)
  ultimately have cnt: "unat (tw_count w') = card (dom (tw_running w'))" "unat (tw_count w') < 2 ^ 32 - 1"
      "tw_count w + 1 \<noteq> - 1"
    using D(2) assms(6) by (simp_all add: w'_def)
  have "tw_ok w'"
  proof (rule tw_okI)
    fix t q assume a: "tw_running w' t = Some q"
    show "q \<noteq> tw_main w' \<and> q \<noteq> 0 \<and> tw_tls w' (tw_key w') t = q \<and> (\<exists>i. tw_objs w' q = Some \<lparr>m_t = Some t, m_tid = i\<rparr> \<and> i \<noteq> - 1)"
    proof (cases "t = child")
      case True
      then show ?thesis using a cnt(3) pm by (simp add: w'_def)
    next
      case False
      then have "tw_running w t = Some q" using a by (simp add: w'_def)
      then show ?thesis using np [of t] False by (auto simp: w'_def elim!: tw_ok_running [OF assms(1)])
    qed
  next
    fix q y assume a: "tw_objs w' q = Some y" "q \<noteq> tw_main w'" "m_tid y \<noteq> - 1"
    show "\<exists>t. m_t y = Some t \<and> tw_running w' t = Some q"
    proof (cases "q = p")
      case True
      then show ?thesis using a by (auto simp: w'_def)
    next
      case False
      then obtain t where "m_t y = Some t" "tw_running w t = Some q" using a by (auto simp: w'_def elim: tw_ok_object [OF assms(1)])
      then show ?thesis using assms(4) by (auto simp: w'_def)
    qed
  next
    show "tw_tls w' k t = 0 \<or> tw_tls w' k t = tw_main w' \<or> tw_running w' t = Some (tw_tls w' k t)" for k t
      using D(7) [of k t] assms(4) by (auto simp: w'_def)
  qed (use D cnt pm assms(5) in \<open>auto simp: w'_def\<close>)
  then show thesis using run by (intro that [of w']) (simp_all add: w'_def)
qed

lemma thread_finish_spec:
  assumes "tw_ok w" "tw_running w t = Some p"
  obtains w' where "thread_finish t w = Inr w'" "tw_ok w'" "tw_running w' = (tw_running w)(t := None)"
    "tw_count w' = tw_count w - 1" "tw_objs w' = (tw_objs w)(p \<mapsto> \<lparr>m_t = Some t, m_tid = -1\<rparr>)" "tw_main w' = tw_main w"
    "tw_running w' = Map.empty \<longleftrightarrow> tw_key w \<notin> tw_keys w'" "tw_key w' = (if tw_running w' = Map.empty then 0 else tw_key w)"
    "tw_keys w' = (if tw_running w' = Map.empty then tw_keys w - {tw_key w} else tw_keys w)"
proof -
  note D = tw_okD [OF assms(1)]
  obtain i where i: "tw_objs w p = Some \<lparr>m_t = Some t, m_tid = i\<rparr>" "i \<noteq> -1" "p \<noteq> tw_main w" "p \<noteq> 0"
    "tw_tls w (tw_key w) t = p" "tw_key w \<in> tw_keys w" by (rule tw_ok_running [OF assms])
  let ?run = "(tw_running w)(t := None)"
  define w' where "w' = w\<lparr>tw_objs := (tw_objs w)(p \<mapsto> \<lparr>m_t = Some t, m_tid = -1\<rparr>), tw_count := tw_count w - 1,
     tw_keys := (if tw_count w - 1 = 0 then tw_keys w - {tw_key w} else tw_keys w),
     tw_key := (if tw_count w - 1 = 0 then 0 else tw_key w), tw_running := ?run,
     tw_tls := (\<lambda>k. (tw_tls w k)(t := 0)), tw_cancelled := tw_cancelled w - {t}\<rparr>"
  have run: "thread_finish t w = Inr w'"
    using assms(2) i by (simp add: thread_finish_def thread_destructor_def thread_obj_at_def key_delete_def w'_def)
  have dom: "dom ?run = dom (tw_running w) - {t}" by simp
  have card: "card (dom ?run) = card (dom (tw_running w)) - 1" "0 < card (dom (tw_running w))"
    using D(1) assms(2) by (auto simp: dom card_Diff_singleton domI card_gt_0_iff)
  have cnt: "unat (tw_count w - 1) = card (dom ?run)"
    using D(2) card by (subst unat_sub_nowrap) simp_all
  then have zero: "tw_count w - 1 = 0 \<longleftrightarrow> ?run = Map.empty"
  proof -
    have "tw_count w - 1 = 0 \<longleftrightarrow> unat (tw_count w - 1) = 0" by (simp only: unat_eq_zero)
    also have "\<dots> \<longleftrightarrow> dom ?run = {}" unfolding cnt using D(1) by (intro card_0_eq) simp
    finally show ?thesis by (simp only: dom_eq_empty_conv)
  qed
  have other: "tw_running w u = Some p \<Longrightarrow> u = t" for u by (rule tw_ok_unique [OF assms])
  have "tw_ok w'"
  proof (rule tw_okI)
    fix u q assume a: "tw_running w' u = Some q"
    then have u: "tw_running w u = Some q" "u \<noteq> t" by (auto simp: w'_def split: if_splits)
    then have "?run \<noteq> Map.empty" by (metis fun_upd_other option.discI)
    moreover have "q \<noteq> p" using other u by blast
    ultimately show "q \<noteq> tw_main w' \<and> q \<noteq> 0 \<and> tw_tls w' (tw_key w') u = q \<and> (\<exists>i. tw_objs w' q = Some \<lparr>m_t = Some u, m_tid = i\<rparr> \<and> i \<noteq> - 1)"
      using u zero by (auto simp: w'_def elim: tw_ok_running [OF assms(1)])
  next
    fix q y assume a: "tw_objs w' q = Some y" "q \<noteq> tw_main w'" "m_tid y \<noteq> - 1"
    then have q: "q \<noteq> p" "tw_objs w q = Some y" by (auto simp: w'_def split: if_splits)
    then obtain u where "m_t y = Some u" "tw_running w u = Some q" using a by (auto simp: w'_def elim: tw_ok_object [OF assms(1)])
    then show "\<exists>u. m_t y = Some u \<and> tw_running w' u = Some q" using q assms(2) by (auto simp: w'_def)
  next
    show "tw_tls w' k u = 0 \<or> tw_tls w' k u = tw_main w' \<or> tw_running w' u = Some (tw_tls w' k u)" for k u
      using D(7) [of k u] by (auto simp: w'_def)
  qed (use D i cnt card zero in \<open>auto simp: w'_def\<close>)
  then show thesis using run zero i(6) by (intro that [of w']) (auto simp: w'_def)
qed

subsection \<open>join, cancel, stop and the destructor\<close>

lemma tw_ok_cancelled [simp]: "tw_ok (w\<lparr>tw_cancelled := c\<rparr>) = tw_ok w"
  by (simp add: tw_ok_def)

lemma tw_ok_forget:
  assumes "tw_ok w" "p \<noteq> tw_main w" "\<And>x. tw_objs w p = Some x \<Longrightarrow> m_tid x = -1"
  shows "tw_ok (w\<lparr>tw_objs := (tw_objs w)(p := None)\<rparr>)"
proof (rule tw_okI)
  let ?w = "w\<lparr>tw_objs := (tw_objs w)(p := None)\<rparr>"
  fix t q assume a: "tw_running ?w t = Some q"
  then obtain i where i: "tw_objs w q = Some \<lparr>m_t = Some t, m_tid = i\<rparr>" "i \<noteq> -1" "q \<noteq> tw_main w" "q \<noteq> 0"
    "tw_tls w (tw_key w) t = q" by (auto elim: tw_ok_running [OF assms(1)])
  then have "q \<noteq> p" using assms(3) by auto
  then show "q \<noteq> tw_main ?w \<and> q \<noteq> 0 \<and> tw_tls ?w (tw_key ?w) t = q \<and> (\<exists>i. tw_objs ?w q = Some \<lparr>m_t = Some t, m_tid = i\<rparr> \<and> i \<noteq> - 1)"
    using i by simp
qed (use tw_okD [OF assms(1)] assms(2) in \<open>auto split: if_splits elim: tw_ok_object [OF assms(1)]\<close>)

text \<open>The views of an object a call on it starts with.\<close>

lemma thread_views:
  assumes "tw_ok w" "tw_objs w p \<noteq> None" "p \<noteq> tw_main w"
  obtains (idle) "thread_is_running p w = Inr False" "\<And>t. tw_running w t \<noteq> Some p"
      "\<And>x. tw_objs w p = Some x \<Longrightarrow> m_tid x = -1"
    | (running) t where "thread_is_running p w = Inr True" "thread_get_handle p w = Inr t" "tw_running w t = Some p"
proof -
  obtain x where x: "tw_objs w p = Some x" using assms(2) by auto
  show thesis
  proof (cases "m_tid x = -1")
    case True
    then show thesis using idle tw_ok_idle [OF assms(1) x] x by (simp add: thread_is_running_def thread_obj_at_def)
  next
    case False
    obtain t where "m_t x = Some t" "tw_running w t = Some p" by (rule tw_ok_object [OF assms(1) x assms(3) False])
    then show thesis using running x False by (simp add: thread_is_running_def thread_get_handle_def thread_obj_at_def)
  qed
qed

text \<open>\<open>get_current\<close> in a running thread is its object, elsewhere the main object or null.\<close>

lemma thread_current_spec:
  assumes "tw_ok w"
  shows "tw_running w t = Some p \<Longrightarrow> thread_get_current t w = Inr p"
    and "tw_running w t = None \<Longrightarrow> \<exists>c. thread_get_current t w = Inr c \<and> (c = 0 \<or> c = tw_main w)"
proof -
  assume "tw_running w t = Some p"
  moreover from this have "tw_count w \<noteq> 0" using tw_ok_count_0 [OF assms] by auto
  ultimately show "thread_get_current t w = Inr p"
    by (auto simp: thread_get_current_def tls_get_def elim: tw_ok_running [OF assms])
next
  assume none: "tw_running w t = None"
  show "\<exists>c. thread_get_current t w = Inr c \<and> (c = 0 \<or> c = tw_main w)"
  proof (cases "tw_running w = Map.empty")
    case True
    then show ?thesis using tw_ok_count_0 [OF assms] by (simp add: thread_get_current_def)
  next
    case False
    then have "tw_key w \<in> tw_keys w" using tw_okD(6) [OF assms] by simp
    then show ?thesis
      using tw_okD(7) [OF assms, of "tw_key w" t] none False tw_ok_count_0 [OF assms]
      by (auto simp: thread_get_current_def tls_get_def)
  qed
qed

lemma thread_join_spec:
  assumes "tw_ok w" "tw_objs w p \<noteq> None" "p \<noteq> tw_main w"
  obtains r w' where "thread_join self p w = Inr (r, w')" "tw_ok w'" "tw_main w' = tw_main w"
    "tw_running w self \<noteq> Some p \<longrightarrow> r = 0 \<and> (\<forall>t. tw_running w' t \<noteq> Some p)"
    "tw_running w self = Some p \<longrightarrow> r = EDEADLK \<and> w' = w"
    "(\<forall>t. tw_running w t \<noteq> Some p) \<longrightarrow> w' = w"
  using assms
proof (cases rule: thread_views)
  case idle
  then show thesis using that [of 0 w] assms(1) by (simp add: thread_join_def)
next
  case (running t)
  show thesis
  proof (cases "t = self")
    case True
    then show thesis
      using that [of EDEADLK w] running assms(1) by (simp add: thread_join_def pthread_join_def)
  next
    case False
    obtain w' where w': "thread_finish t w = Inr w'" "tw_ok w'" "tw_running w' = (tw_running w)(t := None)" "tw_main w' = tw_main w"
      by (rule thread_finish_spec [OF assms(1) running(3)])
    have "tw_running w' u \<noteq> Some p" for u
      using tw_ok_unique [OF assms(1) running(3), of u] by (auto simp: w'(3))
    moreover have "tw_running w self \<noteq> Some p" using False tw_ok_unique [OF assms(1) running(3)] by auto
    ultimately show thesis
      using that [of 0 w'] running w' False by (simp add: thread_join_def pthread_join_def) blast
  qed
qed

lemma thread_stop_spec:
  assumes "tw_ok w" "tw_objs w p \<noteq> None" "p \<noteq> tw_main w"
  obtains r w' where "thread_stop self p err w = Inr (r, w')" "tw_ok w'" "tw_main w' = tw_main w"
    "tw_running w self \<noteq> Some p \<and> err = 0 \<longrightarrow> r = 0 \<and> (\<forall>t. tw_running w' t \<noteq> Some p)"
    "tw_running w self \<noteq> Some p \<and> err \<noteq> 0 \<longrightarrow> w' = w \<and> (r = err \<or> (\<forall>t. tw_running w t \<noteq> Some p))"
    "tw_running w self = Some p \<longrightarrow> r = 0 \<and> tw_running w' = tw_running w \<and> (err = 0 \<longrightarrow> self \<in> tw_cancelled w')"
    "dom (tw_objs w') = dom (tw_objs w)"
  using assms
proof (cases rule: thread_views)
  case idle
  then show thesis using that [of 0 w] assms(1) by (simp add: thread_stop_def)
next
  case (running t)
  define w1 where "w1 = (if err = 0 then w\<lparr>tw_cancelled := insert t (tw_cancelled w)\<rparr> else w)"
  have w1: "tw_ok w1" "tw_running w1 = tw_running w" "tw_main w1 = tw_main w" "tw_objs w1 = tw_objs w"
    using assms(1) by (simp_all add: w1_def)
  have cancel: "thread_cancel p err w = Inr (err, w1)" using running by (simp add: thread_cancel_def w1_def)
  show thesis
  proof (cases "t = self")
    case True
    then have "thread_stop self p err w = Inr (0, w1)"
      using running cancel thread_current_spec(1) [OF assms(1) running(3)] by (simp add: thread_stop_def)
    moreover have "err = 0 \<longrightarrow> t \<in> tw_cancelled w1" by (simp add: w1_def)
    moreover have "tw_running w self = Some p" using running(3) True by simp
    ultimately show thesis using that [of 0 w1] w1 \<open>t = self\<close> by simp
  next
    case False
    then have ns: "tw_running w self \<noteq> Some p" using tw_ok_unique [OF assms(1) running(3)] by auto
    obtain c where c: "thread_get_current self w = Inr c" "c \<noteq> p"
    proof (cases "tw_running w self")
      case None
      then obtain d where "thread_get_current self w = Inr d" "d = 0 \<or> d = tw_main w"
        using thread_current_spec(2) [OF assms(1)] by blast
      moreover have "p \<noteq> 0" by (rule tw_ok_running [OF assms(1) running(3)])
      ultimately show thesis using that [of d] assms(3) by auto
    next
      case (Some q)
      then show thesis using that thread_current_spec(1) [OF assms(1)] ns by auto
    qed
    have h: "thread_get_handle p w1 = Inr t" using running(2) w1(4) by (simp add: thread_get_handle_def thread_obj_at_def)
    show thesis
    proof (cases "err = 0")
      case True
      obtain w' where w': "thread_finish t w1 = Inr w'" "tw_ok w'" "tw_running w' = (tw_running w1)(t := None)" "tw_main w' = tw_main w1"
        "tw_objs w' = (tw_objs w1)(p \<mapsto> \<lparr>m_t = Some t, m_tid = -1\<rparr>)"
        using w1(2) running(3) by (auto intro: thread_finish_spec [OF w1(1), of t p])
      have "thread_stop self p err w = Inr (0, w')"
        using running(1) c cancel h w'(1) True False by (simp add: thread_stop_def pthread_join_def)
      moreover have "tw_running w' u \<noteq> Some p" for u
        using tw_ok_unique [OF assms(1) running(3), of u] by (auto simp: w'(3) w1)
      ultimately show thesis using that [of 0 w'] ns w' w1 True assms(2) by (auto simp: insert_absorb domIff)
    next
      case False
      then have "thread_stop self p err w = Inr (err, w)" using running(1) c cancel by (simp add: thread_stop_def w1_def)
      then show thesis using that [of err w] ns False assms(1) by simp
    qed
  qed
qed

lemma th_do_ok:
  assumes "tw_ok w" "th_adm c w"
  obtains r w' where "th_do c w = Inr (r, w')" "tw_ok w'" "tw_main w' = tw_main w"
proof (cases c)
  case (New self p newkey)
  then obtain w' where "thread_new self p newkey w = Inr w'" "tw_ok w'" "tw_main w' = tw_main w"
    using assms(2) by (auto intro: thread_new_spec [OF assms(1), of p newkey self])
  then show thesis using that New by simp
next
  case (Start p err child)
  then obtain x where x: "tw_objs w p = Some x" using assms(2) by auto
  consider "m_tid x \<noteq> -1" | "m_tid x = -1" "err \<noteq> 0" | "m_tid x = -1" "err = 0" by blast
  then show thesis
  proof cases
    case 1
    then show thesis using that [of EINVAL w] Start thread_start_running [OF x] assms(1) by simp
  next
    case 2
    then show thesis using that Start by (auto intro: thread_start_refused [OF assms(1) x])
  next
    case 3
    have "unat (tw_count w) < 2 ^ 32 - 2" using Start assms(2) by (simp add: word_less_nat_alt)
    then show thesis using that Start 3 assms(2) by (auto intro: thread_start_ok [OF assms(1) x, of child])
  qed
next
  case (Finish t)
  then obtain p where "tw_running w t = Some p" using assms(2) by auto
  then show thesis using that Finish by (auto intro: thread_finish_spec [OF assms(1), of t p])
next
  case (Join self p)
  then show thesis using that assms(2) by (auto intro: thread_join_spec [OF assms(1), of p self])
next
  case (Cancel p err)
  then have "tw_objs w p \<noteq> None" "p \<noteq> tw_main w" using assms(2) by simp_all
  with assms(1) show thesis
    by (cases rule: thread_views) (use that Cancel assms(1) in \<open>auto simp: thread_cancel_def\<close>)
next
  case (Stop self p err)
  then show thesis using that assms(2) by (auto intro: thread_stop_spec [OF assms(1), of p self err])
next
  case (Delete self p err)
  then have a: "tw_objs w p \<noteq> None" "p \<noteq> tw_main w" "tw_running w self \<noteq> Some p" "err = 0" using assms(2) by simp_all
  obtain r w' where w': "thread_stop self p err w = Inr (r, w')" "tw_ok w'" "tw_main w' = tw_main w"
    "\<forall>t. tw_running w' t \<noteq> Some p"
    using a(3,4) by (auto intro: thread_stop_spec [OF assms(1) a(1,2), of self err])
  have pm: "p \<noteq> tw_main w'" using a(2) w'(3) by simp
  have "m_tid x = -1" if "tw_objs w' p = Some x" for x
    using tw_ok_object [OF w'(2) that pm] w'(4) by blast
  then have "tw_ok (w'\<lparr>tw_objs := (tw_objs w')(p := None)\<rparr>)" by (rule tw_ok_forget [OF w'(2) pm])
  then show thesis using that Delete w' by (simp add: thread_delete_def)
qed

end
