(* ===== verification/GclThreadProps.thy ===== *)
theory GclThreadProps
  imports GclThreadFacts
begin

section \<open>Thread: properties\<close>

text \<open>
  What holds in every program of admissible calls, the contracts of \<open>start\<close> and \<open>stop\<close>, and
  the inputs on which the class fails: restarting after the last thread has ended, ids that are
  given out twice, objects deleted by their own thread, and the key every construction of an
  idle program allocates.
\<close>

text \<open>An idle program whose main object is at 8, and one with two running threads.\<close>

definition th_boot :: "tworld res" where
  "th_boot = thread_new 1 8 (Some 5) (tw_zero 8)"

definition th_demo :: "th_call list" where
  "th_demo = [New 1 100 (Some 6), New 1 200 (Some 7), Start 100 0 2, Start 200 0 3]"

definition th_demo_world :: tworld where
  "th_demo_world = (case rbind th_boot (th_run th_demo) of Inr (_, w) \<Rightarrow> w | Inl _ \<Rightarrow> tw_zero 8)"

lemma th_run_ok:
  "tw_ok w \<Longrightarrow> th_adm_all cs w \<Longrightarrow> \<exists>rs w'. th_run cs w = Inr (rs, w') \<and> tw_ok w' \<and> tw_main w' = tw_main w"
proof (induction cs arbitrary: w)
  case (Cons c cs)
  obtain r w1 where w1: "th_do c w = Inr (r, w1)" "tw_ok w1" "tw_main w1 = tw_main w"
    using th_do_ok [OF Cons.prems(1), of c] Cons.prems(2) by auto
  then show ?case using Cons.IH [OF w1(2)] Cons.prems(2) by auto
qed simp

lemma th_demo_ok: "tw_ok th_demo_world" "tw_main th_demo_world = 8"
proof -
  obtain w where w: "th_boot = Inr w" "tw_ok w" "tw_main w = 8"
    unfolding th_boot_def by (rule thread_boot [of 8 1 5]) simp_all
  have "case th_boot of Inr w \<Rightarrow> th_adm_all th_demo w | Inl _ \<Rightarrow> False" by code_simp
  then have "th_adm_all th_demo w" by (simp add: w(1))
  then obtain rs w' where "th_run th_demo w = Inr (rs, w')" "tw_ok w'" "tw_main w' = 8"
    using th_run_ok [OF w(2), of th_demo] w(3) by auto
  then show "tw_ok th_demo_world" "tw_main th_demo_world = 8" by (simp_all add: th_demo_world_def w(1))
qed

text \<open>
  C7: From the static initialisation on, every sequence of calls the program may make runs without
  touching a dead object or key. Afterwards the counter is the number of running threads; each
  running thread finds its own object with \<open>get_current\<close>, and the object knows its handle; an
  object says it is running exactly when a thread runs it, and no two threads run the same one.
\<close>

theorem thread_program_safe:
  assumes "main \<noteq> 0" "thread_new self main (Some k) (tw_zero main) = Inr w0" "th_adm_all calls w0"
  shows "\<exists>rs w. th_run calls w0 = Inr (rs, w) \<and> unat (thread_get_counts w) = card (dom (tw_running w))
    \<and> (\<forall>t p. tw_running w t = Some p \<longrightarrow> thread_get_current t w = Inr p \<and> thread_get_handle p w = Inr t)
    \<and> (\<forall>p. tw_objs w p \<noteq> None \<longrightarrow> p \<noteq> main \<longrightarrow> thread_is_running p w = Inr (\<exists>t. tw_running w t = Some p))
    \<and> (\<forall>t u p. tw_running w t = Some p \<and> tw_running w u = Some p \<longrightarrow> t = u)"
proof -
  obtain v where "thread_new self main (Some k) (tw_zero main) = Inr v" "tw_ok v" "tw_main v = main"
    by (rule thread_boot [OF assms(1), of self k])
  then have w0: "tw_ok w0" "tw_main w0 = main" using assms(2) by simp_all
  obtain rs w where w: "th_run calls w0 = Inr (rs, w)" "tw_ok w" "tw_main w = main"
    using th_run_ok [OF w0(1) assms(3)] w0(2) by auto
  have "thread_get_handle p w = Inr t" if "tw_running w t = Some p" for t p
    by (rule tw_ok_running [OF w(2) that]) (simp add: thread_get_handle_def thread_obj_at_def)
  moreover have "thread_is_running p w = Inr (\<exists>t. tw_running w t = Some p)" if "tw_objs w p \<noteq> None" "p \<noteq> main" for p
    using w(2) that(1) that(2) [folded w(3)] by (cases rule: thread_views) auto
  moreover have "t = u" if "tw_running w t = Some p" "tw_running w u = Some p" for t u p
    using tw_ok_unique [OF w(2) that(2,1)] .
  ultimately show ?thesis
    using w(1) tw_okD(2) [OF w(2)] thread_current_spec(1) [OF w(2)] by (auto simp: thread_get_counts_def)
qed

theorem thread_program_safe_witness:
  "\<exists>w0 rs w. th_boot = Inr w0 \<and> th_run th_demo w0 = Inr (rs, w)
    \<and> (\<forall>t p. tw_running w t = Some p \<longrightarrow> thread_get_current t w = Inr p)"
proof -
  obtain w where w: "th_boot = Inr w" unfolding th_boot_def by (rule thread_boot [of 8 1 5]) simp_all
  have "case th_boot of Inr w \<Rightarrow> th_adm_all th_demo w | Inl _ \<Rightarrow> False" by code_simp
  then have "th_adm_all th_demo w" by (simp add: w)
  then show ?thesis
    using thread_program_safe [of 8 1 5 w th_demo] w unfolding th_boot_def by auto
qed

text \<open>
  \<open>start\<close> refuses an object that is already running and changes nothing; it hands on the error
  of the operating system and leaves the object idle; otherwise it returns with the thread
  running the object, the counter one higher and the id equal to the new count.
\<close>

theorem thread_start_contract:
  assumes "tw_ok w" "tw_objs w p = Some x" "tw_running w child = None" "tw_key w \<in> tw_keys w"
    and "unat (tw_count w) < 2 ^ 32 - 2"
  shows "\<exists>w'. thread_start p err child w = Inr (if m_tid x \<noteq> -1 then EINVAL else err, w') \<and> tw_ok w'
    \<and> (if m_tid x \<noteq> -1 then w' = w
       else if err \<noteq> 0 then tw_running w' = tw_running w \<and> thread_is_running p w' = Inr False
       else tw_running w' = (tw_running w)(child \<mapsto> p) \<and> thread_get_counts w' = thread_get_counts w + 1
         \<and> thread_is_running p w' = Inr True \<and> thread_id p w' = Inr (sint (thread_get_counts w'))
         \<and> thread_get_current child w' = Inr p)"
proof -
  consider "m_tid x \<noteq> -1" | "m_tid x = -1" "err \<noteq> 0" | "m_tid x = -1" "err = 0" by blast
  then show ?thesis
  proof cases
    case 1
    then show ?thesis using thread_start_running [OF assms(2)] assms(1) by simp
  next
    case 2
    then obtain w' where "thread_start p err child w = Inr (err, w')" "tw_ok w'" "tw_running w' = tw_running w"
      "tw_objs w' p = Some \<lparr>m_t = None, m_tid = -1\<rparr>" by (auto intro: thread_start_refused [OF assms(1,2)])
    then show ?thesis using 2 by (simp add: thread_is_running_def thread_obj_at_def)
  next
    case 3
    then obtain w' where w': "thread_start p 0 child w = Inr (0, w')" "tw_ok w'" "tw_running w' = (tw_running w)(child \<mapsto> p)"
      "tw_count w' = tw_count w + 1" "tw_objs w' p = Some \<lparr>m_t = Some child, m_tid = tw_count w + 1\<rparr>"
      by (auto intro: thread_start_ok [OF assms(1,2) _ assms(3-5)])
    then have r: "tw_running w' child = Some p" by simp
    then have "tw_count w + 1 \<noteq> -1" using w'(5) by (auto elim: tw_ok_running [OF w'(2)])
    then show ?thesis
      using 3 w' thread_current_spec(1) [OF w'(2) r]
      by (simp add: thread_is_running_def thread_obj_at_def thread_id_def thread_get_counts_def)
  qed
qed

theorem thread_start_contract_witness:
  "\<exists>w'. thread_start 100 0 4 th_demo_world = Inr (EINVAL, w') \<and> tw_ok w'"
proof -
  have "tw_objs th_demo_world 100 = Some \<lparr>m_t = Some 2, m_tid = 1\<rparr>" "tw_running th_demo_world 4 = None"
    "tw_key th_demo_world \<in> tw_keys th_demo_world" "tw_count th_demo_world = 2" by code_simp+
  then show ?thesis using thread_start_contract [OF th_demo_ok(1), of 100 _ 4 0] by auto
qed

text \<open>
  \<open>stop\<close> by another thread cancels and waits: when it returns 0 nothing runs the object any
  more. \<open>stop\<close> of the own thread only marks it for cancellation and returns at once. A failed
  cancellation is reported and nothing else has happened.
\<close>

theorem thread_stop_contract:
  assumes "tw_ok w" "tw_objs w p \<noteq> None" "p \<noteq> tw_main w"
  shows "\<exists>r w'. thread_stop self p err w = Inr (r, w') \<and> tw_ok w'
    \<and> (tw_running w self \<noteq> Some p \<and> err = 0 \<longrightarrow> r = 0 \<and> thread_is_running p w' = Inr False)
    \<and> (tw_running w self \<noteq> Some p \<and> err \<noteq> 0 \<longrightarrow> w' = w \<and> (r = err \<or> thread_is_running p w = Inr False))
    \<and> (tw_running w self = Some p \<longrightarrow> r = 0 \<and> thread_is_running p w' = Inr True \<and> (err = 0 \<longrightarrow> self \<in> tw_cancelled w'))"
proof -
  obtain r w' where w': "thread_stop self p err w = Inr (r, w')" "tw_ok w'" "tw_main w' = tw_main w"
    "tw_running w self \<noteq> Some p \<and> err = 0 \<longrightarrow> r = 0 \<and> (\<forall>t. tw_running w' t \<noteq> Some p)"
    "tw_running w self \<noteq> Some p \<and> err \<noteq> 0 \<longrightarrow> w' = w \<and> (r = err \<or> (\<forall>t. tw_running w t \<noteq> Some p))"
    "tw_running w self = Some p \<longrightarrow> r = 0 \<and> tw_running w' = tw_running w \<and> (err = 0 \<longrightarrow> self \<in> tw_cancelled w')"
    "dom (tw_objs w') = dom (tw_objs w)" by (rule thread_stop_spec [OF assms])
  have run: "thread_is_running p v = Inr (\<exists>t. tw_running v t = Some p)"
    if "tw_ok v" "dom (tw_objs v) = dom (tw_objs w)" "tw_main v = tw_main w" for v
  proof -
    have "tw_objs v p \<noteq> None" "p \<noteq> tw_main v" using that(2,3) assms(2,3) by blast+
    with that(1) show ?thesis by (cases rule: thread_views) auto
  qed
  have "thread_is_running p w = Inr (\<exists>t. tw_running w t = Some p)" "thread_is_running p w' = Inr (\<exists>t. tw_running w' t = Some p)"
    using run [OF assms(1)] run [OF w'(2,7,3)] by simp_all
  then show ?thesis using w' by (intro exI [of _ r] exI [of _ w']) auto
qed

theorem thread_stop_contract_witness:
  "\<exists>w'. thread_stop 1 100 0 th_demo_world = Inr (0, w') \<and> thread_is_running 100 w' = Inr False"
proof -
  have "tw_objs th_demo_world 100 = Some \<lparr>m_t = Some 2, m_tid = 1\<rparr>" "tw_running th_demo_world 1 = None" by code_simp+
  then show ?thesis using thread_stop_contract [OF th_demo_ok(1), of 100 1 0] th_demo_ok(2) by auto
qed

subsection \<open>Where the class fails\<close>

text \<open>
  When the last running thread ends, its cleanup handler deletes the key and nothing creates it
  again: starting an existing object afterwards sets a value for a key that does not exist.
\<close>

theorem thread_restart_fault:
  assumes "tw_ok w" "tw_running w = [t \<mapsto> p]" "0 \<notin> tw_keys w" "thread_finish t w = Inr w'"
    and "tw_objs w' q = Some x" "m_tid x = -1"
  shows "thread_start q 0 child w' = Inl BadHandle"
proof -
  have "tw_running w t = Some p" using assms(2) by simp
  then obtain v where "thread_finish t w = Inr v" "tw_running v = (tw_running w)(t := None)"
    "tw_key v = (if tw_running v = Map.empty then 0 else tw_key w)"
    "tw_keys v = (if tw_running v = Map.empty then tw_keys w - {tw_key w} else tw_keys w)"
    by (auto intro: thread_finish_spec [OF assms(1), of t p])
  then have "tw_key w' = 0" "0 \<notin> tw_keys w'" using assms(2-4) by simp_all
  then show ?thesis
    using assms(5,6) by (simp add: thread_start_def thread_obj_at_def thread_wrapper_begin_def tls_set_def)
qed

definition th_lone_world :: tworld where
  "th_lone_world = (case thread_finish 3 th_demo_world of Inr w \<Rightarrow> w | Inl _ \<Rightarrow> th_demo_world)"

lemma th_lone_ok: "tw_ok th_lone_world"
proof -
  have "tw_running th_demo_world 3 = Some 200" by code_simp
  then show ?thesis
    by (auto intro: thread_finish_spec [OF th_demo_ok(1), of 3 200] simp: th_lone_world_def)
qed

theorem thread_restart_fault_witness:
  "\<exists>w'. thread_finish 2 th_lone_world = Inr w' \<and> thread_start 100 0 2 w' = Inl BadHandle"
proof -
  have "tw_running th_lone_world 2 = Some 100" by code_simp
  then obtain w' where w': "thread_finish 2 th_lone_world = Inr w'" "tw_objs w' = (tw_objs th_lone_world)(100 \<mapsto> \<lparr>m_t = Some 2, m_tid = -1\<rparr>)"
    by (auto intro: thread_finish_spec [OF th_lone_ok, of 2 100])
  have "0 \<notin> tw_keys th_lone_world" by code_simp
  moreover have "tw_running th_lone_world = [2 \<mapsto> 100]"
    by (simp add: th_lone_world_def th_demo_world_def th_demo_def th_boot_def tw_zero_def thread_new_def key_create_def
        tls_set_def thread_start_def thread_wrapper_begin_def thread_obj_at_def thread_finish_def thread_destructor_def Let_def)
  ultimately have "thread_start 100 0 2 w' = Inl BadHandle"
    using w' by (intro thread_restart_fault [OF th_lone_ok _ _ w'(1), where x = "\<lparr>m_t = Some 2, m_tid = -1\<rparr>"]) simp_all
  then show ?thesis using w'(1) by blast
qed

text \<open>
  Ids are the number of running threads at the time of the start: when an older thread ends
  while the newest one runs, the next thread started gets the id of the newest one.
\<close>

theorem thread_ids_collide:
  assumes "tw_ok w" "tw_running w t = Some p" "tw_running w u = Some q" "t \<noteq> u"
    and "thread_id q w = Inr (sint (thread_get_counts w))"
    and "thread_finish t w = Inr w1" "tw_objs w1 r = Some x" "m_tid x = -1" "thread_start r 0 child w1 = Inr (0, w2)"
    and "tw_running w1 child = None"
  shows "thread_id r w2 = thread_id q w2 \<and> thread_is_running q w2 = Inr True \<and> r \<noteq> q"
proof -
  obtain v where "thread_finish t w = Inr v" "tw_ok v" "tw_running v = (tw_running w)(t := None)" "tw_count v = tw_count w - 1"
    "tw_objs v = (tw_objs w)(p \<mapsto> \<lparr>m_t = Some t, m_tid = -1\<rparr>)" "tw_key v = (if tw_running v = Map.empty then 0 else tw_key w)"
    by (rule thread_finish_spec [OF assms(1,2)])
  then have w1: "tw_ok w1" "tw_running w1 = (tw_running w)(t := None)" "tw_count w1 = tw_count w - 1"
    "tw_objs w1 = (tw_objs w)(p \<mapsto> \<lparr>m_t = Some t, m_tid = -1\<rparr>)" using assms(6) by simp_all
  have run: "tw_running w1 u = Some q" using w1(2) assms(3,4) by simp
  obtain i where i: "tw_objs w1 q = Some \<lparr>m_t = Some u, m_tid = i\<rparr>" "i \<noteq> -1" "tw_key w1 \<in> tw_keys w1"
    by (rule tw_ok_running [OF w1(1) run])
  have "q \<noteq> p" using tw_ok_unique [OF assms(1,2), of u] assms(3,4) by blast
  then have "sint i = sint (tw_count w)" using assms(5) i(1) w1(4) by (simp add: thread_id_def thread_obj_at_def thread_get_counts_def)
  have rq: "r \<noteq> q" using i assms(7,8) by auto
  have "0 < card (dom (tw_running w))" using tw_okD(1) [OF assms(1)] assms(2) by (auto simp: card_gt_0_iff)
  then have "unat (tw_count w) = unat (tw_count w - 1) + 1"
    using tw_okD(2) [OF assms(1)] by (subst unat_sub_nowrap) simp_all
  then have "unat (tw_count w1) < 2 ^ 32 - 2" using tw_okD(3) [OF assms(1)] w1(3) by simp
  then obtain v2 where "thread_start r 0 child w1 = Inr (0, v2)" "tw_objs v2 r = Some \<lparr>m_t = Some child, m_tid = tw_count w1 + 1\<rparr>"
    "\<forall>s. s \<noteq> r \<longrightarrow> tw_objs v2 s = tw_objs w1 s"
    by (auto intro: thread_start_ok [OF w1(1) assms(7,8,10) i(3)])
  then have "tw_objs w2 r = Some \<lparr>m_t = Some child, m_tid = tw_count w1 + 1\<rparr>" "tw_objs w2 q = Some \<lparr>m_t = Some u, m_tid = i\<rparr>"
    using assms(9) rq i(1) by auto
  then show ?thesis
    using \<open>sint i = sint (tw_count w)\<close> rq i(2) w1(3) by (simp add: thread_id_def thread_obj_at_def thread_is_running_def)
qed

theorem thread_ids_collide_witness:
  "\<exists>w1 w2. thread_finish 2 th_demo_world = Inr w1 \<and> thread_start 100 0 4 w1 = Inr (0, w2) \<and> thread_id 100 w2 = thread_id 200 w2"
proof -
  define w1 where "w1 = (case thread_finish 2 th_demo_world of Inr w \<Rightarrow> w | Inl _ \<Rightarrow> th_demo_world)"
  define w2 where "w2 = (case thread_start 100 0 4 w1 of Inr (_, w) \<Rightarrow> w | Inl _ \<Rightarrow> w1)"
  have a: "tw_running th_demo_world 2 = Some 100" "tw_running th_demo_world 3 = Some 200"
    "thread_id 200 th_demo_world = Inr (sint (thread_get_counts th_demo_world))" by code_simp+
  have ex: "\<exists>w1. thread_finish 2 th_demo_world = Inr w1" by (rule thread_finish_spec [OF th_demo_ok(1) a(1)]) blast
  then have f: "thread_finish 2 th_demo_world = Inr w1" by (auto simp: w1_def)
  have "tw_objs w1 100 = Some \<lparr>m_t = Some 2, m_tid = -1\<rparr>" "tw_running w1 4 = None"
    "(case thread_start 100 0 4 w1 of Inr (r, w) \<Rightarrow> r = 0 | Inl _ \<Rightarrow> False)" unfolding w1_def by code_simp+
  moreover from this(3) have "thread_start 100 0 4 w1 = Inr (0, w2)" by (auto simp: w2_def split: sum.splits prod.splits)
  ultimately have "thread_id 100 w2 = thread_id 200 w2"
    using thread_ids_collide [OF th_demo_ok(1) a(1,2) _ a(3) f, of 100 _ 4 w2] by auto
  then show ?thesis using f \<open>thread_start 100 0 4 w1 = Inr (0, w2)\<close> by blast
qed

text \<open>
  An object deleted by its own thread (as in the sample thread class) is cancelled and gone;
  the cleanup handler of the thread then writes into it.
\<close>

theorem thread_delete_this_fault:
  assumes "tw_ok w" "tw_running w self = Some p"
  shows "\<exists>w'. thread_delete self p err w = Inr w' \<and> thread_finish self w' = Inl UseAfterFree"
proof -
  obtain i where i: "tw_objs w p = Some \<lparr>m_t = Some self, m_tid = i\<rparr>" "i \<noteq> -1" "p \<noteq> tw_main w" by (rule tw_ok_running [OF assms])
  have "tw_objs w p \<noteq> None" using i(1) by simp
  then obtain r w' where "thread_stop self p err w = Inr (r, w')" "tw_running w' = tw_running w"
    using assms(2) by (auto intro: thread_stop_spec [OF assms(1) _ i(3), of self err])
  then show ?thesis using assms(2) by (simp add: thread_delete_def thread_finish_def thread_destructor_def thread_obj_at_def)
qed

theorem thread_delete_this_fault_witness:
  "\<exists>w'. thread_delete 2 100 0 th_demo_world = Inr w' \<and> thread_finish 2 w' = Inl UseAfterFree"
proof -
  have "tw_running th_demo_world 2 = Some 100" by code_simp
  then show ?thesis by (rule thread_delete_this_fault [OF th_demo_ok(1)])
qed

text \<open>
  Every \<open>Thread\<close> constructed while no thread is running allocates another key and forgets the
  one before: an array of \<open>n\<close> objects uses up \<open>n\<close> keys, which are never deleted.
\<close>

theorem thread_construction_leaks_keys:
  assumes "tw_ok w" "tw_running w = Map.empty" "distinct (map snd pks)" "distinct (map fst pks)"
    and "\<forall>(p, k) \<in> set pks. p \<noteq> 0 \<and> tw_objs w p = None \<and> k \<notin> tw_keys w"
  shows "\<exists>rs w'. th_run (map (\<lambda>(p, k). New self p (Some k)) pks) w = Inr (rs, w')
    \<and> tw_keys w' = tw_keys w \<union> set (map snd pks) \<and> card (tw_keys w' - tw_keys w) = length pks"
proof -
  have "\<exists>rs w'. th_run (map (\<lambda>(p, k). New self p (Some k)) pks) w = Inr (rs, w') \<and> tw_keys w' = tw_keys w \<union> set (map snd pks)"
    using assms
  proof (induction pks arbitrary: w)
    case (Cons pk pks)
    obtain p k where pk: "pk = (p, k)" by fastforce
    obtain w1 where w1: "thread_new self p (Some k) w = Inr w1" "tw_ok w1" "tw_running w1 = Map.empty" "tw_keys w1 = insert k (tw_keys w)"
      "dom (tw_objs w1) = insert p (dom (tw_objs w))"
      using Cons.prems pk by (auto intro: thread_new_spec [OF Cons.prems(1), of p "Some k" self])
    have new: "tw_objs w1 q = None \<longleftrightarrow> q \<noteq> p \<and> tw_objs w q = None" for q
      using w1(5) by (metis domIff insert_iff)
    have "\<forall>(q, j) \<in> set pks. q \<noteq> 0 \<and> tw_objs w1 q = None \<and> j \<notin> tw_keys w1"
      using Cons.prems(3-5) pk by (force simp: new w1(4))
    then show ?case using Cons.IH [OF w1(2,3)] Cons.prems(3,4) w1(1,4) pk by auto
  qed simp
  then obtain rs w' where w': "th_run (map (\<lambda>(p, k). New self p (Some k)) pks) w = Inr (rs, w')"
    "tw_keys w' = tw_keys w \<union> set (map snd pks)" by blast
  have "tw_keys w' - tw_keys w = set (map snd pks)" using w'(2) assms(5) by auto
  then show ?thesis using w' distinct_card [OF assms(3)] by simp
qed

theorem thread_construction_leaks_keys_witness:
  "\<exists>w rs w'. th_boot = Inr w \<and> th_run [New 1 100 (Some 6), New 1 200 (Some 7), New 1 300 (Some 8)] w = Inr (rs, w')
    \<and> card (tw_keys w' - tw_keys w) = 3"
proof -
  obtain w where w: "th_boot = Inr w" "tw_ok w" "tw_running w = Map.empty" "tw_keys w = {5}" "dom (tw_objs w) = {8}"
    unfolding th_boot_def by (rule thread_boot [of 8 1 5]) simp_all
  have "tw_objs w p = None" if "p \<noteq> 8" for p using w(5) that by (metis domIff singletonD)
  then show ?thesis
    using thread_construction_leaks_keys [OF w(2,3), of "[(100, 6), (200, 7), (300, 8)]" 1] w(1,4) by auto
qed

end
