(* ===== verification/GclThreadRace.thy ===== *)
theory GclThreadRace
  imports GclThreadProps
begin

section \<open>The unsynchronised counter of running threads\<close>

text \<open>
  \<open>GclThread\<close> takes the wrapper and the cleanup handler as single operations. In the code the
  counter is a plain variable: \<open>++__instance_count\<close> and \<open>--__instance_count\<close> load it, compute and
  store it. Here both functions are cut at that point; run without a break the two parts are the
  operation of \<open>GclThread\<close>, and a start between the parts of an ending thread loses its count.
\<close>

text \<open>\<open>__thread_wrapper\<close> up to the load and from the store to \<open>sem_post\<close>.\<close>

definition wrapper_load :: "tid \<Rightarrow> ptr \<Rightarrow> tworld \<Rightarrow> (u32_t \<times> tworld) res" where
  "wrapper_load self p w = rbind (tls_set self p w) (\<lambda>w. Inr (tw_count w, w))"

definition wrapper_store :: "tid \<Rightarrow> ptr \<Rightarrow> u32_t \<Rightarrow> tworld \<Rightarrow> tworld res" where
  "wrapper_store self p r w =
     rbind (thread_obj_at p w) (\<lambda>x.
       let count = r + 1
       in Inr (w\<lparr>tw_count := count, tw_objs := (tw_objs w)(p \<mapsto> x\<lparr>m_tid := count\<rparr>),
                tw_running := (tw_running w)(self \<mapsto> p)\<rparr>))"

text \<open>\<open>__thread_destructor\<close> up to the load and from the store on.\<close>

definition destructor_load :: "ptr \<Rightarrow> tworld \<Rightarrow> (u32_t \<times> tworld) res" where
  "destructor_load p w =
     rbind (thread_obj_at p w) (\<lambda>x. Inr (tw_count w, w\<lparr>tw_objs := (tw_objs w)(p \<mapsto> x\<lparr>m_tid := -1\<rparr>)\<rparr>))"

definition destructor_store :: "u32_t \<Rightarrow> tworld \<Rightarrow> tworld res" where
  "destructor_store r w =
     (let w = w\<lparr>tw_count := r - 1\<rparr>
      in if r - 1 = 0 then rbind (key_delete w) (\<lambda>w. Inr (w\<lparr>tw_key := 0\<rparr>)) else Inr w)"

text \<open>
  The parts make up the operations: when no other thread runs in between, loading and storing
  the counter in two steps gives the wrapper and the cleanup handler of the model, faults included.
\<close>

theorem thread_counter_parts:
  "rbind (wrapper_load self p w) (\<lambda>(r, w). wrapper_store self p r w) = thread_wrapper_begin self p w
    \<and> rbind (destructor_load p w) (\<lambda>(r, w). destructor_store r w) = thread_destructor p w"
  by (auto simp: wrapper_load_def wrapper_store_def thread_wrapper_begin_def destructor_load_def destructor_store_def
      thread_destructor_def rbind_def Let_def tls_set_def split: sum.splits if_splits)

text \<open>
  C38: When the only running thread ends and another is started between the load and the store of
  its cleanup handler, the count is 0 and the key is deleted although the new thread runs: the new
  thread gets the main object as the current one, and the next start uses a key that is gone.
\<close>

theorem thread_counter_race:
  assumes "tw_ok w" "tw_running w = [t \<mapsto> p]" "0 \<notin> tw_keys w"
    and "tw_objs w q = Some x" "m_tid x = -1" "child \<noteq> t" "q' \<noteq> q" "q' \<noteq> p" "tw_objs w q' = Some y" "m_tid y = -1"
  shows "\<exists>r w1 w2 w3. destructor_load p w = Inr (r, w1) \<and> thread_start q 0 child w1 = Inr (0, w2)
    \<and> destructor_store r w2 = Inr w3 \<and> tw_running w3 child = Some q \<and> thread_is_running q w3 = Inr True
    \<and> thread_get_counts w3 = 0 \<and> thread_get_current child w3 = Inr (tw_main w3) \<and> q \<noteq> tw_main w3
    \<and> thread_start q' 0 t w3 = Inl BadHandle"
proof -
  have run: "tw_running w t = Some p" using assms(2) by simp
  obtain i where i: "tw_objs w p = Some \<lparr>m_t = Some t, m_tid = i\<rparr>" "i \<noteq> -1" "p \<noteq> tw_main w" "tw_key w \<in> tw_keys w"
    by (rule tw_ok_running [OF assms(1) run])
  have "card (dom (tw_running w)) = 1" using assms(2) by simp
  then have count: "tw_count w = 1" using tw_okD(2) [OF assms(1)] by (simp add: word_eq_unat)
  have qp: "q \<noteq> p" using i(1,2) assms(4,5) by auto
  have qm: "q \<noteq> tw_main w" using tw_okD(5) [OF assms(1)] assms(4,5) by auto
  define w1 where "w1 = w\<lparr>tw_objs := (tw_objs w)(p \<mapsto> \<lparr>m_t = Some t, m_tid = -1\<rparr>)\<rparr>"
  have 1: "destructor_load p w = Inr (1, w1)" using i(1) count by (simp add: destructor_load_def thread_obj_at_def w1_def)
  obtain w2 where w2: "thread_start q 0 child w1 = Inr (0, w2)" "tw_count w2 = 2" "tw_running w2 = (tw_running w)(child \<mapsto> q)"
    "tw_objs w2 = (tw_objs w1)(q \<mapsto> \<lparr>m_t = Some child, m_tid = 2\<rparr>)" "tw_key w2 = tw_key w" "tw_keys w2 = tw_keys w" "tw_main w2 = tw_main w"
    using assms(4,5) i(4) qp count
    by (cases x) (simp add: w1_def thread_start_def thread_obj_at_def thread_wrapper_begin_def tls_set_def Let_def)
  define w3 where "w3 = w2\<lparr>tw_count := 0, tw_keys := tw_keys w2 - {tw_key w2}, tw_key := 0\<rparr>"
  have 3: "destructor_store 1 w2 = Inr w3" using w2(5,6) i(4) by (simp add: destructor_store_def key_delete_def w3_def Let_def)
  have "thread_start q' 0 t w3 = Inl BadHandle"
    using assms(3,7-10) w2(4,6) by (simp add: w3_def w1_def thread_start_def thread_obj_at_def thread_wrapper_begin_def tls_set_def)
  moreover have "thread_is_running q w3 = Inr True" using w2(4) by (simp add: w3_def thread_is_running_def thread_obj_at_def)
  ultimately show ?thesis
    using 1 w2(1,3,7) 3 qm
    by (intro exI [of _ 1] exI [of _ w1] exI [of _ w2] exI [of _ w3])
      (simp add: w3_def thread_get_counts_def thread_get_current_def)
qed

text \<open>One thread is running, two more objects are idle.\<close>

definition th_race_world :: tworld where
  "th_race_world = (case th_do (New 1 300 None) th_lone_world of Inr (_, w) \<Rightarrow> w | Inl _ \<Rightarrow> th_lone_world)"

lemma th_race_ok: "tw_ok th_race_world"
proof -
  have "th_adm (New 1 300 None) th_lone_world" by code_simp
  then obtain r w where "th_do (New 1 300 None) th_lone_world = Inr (r, w)" "tw_ok w"
    using th_do_ok [OF th_lone_ok] by blast
  then show ?thesis by (simp add: th_race_world_def)
qed

lemma thread_counter_race_witness:
  "\<exists>r w1 w2 w3. destructor_load 100 th_race_world = Inr (r, w1) \<and> thread_start 200 0 4 w1 = Inr (0, w2)
    \<and> destructor_store r w2 = Inr w3 \<and> thread_get_counts w3 = 0 \<and> thread_is_running 200 w3 = Inr True"
proof -
  have run: "tw_running th_race_world = [2 \<mapsto> 100]"
    by (simp add: th_race_world_def th_lone_world_def th_demo_world_def th_demo_def th_boot_def tw_zero_def thread_new_def key_create_def
        tls_set_def thread_start_def thread_wrapper_begin_def thread_obj_at_def thread_finish_def thread_destructor_def Let_def)
  have "0 \<notin> tw_keys th_race_world" by code_simp
  moreover have "tw_objs th_race_world 200 = Some \<lparr>m_t = Some 3, m_tid = -1\<rparr>" by code_simp
  moreover have "tw_objs th_race_world 300 = Some \<lparr>m_t = None, m_tid = -1\<rparr>" by code_simp
  ultimately show ?thesis
    using thread_counter_race [OF th_race_ok run, of 200 "\<lparr>m_t = Some 3, m_tid = -1\<rparr>" 4 300 "\<lparr>m_t = None, m_tid = -1\<rparr>"] by auto
qed

end
