(* ===== verification/GclThreadSample.thy ===== *)
theory GclThreadSample
  imports GclThreadRace
begin

section \<open>The thread class of \<open>samples/ex-thread.cpp\<close>\<close>

text \<open>
  \<open>MyThread\<close> starts itself in its constructor and deletes itself in \<open>run()\<close>; \<open>cancel_test\<close> makes
  one, waits for it and cancels the main thread. The sleeping times order the calls: the main
  thread is in \<open>join\<close> when the thread wakes up.
\<close>

definition mythread_new :: "tid \<Rightarrow> ptr \<Rightarrow> nat option \<Rightarrow> int \<Rightarrow> tid \<Rightarrow> tworld \<Rightarrow> tworld res" where
  "mythread_new self p newkey err child w =
     rbind (thread_new self p newkey w) (\<lambda>w. rbind (thread_start p err child w) (\<lambda>(_, w). Inr w))"

text \<open>\<open>run\<close> and the end of its thread. The ids printed are read from the object before it goes.\<close>

definition mythread_run :: "tid \<Rightarrow> ptr \<Rightarrow> int \<Rightarrow> tworld \<Rightarrow> tworld res" where
  "mythread_run self p err w =
     rbind (thread_get_current self w) (\<lambda>current.
     rbind (thread_id current w) (\<lambda>_.
     rbind (thread_id p w) (\<lambda>_.
       thread_delete self p err w)))"

definition cancel_test :: "tid \<Rightarrow> ptr \<Rightarrow> nat option \<Rightarrow> int \<Rightarrow> tid \<Rightarrow> int \<Rightarrow> tworld \<Rightarrow> tworld res" where
  "cancel_test self p newkey err child cerr w =
     rbind (mythread_new self p newkey err child w) (\<lambda>w.
     rbind (thread_get_current self w) (\<lambda>tmain.
     rbind (thread_id tmain w) (\<lambda>_.
     rbind (thread_is_running p w) (\<lambda>running.
     rbind (if running
            then rbind (thread_get_handle p w) (\<lambda>t.
                   if t = self then Inr w
                   else rbind (mythread_run child p cerr w) (thread_finish t))
            else Inr w)
       (\<lambda>w. Inr (w\<lparr>tw_cancelled := insert self (tw_cancelled w)\<rparr>))))))"

text \<open>
  C40: \<open>cancel_test\<close> never gets past its join: whenever the thread can be started, it deletes its
  object in \<open>run()\<close> and its cleanup handler then writes into the deleted object. Where the start
  fails, the test goes on to cancel the main thread.
\<close>

theorem sample_cancel_test_fault:
  assumes "tw_ok w" "tw_running w = Map.empty" "p \<noteq> 0" "tw_objs w p = None" "k \<notin> tw_keys w" "child \<noteq> self"
  shows "if err = 0 then cancel_test self p (Some k) err child cerr w = Inl UseAfterFree
    else \<exists>w'. cancel_test self p (Some k) err child cerr w = Inr w' \<and> self \<in> tw_cancelled w' \<and> thread_is_running p w' = Inr False"
proof -
  have fresh: "case Some k of None \<Rightarrow> tw_key w \<in> tw_keys w | Some k \<Rightarrow> k \<notin> tw_keys w" using assms(5) by simp
  obtain w1 where w1: "thread_new self p (Some k) w = Inr w1" "tw_ok w1" "tw_running w1 = Map.empty" "tw_main w1 = tw_main w"
    "tw_objs w1 p = Some \<lparr>m_t = None, m_tid = -1\<rparr>" "tw_key w1 \<in> tw_keys w1" "tw_count w1 = 0"
    using assms(2) tw_ok_count_0 [OF assms(1)] by (auto intro: thread_new_spec [OF assms(1,3,4) fresh, of self])
  show ?thesis
  proof (cases "err = 0")
    case False
    obtain w2 where w2: "thread_start p err child w1 = Inr (err, w2)" "tw_ok w2" "tw_running w2 = tw_running w1"
      "tw_count w2 = tw_count w1" "tw_objs w2 p = Some \<lparr>m_t = None, m_tid = -1\<rparr>" "tw_main w2 = tw_main w1"
      by (rule thread_start_refused [OF w1(2,5) _ False]) simp_all
    have cur: "thread_get_current self w2 = Inr (tw_main w2)" using w2(4,6) w1(4,7) by (simp add: thread_get_current_def)
    obtain x where "tw_objs w2 (tw_main w2) = Some x" using tw_okD(5) [OF w2(2)] by blast
    then show ?thesis
      using False w1(1,4) w2(1,5,6) cur
      by (simp add: cancel_test_def mythread_new_def thread_id_def thread_obj_at_def thread_is_running_def)
  next
    case True
    have none: "tw_running w1 child = None" "unat (tw_count w1) < 2 ^ 32 - 2" using w1(3,7) by simp_all
    obtain w2 where w2: "thread_start p 0 child w1 = Inr (0, w2)" "tw_ok w2" "tw_running w2 = (tw_running w1)(child \<mapsto> p)"
      "tw_count w2 = tw_count w1 + 1" "tw_objs w2 p = Some \<lparr>m_t = Some child, m_tid = tw_count w1 + 1\<rparr>" "tw_main w2 = tw_main w1"
      by (rule thread_start_ok [OF w1(2,5) _ none(1) w1(6) none(2)]) simp_all
    have run: "tw_running w2 child = Some p" using w2(3) by simp
    obtain w3 where w3: "thread_delete child p cerr w2 = Inr w3" "thread_finish child w3 = Inl UseAfterFree"
      using thread_delete_this_fault [OF w2(2) run] by blast
    have cur: "thread_get_current child w2 = Inr p" by (rule thread_current_spec(1) [OF w2(2) run])
    have "mythread_run child p cerr w2 = Inr w3"
      using w3(1) cur w2(5) by (simp add: mythread_run_def thread_id_def thread_obj_at_def)
    moreover have "tw_tls w1 (tw_key w1) self = tw_main w"
      using w1(1) assms(2) tw_ok_count_0 [OF assms(1)] by (auto simp: thread_new_def key_create_def tls_set_def Let_def)
    then have "tw_tls w2 (tw_key w2) self = tw_main w \<and> tw_key w2 \<in> tw_keys w2"
      using w2(1) w1(5,6) assms(6) by (auto simp: thread_start_def thread_obj_at_def thread_wrapper_begin_def tls_set_def Let_def)
    then have "thread_get_current self w2 = Inr (tw_main w)"
      using w2(4) w1(7) by (simp add: thread_get_current_def tls_get_def)
    moreover obtain x where "tw_objs w2 (tw_main w) = Some x" using tw_okD(5) [OF w2(2)] w2(6) w1(4) by auto
    ultimately show ?thesis
      using True w1(1,7) w2(1,5) w3(2) assms(6)
      by (simp add: cancel_test_def mythread_new_def thread_id_def thread_obj_at_def thread_is_running_def thread_get_handle_def)
  qed
qed

lemma sample_cancel_test_fault_witness:
  "\<exists>w. thread_new 1 8 (Some 5) (tw_zero 8) = Inr w \<and> cancel_test 1 100 (Some 6) 0 2 0 w = Inl UseAfterFree"
proof -
  obtain w where w: "thread_new 1 8 (Some 5) (tw_zero 8) = Inr w" "tw_ok w" "tw_running w = Map.empty" "tw_keys w = {5}" "dom (tw_objs w) = {8}"
    by (rule thread_boot [of 8 1 5]) simp_all
  have "100 \<notin> dom (tw_objs w)" unfolding w(5) by simp
  then have "tw_objs w 100 = None" by (simp add: domIff)
  then show ?thesis using sample_cancel_test_fault [OF w(2,3), of 100 6 2 1 0 0] w(1,4) by simp
qed

end
