(* ===== verification/GclThreadCtor.thy ===== *)
theory GclThreadCtor
  imports GclThreadProps
begin

section \<open>The constructors of \<open>Thread\<close> that start\<close>

text \<open>
  \<open>Thread(proc, data, attr)\<close> and \<open>Thread(Runnable, attr)\<close> in \<open>include/gthread.h\<close> only call \<open>start\<close>.
  Unlike \<open>Thread()\<close> they do not create the key when no thread runs.
\<close>

definition thread_new_start :: "ptr \<Rightarrow> int \<Rightarrow> tid \<Rightarrow> tworld \<Rightarrow> tworld res" where
  "thread_new_start p err child w =
     rbind (thread_start p err child (w\<lparr>tw_objs := (tw_objs w)(p \<mapsto> \<lparr>m_t = None, m_tid = -1\<rparr>)\<rparr>)) (\<lambda>(_, w). Inr w)"

lemma last_thread_key:
  assumes "tw_ok w" "tw_running w = [t \<mapsto> p]" "0 \<notin> tw_keys w" "thread_finish t w = Inr w'"
  shows "tw_ok w'" "tw_running w' = Map.empty" "tw_key w' = 0" "0 \<notin> tw_keys w'"
proof -
  have "tw_running w t = Some p" using assms(2) by simp
  then obtain v where v: "thread_finish t w = Inr v" "tw_ok v" "tw_running v = (tw_running w)(t := None)"
    "tw_key v = (if tw_running v = Map.empty then 0 else tw_key w)"
    "tw_keys v = (if tw_running v = Map.empty then tw_keys w - {tw_key w} else tw_keys w)"
    by (auto intro: thread_finish_spec [OF assms(1), of t p])
  then have "v = w'" using assms(4) by simp
  then show "tw_ok w'" "tw_running w' = Map.empty" "tw_key w' = 0" "0 \<notin> tw_keys w'" using v assms(2,3) by simp_all
qed

text \<open>
  After the last running thread has ended, a new object made and started by one of these
  constructors sets a value for the key that was deleted, whereas \<open>Thread()\<close> followed by \<open>start\<close>
  runs the thread.
\<close>

theorem starting_constructor_fault:
  assumes "tw_ok w" "tw_running w = [t \<mapsto> p]" "0 \<notin> tw_keys w" "thread_finish t w = Inr w'"
    and "q \<noteq> 0" "tw_objs w' q = None" "k \<notin> tw_keys w'"
  shows "thread_new_start q 0 child w' = Inl BadHandle \<and>
    (\<exists>v v'. thread_new self q (Some k) w' = Inr v \<and> thread_start q 0 child v = Inr (0, v') \<and> thread_is_running q v' = Inr True)"
proof -
  note z = last_thread_key [OF assms(1-4)]
  have "case Some k of None \<Rightarrow> tw_key w' \<in> tw_keys w' | Some k \<Rightarrow> k \<notin> tw_keys w'" using assms(7) by simp
  then obtain v where v: "thread_new self q (Some k) w' = Inr v" "tw_ok v" "tw_running v = Map.empty"
    "tw_objs v q = Some \<lparr>m_t = None, m_tid = -1\<rparr>" "tw_key v \<in> tw_keys v" "tw_count v = 0"
    using z(2) tw_ok_count_0 [OF z(1)] by (auto intro: thread_new_spec [OF z(1) assms(5,6), of "Some k" self])
  obtain v' where v': "thread_start q 0 child v = Inr (0, v')" "tw_ok v'" "tw_running v' = (tw_running v)(child \<mapsto> q)"
    "tw_count v' = tw_count v + 1" "tw_objs v' q = Some \<lparr>m_t = Some child, m_tid = tw_count v + 1\<rparr>"
    by (rule thread_start_ok [OF v(2,4) _ _ v(5)]) (use v(3,6) in simp_all)
  have "thread_is_running q v' = Inr True" using v'(5) v(6) by (simp add: thread_is_running_def thread_obj_at_def)
  moreover have "thread_new_start q 0 child w' = Inl BadHandle"
    using z(3,4) by (simp add: thread_new_start_def thread_start_def thread_obj_at_def thread_wrapper_begin_def tls_set_def)
  ultimately show ?thesis using v(1) v'(1) by blast
qed

lemma starting_constructor_fault_witness:
  "\<exists>w'. thread_finish 2 th_lone_world = Inr w' \<and> thread_new_start 999 0 2 w' = Inl BadHandle"
proof -
  have "tw_running th_lone_world 2 = Some 100" by code_simp
  then obtain w' where w': "thread_finish 2 th_lone_world = Inr w'" "tw_objs w' = (tw_objs th_lone_world)(100 \<mapsto> \<lparr>m_t = Some 2, m_tid = -1\<rparr>)"
    "tw_keys w' = (if tw_running w' = Map.empty then tw_keys th_lone_world - {tw_key th_lone_world} else tw_keys th_lone_world)"
    by (auto intro: thread_finish_spec [OF th_lone_ok, of 2 100])
  have run: "tw_running th_lone_world = [2 \<mapsto> 100]"
    by (simp add: th_lone_world_def th_demo_world_def th_demo_def th_boot_def tw_zero_def thread_new_def key_create_def
        tls_set_def thread_start_def thread_wrapper_begin_def thread_obj_at_def thread_finish_def thread_destructor_def Let_def)
  have n: "0 \<notin> tw_keys th_lone_world" "99 \<notin> tw_keys th_lone_world" "tw_objs th_lone_world 999 = None" by code_simp+
  have "tw_objs w' 999 = None" "99 \<notin> tw_keys w'" using w'(2,3) n(2,3) by simp_all
  then have "thread_new_start 999 0 2 w' = Inl BadHandle"
    using starting_constructor_fault [OF th_lone_ok run n(1) w'(1), of 999 99 2 1] by simp
  then show ?thesis using w'(1) by blast
qed

end
