(* ===== verification/GclCounter.thy ===== *)
theory GclCounter
  imports GclSync
begin

section \<open>The counter of finished threads: \<open>samples/ex-thread.cpp\<close>, \<open>samples/ex-pthread.cpp\<close>\<close>

text \<open>
  512 threads run the same function: a hundred lines, then \<open>finished++\<close> on a global variable
  without a lock, which is a load and a store. A thread is where it stands in its function, a
  step is one line printed, the load, the store, one start or one join; a join with a running
  thread is not enabled. \<open>errs i\<close> is the error code of starting thread \<open>i\<close>. A line names
  its thread by the index in the array; the clock readings it shows as well are left out.
\<close>

datatype work_pc = WBegin | WTurn nat | WLoad | WStore int | WEnd | WNever

datatype fin_main = MStart nat | MCount nat | MJoin nat | MTotal | MEnd | MFailed

datatype fin_line = LStart nat | LCount nat nat | LFinished nat | LMain nat | LTotal int | LError nat

record fin_world =
  fw_finished :: int
  fw_works :: "work_pc list"
  fw_main :: fin_main
  fw_out :: "fin_line list"

definition fin_init :: fin_world where
  "fin_init = \<lparr>fw_finished = 0, fw_works = [], fw_main = MStart 0, fw_out = []\<rparr>"

definition fin_say :: "fin_line \<Rightarrow> fin_world \<Rightarrow> fin_world" where
  "fin_say l w = w\<lparr>fw_out := fw_out w @ [l]\<rparr>"

definition work_goto :: "nat \<Rightarrow> work_pc \<Rightarrow> fin_world \<Rightarrow> fin_world" where
  "work_goto i pc w = w\<lparr>fw_works := (fw_works w)[i := pc]\<rparr>"

definition main_goto :: "fin_main \<Rightarrow> fin_world \<Rightarrow> fin_world" where
  "main_goto pc w = w\<lparr>fw_main := pc\<rparr>"

text \<open>The thread function; in one of the programs it starts with a line.\<close>

definition work_step :: "bool \<Rightarrow> nat \<Rightarrow> fin_world \<Rightarrow> fin_world option" where
  "work_step greets i w =
     (if length (fw_works w) \<le> i then None
      else case fw_works w ! i of
        WBegin \<Rightarrow> Some (work_goto i (WTurn 0) (if greets then fin_say (LStart i) w else w))
      | WTurn k \<Rightarrow> if k < 100 then Some (work_goto i (WTurn (k + 1)) (fin_say (LCount i k) w))
                  else Some (work_goto i WLoad (fin_say (LFinished i) w))
      | WLoad \<Rightarrow> Some (work_goto i (WStore (fw_finished w)) w)
      | WStore r \<Rightarrow> Some (work_goto i WEnd (w\<lparr>fw_finished := r + 1\<rparr>))
      | WEnd \<Rightarrow> None
      | WNever \<Rightarrow> None)"

abbreviation (input) FIN_MAX :: nat where "FIN_MAX \<equiv> 512"

definition main_join :: "nat \<Rightarrow> fin_world \<Rightarrow> fin_world option" where
  "main_join i w =
     (if i < FIN_MAX
      then (if fw_works w ! i = WEnd \<or> fw_works w ! i = WNever then Some (main_goto (MJoin (i + 1)) w) else None)
      else Some (main_goto MTotal w))"

definition main_total :: "fin_world \<Rightarrow> fin_world" where
  "main_total w = main_goto MEnd (fin_say (LTotal (fw_finished w)) w)"

text \<open>\<open>running_test\<close>: \<open>start\<close> and \<open>join\<close> of the class \<open>Thread\<close>, whose error codes are ignored.\<close>

definition running_step :: "(nat \<Rightarrow> int) \<Rightarrow> fin_world \<Rightarrow> fin_world option" where
  "running_step errs w =
     (case fw_main w of
        MStart i \<Rightarrow>
          if i < FIN_MAX
          then Some (main_goto (MStart (i + 1)) (w\<lparr>fw_works := fw_works w @ [if errs i = 0 then WBegin else WNever]\<rparr>))
          else Some (main_goto (MCount 0) w)
      | MCount i \<Rightarrow> if i < 100 then Some (main_goto (MCount (i + 1)) (fin_say (LMain i) w)) else Some (main_goto (MJoin 0) w)
      | MJoin i \<Rightarrow> main_join i w
      | MTotal \<Rightarrow> Some (main_total w)
      | MEnd \<Rightarrow> None
      | MFailed \<Rightarrow> None)"

text \<open>\<open>main\<close> of the other program: an error ends the process, and with it every thread.\<close>

definition pmain_step :: "(nat \<Rightarrow> int) \<Rightarrow> fin_world \<Rightarrow> fin_world option" where
  "pmain_step errs w =
     (case fw_main w of
        MStart i \<Rightarrow>
          if i < FIN_MAX
          then (if errs i = 0 then Some (main_goto (MStart (i + 1)) (w\<lparr>fw_works := fw_works w @ [WBegin]\<rparr>))
                else Some (main_goto MFailed (fin_say (LError i) w)))
          else Some (main_goto (MJoin 0) w)
      | MCount i \<Rightarrow> None
      | MJoin i \<Rightarrow> main_join i w
      | MTotal \<Rightarrow> Some (main_total w)
      | MEnd \<Rightarrow> None
      | MFailed \<Rightarrow> None)"

definition tfoo_step :: "nat \<Rightarrow> fin_world \<Rightarrow> fin_world option" where
  "tfoo_step i w = work_step False i w"

definition pfoo_step :: "nat \<Rightarrow> fin_world \<Rightarrow> fin_world option" where
  "pfoo_step i w = (if fw_main w = MEnd \<or> fw_main w = MFailed then None else work_step True i w)"

text \<open>Runs, through states that \<open>ok\<close> admits.\<close>

inductive fin_run ::
    "(nat \<Rightarrow> fin_world \<Rightarrow> fin_world option) \<Rightarrow> (fin_world \<Rightarrow> fin_world option) \<Rightarrow> (fin_world \<Rightarrow> bool) \<Rightarrow> fin_world \<Rightarrow> bool"
  for foo main ok
where
  fin_first: "fin_run foo main ok fin_init"
| fin_foo: "fin_run foo main ok w \<Longrightarrow> foo i w = Some w' \<Longrightarrow> ok w' \<Longrightarrow> fin_run foo main ok w'"
| fin_main: "fin_run foo main ok w \<Longrightarrow> main w = Some w' \<Longrightarrow> ok w' \<Longrightarrow> fin_run foo main ok w'"

subsection \<open>What a step of a thread does\<close>

lemma fin_upd [simp]:
  "fw_finished (fin_say l w) = fw_finished w" "fw_works (fin_say l w) = fw_works w" "fw_main (fin_say l w) = fw_main w"
  "fw_out (fin_say l w) = fw_out w @ [l]"
  "fw_finished (work_goto i pc w) = fw_finished w" "fw_works (work_goto i pc w) = (fw_works w)[i := pc]"
  "fw_main (work_goto i pc w) = fw_main w" "fw_out (work_goto i pc w) = fw_out w"
  "fw_finished (main_goto m w) = fw_finished w" "fw_works (main_goto m w) = fw_works w"
  "fw_main (main_goto m w) = m" "fw_out (main_goto m w) = fw_out w"
  by (simp_all add: fin_say_def work_goto_def main_goto_def)

lemma work_stepE:
  assumes "work_step greets i w = Some w'"
  obtains (line) pc ls where "i < length (fw_works w)" "fw_works w' = (fw_works w)[i := pc]"
      "fw_works w ! i = WBegin \<and> pc = WTurn 0 \<and> (ls = [] \<or> ls = [LStart i])
       \<or> (\<exists>k < 100. fw_works w ! i = WTurn k \<and> pc = WTurn (Suc k) \<and> ls = [LCount i k])
       \<or> (\<exists>k \<ge> 100. fw_works w ! i = WTurn k \<and> pc = WLoad \<and> ls = [LFinished i])"
      "fw_out w' = fw_out w @ ls" "fw_finished w' = fw_finished w" "fw_main w' = fw_main w"
  | (loaded) "i < length (fw_works w)" "fw_works w ! i = WLoad" "fw_works w' = (fw_works w)[i := WStore (fw_finished w)]"
      "fw_out w' = fw_out w" "fw_finished w' = fw_finished w" "fw_main w' = fw_main w"
  | (stored) r where "i < length (fw_works w)" "fw_works w ! i = WStore r" "fw_works w' = (fw_works w)[i := WEnd]"
      "fw_out w' = fw_out w" "fw_finished w' = r + 1" "fw_main w' = fw_main w"
proof -
  have i: "i < length (fw_works w)" using assms by (simp add: work_step_def split: if_splits)
  show thesis
  proof (cases "fw_works w ! i")
    case WBegin
    then show ?thesis using assms i by (intro line [of "WTurn 0" "if greets then [LStart i] else []"]) (auto simp: work_step_def)
  next
    case (WTurn k)
    show ?thesis
    proof (cases "k < 100")
      case True
      then show ?thesis using assms i WTurn by (intro line [of "WTurn (Suc k)" "[LCount i k]"]) (auto simp: work_step_def)
    next
      case False
      then show ?thesis using assms i WTurn by (intro line [of WLoad "[LFinished i]"]) (auto simp: work_step_def)
    qed
  next
    case WLoad
    then show ?thesis using assms i by (intro loaded) (auto simp: work_step_def)
  next
    case (WStore r)
    then show ?thesis using assms i by (intro stored [of r]) (auto simp: work_step_def)
  qed (use assms i in \<open>auto simp: work_step_def\<close>)
qed

lemma count_update: "i < length xs \<Longrightarrow> count_list (xs[i := y]) z + (if xs ! i = z then 1 else 0) = count_list xs z + (if y = z then 1 else 0)"
proof (induction xs arbitrary: i)
  case (Cons x xs)
  show ?case
  proof (cases i)
    case (Suc k)
    then have "k < length xs" using Cons.prems by simp
    from Cons.IH [OF this] show ?thesis unfolding Suc by (cases "y = z") simp_all
  qed simp
qed simp

text \<open>The threads that are through, and what the counter can be then.\<close>

definition ended :: "fin_world \<Rightarrow> nat" where
  "ended w = count_list (fw_works w) WEnd"

definition fin_count :: "fin_world \<Rightarrow> bool" where
  "fin_count w \<longleftrightarrow> 0 \<le> fw_finished w \<and> fw_finished w \<le> int (ended w) \<and> (0 < ended w \<longrightarrow> 1 \<le> fw_finished w)
     \<and> (\<forall>r. WStore r \<in> set (fw_works w) \<longrightarrow> 0 \<le> r \<and> r \<le> int (ended w))"

lemma set_update_in: "x \<in> set (xs[i := y]) \<Longrightarrow> x = y \<or> x \<in> set xs"
  using set_update_subset_insert [of xs i y] by blast

lemma fin_count_work: "fin_count w \<Longrightarrow> work_step greets i w = Some w' \<Longrightarrow> fin_count w'"
proof (erule work_stepE)
  fix pc ls assume c: "fin_count w" and i: "i < length (fw_works w)" and w': "fw_works w' = (fw_works w)[i := pc]" "fw_finished w' = fw_finished w"
    and pc: "fw_works w ! i = WBegin \<and> pc = WTurn 0 \<and> (ls = [] \<or> ls = [LStart i])
       \<or> (\<exists>k < 100. fw_works w ! i = WTurn k \<and> pc = WTurn (Suc k) \<and> ls = [LCount i k])
       \<or> (\<exists>k \<ge> 100. fw_works w ! i = WTurn k \<and> pc = WLoad \<and> ls = [LFinished i])"
  have "ended w' = ended w" using count_update [OF i, of pc WEnd] pc unfolding ended_def w' by auto
  then show "fin_count w'" using c pc unfolding fin_count_def w' by (auto dest!: set_update_in)
next
  assume c: "fin_count w" and i: "i < length (fw_works w)" "fw_works w ! i = WLoad"
    and w': "fw_works w' = (fw_works w)[i := WStore (fw_finished w)]" "fw_finished w' = fw_finished w"
  have "ended w' = ended w" using count_update [OF i(1), of "WStore (fw_finished w)" WEnd] i(2) unfolding ended_def w' by simp
  then show "fin_count w'" using c unfolding fin_count_def w' by (auto dest!: set_update_in)
next
  fix r assume c: "fin_count w" and i: "i < length (fw_works w)" "fw_works w ! i = WStore r"
    and w': "fw_works w' = (fw_works w)[i := WEnd]" "fw_finished w' = r + 1"
  have "ended w' = Suc (ended w)" using count_update [OF i(1), of WEnd WEnd] i(2) unfolding ended_def w' by simp
  moreover have "0 \<le> r \<and> r \<le> int (ended w)" using c i nth_mem [OF i(1)] by (auto simp: fin_count_def)
  ultimately show "fin_count w'" using c unfolding fin_count_def w' by (auto dest!: set_update_in)
qed

lemma fin_count_same:
  "fin_count w \<Longrightarrow> fw_finished w' = fw_finished w \<Longrightarrow> fw_works w' = fw_works w @ ws \<Longrightarrow> set ws \<subseteq> {WBegin, WNever} \<Longrightarrow> fin_count w'"
proof -
  assume a: "fin_count w" "fw_finished w' = fw_finished w" "fw_works w' = fw_works w @ ws" "set ws \<subseteq> {WBegin, WNever}"
  have "count_list ws WEnd = 0" using a(4) by (auto simp: count_list_0_iff)
  then have "ended w' = ended w" using a(3) by (simp add: ended_def)
  then show "fin_count w'" using a by (auto simp: fin_count_def)
qed

subsection \<open>What the threads print\<close>

fun counts_of :: "nat \<Rightarrow> fin_line list \<Rightarrow> nat list" where
  "counts_of i [] = []"
| "counts_of i (l # ls) = (case l of LCount j k \<Rightarrow> if j = i then k # counts_of i ls else counts_of i ls | _ \<Rightarrow> counts_of i ls)"

lemma counts_of_append [simp]: "counts_of i (ls @ ls') = counts_of i ls @ counts_of i ls'"
  by (induction ls) (auto split: fin_line.splits)

fun turns :: "work_pc \<Rightarrow> nat" where
  "turns WBegin = 0" | "turns WNever = 0" | "turns (WTurn k) = k" | "turns _ = 100"

definition fin_printed :: "fin_world \<Rightarrow> bool" where
  "fin_printed w \<longleftrightarrow> (\<forall>i. counts_of i (fw_out w) = (if i < length (fw_works w) then [0..<turns (fw_works w ! i)] else []))
     \<and> (\<forall>pc \<in> set (fw_works w). turns pc \<le> 100)"

lemma fin_printed_work:
  assumes "fin_printed w" "work_step greets i w = Some w'"
  shows "fin_printed w'"
  using assms(2)
proof (cases rule: work_stepE)
  case (line pc ls)
  have old: "counts_of j (fw_out w) = (if j < length (fw_works w) then [0..<turns (fw_works w ! j)] else [])" for j
    using assms(1) by (simp add: fin_printed_def)
  have "turns (fw_works w ! i) \<le> 100" using assms(1) nth_mem [OF line(1)] by (simp add: fin_printed_def)
  then have t: "turns pc \<le> 100" and own: "[0..<turns pc] = [0..<turns (fw_works w ! i)] @ counts_of i ls"
    and oth: "j \<noteq> i \<Longrightarrow> counts_of j ls = []" for j
    using line(3) by (auto simp: le_antisym)
  have "counts_of j (fw_out w') = (if j < length (fw_works w') then [0..<turns (fw_works w' ! j)] else [])" for j
    using old [of j] own oth [of j] line(1) unfolding line(2,4) by (cases "j = i") simp_all
  then show ?thesis using assms(1) t unfolding fin_printed_def line(2) by (auto dest!: set_update_in)
next
  case loaded
  then show ?thesis using assms(1) unfolding fin_printed_def by (auto simp: nth_list_update dest!: set_update_in)
next
  case (stored r)
  then show ?thesis using assms(1) unfolding fin_printed_def by (auto simp: nth_list_update dest!: set_update_in)
qed

subsection \<open>Where the main thread stands\<close>

definition over :: "work_pc \<Rightarrow> bool" where
  "over pc \<longleftrightarrow> pc = WEnd \<or> pc = WNever"

fun main_at :: "fin_main \<Rightarrow> fin_world \<Rightarrow> bool" where
  "main_at (MStart n) w \<longleftrightarrow> length (fw_works w) = n \<and> n \<le> FIN_MAX"
| "main_at (MCount n) w \<longleftrightarrow> length (fw_works w) = FIN_MAX"
| "main_at (MJoin n) w \<longleftrightarrow> length (fw_works w) = FIN_MAX \<and> n \<le> FIN_MAX \<and> (\<forall>i < n. over (fw_works w ! i))"
| "main_at MTotal w \<longleftrightarrow> length (fw_works w) = FIN_MAX \<and> (\<forall>i < FIN_MAX. over (fw_works w ! i))"
| "main_at MEnd w \<longleftrightarrow> length (fw_works w) = FIN_MAX \<and> (\<forall>i < FIN_MAX. over (fw_works w ! i))
     \<and> (\<exists>ls. fw_out w = ls @ [LTotal (fw_finished w)])"
| "main_at MFailed w \<longleftrightarrow> True"

definition fin_ctl :: "(nat \<Rightarrow> int) \<Rightarrow> fin_world \<Rightarrow> bool" where
  "fin_ctl errs w \<longleftrightarrow> main_at (fw_main w) w \<and> (\<forall>i < length (fw_works w). fw_works w ! i = WNever \<longleftrightarrow> errs i \<noteq> 0)"

lemma work_not_over:
  assumes "work_step greets i w = Some w'"
  shows "i < length (fw_works w) \<and> \<not> over (fw_works w ! i) \<and> fw_main w' = fw_main w
    \<and> (\<exists>pc. fw_works w' = (fw_works w)[i := pc] \<and> pc \<noteq> WNever)"
  using assms by (cases rule: work_stepE) (auto simp: over_def)

lemma main_at_work:
  assumes "main_at m w" "i < length (fw_works w)" "\<not> over (fw_works w ! i)" "fw_works w' = (fw_works w)[i := pc]"
  shows "main_at m w'"
  using assms by (cases m) (auto simp: nth_list_update)

lemma fin_ctl_work: "fin_ctl errs w \<Longrightarrow> work_step greets i w = Some w' \<Longrightarrow> fin_ctl errs w'"
  using work_not_over [of greets i w w'] main_at_work [of "fw_main w" w i w']
  by (auto simp: fin_ctl_def over_def nth_list_update split: if_splits)

lemma main_stepE:
  assumes "running_step errs w = Some w' \<or> pmain_step errs w = Some w'" "fin_ctl errs w"
  obtains ws ls where "fw_finished w' = fw_finished w" "fw_works w' = fw_works w @ ws" "set ws \<subseteq> {WBegin, WNever}"
    "fw_out w' = fw_out w @ ls" "\<And>i. counts_of i ls = []" "fin_ctl errs w'"
proof (cases "fw_main w")
  case (MStart n)
  show ?thesis
  proof (cases "n < FIN_MAX")
    case True
    let ?pc = "if errs n = 0 then WBegin else WNever"
    show ?thesis
    proof (cases "fw_main w' = MFailed")
      case fail: True
      then have "w' = main_goto MFailed (fin_say (LError n) w)"
        using assms(1) MStart True by (auto simp: running_step_def pmain_step_def split: if_splits)
      then show ?thesis using assms(2) by (intro that [of "[]" "[LError n]"]) (auto simp: fin_ctl_def)
    next
      case False
      then have w': "w' = main_goto (MStart (n + 1)) (w\<lparr>fw_works := fw_works w @ [?pc]\<rparr>)"
        using assms(1) MStart True by (auto simp: running_step_def pmain_step_def split: if_splits)
      show ?thesis using assms(2) MStart True
        by (intro that [of "[?pc]" "[]"]) (auto simp: w' fin_ctl_def nth_append less_Suc_eq)
    qed
  next
    case False
    then have "w' = main_goto (MCount 0) w \<or> w' = main_goto (MJoin 0) w"
      using assms(1) MStart by (auto simp: running_step_def pmain_step_def)
    then show ?thesis using assms(2) MStart False by (intro that [of "[]" "[]"]) (auto simp: fin_ctl_def)
  qed
next
  case (MCount n)
  then have "w' = (if n < 100 then main_goto (MCount (n + 1)) (fin_say (LMain n) w) else main_goto (MJoin 0) w)"
    using assms(1) by (auto simp: running_step_def pmain_step_def)
  then show ?thesis using assms(2) MCount
    by (intro that [of "[]" "if n < 100 then [LMain n] else []"]) (auto simp: fin_ctl_def)
next
  case (MJoin n)
  then have "main_join n w = Some w'" using assms(1) by (auto simp: running_step_def pmain_step_def)
  then have w': "n < FIN_MAX \<and> over (fw_works w ! n) \<and> w' = main_goto (MJoin (n + 1)) w \<or> FIN_MAX \<le> n \<and> w' = main_goto MTotal w"
    by (auto simp: main_join_def over_def split: if_splits)
  then have "fin_ctl errs w'" using assms(2) MJoin by (auto simp: fin_ctl_def less_Suc_eq)
  then show ?thesis using w' by (intro that [of "[]" "[]"]) auto
next
  case MTotal
  then have "w' = main_total w" using assms(1) by (auto simp: running_step_def pmain_step_def)
  then show ?thesis using assms(2) MTotal by (intro that [of "[]" "[LTotal (fw_finished w)]"]) (auto simp: main_total_def fin_ctl_def)
qed (use assms in \<open>auto simp: running_step_def pmain_step_def\<close>)

lemma fin_printed_main:
  assumes "fin_printed w" "fw_works w' = fw_works w @ ws" "set ws \<subseteq> {WBegin, WNever}" "fw_out w' = fw_out w @ ls" "\<And>i. counts_of i ls = []"
  shows "fin_printed w'"
proof -
  have "turns (ws ! k) = 0" if "k < length ws" for k using nth_mem [OF that] assms(3) by auto
  then show ?thesis using assms by (auto simp: fin_printed_def nth_append)
qed

subsection \<open>Runs of both programs\<close>

definition fin_program :: "(nat \<Rightarrow> int) \<Rightarrow> (nat \<Rightarrow> fin_world \<Rightarrow> fin_world option) \<Rightarrow> (fin_world \<Rightarrow> fin_world option) \<Rightarrow> bool" where
  "fin_program errs foo main \<longleftrightarrow> foo = tfoo_step \<and> main = running_step errs \<or> foo = pfoo_step \<and> main = pmain_step errs"

lemma fin_program_steps:
  assumes "fin_program errs foo main"
  shows "foo i w = Some w' \<Longrightarrow> \<exists>greets. work_step greets i w = Some w'"
    "main w = Some w' \<Longrightarrow> running_step errs w = Some w' \<or> pmain_step errs w = Some w'"
  using assms by (auto simp: fin_program_def tfoo_step_def pfoo_step_def split: if_splits)

lemma fin_run_inv:
  assumes "fin_run foo main ok w" "fin_program errs foo main"
  shows "fin_count w \<and> fin_printed w \<and> fin_ctl errs w"
  using assms(1)
proof (induction rule: fin_run.induct)
  case fin_first
  show ?case by (simp add: fin_init_def fin_count_def fin_printed_def fin_ctl_def ended_def)
next
  case (fin_foo w i w')
  then obtain greets where "work_step greets i w = Some w'" using fin_program_steps(1) [OF assms(2)] by blast
  then show ?case using fin_foo.IH fin_count_work fin_printed_work fin_ctl_work by blast
next
  case (fin_main w w')
  obtain ws ls where "fw_finished w' = fw_finished w" "fw_works w' = fw_works w @ ws" "set ws \<subseteq> {WBegin, WNever}"
    "fw_out w' = fw_out w @ ls" "\<And>i. counts_of i ls = []" "fin_ctl errs w'"
    using main_stepE [OF fin_program_steps(2) [OF assms(2) fin_main(2)]] fin_main.IH by blast
  then show ?case using fin_count_same fin_printed_main fin_main.IH by blast
qed

end
