(* ===== verification/GclCounterProps.thy ===== *)
theory GclCounterProps
  imports GclCounter
begin

section \<open>The counter of finished threads: properties\<close>

text \<open>
  What the total can be in every run, that it is exact when no two increments overlap, and that
  511 of the 512 increments can be lost.
\<close>

lemma count_list_le_card: "(\<forall>i < length xs. xs ! i = z \<longrightarrow> P i) \<Longrightarrow> count_list xs z \<le> card {i. i < length xs \<and> P i}"
proof -
  assume a: "\<forall>i < length xs. xs ! i = z \<longrightarrow> P i"
  have "count_list xs z = card {i. i < length xs \<and> xs ! i = z}"
    unfolding count_list_eq_length_filter length_filter_conv_card by (rule arg_cong [where f = card]) auto
  also have "\<dots> \<le> card {i. i < length xs \<and> P i}" using a by (intro card_mono) auto
  finally show ?thesis .
qed

text \<open>The state in which the total has been printed.\<close>

lemma fin_run_end:
  assumes "fin_run foo main ok w" "fin_program errs foo main" "fw_main w = MEnd"
  shows "\<exists>ls. fw_out w = ls @ [LTotal (fw_finished w)]"
    "ended w = card {i. i < FIN_MAX \<and> errs i = 0}"
    "\<forall>i < FIN_MAX. counts_of i (fw_out w) = (if errs i = 0 then [0..<100] else [])"
    "fin_count w"
proof -
  have I: "fin_count w" "fin_printed w" "fin_ctl errs w" using fin_run_inv [OF assms(1,2)] by auto
  have len: "length (fw_works w) = FIN_MAX" and ov: "\<forall>i < FIN_MAX. over (fw_works w ! i)"
    and never: "\<forall>i < FIN_MAX. fw_works w ! i = WNever \<longleftrightarrow> errs i \<noteq> 0"
    and out: "\<exists>ls. fw_out w = ls @ [LTotal (fw_finished w)]"
    using I(3) assms(3) by (auto simp: fin_ctl_def)
  show "\<exists>ls. fw_out w = ls @ [LTotal (fw_finished w)]" "fin_count w" by fact+
  have e: "fw_works w ! i = WEnd \<longleftrightarrow> errs i = 0" if "i < FIN_MAX" for i
    using ov never that by (auto simp: over_def)
  have "ended w = card {i. i < length (fw_works w) \<and> fw_works w ! i = WEnd}"
    unfolding ended_def count_list_eq_length_filter length_filter_conv_card by (rule arg_cong [where f = card]) auto
  also have "{i. i < length (fw_works w) \<and> fw_works w ! i = WEnd} = {i. i < FIN_MAX \<and> errs i = 0}"
    unfolding len using e by blast
  finally show "ended w = card {i. i < FIN_MAX \<and> errs i = 0}" .
  show "\<forall>i < FIN_MAX. counts_of i (fw_out w) = (if errs i = 0 then [0..<100] else [])"
  proof (intro allI impI)
    fix i assume i: "i < FIN_MAX"
    have "counts_of i (fw_out w) = [0..<turns (fw_works w ! i)]" using I(2) i len by (simp add: fin_printed_def)
    moreover have "fw_works w ! i = (if errs i = 0 then WEnd else WNever)" using e [OF i] never i by auto
    ultimately show "counts_of i (fw_out w) = (if errs i = 0 then [0..<100] else [])" by simp
  qed
qed

text \<open>
  C30: In both programs, whatever the order in which the threads run and whichever of them could
  not be started: when the total has been printed, every thread that was started has printed
  its lines 0 to 99 in order, and the total is at most the number of these threads and at
  least one if there are any.
\<close>

theorem finished_total_bounds:
  assumes "fin_program errs foo main" "fin_run foo main (\<lambda>_. True) w" "fw_main w = MEnd" "errs j = 0" "j < 512"
  shows "\<exists>total ls. fw_out w = ls @ [LTotal total] \<and> 1 \<le> total \<and> total \<le> int (card {i. i < 512 \<and> errs i = 0})
    \<and> (\<forall>i < 512. counts_of i (fw_out w) = (if errs i = 0 then [0..<100] else []))"
proof -
  note E = fin_run_end [OF assms(2,1,3)]
  have "finite {i. i < 512 \<and> errs i = 0}" "j \<in> {i. i < 512 \<and> errs i = 0}" using assms(4,5) by simp_all
  then have "0 < ended w" unfolding E(2) using card_gt_0_iff by blast
  then show ?thesis using E(1,3,4) unfolding fin_count_def E(2) [symmetric] by blast
qed

subsection \<open>Increments that do not overlap\<close>

fun stores :: "work_pc \<Rightarrow> bool" where
  "stores (WStore r) = True" | "stores _ = False"

definition no_overlap :: "fin_world \<Rightarrow> bool" where
  "no_overlap w \<longleftrightarrow> length (filter stores (fw_works w)) \<le> 1"

definition fin_exact :: "fin_world \<Rightarrow> bool" where
  "fin_exact w \<longleftrightarrow> fw_finished w = int (ended w) \<and> (\<forall>r. WStore r \<in> set (fw_works w) \<longrightarrow> r = fw_finished w)"

lemma stores_update:
  "i < length xs \<Longrightarrow> length (filter stores (xs[i := y])) + (if stores (xs ! i) then 1 else 0)
     = length (filter stores xs) + (if stores y then 1 else 0)"
proof (induction xs arbitrary: i)
  case (Cons x xs)
  then show ?case by (cases i) auto
qed simp

lemma fin_exact_work:
  assumes "fin_exact w" "no_overlap w" "work_step greets i w = Some w'"
  shows "fin_exact w'"
  using assms(3)
proof (cases rule: work_stepE)
  case (line pc ls)
  have "ended w' = ended w" using count_update [OF line(1), of pc WEnd] line(3) unfolding ended_def line(2) by auto
  then show ?thesis using assms(1) line(3) unfolding fin_exact_def line(2,5) by (auto dest!: set_update_in)
next
  case loaded
  have "ended w' = ended w" using count_update [OF loaded(1), of "WStore (fw_finished w)" WEnd] loaded(2)
    unfolding ended_def loaded(3) by simp
  then show ?thesis using assms(1) unfolding fin_exact_def loaded(3,5) by (auto dest!: set_update_in)
next
  case (stored r)
  have "ended w' = Suc (ended w)" using count_update [OF stored(1), of WEnd WEnd] stored(2) unfolding ended_def stored(3) by simp
  moreover have "r = fw_finished w" using assms(1) stored(1,2) nth_mem [OF stored(1)] by (auto simp: fin_exact_def)
  moreover have "length (filter stores (fw_works w')) = 0"
    using stores_update [OF stored(1), of WEnd] assms(2) stored(2) unfolding no_overlap_def stored(3) by (simp del: length_0_conv)
  then have "WStore k \<notin> set (fw_works w')" for k by (auto simp: filter_empty_conv)
  ultimately show ?thesis using assms(1) unfolding fin_exact_def stored(5) by auto
qed

lemma fin_run_exact:
  assumes "fin_run foo main no_overlap w" "fin_program errs foo main"
  shows "fin_exact w \<and> no_overlap w"
  using assms(1)
proof (induction rule: fin_run.induct)
  case fin_first
  show ?case by (simp add: fin_init_def fin_exact_def no_overlap_def ended_def)
next
  case (fin_foo w i w')
  then show ?case using fin_program_steps(1) [OF assms(2)] fin_exact_work by blast
next
  case (fin_main w w')
  have "fin_ctl errs w" using fin_run_inv [OF fin_main(1) assms(2)] by blast
  then obtain ws ls where w': "fw_finished w' = fw_finished w" "fw_works w' = fw_works w @ ws" "set ws \<subseteq> {WBegin, WNever}"
    by (rule main_stepE [OF fin_program_steps(2) [OF assms(2) fin_main(2)]])
  have "count_list ws WEnd = 0" "WStore r \<notin> set ws" for r using w'(3) by (auto simp: count_list_0_iff)
  then show ?case using fin_main.IH fin_main(3) w'(1,2) unfolding fin_exact_def ended_def by auto
qed

text \<open>
  When no thread loads the counter between the load and the store of another, both programs
  print the number of threads that were started: only the missing lock makes them wrong.
\<close>

theorem finished_total_exact:
  assumes "fin_program errs foo main" "fin_run foo main no_overlap w" "fw_main w = MEnd"
  shows "\<exists>ls. fw_out w = ls @ [LTotal (int (card {i. i < 512 \<and> errs i = 0}))]"
proof -
  have "fw_finished w = int (ended w)" using fin_run_exact [OF assms(2,1)] by (simp add: fin_exact_def)
  then show ?thesis using fin_run_end(1,2) [OF assms(2,1,3)] by simp
qed

subsection \<open>Increments that are lost\<close>

text \<open>
  A run in phases: all threads are started, then all get to their load, then all load 0, then
  all store 1. In a phase the threads move from one place to another in turn.
\<close>

abbreviation (input) all_run :: "fin_world \<Rightarrow> bool" where
  "all_run \<equiv> fin_run tfoo_step (running_step (\<lambda>_. 0)) (\<lambda>_. True)"

lemma fin_phase:
  assumes "\<And>m k w. R w \<Longrightarrow> fw_works w = replicate m b @ replicate (Suc k) a \<Longrightarrow> Q m w \<Longrightarrow>
      \<exists>w'. R w' \<and> fw_works w' = replicate (Suc m) b @ replicate k a \<and> Q (Suc m) w'"
  shows "R w \<Longrightarrow> fw_works w = replicate m b @ replicate k a \<Longrightarrow> Q m w \<Longrightarrow>
    \<exists>w'. R w' \<and> fw_works w' = replicate (m + k) b \<and> Q (m + k) w'"
proof (induction k arbitrary: m w)
  case 0
  then show ?case by auto
next
  case (Suc k)
  obtain w' where "R w'" "fw_works w' = replicate (Suc m) b @ replicate k a" "Q (Suc m) w'"
    using assms [OF Suc.prems] by blast
  from Suc.IH [OF this] show ?case by simp
qed

lemma replicate_at:
  "(replicate m b @ replicate (Suc k) a) ! m = a"
  "(replicate m b @ replicate (Suc k) a)[m := c] = replicate m b @ c # replicate k a"
  "replicate m b @ b # xs = replicate (Suc m) b @ xs"
  by (simp_all add: nth_append list_update_append replicate_app_Cons_same)

lemma fin_run_work:
  "all_run w \<Longrightarrow> work_step False i w = Some w' \<Longrightarrow> all_run w'"
  by (rule fin_foo [where i = i]) (simp_all add: tfoo_step_def)

lemma all_runI: "all_run w \<Longrightarrow> P w \<Longrightarrow> \<exists>w. all_run w \<and> P w"
  by blast

text \<open>One thread from a turn of its loop to the load.\<close>

lemma run_turns:
  "all_run w \<Longrightarrow> fw_works w = ws1 @ WTurn k # ws2 \<Longrightarrow> k \<le> 100 \<Longrightarrow>
   \<exists>w'. all_run w' \<and> fw_works w' = ws1 @ WLoad # ws2 \<and> fw_finished w' = fw_finished w \<and> fw_main w' = fw_main w"
proof (induction "100 - k" arbitrary: k w)
  case 0
  then have "work_step False (length ws1) w = Some (work_goto (length ws1) WLoad (fin_say (LFinished (length ws1)) w))"
    by (simp add: work_step_def)
  from fin_run_work [OF 0(2) this] show ?case by (rule all_runI) (use 0(3) in simp)
next
  case (Suc j)
  then have "work_step False (length ws1) w = Some (work_goto (length ws1) (WTurn (Suc k)) (fin_say (LCount (length ws1) k) w))"
    by (simp add: work_step_def)
  from fin_run_work [OF Suc.prems(1) this] show ?case
    using Suc.hyps(1) [of "Suc k" "work_goto (length ws1) (WTurn (Suc k)) (fin_say (LCount (length ws1) k) w)"] Suc.hyps(2) Suc.prems(2)
    by auto
qed

lemma run_to_load:
  assumes "all_run w" "fw_works w = ws1 @ WBegin # ws2"
  shows "\<exists>w'. all_run w' \<and> fw_works w' = ws1 @ WLoad # ws2 \<and> fw_finished w' = fw_finished w \<and> fw_main w' = fw_main w"
proof -
  have "work_step False (length ws1) w = Some (work_goto (length ws1) (WTurn 0) w)" using assms(2) by (simp add: work_step_def)
  from run_turns [OF fin_run_work [OF assms(1) this], of ws1 0 ws2] assms(2) show ?thesis by simp
qed

text \<open>The main thread up to its joins, and from there to the total.\<close>

lemma run_main:
  "all_run w \<Longrightarrow> running_step (\<lambda>_. 0) w = Some w' \<Longrightarrow> all_run w'"
  by (rule fin_main) simp_all

lemma main_starts:
  "n \<le> 512 \<Longrightarrow> \<exists>w. all_run w \<and> fw_works w = replicate n WBegin \<and> fw_finished w = 0 \<and> fw_main w = MStart n"
proof (induction n)
  case 0
  show ?case using fin_first by (intro exI [of _ fin_init]) (simp add: fin_init_def)
next
  case (Suc n)
  then obtain w where w: "all_run w" "fw_works w = replicate n WBegin" "fw_finished w = 0" "fw_main w = MStart n" by auto
  have "running_step (\<lambda>_. 0) w = Some (main_goto (MStart (n + 1)) (w\<lparr>fw_works := fw_works w @ [WBegin]\<rparr>))"
    using w(4) Suc.prems by (simp add: running_step_def)
  from run_main [OF w(1) this] show ?case by (rule all_runI) (use w(2,3) in \<open>simp add: replicate_append_same\<close>)
qed

lemma main_counts:
  "all_run w \<Longrightarrow> fw_main w = MCount n \<Longrightarrow> n \<le> 100 \<Longrightarrow>
   \<exists>w'. all_run w' \<and> fw_works w' = fw_works w \<and> fw_finished w' = fw_finished w \<and> fw_main w' = MJoin 0"
proof (induction "100 - n" arbitrary: n w)
  case 0
  then have "running_step (\<lambda>_. 0) w = Some (main_goto (MJoin 0) w)" by (simp add: running_step_def)
  from run_main [OF 0(2) this] show ?case by (rule all_runI) simp
next
  case (Suc j)
  then have "running_step (\<lambda>_. 0) w = Some (main_goto (MCount (Suc n)) (fin_say (LMain n) w))" by (simp add: running_step_def)
  from run_main [OF Suc.prems(1) this] show ?case
    using Suc.hyps(1) [of "Suc n" "main_goto (MCount (Suc n)) (fin_say (LMain n) w)"] Suc.hyps(2) by auto
qed

lemma main_joins:
  "all_run w \<Longrightarrow> fw_works w = replicate 512 WEnd \<Longrightarrow> fw_main w = MJoin n \<Longrightarrow> n \<le> 512 \<Longrightarrow>
   \<exists>w'. all_run w' \<and> fw_main w' = MEnd \<and> (\<exists>ls. fw_out w' = ls @ [LTotal (fw_finished w)])"
proof (induction "512 - n" arbitrary: n w)
  case 0
  then have "running_step (\<lambda>_. 0) w = Some (main_goto MTotal w)" by (simp add: running_step_def main_join_def)
  from run_main [OF 0(2) this] have "all_run (main_goto MTotal w)" .
  then have "all_run (main_total (main_goto MTotal w))" by (rule run_main) (simp add: running_step_def)
  then show ?case by (rule all_runI) (simp add: main_total_def)
next
  case (Suc j)
  then have "running_step (\<lambda>_. 0) w = Some (main_goto (MJoin (Suc n)) w)" by (simp add: running_step_def main_join_def)
  from run_main [OF Suc.prems(1) this] show ?case
    using Suc.hyps(1) [of "Suc n" "main_goto (MJoin (Suc n)) w"] Suc.hyps(2) Suc.prems by simp
qed

lemma all_load:
  assumes "all_run w" "fw_works w = replicate n WBegin" "fw_finished w = 0 \<and> fw_main w = MJoin 0"
  shows "\<exists>w'. all_run w' \<and> fw_works w' = replicate (0 + n) WLoad \<and> fw_finished w' = 0 \<and> fw_main w' = MJoin 0"
proof (rule fin_phase [where R = all_run and a = WBegin and Q = "\<lambda>_ w. fw_finished w = 0 \<and> fw_main w = MJoin 0"])
  fix m k w
  assume "all_run w" "fw_works w = replicate m WLoad @ replicate (Suc k) WBegin" "fw_finished w = 0 \<and> fw_main w = MJoin 0"
  then show "\<exists>w'. all_run w' \<and> fw_works w' = replicate (Suc m) WLoad @ replicate k WBegin \<and> fw_finished w' = 0 \<and> fw_main w' = MJoin 0"
    using run_to_load [of w "replicate m WLoad" "replicate k WBegin"] by (auto simp: replicate_app_Cons_same)
qed (use assms in simp_all)

lemma all_loaded:
  assumes "all_run w" "fw_works w = replicate n WLoad" "fw_finished w = 0 \<and> fw_main w = MJoin 0"
  shows "\<exists>w'. all_run w' \<and> fw_works w' = replicate (0 + n) (WStore 0) \<and> fw_finished w' = 0 \<and> fw_main w' = MJoin 0"
proof (rule fin_phase [where R = all_run and a = WLoad and Q = "\<lambda>_ w. fw_finished w = 0 \<and> fw_main w = MJoin 0"])
  fix m k w
  assume w: "all_run w" "fw_works w = replicate m (WStore 0) @ replicate (Suc k) WLoad" "fw_finished w = 0 \<and> fw_main w = MJoin 0"
  then have "work_step False m w = Some (work_goto m (WStore 0) w)" by (simp add: work_step_def nth_append)
  from fin_run_work [OF w(1) this]
  show "\<exists>w'. all_run w' \<and> fw_works w' = replicate (Suc m) (WStore 0) @ replicate k WLoad \<and> fw_finished w' = 0 \<and> fw_main w' = MJoin 0"
    by (rule all_runI) (use w(2,3) in \<open>simp add: replicate_at del: replicate.simps\<close>)
qed (use assms in simp_all)

lemma all_stored:
  assumes "all_run w" "fw_works w = replicate n (WStore 0)" "fw_finished w = 0 \<and> fw_main w = MJoin 0"
  shows "\<exists>w'. all_run w' \<and> fw_works w' = replicate (0 + n) WEnd \<and> fw_finished w' = (if 0 + n = 0 then 0 else 1) \<and> fw_main w' = MJoin 0"
proof (rule fin_phase [where R = all_run and a = "WStore 0" and Q = "\<lambda>m w. fw_finished w = (if m = 0 then 0 else 1) \<and> fw_main w = MJoin 0"])
  fix m k w
  assume w: "all_run w" "fw_works w = replicate m WEnd @ replicate (Suc k) (WStore 0)"
    "fw_finished w = (if m = 0 then 0 else 1) \<and> fw_main w = MJoin 0"
  then have "work_step False m w = Some (work_goto m WEnd (w\<lparr>fw_finished := 1\<rparr>))" by (simp add: work_step_def nth_append)
  from fin_run_work [OF w(1) this]
  show "\<exists>w'. all_run w' \<and> fw_works w' = replicate (Suc m) WEnd @ replicate k (WStore 0)
      \<and> fw_finished w' = (if Suc m = 0 then 0 else 1) \<and> fw_main w' = MJoin 0"
    by (rule all_runI) (use w(2,3) in \<open>simp add: replicate_at del: replicate.simps\<close>)
qed (use assms in simp_all)

lemma lost_run:
  "\<exists>w ls. all_run w \<and> fw_main w = MEnd \<and> fw_out w = ls @ [LTotal 1]"
proof -
  obtain w0 where w0: "all_run w0" "fw_works w0 = replicate 512 WBegin" "fw_finished w0 = 0" "fw_main w0 = MStart 512"
    using main_starts [of 512] by blast
  have "running_step (\<lambda>_. 0) w0 = Some (main_goto (MCount 0) w0)" using w0(4) by (simp add: running_step_def)
  from main_counts [OF run_main [OF w0(1) this], of 0] w0(2,3) obtain w1 where
    w1: "all_run w1" "fw_works w1 = replicate 512 WBegin" "fw_finished w1 = 0 \<and> fw_main w1 = MJoin 0" by auto
  obtain w2 where w2: "all_run w2" "fw_works w2 = replicate 512 WLoad" "fw_finished w2 = 0 \<and> fw_main w2 = MJoin 0"
    using all_load [OF w1] by auto
  obtain w3 where w3: "all_run w3" "fw_works w3 = replicate 512 (WStore 0)" "fw_finished w3 = 0 \<and> fw_main w3 = MJoin 0"
    using all_loaded [OF w2] by auto
  obtain w4 where w4: "all_run w4" "fw_works w4 = replicate 512 WEnd" "fw_finished w4 = 1" "fw_main w4 = MJoin 0"
    using all_stored [OF w3] by auto
  show ?thesis using main_joins [OF w4(1,2,4)] w4(3) by auto
qed

text \<open>
  The increments of \<open>finished\<close> can overlap: there is a run of the thread sample in which all
  512 threads are started, finish and are joined, and the total that is printed is 1.
\<close>

theorem finished_lost_updates:
  "\<exists>w ls. fin_run tfoo_step (running_step (\<lambda>_. 0)) (\<lambda>_. True) w \<and> fw_main w = MEnd \<and> fw_out w = ls @ [LTotal 1]"
  by (rule lost_run)

text \<open>The same run shows that the hypotheses of the bounds can hold.\<close>

lemma finished_total_bounds_witness:
  "\<exists>w total ls. fin_run tfoo_step (running_step (\<lambda>_. 0)) (\<lambda>_. True) w \<and> fw_out w = ls @ [LTotal total]
    \<and> 1 \<le> total \<and> total \<le> 512 \<and> counts_of 7 (fw_out w) = [0..<100]"
proof -
  obtain w where w: "all_run w" "fw_main w = MEnd" using lost_run by blast
  have "fin_program (\<lambda>_. 0) tfoo_step (running_step (\<lambda>_. 0))" by (simp add: fin_program_def)
  from finished_total_bounds [OF this w, of 7] obtain total ls where
    "fw_out w = ls @ [LTotal total]" "1 \<le> total" "total \<le> int (card {i. i < (512 :: nat)})"
    "counts_of 7 (fw_out w) = [0..<100]" by auto
  then have "fw_out w = ls @ [LTotal total] \<and> 1 \<le> total \<and> total \<le> 512 \<and> counts_of 7 (fw_out w) = [0..<100]" by simp
  then show ?thesis using w(1) by blast
qed

end
