(* ===== verification/GclMMap.thy ===== *)
theory GclMMap
  imports GclUtil "HOL-Library.Signed_Division"
begin

section \<open>MMap and MMapFile: \<open>include/gmmap.h\<close>, \<open>src/gmmap.cpp\<close> (POSIX)\<close>

text \<open>
  An \<open>MMap\<close> object is its handle, its pointer and its size; an \<open>MMapFile\<close> adds a descriptor.
  The operating system is a record of functions on a state \<open>'w\<close>: \<open>mmap\<close> answers an address
  or \<open>MAP_FAILED\<close>, \<open>open\<close> a descriptor or -1. \<open>off_t\<close> is a signed and \<open>size_t\<close> an unsigned
  64-bit number, and the base of a mapping goes through a 32-bit \<open>int\<close> as in the code.
\<close>

record ('n, 'w) mm_os =
  os_lseek :: "'w lseek_fn"
  os_mmap :: "u64_t \<Rightarrow> bool \<Rightarrow> int \<Rightarrow> int \<Rightarrow> 'w \<Rightarrow> ptr \<times> 'w"
  os_munmap :: "ptr \<Rightarrow> u64_t \<Rightarrow> 'w \<Rightarrow> 'w"
  os_open :: "'n \<Rightarrow> bool \<Rightarrow> 'w \<Rightarrow> int \<times> 'w"
  os_close :: "int \<Rightarrow> 'w \<Rightarrow> 'w"
  os_pagesize :: int

abbreviation (input) MAP_FAILED :: ptr where "MAP_FAILED \<equiv> -1"

record mmap_obj =
  m_hMap :: ptr
  m_ptr :: ptr
  m_size :: u64_t

definition mmap_new :: mmap_obj where
  "mmap_new = \<lparr>m_hMap = 0, m_ptr = 0, m_size = 0\<rparr>"

subsection \<open>Accessors\<close>

definition mmap_is_valid :: "mmap_obj \<Rightarrow> bool" where
  "mmap_is_valid m \<longleftrightarrow> m_ptr m \<noteq> 0"

definition mmap_get_size :: "mmap_obj \<Rightarrow> u64_t" where
  "mmap_get_size m = m_size m"

definition mmap_begin :: "mmap_obj \<Rightarrow> ptr" where
  "mmap_begin m = m_ptr m"

definition mmap_end :: "mmap_obj \<Rightarrow> ptr" where
  "mmap_end m = m_ptr m + m_size m"

text \<open>The address \<open>operator[]\<close> designates.\<close>

definition mmap_at :: "mmap_obj \<Rightarrow> int \<Rightarrow> ptr res" where
  "mmap_at m index = (if m_ptr m = 0 then Inl NullDeref else Inr (m_ptr m + word_of_int index))"

subsection \<open>MMap\<close>

definition mmap_close :: "('n, 'w) mm_os \<Rightarrow> mmap_obj \<Rightarrow> 'w \<Rightarrow> mmap_obj \<times> 'w" where
  "mmap_close os m w =
     (if m_ptr m = 0 then (m, w)
      else (m\<lparr>m_size := 0, m_ptr := 0\<rparr>,
            if m_hMap m \<noteq> 0 then os_munmap os (m_hMap m) (m_size m) w else w))"

text \<open>The length of a window, up to the end of the file when none is given, and the end of \<open>_mmap\<close>.\<close>

definition mmap_length :: "('n, 'w) mm_os \<Rightarrow> int \<Rightarrow> int \<Rightarrow> u64_t \<Rightarrow> 'w \<Rightarrow> u64_t \<times> 'w" where
  "mmap_length os filedes offset len w =
     (if len = 0
      then (case filelength (os_lseek os) filedes w of (l, w) \<Rightarrow> (l - word_of_int offset, w))
      else (len, w))"

definition mmap_result :: "mmap_obj \<Rightarrow> 'w \<Rightarrow> ptr \<times> mmap_obj \<times> 'w" where
  "mmap_result m w =
     (if m_ptr m = MAP_FAILED then (0, m\<lparr>m_size := 0, m_hMap := 0, m_ptr := 0\<rparr>, w) else (m_ptr m, m, w))"

text \<open>\<open>_mmap\<close>: the pointer returned, the object and the system afterwards.\<close>

definition mmap_map ::
    "('n, 'w) mm_os \<Rightarrow> int \<Rightarrow> int \<Rightarrow> u64_t \<Rightarrow> bool \<Rightarrow> mmap_obj \<Rightarrow> 'w \<Rightarrow> (ptr \<times> mmap_obj \<times> 'w) res"
where
  "mmap_map os filedes offset len readonly m w =
     (case (if mmap_is_valid m then mmap_close os m w else (m, w)) of (m, w) \<Rightarrow>
      if offset = 0
      then (case mmap_length os filedes 0 len w of (n, w) \<Rightarrow>
            case os_mmap os n (\<not> readonly) filedes 0 w of (p, w) \<Rightarrow>
              Inr (mmap_result (m\<lparr>m_size := n, m_ptr := p, m_hMap := p\<rparr>) w))
      else let page_size = os_pagesize os;
               pos_base = signed_take_bit 31 (offset sdiv page_size);
               pos_offs = signed_take_bit 31 (offset smod page_size)
           in rbind (if pos_base \<noteq> 0 then signed_fit 32 (pos_base * page_size) else Inr pos_base) (\<lambda>pos_base.
              case mmap_length os filedes offset len w of (n, w) \<Rightarrow>
              case os_mmap os n (\<not> readonly) filedes pos_base w of (p, w) \<Rightarrow>
                Inr (mmap_result (m\<lparr>m_size := n, m_hMap := p,
                       m_ptr := (if p \<noteq> 0 then p + word_of_int pos_offs else p)\<rparr>) w)))"

definition mmap_ro where
  "mmap_ro os filedes offset len = mmap_map os filedes offset len True"

definition mmap_ro_from where
  "mmap_ro_from os filedes offset = mmap_map os filedes offset 0 True"

definition mmap_ro_all where
  "mmap_ro_all os filedes = mmap_map os filedes 0 0 True"

definition mmap_rw where
  "mmap_rw os filedes offset len = mmap_map os filedes offset len False"

definition mmap_rw_from where
  "mmap_rw_from os filedes offset = mmap_map os filedes offset 0 False"

definition mmap_rw_all where
  "mmap_rw_all os filedes = mmap_map os filedes 0 0 False"

text \<open>The size of the virtual mappings is an \<open>int\<close>.\<close>

definition mmap_vro where
  "mmap_vro os (len :: int) = mmap_map os (-1) 0 (word_of_int len) True"

definition mmap_vrw where
  "mmap_vrw os (len :: int) = mmap_map os (-1) 0 (word_of_int len) False"

subsection \<open>MMapFile\<close>

record mmap_file = mmap_obj +
  m_fd :: int

definition mfile_new :: mmap_file where
  "mfile_new = \<lparr>m_hMap = 0, m_ptr = 0, m_size = 0, m_fd = -1\<rparr>"

definition mf_obj :: "mmap_file \<Rightarrow> mmap_obj" where
  "mf_obj f = \<lparr>m_hMap = m_hMap f, m_ptr = m_ptr f, m_size = m_size f\<rparr>"

definition mf_make :: "mmap_obj \<Rightarrow> int \<Rightarrow> mmap_file" where
  "mf_make m fd = \<lparr>m_hMap = m_hMap m, m_ptr = m_ptr m, m_size = m_size m, m_fd = fd\<rparr>"

definition mfile_close :: "('n, 'w) mm_os \<Rightarrow> mmap_file \<Rightarrow> 'w \<Rightarrow> mmap_file \<times> 'w" where
  "mfile_close os f w =
     (case mmap_close os (mf_obj f) w of (m, w) \<Rightarrow>
        if m_fd f \<noteq> -1 then (mf_make m (-1), os_close os (m_fd f) w) else (mf_make m (m_fd f), w))"

definition mfile_length :: "('n, 'w) mm_os \<Rightarrow> mmap_file \<Rightarrow> 'w \<Rightarrow> u64_t \<times> 'w" where
  "mfile_length os f w = (if m_fd f = -1 then (0, w) else filelength (os_lseek os) (m_fd f) w)"

definition mfile_map ::
    "('n, 'w) mm_os \<Rightarrow> 'n \<Rightarrow> int \<Rightarrow> u64_t \<Rightarrow> bool \<Rightarrow> mmap_file \<Rightarrow> 'w \<Rightarrow> (ptr \<times> mmap_file \<times> 'w) res"
where
  "mfile_map os name offset len readonly f w =
     (let (f, w) = (if mmap_is_valid (mf_obj f) then mfile_close os f w else (f, w));
          (fd, w) = os_open os name (\<not> readonly) w
      in if fd = -1 then Inr (0, f\<lparr>m_fd := fd\<rparr>, w)
         else rbind (mmap_map os fd offset len readonly (mf_obj f) w) (\<lambda>(p, m, w). Inr (p, mf_make m fd, w)))"

definition mfile_ro where
  "mfile_ro os name offset len = mfile_map os name offset len True"

definition mfile_ro_from where
  "mfile_ro_from os name offset = mfile_map os name offset 0 True"

definition mfile_ro_all where
  "mfile_ro_all os name = mfile_map os name 0 0 True"

definition mfile_rw where
  "mfile_rw os name offset len = mfile_map os name offset len False"

definition mfile_rw_from where
  "mfile_rw_from os name offset = mfile_map os name offset 0 False"

definition mfile_rw_all where
  "mfile_rw_all os name = mfile_map os name 0 0 False"

lemmas mmap_wrappers = mmap_ro_def mmap_ro_from_def mmap_ro_all_def mmap_rw_def mmap_rw_from_def mmap_rw_all_def
  mmap_vro_def mmap_vrw_def mfile_ro_def mfile_ro_from_def mfile_ro_all_def mfile_rw_def mfile_rw_from_def mfile_rw_all_def

subsection \<open>Calls on one object\<close>

datatype mm_call = MapFd int int u64_t bool | MapAll int bool | MapFrom int int bool | MapVirtual int bool | CloseMap

fun mm_do :: "('n, 'w) mm_os \<Rightarrow> mm_call \<Rightarrow> mmap_obj \<times> 'w \<Rightarrow> (ptr \<times> mmap_obj \<times> 'w) res" where
  "mm_do os (MapFd fd offset len ro) (m, w) =
     (if ro then mmap_ro os fd offset len m w else mmap_rw os fd offset len m w)"
| "mm_do os (MapAll fd ro) (m, w) = (if ro then mmap_ro_all os fd m w else mmap_rw_all os fd m w)"
| "mm_do os (MapFrom fd offset ro) (m, w) = (if ro then mmap_ro_from os fd offset m w else mmap_rw_from os fd offset m w)"
| "mm_do os (MapVirtual len ro) (m, w) = (if ro then mmap_vro os len m w else mmap_vrw os len m w)"
| "mm_do os CloseMap (m, w) = (case mmap_close os m w of (m, w) \<Rightarrow> Inr (0, m, w))"

fun mm_run :: "('n, 'w) mm_os \<Rightarrow> mm_call list \<Rightarrow> mmap_obj \<times> 'w \<Rightarrow> (mmap_obj \<times> 'w) res" where
  "mm_run os [] z = Inr z"
| "mm_run os (c # cs) z = rbind (mm_do os c z) (\<lambda>(_, z). mm_run os cs z)"

end
