(* ===== verification/GclMMapProps.thy ===== *)
theory GclMMapProps
  imports GclMMap
begin

section \<open>MMap and MMapFile: properties\<close>

text \<open>
  What the objects promise under the documented behaviour of the operating system
  (\<open>mm_lawful\<close>: which mappings and descriptors exist after each call), and the inputs on which
  they do not keep it: offsets that are not a multiple of the page size or reach 2 GiB, and
  files whose mapping fails.
\<close>

subsection \<open>The operating system\<close>

definition mm_lawful :: "('n, 'w) mm_os \<Rightarrow> ('w \<Rightarrow> (ptr \<times> u64_t) set) \<Rightarrow> ('w \<Rightarrow> int set) \<Rightarrow> bool" where
  "mm_lawful os maps fds \<longleftrightarrow>
     (\<forall>w l. (-1, l) \<notin> maps w) \<and>
     (\<forall>n wr fd off w p w'. os_mmap os n wr fd off w = (p, w') \<longrightarrow> fds w' = fds w \<and>
        (if p = -1 then maps w' = maps w
         else p \<noteq> 0 \<and> unat p + 2 ^ 31 < 2 ^ 64 \<and> (\<forall>l. (p, l) \<notin> maps w) \<and> maps w' = insert (p, n) (maps w))) \<and>
     (\<forall>p n w. maps (os_munmap os p n w) = maps w - {(p, n)} \<and> fds (os_munmap os p n w) = fds w) \<and>
     (\<forall>fd off wh w r w'. os_lseek os fd off wh w = (r, w') \<longrightarrow> maps w' = maps w \<and> fds w' = fds w) \<and>
     (\<forall>nm wr w fd w'. os_open os nm wr w = (fd, w') \<longrightarrow> maps w' = maps w \<and>
        (if fd = -1 then fds w' = fds w else fd \<notin> fds w \<and> fds w' = insert fd (fds w))) \<and>
     (\<forall>fd w. maps (os_close os fd w) = maps w \<and> fds (os_close os fd w) = fds w - {fd}) \<and>
     0 < os_pagesize os \<and> os_pagesize os \<le> 2 ^ 16"

lemma mm_lawfulD:
  assumes "mm_lawful os maps fds"
  shows "(-1, l) \<notin> maps w"
    "os_mmap os n wr fd off w = (p, w') \<Longrightarrow> fds w' = fds w \<and>
        (if p = -1 then maps w' = maps w
         else p \<noteq> 0 \<and> unat p + 2 ^ 31 < 2 ^ 64 \<and> (\<forall>l. (p, l) \<notin> maps w) \<and> maps w' = insert (p, n) (maps w))"
    "maps (os_munmap os q n w) = maps w - {(q, n)}" "fds (os_munmap os q n w) = fds w"
    "os_lseek os fd off wh w = (r, w') \<Longrightarrow> maps w' = maps w \<and> fds w' = fds w"
    "os_open os nm wr w = (fd, w') \<Longrightarrow> maps w' = maps w \<and> (if fd = -1 then fds w' = fds w else fd \<notin> fds w \<and> fds w' = insert fd (fds w))"
    "maps (os_close os fd w) = maps w" "fds (os_close os fd w) = fds w - {fd}"
    "0 < os_pagesize os" "os_pagesize os \<le> 2 ^ 16"
proof -
  note L = assms [unfolded mm_lawful_def]
  show "(-1, l) \<notin> maps w" using L [THEN conjunct1] by simp
  show "os_mmap os n wr fd off w = (p, w') \<Longrightarrow> fds w' = fds w \<and>
        (if p = -1 then maps w' = maps w
         else p \<noteq> 0 \<and> unat p + 2 ^ 31 < 2 ^ 64 \<and> (\<forall>l. (p, l) \<notin> maps w) \<and> maps w' = insert (p, n) (maps w))"
    by (rule L [THEN conjunct2, THEN conjunct1, THEN spec, THEN spec, THEN spec, THEN spec, THEN spec, THEN spec, THEN spec, THEN mp])
  show "maps (os_munmap os q n w) = maps w - {(q, n)}" "fds (os_munmap os q n w) = fds w" using L [THEN conjunct2, THEN conjunct2, THEN conjunct1] by simp_all
  show "os_lseek os fd off wh w = (r, w') \<Longrightarrow> maps w' = maps w \<and> fds w' = fds w"
    using L [THEN conjunct2, THEN conjunct2, THEN conjunct2, THEN conjunct1] by blast
  show "os_open os nm wr w = (fd, w') \<Longrightarrow> maps w' = maps w \<and> (if fd = -1 then fds w' = fds w else fd \<notin> fds w \<and> fds w' = insert fd (fds w))"
    by (rule L [THEN conjunct2, THEN conjunct2, THEN conjunct2, THEN conjunct2, THEN conjunct1,
          THEN spec, THEN spec, THEN spec, THEN spec, THEN spec, THEN mp])
  show "maps (os_close os fd w) = maps w" "fds (os_close os fd w) = fds w - {fd}"
    using L [THEN conjunct2, THEN conjunct2, THEN conjunct2, THEN conjunct2, THEN conjunct2, THEN conjunct1] by simp_all
  show "0 < os_pagesize os" "os_pagesize os \<le> 2 ^ 16"
    using L [THEN conjunct2, THEN conjunct2, THEN conjunct2, THEN conjunct2, THEN conjunct2, THEN conjunct2] by simp_all
qed

lemma mm_lawful_filelength:
  assumes "mm_lawful os maps fds" "filelength (os_lseek os) fd w = (n, w')"
  shows "maps w' = maps w \<and> fds w' = fds w"
  using assms(2) mm_lawfulD(5) [OF assms(1)]
  by (force simp: filelength_def split: prod.splits if_splits)

subsection \<open>Where a window is mapped\<close>

lemma page_split:
  assumes "0 \<le> offset" "0 < page" "page \<le> (2 :: int) ^ 16"
  shows "offset smod page = offset mod page" "offset sdiv page = offset div page"
    "signed_take_bit 31 (offset mod page) = offset mod page"
    "offset div page < 2 ^ 31 \<Longrightarrow> signed_take_bit 31 (offset div page) = offset div page"
proof -
  have "offset mod page < page" using assms(2) by (rule pos_mod_bound)
  then have "offset mod page < 2 ^ 31" using assms(3) by simp
  then show "signed_take_bit 31 (offset mod page) = offset mod page"
    using assms by (intro signed_take_bit_int_eq_self) (simp_all add: order_trans [of _ 0])
  show "signed_take_bit 31 (offset div page) = offset div page" if "offset div page < 2 ^ 31"
    using assms that by (intro signed_take_bit_int_eq_self) (simp_all add: pos_imp_zdiv_nonneg_iff order_trans [of _ 0])
  show "offset smod page = offset mod page" "offset sdiv page = offset div page"
    using assms by (cases "offset = 0"; simp add: signed_modulo_int_def signed_divide_int_def)+
qed

text \<open>What \<open>_mmap\<close> does on an object that is not mapped, for offsets below 2 GiB.\<close>

lemma mmap_map_idle:
  assumes "m_ptr m = 0" "0 < os_pagesize os" "os_pagesize os \<le> 2 ^ 16" "0 \<le> offset" "offset < 2 ^ 31" "len \<noteq> 0"
    and "os_mmap os len (\<not> readonly) fd (offset div os_pagesize os * os_pagesize os) w = (p, w')"
  shows "mmap_map os fd offset len readonly m w =
     (let q = (if p = 0 then 0 else p + word_of_int (offset mod os_pagesize os))
      in Inr (if q = -1 then (0, \<lparr>m_hMap = 0, m_ptr = 0, m_size = 0\<rparr>, w')
              else (q, \<lparr>m_hMap = p, m_ptr = q, m_size = len\<rparr>, w')))"
proof (cases "offset = 0")
  case True
  then show ?thesis using assms by (simp add: mmap_map_def mmap_is_valid_def mmap_length_def mmap_result_def Let_def)
next
  case False
  let ?page = "os_pagesize os"
  have "offset div ?page \<le> offset" using assms(2,4) by (simp add: div_by_1 zdiv_mono2 [of offset 1, simplified])
  then have lt: "offset div ?page < 2 ^ 31" using assms(5) by simp
  have "offset div ?page * ?page \<le> offset" using assms(2) by (simp add: minus_mod_eq_div_mult [symmetric])
  then have fit: "signed_fit 32 (offset div ?page * ?page) = Inr (offset div ?page * ?page)"
    using assms(2,4,5) by (intro signed_fit_Inr) (auto simp: pos_imp_zdiv_nonneg_iff intro: order_trans [of _ 0])
  show ?thesis
    using assms(1,6,7) False
    by (cases "offset div ?page = 0") (simp_all add: mmap_map_def mmap_is_valid_def mmap_length_def mmap_result_def page_split [OF assms(4,2,3)] page_split(4) [OF assms(4,2,3) lt] fit Let_def)
qed

subsection \<open>Ownership\<close>

text \<open>The mapping an object has to release.\<close>

definition mm_owned :: "mmap_obj \<Rightarrow> (ptr \<times> u64_t) set" where
  "mm_owned m = (if m_ptr m \<noteq> 0 \<and> m_hMap m \<noteq> -1 then {(m_hMap m, m_size m)} else {})"

definition mm_own :: "('w \<Rightarrow> (ptr \<times> u64_t) set) \<Rightarrow> (ptr \<times> u64_t) set \<Rightarrow> mmap_obj \<Rightarrow> 'w \<Rightarrow> bool" where
  "mm_own maps B m w \<longleftrightarrow> maps w = B \<union> mm_owned m \<and> mm_owned m \<inter> B = {} \<and> (m_ptr m \<noteq> 0 \<longrightarrow> m_hMap m \<noteq> 0)"

lemma mmap_close_owns:
  assumes "mm_lawful os maps fds" "mm_own maps B m w" "mmap_close os m w = (m', w')"
  shows "m_ptr m' = 0" "maps w' = B" "fds w' = fds w" "mm_own maps B m' w'"
proof -
  have "m_ptr m' = 0 \<and> maps w' = B \<and> fds w' = fds w"
  proof (cases "m_ptr m = 0")
    case True
    then show ?thesis using assms(2,3) by (simp add: mmap_close_def mm_own_def mm_owned_def)
  next
    case False
    then have "w' = os_munmap os (m_hMap m) (m_size m) w" "m_ptr m' = 0" using assms(2,3) by (auto simp: mmap_close_def mm_own_def)
    moreover have "(m_hMap m, m_size m) \<notin> B"
    proof (cases "m_hMap m = -1")
      case True
      have "maps w = B" using assms(2) True by (simp add: mm_own_def mm_owned_def)
      then show ?thesis using mm_lawfulD(1) [OF assms(1), of "m_size m" w] True by simp
    next
      case False
      then show ?thesis using assms(2) \<open>m_ptr m \<noteq> 0\<close> by (auto simp: mm_own_def mm_owned_def)
    qed
    moreover have "maps w - {(m_hMap m, m_size m)} = B - {(m_hMap m, m_size m)}"
      using assms(2) by (auto simp: mm_own_def mm_owned_def split: if_splits)
    ultimately show ?thesis using mm_lawfulD(3,4) [OF assms(1), of "m_hMap m" "m_size m" w] by simp
  qed
  then show "m_ptr m' = 0" "maps w' = B" "fds w' = fds w" "mm_own maps B m' w'"
    by (simp_all add: mm_own_def mm_owned_def)
qed

lemma word_add_no_wrap:
  fixes p :: ptr
  assumes "p \<noteq> 0" "unat p + 2 ^ 31 < 2 ^ 64" "0 \<le> k" "k < (2 :: int) ^ 31"
  shows "unat (p + word_of_int k) = unat p + nat k" "p + word_of_int k \<noteq> 0" "p + word_of_int k \<noteq> -1"
proof -
  have "uint (word_of_int k :: ptr) = k" using assms(3,4) by (simp add: uint_word_of_int)
  then have "unat (word_of_int k :: ptr) = nat k" by (simp flip: nat_uint_eq)
  then show u: "unat (p + word_of_int k) = unat p + nat k" using assms(2,4) by (subst unat_add_nowrap) auto
  have "0 < unat p" using assms(1) by (simp add: unat_gt_0)
  then show "p + word_of_int k \<noteq> 0" using u by auto
  show "p + word_of_int k \<noteq> -1"
  proof
    assume "p + word_of_int k = -1"
    then have "unat (p + word_of_int k) = unat (-1 :: ptr)" by (rule arg_cong)
    then show False using u assms(2-4) by (simp add: unsigned_minus_1_eq_mask mask_eq_exp_minus_1)
  qed
qed

lemma mmap_map_owns:
  assumes "mm_lawful os maps fds" "mm_own maps B m w" "0 \<le> offset"
    and "mmap_map os fd offset len readonly m w = Inr (r, m', w')"
  shows "mm_own maps B m' w'" "fds w' = fds w"
proof -
  note L = mm_lawfulD [OF assms(1)]
  obtain m1 w1 where c: "(if mmap_is_valid m then mmap_close os m w else (m, w)) = (m1, w1)" by fastforce
  have c1: "m_ptr m1 = 0 \<and> maps w1 = B \<and> fds w1 = fds w"
  proof (cases "mmap_is_valid m")
    case True
    then show ?thesis using mmap_close_owns [OF assms(1,2)] c by simp
  next
    case False
    then show ?thesis using c assms(2) by (auto simp: mmap_is_valid_def mm_own_def mm_owned_def)
  qed
  have lens: "maps v = B \<and> fds v = fds w" if "mmap_length os fd off len w1 = (n, v)" for off n v
    using that c1 mm_lawful_filelength [OF assms(1), of fd w1] by (auto simp: mmap_length_def split: prod.splits if_splits)
  text \<open>Both branches map at some base, then move the pointer by an offset below the page size.\<close>
  obtain n w2 p base k where
    len: "maps w2 = B \<and> fds w2 = fds w" and p: "os_mmap os n (\<not> readonly) fd base w2 = (p, w')" and
    k: "0 \<le> k" "k < 2 ^ 31" and
    m': "m' = (let q = (if p \<noteq> 0 then p + word_of_int k else p)
      in if q = -1 then \<lparr>m_hMap = 0, m_ptr = 0, m_size = 0\<rparr> else \<lparr>m_hMap = p, m_ptr = q, m_size = n\<rparr>)"
  proof (cases "offset = 0")
    case True
    obtain n w2 where nw: "mmap_length os fd 0 len w1 = (n, w2)" by fastforce
    obtain p v where pv: "os_mmap os n (\<not> readonly) fd 0 w2 = (p, v)" by fastforce
    then show thesis
      using that [of w2 n 0 p 0] lens [OF nw] nw assms(4) True c
      by (cases m1) (auto simp: mmap_map_def mmap_result_def Let_def split: if_splits)
  next
    case False
    let ?page = "os_pagesize os"
    have "offset mod ?page < ?page" "0 \<le> offset mod ?page" using L(9) by simp_all
    then have k: "0 \<le> offset mod ?page" "offset mod ?page < 2 ^ 31" using L(10) by simp_all
    obtain n w2 where nw: "mmap_length os fd offset len w1 = (n, w2)" by fastforce
    obtain base where base: "(if signed_take_bit 31 (offset sdiv ?page) \<noteq> 0
          then signed_fit 32 (signed_take_bit 31 (offset sdiv ?page) * ?page) else Inr (signed_take_bit 31 (offset sdiv ?page))) = Inr base"
      using assms(4) False c by (auto simp: mmap_map_def rbind_eq_Inr Let_def)
    obtain p v where pv: "os_mmap os n (\<not> readonly) fd base w2 = (p, v)" by fastforce
    then show thesis
      using that [of w2 n base p "offset mod ?page"] lens [OF nw] nw assms(4) False c k
      by (cases m1) (auto simp: mmap_map_def mmap_result_def base page_split(1,3) [OF assms(3) L(9,10)] Let_def split: if_splits)
  qed
  have law: "fds w' = fds w2 \<and> (if p = -1 then maps w' = maps w2
      else p \<noteq> 0 \<and> unat p + 2 ^ 31 < 2 ^ 64 \<and> (\<forall>l. (p, l) \<notin> maps w2) \<and> maps w' = insert (p, n) (maps w2))"
    by (rule L(2) [OF p])
  show "fds w' = fds w" using law len by simp
  show "mm_own maps B m' w'"
  proof (cases "p = -1")
    case True
    then show ?thesis using law len m' by (auto simp: mm_own_def mm_owned_def Let_def)
  next
    case False
    then have l: "p \<noteq> 0" "unat p + 2 ^ 31 < 2 ^ 64" "(p, n) \<notin> B" "maps w' = insert (p, n) B" using law len by auto
    show ?thesis
      using m' l word_add_no_wrap [OF l(1,2) k] False by (simp add: mm_own_def mm_owned_def Let_def)
  qed
qed

fun mm_call_ok :: "mm_call \<Rightarrow> bool" where
  "mm_call_ok (MapFd _ offset _ _) \<longleftrightarrow> 0 \<le> offset"
| "mm_call_ok (MapFrom _ offset _) \<longleftrightarrow> 0 \<le> offset"
| "mm_call_ok _ \<longleftrightarrow> True"

lemma mm_do_owns:
  assumes "mm_lawful os maps fds" "mm_own maps B m w" "mm_call_ok c" "mm_do os c (m, w) = Inr (r, m', w')"
  shows "mm_own maps B m' w' \<and> fds w' = fds w"
proof (cases c)
  case CloseMap
  then show ?thesis using assms(4) mmap_close_owns(3,4) [OF assms(1,2)] by (auto split: prod.splits)
next
  case (MapFd fd offset len ro)
  then show ?thesis using assms(3,4) mmap_map_owns [OF assms(1,2), of offset] by (auto simp: mmap_wrappers split: if_splits)
next
  case (MapAll fd ro)
  then show ?thesis using assms(4) mmap_map_owns [OF assms(1,2), of 0] by (auto simp: mmap_wrappers split: if_splits)
next
  case (MapFrom fd offset ro)
  then show ?thesis using assms(3,4) mmap_map_owns [OF assms(1,2), of offset] by (auto simp: mmap_wrappers split: if_splits)
next
  case (MapVirtual n ro)
  then show ?thesis using assms(4) mmap_map_owns [OF assms(1,2), of 0] by (auto simp: mmap_wrappers split: if_splits)
qed

lemma mm_run_owns:
  "mm_lawful os maps fds \<Longrightarrow> mm_own maps B m w \<Longrightarrow> list_all mm_call_ok cs \<Longrightarrow> mm_run os cs (m, w) = Inr (m', w') \<Longrightarrow>
   mm_own maps B m' w' \<and> fds w' = fds w"
proof (induction cs arbitrary: m w)
  case (Cons c cs)
  then obtain r m1 w1 where c: "mm_do os c (m, w) = Inr (r, m1, w1)" "mm_run os cs (m1, w1) = Inr (m', w')"
    by (auto simp: rbind_eq_Inr)
  have "mm_own maps B m1 w1 \<and> fds w1 = fds w" using mm_do_owns [OF Cons.prems(1,2) _ c(1)] Cons.prems(3) by simp
  then show ?case using Cons.IH [OF Cons.prems(1) _ _ c(2)] Cons.prems(3) by simp
qed simp

text \<open>A small system for the examples: mapping \<open>i\<close> is at page \<open>i + 1\<close>; some descriptors cannot be mapped.\<close>

type_synonym mm_world = "u64_t option list \<times> int set"

definition mm_page :: "nat \<Rightarrow> ptr" where
  "mm_page i = of_nat (4096 * (i + 1))"

definition mm_demo_os :: "int set \<Rightarrow> (nat, mm_world) mm_os" where
  "mm_demo_os bad = \<lparr>os_lseek = (\<lambda>fd off wh w. (5000, w)),
     os_mmap = (\<lambda>n wr fd off (ms, fs). if fd \<in> bad \<or> 1000 \<le> length ms then (-1, ms, fs)
        else (mm_page (length ms), ms @ [Some n], fs)),
     os_munmap = (\<lambda>p n (ms, fs). (map (\<lambda>i. if i < 1000 \<and> p = mm_page i \<and> ms ! i = Some n then None else ms ! i) [0..<length ms], fs)),
     os_open = (\<lambda>nm wr (ms, fs). if int nm \<in> fs then (-1, ms, fs) else (int nm, ms, insert (int nm) fs)),
     os_close = (\<lambda>fd (ms, fs). (ms, fs - {fd})), os_pagesize = 4096\<rparr>"

definition mm_demo_maps :: "mm_world \<Rightarrow> (ptr \<times> u64_t) set" where
  "mm_demo_maps w = {(mm_page i, n) | i n. i < length (fst w) \<and> i < 1000 \<and> fst w ! i = Some n}"

lemma unat_mm_page: "i \<le> 1000 \<Longrightarrow> unat (mm_page i) = 4096 * (i + 1)"
  by (simp add: mm_page_def unat_of_nat take_bit_nat_eq_self del: of_nat_mult of_nat_add)

lemma mm_page_eq: "i \<le> 1000 \<Longrightarrow> j \<le> 1000 \<Longrightarrow> mm_page i = mm_page j \<longleftrightarrow> i = j"
  using unat_mm_page [of i] unat_mm_page [of j] by (metis add_right_cancel mult_left_cancel zero_neq_numeral)

lemma mm_page_cases: "i \<le> 1000 \<Longrightarrow> mm_page i \<noteq> 0 \<and> mm_page i \<noteq> -1 \<and> unat (mm_page i) + 2 ^ 31 < 2 ^ 64"
  using unat_mm_page [of i]
  by (auto simp: unsigned_minus_1_eq_mask mask_eq_exp_minus_1 dest: arg_cong [of _ _ unat])

lemma mm_demo_lawful: "mm_lawful (mm_demo_os bad) mm_demo_maps snd"
proof -
  have fresh: "(mm_page (length ms), l) \<notin> mm_demo_maps (ms, fs)" if "length ms < 1000" for ms :: "u64_t option list" and l fs
    using that mm_page_eq by (auto simp: mm_demo_maps_def)
  have grow: "mm_demo_maps (ms @ [Some n], fs) = insert (mm_page (length ms), n) (mm_demo_maps (ms, fs))" if "length ms < 1000"
    for ms n fs using that by (auto simp: mm_demo_maps_def nth_append less_Suc_eq)
  have shrink: "mm_demo_maps (map (\<lambda>i. if i < 1000 \<and> p = mm_page i \<and> ms ! i = Some n then None else ms ! i) [0..<length ms], fs)
      = mm_demo_maps (ms, fs) - {(p, n)}" for p n ms fs
    by (auto simp: mm_demo_maps_def split: if_splits) (metis option.inject)
  have "(-1, l) \<notin> mm_demo_maps w" for l w
  proof
    assume "(-1, l) \<in> mm_demo_maps w"
    then obtain i where "i < 1000" "mm_page i = -1" by (auto simp: mm_demo_maps_def)
    then show False using mm_page_cases [of i] by simp
  qed
  then show ?thesis
    unfolding mm_lawful_def using mm_page_cases fresh grow shrink
    by (auto simp: mm_demo_os_def split: prod.splits if_splits) (simp_all add: mm_demo_maps_def)
qed

text \<open>
  C15: Whatever windows are requested and closed on one object, below 2 GiB or above, mapped
  successfully or not, the mappings of the process are those that were there before and the
  one the object holds, and no descriptor is touched: after \<open>close\<close> nothing is left behind.
\<close>

theorem mmap_owns_one_mapping:
  assumes "mm_lawful os maps fds" "list_all mm_call_ok calls" "mm_run os calls (mmap_new, w0) = Inr (m, w)"
  shows "maps w = maps w0 \<union> mm_owned m \<and> mm_owned m \<inter> maps w0 = {} \<and> fds w = fds w0
    \<and> (case mmap_close os m w of (m', w') \<Rightarrow> maps w' = maps w0 \<and> \<not> mmap_is_valid m')"
proof -
  have "mm_own maps (maps w0) mmap_new w0" by (simp add: mm_own_def mm_owned_def mmap_new_def)
  note own = mm_run_owns [OF assms(1) this assms(2,3)]
  then have "maps w' = maps w0 \<and> \<not> mmap_is_valid m'" if "mmap_close os m w = (m', w')" for m' w'
    using mmap_close_owns(1,2) [OF assms(1) own [THEN conjunct1] that] by (simp add: mmap_is_valid_def)
  then show ?thesis using own by (auto simp: mm_own_def)
qed

theorem mmap_owns_one_mapping_witness:
  "\<exists>m w. mm_run (mm_demo_os {4}) [MapAll 3 True, MapFd 3 4196 100 False, MapFd 4 0 100 True, MapVirtual 4096 False] (mmap_new, [], {})
      = Inr (m, w) \<and> mm_demo_maps w = {(mm_page 2, 4096)} \<and> m_ptr m = mm_page 2"
proof -
  have "mm_run (mm_demo_os {4}) [MapAll 3 True, MapFd 3 4196 100 False, MapFd 4 0 100 True, MapVirtual 4096 False] (mmap_new, [], {})
      = Inr (\<lparr>m_hMap = mm_page 2, m_ptr = mm_page 2, m_size = 4096\<rparr>, [None, None, Some 4096], {})"
    by (simp add: mmap_wrappers mmap_map_def mmap_length_def filelength_def mmap_result_def mm_demo_os_def mmap_close_def
        mmap_is_valid_def mmap_new_def mm_page_def signed_fit_def signed_divide_int_def signed_modulo_int_def Let_def upt_rec)
  note run = this mmap_owns_one_mapping [OF mm_demo_lawful _ this]
  have "mm_demo_maps ([], {}) = {}" by (simp add: mm_demo_maps_def)
  then show ?thesis using run mm_page_cases [of 2] by (auto simp: mm_owned_def)
qed

subsection \<open>Windows\<close>

text \<open>The bytes the system maps for a length: whole pages.\<close>

definition page_up :: "int \<Rightarrow> int \<Rightarrow> int" where
  "page_up page n = (n + page - 1) div page * page"

text \<open>
  C37: A mapped window starts at the right byte: for an offset below 2 GiB, aligned or not, the object
  is valid with the requested size, and index \<open>i\<close> reads byte \<open>offset + i\<close> of the file as long
  as it lies in the pages the system has mapped for the length. The position of each mapped
  address, \<open>pos\<close>, is what the system documents of \<open>mmap\<close> at a page boundary.
\<close>

theorem mmap_window:
  assumes "m_ptr m = 0" "0 < os_pagesize os" "os_pagesize os \<le> 2 ^ 16" "0 \<le> offset" "offset < 2 ^ 31" "len \<noteq> 0"
    and "os_mmap os len (\<not> readonly) fd (offset div os_pagesize os * os_pagesize os) w = (p, w')"
    and "p \<noteq> 0" "p \<noteq> -1" "unat p + 2 ^ 31 < 2 ^ 64"
    and "\<forall>i. 0 \<le> i \<and> i < page_up (os_pagesize os) (uint len) \<longrightarrow>
      pos w' (p + word_of_int i) = Some (fd, offset div os_pagesize os * os_pagesize os + i)"
  shows "\<exists>m'. mmap_map os fd offset len readonly m w = Inr (mmap_begin m', m', w') \<and> mmap_is_valid m' \<and> mmap_get_size m' = len
    \<and> (\<forall>i. 0 \<le> i \<and> offset mod os_pagesize os + i < page_up (os_pagesize os) (uint len) \<longrightarrow>
        rbind (mmap_at m' i) (\<lambda>a. Inr (pos w' a)) = Inr (Some (fd, offset + i)))"
proof -
  let ?page = "os_pagesize os"
  have "offset mod ?page < ?page" "0 \<le> offset mod ?page" using assms(2) by simp_all
  then have k: "0 \<le> offset mod ?page" "offset mod ?page < 2 ^ 31" using assms(3) by simp_all
  note q = word_add_no_wrap [OF assms(8,10) k]
  define m' where "m' = \<lparr>m_hMap = p, m_ptr = p + word_of_int (offset mod ?page), m_size = len\<rparr>"
  have "mmap_map os fd offset len readonly m w = Inr (mmap_begin m', m', w')"
    using mmap_map_idle [OF assms(1-7)] assms(8) q(3) by (simp add: m'_def mmap_begin_def Let_def)
  moreover have "rbind (mmap_at m' i) (\<lambda>a. Inr (pos w' a)) = Inr (Some (fd, offset + i))"
    if "0 \<le> i" "offset mod ?page + i < page_up ?page (uint len)" for i
  proof -
    have "mmap_at m' i = Inr (p + word_of_int (offset mod ?page + i))"
      using q(2) by (simp add: mmap_at_def m'_def add.assoc)
    moreover have "offset div ?page * ?page + (offset mod ?page + i) = offset + i" by simp
    ultimately show ?thesis using assms(11) [rule_format, of "offset mod ?page + i"] that k(1) by simp
  qed
  ultimately show ?thesis using q(2) by (auto simp: m'_def mmap_is_valid_def mmap_get_size_def)
qed

theorem mmap_window_witness:
  "\<exists>m'. mmap_map (mm_demo_os {}) 3 4196 100 True mmap_new ([], {}) = Inr (mmap_begin m', m', [Some 100], {})
    \<and> mmap_get_size m' = 100"
proof -
  have "os_mmap (mm_demo_os {}) 100 (\<not> True) 3 (4196 div 4096 * 4096) ([], {}) = (4096, [Some 100], {})"
    by (simp add: mm_demo_os_def mm_page_def)
  moreover have "\<forall>i. 0 \<le> i \<and> i < page_up 4096 (uint (100 :: u64_t)) \<longrightarrow>
      (\<lambda>w a. Some (3 :: int, uint a)) ([Some 100], {}) ((4096 :: ptr) + word_of_int i) = Some (3, 4196 div 4096 * 4096 + i)"
    by (auto simp: page_up_def uint_word_of_int uint_word_ariths)
  ultimately show ?thesis
    using mmap_window [of mmap_new "mm_demo_os {}" 4196 100 True 3 "([], {})" 4096 "([Some 100], {})" "\<lambda>w a. Some (3, uint a)"]
    by (auto simp: mmap_new_def mm_demo_os_def)
qed

text \<open>
  The length handed to the system does not include the distance of the offset from the page
  boundary: when the two together reach into another page, the last byte of the window the
  object reports lies behind the pages that were mapped.
\<close>

theorem mmap_window_short:
  assumes "m_ptr m = 0" "0 < os_pagesize os" "os_pagesize os \<le> 2 ^ 16" "0 \<le> offset" "offset < 2 ^ 31" "len \<noteq> 0"
    and "os_mmap os len (\<not> readonly) fd (offset div os_pagesize os * os_pagesize os) w = (p, w')"
    and "p \<noteq> 0" "p \<noteq> -1" "unat p + 2 ^ 31 + unat len < 2 ^ 64" "uint len < 2 ^ 62"
    and "page_up (os_pagesize os) (uint len) < offset mod os_pagesize os + uint len"
  shows "\<exists>m' a. mmap_map os fd offset len readonly m w = Inr (mmap_begin m', m', w') \<and> mmap_get_size m' = len
    \<and> mmap_at m' (uint len - 1) = Inr a \<and> uint p + page_up (os_pagesize os) (uint len) \<le> uint a"
proof -
  let ?page = "os_pagesize os"
  have "offset mod ?page < ?page" "0 \<le> offset mod ?page" using assms(2) by simp_all
  then have k: "0 \<le> offset mod ?page" "offset mod ?page < 2 ^ 31" using assms(3) by simp_all
  have "unat p + 2 ^ 31 < 2 ^ 64" using assms(10) by simp
  note q = word_add_no_wrap [OF assms(8) this k]
  define m' where "m' = \<lparr>m_hMap = p, m_ptr = p + word_of_int (offset mod ?page), m_size = len\<rparr>"
  have "mmap_map os fd offset len readonly m w = Inr (mmap_begin m', m', w')"
    using mmap_map_idle [OF assms(1-7)] assms(8) q(3) by (simp add: m'_def mmap_begin_def Let_def)
  moreover have at: "mmap_at m' (uint len - 1) = Inr (p + word_of_int (offset mod ?page) + word_of_int (uint len - 1))"
    using q(2) by (simp add: mmap_at_def m'_def)
  moreover have "uint p + page_up ?page (uint len) \<le> uint (p + word_of_int (offset mod ?page) + word_of_int (uint len - 1))"
  proof -
    have "uint len \<noteq> 0" "0 \<le> uint len" using assms(6) by (simp_all only: unsigned_eq_0_iff uint_ge_0 simp_thms)
    then have l: "0 < uint len" by linarith
    have "uint (p + word_of_int (offset mod ?page) + word_of_int (uint len - 1))
        = (uint p + offset mod ?page + (uint len - 1)) mod 2 ^ 64"
      by (simp add: uint_word_ariths uint_word_of_int mod_simps)
    also have "\<dots> = uint p + offset mod ?page + (uint len - 1)"
    proof (rule mod_pos_pos_trivial)
      have "uint p + 2 ^ 31 + uint len < 2 ^ 64" using assms(10) by (simp flip: of_nat_less_iff [where 'a = int])
      then show "uint p + offset mod ?page + (uint len - 1) < 2 ^ 64" using k by simp
    qed (use k l in simp)
    finally show ?thesis using assms(12) by linarith
  qed
  ultimately show ?thesis by (auto simp: m'_def mmap_get_size_def)
qed

theorem mmap_window_short_witness:
  "\<exists>m' a. mmap_map (mm_demo_os {}) 3 4196 4096 True mmap_new ([], {}) = Inr (mmap_begin m', m', [Some 4096], {})
    \<and> mmap_at m' 4095 = Inr a \<and> 8192 \<le> uint a"
proof -
  have "os_mmap (mm_demo_os {}) 4096 (\<not> True) 3 (4196 div 4096 * 4096) ([], {}) = (4096, [Some 4096], {})"
    by (simp add: mm_demo_os_def mm_page_def)
  then show ?thesis
    using mmap_window_short [of mmap_new "mm_demo_os {}" 4196 4096 True 3 "([], {})" 4096 "([Some 4096], {})"]
    by (auto simp: mmap_new_def mm_demo_os_def page_up_def)
qed

subsection \<open>Where the classes fail\<close>

text \<open>
  A failed mapping at an unaligned offset is not noticed: \<open>MAP_FAILED\<close> has been moved by the
  distance from the page boundary before it is compared, so the object reports the requested
  size and, unless the distance is 1, a valid pointer.
\<close>

theorem mmap_failure_undetected:
  assumes "m_ptr m = 0" "0 < os_pagesize os" "os_pagesize os \<le> 2 ^ 16" "0 \<le> offset" "offset < 2 ^ 31" "len \<noteq> 0"
    and "os_mmap os len (\<not> readonly) fd (offset div os_pagesize os * os_pagesize os) w = (-1, w')"
    and "offset mod os_pagesize os = k" "0 < k"
  shows "\<exists>m'. mmap_map os fd offset len readonly m w = Inr (word_of_int (k - 1), m', w') \<and> mmap_get_size m' = len
    \<and> (mmap_is_valid m' \<longleftrightarrow> k \<noteq> 1) \<and> m_hMap m' = -1"
proof -
  have "k < 2 ^ 16" using assms(2,3,8) pos_mod_bound [of "os_pagesize os" offset] by simp
  then have "0 \<le> k - 1" "k - 1 < 2 ^ 64" using assms(9) by simp_all
  then have u: "uint (word_of_int (k - 1) :: ptr) = k - 1"
    unfolding uint_word_of_int by (intro mod_pos_pos_trivial) simp_all
  have "word_of_int (k - 1) \<noteq> (-1 :: ptr)"
  proof
    assume "word_of_int (k - 1) = (-1 :: ptr)"
    then have "uint (word_of_int (k - 1) :: ptr) = uint (-1 :: ptr)" by (rule arg_cong)
    then show False using u \<open>k < 2 ^ 16\<close> by (simp add: unsigned_minus_1_eq_mask mask_eq_exp_minus_1)
  qed
  moreover have "(word_of_int (k - 1) :: ptr) = 0 \<longleftrightarrow> k = 1" using u by (metis diff_eq_diff_eq diff_self of_int_0 unsigned_0)
  ultimately show ?thesis
    using mmap_map_idle [OF assms(1-7)] assms(8)
    by (simp add: Let_def mmap_get_size_def mmap_is_valid_def)
qed

theorem mmap_failure_undetected_witness:
  "\<exists>m'. mmap_map (mm_demo_os {3}) 3 4196 10 True mmap_new ([], {}) = Inr (99, m', [], {}) \<and> mmap_is_valid m'"
  using mmap_failure_undetected [of mmap_new "mm_demo_os {3}" 4196 10 True 3 "([], {})" "([], {})" 100]
  by (auto simp: mmap_new_def mm_demo_os_def)

text \<open>
  The base of a mapping is computed in \<open>int\<close>: from an offset of 2 GiB on (up to where the page
  number itself no longer fits) the multiplication with the page size overflows.
\<close>

theorem mmap_offset_overflow:
  assumes "m_ptr m = 0" "0 < os_pagesize os" "os_pagesize os \<le> 2 ^ 16" "os_pagesize os dvd 2 ^ 31"
    and "2 ^ 31 \<le> offset" "offset < 2 ^ 31 * os_pagesize os"
  shows "mmap_map os fd offset len readonly m w = Inl Overflow"
proof -
  let ?page = "os_pagesize os"
  have o: "0 \<le> offset" using assms(5) by simp
  have lt: "offset div ?page < 2 ^ 31"
  proof (rule ccontr)
    assume "\<not> offset div ?page < 2 ^ 31"
    then have "2 ^ 31 * ?page \<le> offset div ?page * ?page" using assms(2) by (intro mult_right_mono) simp_all
    moreover have "offset div ?page * ?page \<le> offset" using assms(2) by (simp add: minus_mod_eq_div_mult [symmetric])
    ultimately show False using assms(6) by linarith
  qed
  obtain c where c: "2 ^ 31 = ?page * c" using assms(4) by blast
  have "c = 2 ^ 31 div ?page" using c assms(2) by (metis less_irrefl nonzero_mult_div_cancel_left)
  then have "c \<le> offset div ?page" using assms(2,5) by (simp add: zdiv_mono1)
  then have "c * ?page \<le> offset div ?page * ?page" using assms(2) by (intro mult_right_mono) simp_all
  then have "2 ^ 31 \<le> offset div ?page * ?page" using c by (simp only: mult.commute)
  then have "signed_fit 32 (offset div ?page * ?page) = Inl Overflow" "offset div ?page \<noteq> 0" by (auto simp: signed_fit_def)
  then show ?thesis
    using assms(1,5) by (simp add: mmap_map_def mmap_is_valid_def page_split [OF o assms(2,3)] page_split(4) [OF o assms(2,3) lt] Let_def)
qed

theorem mmap_offset_overflow_witness: "mmap_map (mm_demo_os {}) 3 2147483648 10 True mmap_new ([], {}) = Inl Overflow"
  by (rule mmap_offset_overflow) (simp_all add: mmap_new_def mm_demo_os_def)

text \<open>
  When a file can be opened but not mapped, the object keeps the descriptor but is not valid; the
  next request on it opens a file without closing the first, whose descriptor then stays open
  whatever is closed later.
\<close>

theorem mfile_failed_map_leaks:
  assumes "mm_lawful os maps fds" "m_ptr f = 0" "len \<noteq> 0" "os_open os name (\<not> readonly) w = (fd1, w1)" "fd1 \<noteq> -1"
    and "os_mmap os len (\<not> readonly) fd1 0 w1 = (-1, w2)"
  shows "\<exists>f1. mfile_map os name 0 len readonly f w = Inr (0, f1, w2) \<and> \<not> mmap_is_valid (mf_obj f1) \<and> m_fd f1 = fd1
    \<and> (\<forall>name' len' ro' p f2 w3. mfile_map os name' 0 len' ro' f1 w2 = Inr (p, f2, w3) \<longrightarrow>
        (case mfile_close os f2 w3 of (f3, w4) \<Rightarrow> m_fd f3 = -1 \<and> fd1 \<in> fds w4))"
proof -
  note L = mm_lawfulD [OF assms(1)]
  define f1 where "f1 = \<lparr>m_hMap = 0, m_ptr = 0, m_size = 0, m_fd = fd1\<rparr>"
  have "mfile_map os name 0 len readonly f w = Inr (0, f1, w2)"
    using assms(2-6)
    by (simp add: mfile_map_def mmap_map_def mmap_length_def mmap_result_def mmap_is_valid_def mf_obj_def mf_make_def f1_def)
  moreover have "fds w2 = insert fd1 (fds w)" using L(2) [OF assms(6)] L(6) [OF assms(4)] assms(5) by simp
  then have fd1: "fd1 \<in> fds w2" by simp
  have "m_fd f3 = -1 \<and> fd1 \<in> fds w4"
    if second: "mfile_map os name' 0 len' ro' f1 w2 = Inr (p, f2, w3)" and close: "mfile_close os f2 w3 = (f3, w4)"
    for name' len' ro' p f2 w3 f3 w4
  proof -
    obtain fd2 v where o: "os_open os name' (\<not> ro') w2 = (fd2, v)" by fastforce
    have f3: "m_fd f3 = -1" using close by (auto simp: mfile_close_def mf_make_def split: prod.splits if_splits)
    have v: "fd1 \<in> fds v" "fd2 \<noteq> fd1" using L(6) [OF o] fd1 assms(5) by (auto split: if_splits)
    have own: "mm_own maps (maps v) (mf_obj f1) v" by (simp add: mm_own_def mm_owned_def mf_obj_def f1_def)
    have "fd1 \<in> fds w3 \<and> m_fd f2 = fd2"
      using second o v mmap_map_owns(2) [OF assms(1) own, of 0]
      by (auto simp: mfile_map_def mmap_is_valid_def mf_obj_def f1_def mf_make_def rbind_eq_Inr split: if_splits)
    then have w3: "fd1 \<in> fds w3" "m_fd f2 = fd2" by simp_all
    have "fds (snd (mmap_close os (mf_obj f2) w3)) = fds w3" using L(4) by (auto simp: mmap_close_def)
    then show ?thesis using close w3 v(2) f3 L(8) by (auto simp: mfile_close_def split: prod.splits if_splits)
  qed
  ultimately show ?thesis by (intro exI [of _ f1]) (auto simp: f1_def mmap_is_valid_def mf_obj_def)
qed

theorem mfile_failed_map_leaks_witness:
  "\<exists>f1 p f2 w3. mfile_map (mm_demo_os {7}) 7 0 10 True mfile_new ([], {}) = Inr (0, f1, [], {7})
    \<and> mfile_map (mm_demo_os {7}) 8 0 10 True f1 ([], {7}) = Inr (p, f2, w3)
    \<and> 7 \<in> snd (snd (mfile_close (mm_demo_os {7}) f2 w3))"
proof -
  have o: "os_open (mm_demo_os {7}) 7 (\<not> True) ([], {}) = (7, [], {7})"
    "os_mmap (mm_demo_os {7}) 10 (\<not> True) 7 0 ([], {7}) = (-1, [], {7})" by (simp_all add: mm_demo_os_def)
  obtain f1 where f1: "mfile_map (mm_demo_os {7}) 7 0 10 True mfile_new ([], {}) = Inr (0, f1, [], {7})"
    "\<forall>name' len' ro' p f2 w3. mfile_map (mm_demo_os {7}) name' 0 len' ro' f1 ([], {7}) = Inr (p, f2, w3) \<longrightarrow>
        (case mfile_close (mm_demo_os {7}) f2 w3 of (f3, w4) \<Rightarrow> m_fd f3 = -1 \<and> 7 \<in> snd w4)"
    using mfile_failed_map_leaks [OF mm_demo_lawful _ _ o(1) _ o(2), of mfile_new] by (auto simp: mfile_new_def)
  have "mfile_map (mm_demo_os {7}) 7 0 10 True mfile_new ([], {}) = Inr (0, \<lparr>m_hMap = 0, m_ptr = 0, m_size = 0, m_fd = 7\<rparr>, [], {7})"
    by (simp add: mfile_map_def mmap_map_def mmap_length_def mmap_result_def mmap_is_valid_def mf_obj_def mf_make_def mfile_new_def mm_demo_os_def)
  then have "f1 = \<lparr>m_hMap = 0, m_ptr = 0, m_size = 0, m_fd = 7\<rparr>" using f1(1) by simp
  then have "mfile_map (mm_demo_os {7}) 8 0 10 True f1 ([], {7})
      = Inr (4096, \<lparr>m_hMap = 4096, m_ptr = 4096, m_size = 10, m_fd = 8\<rparr>, [Some 10], {8, 7})"
    by (simp add: mfile_map_def mmap_map_def mmap_length_def mmap_result_def mmap_is_valid_def mf_obj_def mf_make_def mm_demo_os_def mm_page_def)
  moreover from f1(2) [rule_format, OF this] have "7 \<in> snd (snd (mfile_close (mm_demo_os {7}) \<lparr>m_hMap = 4096, m_ptr = 4096, m_size = 10, m_fd = 8\<rparr> ([Some 10], {8, 7})))"
    by (simp add: case_prod_beta)
  ultimately show ?thesis using f1(1) by blast
qed

end
