(* ===== verification/GclMMapWin.thy ===== *)
theory GclMMapWin
  imports GclMMapProps
begin

section \<open>MMap on Windows: the other branch of \<open>src/gmmap.cpp\<close>\<close>

text \<open>
  There a mapping is a handle and a view of it. \<open>off_t\<close> and the arithmetic on the granularity
  are 32 bits wide, \<open>size_t\<close> 64. The system is a record of functions: \<open>wo_create\<close> answers a
  handle or null, \<open>wo_view\<close> a base address or null. \<open>wn_lawful\<close> says which handles and views
  exist after each call; a view is released by its base address only.
\<close>

record ('n, 'w) wn_os =
  wo_osfhandle :: "int \<Rightarrow> ptr"
  wo_create :: "ptr \<Rightarrow> bool \<Rightarrow> u32_t \<Rightarrow> 'n option \<Rightarrow> 'w \<Rightarrow> ptr \<times> 'w"
  wo_filesize :: "ptr \<Rightarrow> 'w \<Rightarrow> u32_t"
  wo_view :: "ptr \<Rightarrow> bool \<Rightarrow> u32_t \<Rightarrow> u64_t \<Rightarrow> 'w \<Rightarrow> ptr \<times> 'w"
  wo_unmap :: "ptr \<Rightarrow> 'w \<Rightarrow> 'w"
  wo_close :: "ptr \<Rightarrow> 'w \<Rightarrow> 'w"
  wo_granularity :: u32_t

definition wmap_close :: "('n, 'w) wn_os \<Rightarrow> mmap_obj \<Rightarrow> 'w \<Rightarrow> mmap_obj \<times> 'w" where
  "wmap_close os m w =
     (if m_ptr m = 0 then (m, w)
      else (m\<lparr>m_size := 0, m_ptr := 0\<rparr>,
            if m_hMap m \<noteq> 0 then wo_close os (m_hMap m) (wo_unmap os (m_ptr m) w) else w))"

text \<open>The end of \<open>_mmap\<close>: a view that could not be made closes the handle.\<close>

definition wmap_result :: "('n, 'w) wn_os \<Rightarrow> mmap_obj \<Rightarrow> 'w \<Rightarrow> ptr \<times> mmap_obj \<times> 'w" where
  "wmap_result os m w =
     (if m_ptr m = 0 then (0, m\<lparr>m_size := 0\<rparr>, wo_close os (m_hMap m) w) else (m_ptr m, m, w))"

definition wmap_map ::
    "('n, 'w) wn_os \<Rightarrow> int \<Rightarrow> 32 word \<Rightarrow> u64_t \<Rightarrow> bool \<Rightarrow> 'n option \<Rightarrow> mmap_obj \<Rightarrow> 'w \<Rightarrow> (ptr \<times> mmap_obj \<times> 'w) res"
where
  "wmap_map os filedes offset len readonly name m w =
     (case (if mmap_is_valid m then wmap_close os m w else (m, w)) of (m, w) \<Rightarrow>
      let hFile = (if filedes = -1 then -1 else wo_osfhandle os filedes)
      in if offset = 0
         then (case wo_create os hFile readonly (ucast len) name w of (h, w) \<Rightarrow>
               if h = 0 then Inr (0, m\<lparr>m_hMap := 0\<rparr>, w)
               else let n = (if len = 0 then ucast (wo_filesize os hFile w) else len)
                    in case wo_view os h readonly 0 n w of (p, w) \<Rightarrow>
                         Inr (wmap_result os (m\<lparr>m_hMap := h, m_size := n, m_ptr := p\<rparr>) w))
         else if wo_granularity os = 0 then Inl DivByZero
         else let pos_base = (offset div wo_granularity os) * wo_granularity os;
                  pos_offs = offset mod wo_granularity os
              in case wo_create os hFile readonly (if len = 0 then 0 else offset + ucast len) name w of (h, w) \<Rightarrow>
                 if h = 0 then Inr (0, m\<lparr>m_hMap := 0\<rparr>, w)
                 else let n = (if len = 0 then ucast (wo_filesize os hFile w - offset) else len)
                      in case wo_view os h readonly pos_base (word_of_int (sint pos_offs) + n) w of (p, w) \<Rightarrow>
                           Inr (wmap_result os (m\<lparr>m_hMap := h, m_size := n,
                                  m_ptr := (if p \<noteq> 0 then p + word_of_int (sint pos_offs) else 0)\<rparr>) w))"

subsection \<open>The documented behaviour\<close>

definition wn_lawful :: "('n, 'w) wn_os \<Rightarrow> ('w \<Rightarrow> ptr set) \<Rightarrow> ('w \<Rightarrow> ptr set) \<Rightarrow> bool" where
  "wn_lawful os handles views \<longleftrightarrow>
     (\<forall>f ro n nm w h w'. wo_create os f ro n nm w = (h, w') \<longrightarrow> views w' = views w \<and>
        (if h = 0 then handles w' = handles w else h \<notin> handles w \<and> handles w' = insert h (handles w))) \<and>
     (\<forall>h ro off n w p w'. wo_view os h ro off n w = (p, w') \<longrightarrow> handles w' = handles w \<and>
        (if p = 0 then views w' = views w
         else p \<notin> views w \<and> views w' = insert p (views w) \<and> unat p + 2 ^ 31 < 2 ^ 64)) \<and>
     (\<forall>p w. views (wo_unmap os p w) = views w - {p} \<and> handles (wo_unmap os p w) = handles w) \<and>
     (\<forall>h w. handles (wo_close os h w) = handles w - {h} \<and> views (wo_close os h w) = views w) \<and>
     wo_granularity os \<noteq> 0 \<and> unat (wo_granularity os) \<le> 2 ^ 16"

lemma wn_lawfulD:
  assumes "wn_lawful os handles views"
  shows "wo_create os f ro n nm w = (h, w') \<Longrightarrow> views w' = views w \<and>
      (if h = 0 then handles w' = handles w else h \<notin> handles w \<and> handles w' = insert h (handles w))"
    "wo_view os h ro off k w = (p, w') \<Longrightarrow> handles w' = handles w \<and>
      (if p = 0 then views w' = views w
       else p \<notin> views w \<and> views w' = insert p (views w) \<and> unat p + 2 ^ 31 < 2 ^ 64)"
    "views (wo_unmap os q w) = views w - {q}" "handles (wo_unmap os q w) = handles w"
    "handles (wo_close os g w) = handles w - {g}" "views (wo_close os g w) = views w"
    "wo_granularity os \<noteq> 0" "unat (wo_granularity os) \<le> 2 ^ 16"
proof -
  note L = assms [unfolded wn_lawful_def]
  show "wo_create os f ro n nm w = (h, w') \<Longrightarrow> views w' = views w \<and>
      (if h = 0 then handles w' = handles w else h \<notin> handles w \<and> handles w' = insert h (handles w))"
    using L [THEN conjunct1] by blast
  show "wo_view os h ro off k w = (p, w') \<Longrightarrow> handles w' = handles w \<and>
      (if p = 0 then views w' = views w
       else p \<notin> views w \<and> views w' = insert p (views w) \<and> unat p + 2 ^ 31 < 2 ^ 64)"
    using L [THEN conjunct2, THEN conjunct1] by blast
  show "views (wo_unmap os q w) = views w - {q}" "handles (wo_unmap os q w) = handles w"
    "handles (wo_close os g w) = handles w - {g}" "views (wo_close os g w) = views w"
    "wo_granularity os \<noteq> 0" "unat (wo_granularity os) \<le> 2 ^ 16"
    using L by blast+
qed

text \<open>What the object has to release: a handle, and a view by the pointer it keeps.\<close>

definition wn_own ::
    "('w \<Rightarrow> ptr set) \<Rightarrow> ('w \<Rightarrow> ptr set) \<Rightarrow> ptr set \<Rightarrow> ptr set \<Rightarrow> mmap_obj \<Rightarrow> 'w \<Rightarrow> bool"
where
  "wn_own handles views H V m w \<longleftrightarrow>
     (if m_ptr m = 0 then handles w = H \<and> views w = V
      else m_hMap m \<noteq> 0 \<and> m_hMap m \<notin> H \<and> m_ptr m \<notin> V \<and> handles w = insert (m_hMap m) H \<and> views w = insert (m_ptr m) V)"

lemma wmap_close_owns:
  assumes "wn_lawful os handles views" "wn_own handles views H V m w" "wmap_close os m w = (m', w')"
  shows "m_ptr m' = 0 \<and> handles w' = H \<and> views w' = V"
  using assms wn_lawfulD(3-6) [OF assms(1)] by (auto simp: wmap_close_def wn_own_def split: if_splits)

lemma wmap_result_owns:
  assumes "wn_lawful os handles views" "handles w0 = H" "views w0 = V"
    and "wo_create os hf ro k nm w0 = (h, w1)" "h \<noteq> 0" "wo_view os h ro off n w1 = (p, w2)"
    and "m_hMap m = h" "m_ptr m = p" "wmap_result os m w2 = (r, m', w')"
  shows "wn_own handles views H V m' w' \<and> r = m_ptr m'"
proof -
  have c: "views w1 = V" "h \<notin> H" "handles w1 = insert h H" using wn_lawfulD(1) [OF assms(1,4)] assms(2,3,5) by simp_all
  show ?thesis
  proof (cases "p = 0")
    case True
    then have "handles w2 = insert h H" "views w2 = V" using wn_lawfulD(2) [OF assms(1,6)] c by simp_all
    then show ?thesis
      using assms(7-9) True c(2) wn_lawfulD(5,6) [OF assms(1), of h w2] by (auto simp: wmap_result_def wn_own_def)
  next
    case False
    then have "handles w2 = insert h H" "views w2 = insert p V" "p \<notin> V" using wn_lawfulD(2) [OF assms(1,6)] c by simp_all
    then show ?thesis using assms(5,7-9) False c(2) by (auto simp: wmap_result_def wn_own_def)
  qed
qed

text \<open>Both branches are one: a base, an offset into the view, and the length of the window.\<close>

definition win_base :: "('n, 'w) wn_os \<Rightarrow> u32_t \<Rightarrow> u32_t" where
  "win_base os offset = (if offset = 0 then 0 else (offset div wo_granularity os) * wo_granularity os)"

definition win_offs :: "('n, 'w) wn_os \<Rightarrow> u32_t \<Rightarrow> u64_t" where
  "win_offs os offset = word_of_int (sint (offset mod wo_granularity os))"

definition win_file :: "('n, 'w) wn_os \<Rightarrow> int \<Rightarrow> ptr" where
  "win_file os fd = (if fd = -1 then -1 else wo_osfhandle os fd)"

definition win_max :: "u32_t \<Rightarrow> u64_t \<Rightarrow> u32_t" where
  "win_max offset len = (if offset = 0 then ucast len else if len = 0 then 0 else offset + ucast len)"

definition win_len :: "('n, 'w) wn_os \<Rightarrow> int \<Rightarrow> u32_t \<Rightarrow> u64_t \<Rightarrow> 'w \<Rightarrow> u64_t" where
  "win_len os fd offset len w = (if len = 0 then ucast (wo_filesize os (win_file os fd) w - offset) else len)"

lemma wmap_map_idle:
  assumes "m_ptr m = 0" "wo_granularity os \<noteq> 0" "wo_create os (win_file os fd) ro (win_max offset len) nm w = (h, w1)"
    and "wo_view os h ro (win_base os offset) (win_offs os offset + win_len os fd offset len w1) w1 = (p, w2)"
  shows "wmap_map os fd offset len ro nm m w =
     Inr (if h = 0 then (0, m\<lparr>m_hMap := 0\<rparr>, w1)
          else wmap_result os (m\<lparr>m_hMap := h, m_size := win_len os fd offset len w1,
                 m_ptr := (if p \<noteq> 0 then p + win_offs os offset else 0)\<rparr>) w2)"
proof (cases "offset = 0")
  case True
  have "(0 :: u32_t) mod wo_granularity os = 0" by simp
  then show ?thesis
    using assms True unfolding win_file_def win_base_def win_offs_def win_max_def win_len_def
    by (cases "len = 0") (simp_all add: wmap_map_def mmap_is_valid_def)
next
  case False
  then show ?thesis
    using assms unfolding win_file_def win_base_def win_offs_def win_max_def win_len_def
    by (simp add: wmap_map_def mmap_is_valid_def Let_def)
qed

lemma wmap_map_closed:
  "wmap_map os fd offset len ro nm m w =
     (case (if mmap_is_valid m then wmap_close os m w else (m, w)) of (m, w) \<Rightarrow> wmap_map os fd offset len ro nm m w)"
  by (cases "m_ptr m = 0") (simp_all add: wmap_map_def mmap_is_valid_def wmap_close_def)

text \<open>With aligned offsets the object owns exactly one handle and one view while it is valid.\<close>

lemma wmap_map_owns:
  assumes "wn_lawful os handles views" "wn_own handles views H V m w" "offset mod wo_granularity os = 0"
  shows "\<exists>r m' w'. wmap_map os fd offset len ro nm m w = Inr (r, m', w') \<and> wn_own handles views H V m' w'"
proof -
  obtain m0 w0 where z: "(if mmap_is_valid m then wmap_close os m w else (m, w)) = (m0, w0)" by fastforce
  have idle: "m_ptr m0 = 0" "handles w0 = H" "views w0 = V"
    using wmap_close_owns [OF assms(1,2)] assms(2) z by (auto simp: mmap_is_valid_def wn_own_def split: if_splits)
  have offs: "win_offs os offset = 0" using assms(3) by (simp add: win_offs_def)
  obtain h w1 where h: "wo_create os (win_file os fd) ro (win_max offset len) nm w0 = (h, w1)" by fastforce
  obtain p w2 where p: "wo_view os h ro (win_base os offset) (win_offs os offset + win_len os fd offset len w1) w1 = (p, w2)" by fastforce
  let ?m = "m0\<lparr>m_hMap := h, m_size := win_len os fd offset len w1, m_ptr := p\<rparr>"
  have eq: "wmap_map os fd offset len ro nm m w = Inr (if h = 0 then (0, m0\<lparr>m_hMap := 0\<rparr>, w1) else wmap_result os ?m w2)"
    unfolding wmap_map_closed [of os fd offset len ro nm m w] z prod.case wmap_map_idle [OF idle(1) wn_lawfulD(7) [OF assms(1)] h p] offs
    by simp
  show ?thesis
  proof (cases "h = 0")
    case True
    then show ?thesis using eq wn_lawfulD(1) [OF assms(1) h] idle by (simp add: wn_own_def)
  next
    case False
    obtain r m' w' where res: "wmap_result os ?m w2 = (r, m', w')" by (metis prod_cases3)
    then have "wn_own handles views H V m' w'" using wmap_result_owns [OF assms(1) idle(2,3) h False p _ _ res] by simp
    then show ?thesis using eq False res by simp
  qed
qed

subsection \<open>Calls on one object\<close>

datatype 'n wm_call = WMap int u32_t u64_t bool "'n option" | WClose

fun wm_do :: "('n, 'w) wn_os \<Rightarrow> 'n wm_call \<Rightarrow> mmap_obj \<times> 'w \<Rightarrow> (mmap_obj \<times> 'w) res" where
  "wm_do os (WMap fd offset len ro nm) (m, w) = rbind (wmap_map os fd offset len ro nm m w) (\<lambda>(_, z). Inr z)"
| "wm_do os WClose (m, w) = Inr (wmap_close os m w)"

fun wm_run :: "('n, 'w) wn_os \<Rightarrow> 'n wm_call list \<Rightarrow> mmap_obj \<times> 'w \<Rightarrow> (mmap_obj \<times> 'w) res" where
  "wm_run os [] z = Inr z"
| "wm_run os (c # cs) z = rbind (wm_do os c z) (wm_run os cs)"

fun wm_aligned :: "u32_t \<Rightarrow> 'n wm_call \<Rightarrow> bool" where
  "wm_aligned g (WMap fd offset len ro nm) \<longleftrightarrow> offset mod g = 0"
| "wm_aligned g WClose \<longleftrightarrow> True"

lemma wm_do_owns:
  assumes "wn_lawful os handles views" "wn_own handles views H V m w" "wm_aligned (wo_granularity os) c"
  shows "\<exists>m' w'. wm_do os c (m, w) = Inr (m', w') \<and> wn_own handles views H V m' w'"
proof (cases c)
  case (WMap fd offset len ro nm)
  then show ?thesis using wmap_map_owns [OF assms(1,2), of offset fd len ro nm] assms(3) by auto
next
  case WClose
  obtain m' w' where mw: "wmap_close os m w = (m', w')" by (cases "wmap_close os m w")
  then show ?thesis using wmap_close_owns [OF assms(1,2) mw] WClose by (simp add: wn_own_def)
qed

text \<open>
  C16: On Windows, as long as offsets are multiples of the granularity, every sequence of calls
  returns, and afterwards the object holds exactly one handle and one view, those it keeps the
  handle and the address of, or none when it is not valid: nothing leaks and nothing foreign is closed.
\<close>

theorem wmap_owns_one_mapping:
  assumes "wn_lawful os handles views" "list_all (wm_aligned (wo_granularity os)) calls"
  shows "\<exists>m' w'. wm_run os calls (mmap_new, w) = Inr (m', w') \<and>
    (if mmap_is_valid m' then handles w' = insert (m_hMap m') (handles w) \<and> m_hMap m' \<notin> handles w
        \<and> views w' = insert (mmap_begin m') (views w) \<and> mmap_begin m' \<notin> views w
     else handles w' = handles w \<and> views w' = views w)"
proof -
  have "\<exists>m' w'. wm_run os cs (m, v) = Inr (m', w') \<and> wn_own handles views (handles w) (views w) m' w'"
    if "wn_own handles views (handles w) (views w) m v" "list_all (wm_aligned (wo_granularity os)) cs" for cs m v
    using that
  proof (induction cs arbitrary: m v)
    case (Cons c cs)
    obtain m1 w1 where "wm_do os c (m, v) = Inr (m1, w1)" "wn_own handles views (handles w) (views w) m1 w1"
      using wm_do_owns [OF assms(1) Cons.prems(1), of c] Cons.prems(2) by auto
    then show ?case using Cons.IH [of m1 w1] Cons.prems(2) by simp
  qed simp
  from this [of mmap_new w calls] assms(2) show ?thesis
    by (auto simp: wn_own_def mmap_new_def mmap_is_valid_def mmap_begin_def split: if_splits)
qed

text \<open>A system in memory: the live handles and views; a call fails when it runs out of fresh ones.\<close>

definition wn_demo_os :: "(nat, ptr set \<times> ptr set) wn_os" where
  "wn_demo_os = \<lparr>wo_osfhandle = (\<lambda>fd. word_of_int fd),
     wo_create = (\<lambda>f ro n nm (hs, vs). let h = of_nat (card hs + 1) in if h = 0 \<or> h \<in> hs then (0, hs, vs) else (h, insert h hs, vs)),
     wo_filesize = (\<lambda>f w. 5000),
     wo_view = (\<lambda>h ro off n (hs, vs). let p = 65536 * of_nat (card vs + 1)
        in if p = 0 \<or> p \<in> vs \<or> 4294967296 \<le> p then (0, hs, vs) else (p, hs, insert p vs)),
     wo_unmap = (\<lambda>p (hs, vs). (hs, vs - {p})),
     wo_close = (\<lambda>h (hs, vs). (hs - {h}, vs)),
     wo_granularity = 65536\<rparr>"

lemma wn_demo_lawful: "wn_lawful wn_demo_os fst snd"
  unfolding wn_lawful_def
  by (intro conjI allI impI) (auto simp: wn_demo_os_def Let_def word_le_nat_alt split: prod.splits if_splits)

lemma wmap_owns_one_mapping_witness:
  "\<exists>m' w'. wm_run wn_demo_os [WMap 3 0 0 True None, WMap 4 65536 100 False (Some 1)] (mmap_new, {}, {}) = Inr (m', w')
    \<and> fst w' = {m_hMap m'} \<and> snd w' = {mmap_begin m'}"
proof -
  define calls :: "nat wm_call list" where "calls = [WMap 3 0 0 True None, WMap 4 65536 100 False (Some 1)]"
  define z where "z = wm_run wn_demo_os calls (mmap_new, {}, {})"
  have al: "list_all (wm_aligned (wo_granularity wn_demo_os)) calls" unfolding calls_def by code_simp
  have ok: "case z of Inr (m, w) \<Rightarrow> mmap_is_valid m | Inl e \<Rightarrow> False" unfolding z_def calls_def by code_simp
  from wmap_owns_one_mapping [OF wn_demo_lawful al, of "({}, {})", folded z_def] obtain m v where
    v: "z = Inr (m, v)" "mmap_is_valid m \<longrightarrow> fst v = {m_hMap m} \<and> snd v = {mmap_begin m}"
    by (auto split: if_splits)
  have "mmap_is_valid m" using ok unfolding v(1) by simp
  then show ?thesis using v unfolding z_def calls_def by blast
qed

lemma small_cast: "unat (x::u32_t) < 65536 \<Longrightarrow> (word_of_int (sint x) :: u64_t) = ucast x"
proof -
  assume "unat x < 65536"
  then have "x < 65536" by (simp add: word_less_nat_alt)
  then have "uint x < 65536" by (simp add: word_less_def)
  moreover have "0 \<le> uint x" by simp
  then have "- 2147483648 \<le> uint x" by linarith
  ultimately have "sint x = uint x" unfolding sint_uint by (intro signed_take_bit_int_eq_self) simp_all
  then show ?thesis by simp
qed
text \<open>
  At any other offset \<open>close\<close> hands the pointer into the view to \<open>UnmapViewOfFile\<close> instead of
  its base address: the mapping that was made stays in the address space for good.
\<close>

theorem wmap_unaligned_leaks_view:
  assumes "wn_lawful os handles views" "m_ptr m = 0" "offset mod wo_granularity os \<noteq> 0"
    and "wmap_map os fd offset len ro nm m w = Inr (r, m', w')" "r \<noteq> 0" "wmap_close os m' w' = (m'', w'')"
  shows "\<exists>base. base \<notin> views w \<and> base \<in> views w'' \<and> handles w'' = handles w \<and> \<not> mmap_is_valid m''
    \<and> r = base + ucast (offset mod wo_granularity os)"
proof -
  let ?o = "offset mod wo_granularity os"
  have "unat ?o < unat (wo_granularity os)"
    using wn_lawfulD(7) [OF assms(1)] by (simp add: unat_mod_distrib unat_gt_0)
  then have "unat ?o < 65536" using wn_lawfulD(8) [OF assms(1)] by simp
  then have cast: "win_offs os offset = ucast ?o" unfolding win_offs_def by (rule small_cast)
  obtain h w1 where h: "wo_create os (win_file os fd) ro (win_max offset len) nm w = (h, w1)" by fastforce
  obtain p w2 where p: "wo_view os h ro (win_base os offset) (win_offs os offset + win_len os fd offset len w1) w1 = (p, w2)" by fastforce
  have "Inr (r, m', w') = Inr (if h = 0 then (0, m\<lparr>m_hMap := 0\<rparr>, w1)
          else wmap_result os (m\<lparr>m_hMap := h, m_size := win_len os fd offset len w1,
                 m_ptr := (if p \<noteq> 0 then p + ucast ?o else 0)\<rparr>) w2)"
    using wmap_map_idle [OF assms(2) wn_lawfulD(7) [OF assms(1)] h p] assms(4) unfolding cast by simp
  then have h0: "h \<noteq> 0" and p0: "p \<noteq> 0" and m': "m_ptr m' = p + ucast ?o" "m_hMap m' = h" "r = p + ucast ?o" "w' = w2"
    using assms(5) by (auto simp: wmap_result_def split: if_splits)
  note c = wn_lawfulD(1) [OF assms(1) h] and v = wn_lawfulD(2) [OF assms(1) p]
  have "unat (ucast ?o :: u64_t) \<noteq> 0" unfolding unat_ucast_32_64 using assms(3) by (simp add: unat_eq_zero)
  then have "p + ucast ?o \<noteq> p" by auto
  moreover have "m_ptr m' \<noteq> 0" using assms(5) m' by simp
  then have "m'' = m'\<lparr>m_size := 0, m_ptr := 0\<rparr>" "w'' = wo_close os h (wo_unmap os (p + ucast ?o) w2)"
    using assms(6) m' h0 by (simp_all add: wmap_close_def)
  ultimately show ?thesis
    using c v h0 p0 m'(3) wn_lawfulD(3-6) [OF assms(1)] by (intro exI [of _ p]) (simp add: mmap_is_valid_def)
qed

lemma wmap_unaligned_leaks_view_witness:
  "\<exists>r m' w' base. wmap_map wn_demo_os 3 70000 100 True None mmap_new ({}, {}) = Inr (r, m', w')
    \<and> base \<in> snd (snd (wmap_close wn_demo_os m' w'))"
proof -
  define z where "z = wmap_map wn_demo_os 3 70000 100 True None mmap_new ({}, {})"
  have ok: "case z of Inr (r, m, w) \<Rightarrow> r \<noteq> 0 | Inl e \<Rightarrow> False" unfolding z_def by code_simp
  then obtain r m' w' where z: "z = Inr (r, m', w')" "r \<noteq> 0" by (auto split: sum.splits prod.splits)
  obtain m'' w'' where c: "wmap_close wn_demo_os m' w' = (m'', w'')" by (cases "wmap_close wn_demo_os m' w'")
  have g: "70000 mod wo_granularity wn_demo_os \<noteq> 0" by code_simp
  have new: "m_ptr mmap_new = 0" by (simp add: mmap_new_def)
  obtain base where "base \<in> snd w''"
    using wmap_unaligned_leaks_view [OF wn_demo_lawful new g z(1) [unfolded z_def] z(2) c] by blast
  then show ?thesis using z(1) c unfolding z_def by (intro exI [of _ r] exI [of _ m'] exI [of _ w'] exI [of _ base]) simp
qed

end
