(* ===== verification/GclMMapSample.thy ===== *)
theory GclMMapSample
  imports GclMMapProps
begin

section \<open>The mapping sample: \<open>samples/ex-mmap.cpp\<close>\<close>

text \<open>
  The program maps a file and prints its bytes, then maps a megabyte of memory, fills it with
  the letter A and reads it back. \<open>mem\<close> gives the byte at an address, if one is mapped there, and
  \<open>poke\<close> stores one; reading or writing where nothing is mapped is a fault. The loops count with an
  \<open>unsigned\<close> against a \<open>size_t\<close>, and the index of \<open>operator[]\<close> is an \<open>int\<close>.
\<close>

definition byte_at :: "('w \<Rightarrow> ptr \<Rightarrow> u8_t option) \<Rightarrow> mmap_obj \<Rightarrow> 'w \<Rightarrow> u32_t \<Rightarrow> u8_t res" where
  "byte_at mem m w i =
     rbind (mmap_at m (sint i)) (\<lambda>a. case mem w a of None \<Rightarrow> Inl OutOfBounds | Some b \<Rightarrow> Inr b)"

text \<open>
  The three loops: printing, \<open>memset\<close>, and comparing, which stops at the first other byte. As many
  turns as the size are enough, unless the counter wraps before it gets there.
\<close>

fun print_bytes :: "('w \<Rightarrow> ptr \<Rightarrow> u8_t option) \<Rightarrow> mmap_obj \<Rightarrow> 'w \<Rightarrow> u64_t \<Rightarrow> u32_t \<Rightarrow> nat \<Rightarrow> u8_t list res" where
  "print_bytes mem m w sz i 0 = (if ucast i < sz then Inl Diverges else Inr [])"
| "print_bytes mem m w sz i (Suc k) =
     (if ucast i < sz
      then rbind (byte_at mem m w i) (\<lambda>b. rbind (print_bytes mem m w sz (i + 1) k) (\<lambda>bs. Inr (b # bs)))
      else Inr [])"

fun memset_bytes :: "('w \<Rightarrow> ptr \<Rightarrow> u8_t option) \<Rightarrow> (ptr \<Rightarrow> u8_t \<Rightarrow> 'w \<Rightarrow> 'w) \<Rightarrow> ptr \<Rightarrow> u8_t \<Rightarrow> nat \<Rightarrow> 'w \<Rightarrow> 'w res" where
  "memset_bytes mem poke p c 0 w = Inr w"
| "memset_bytes mem poke p c (Suc k) w =
     (if mem w p = None then Inl OutOfBounds else memset_bytes mem poke (p + 1) c k (poke p c w))"

fun check_bytes :: "('w \<Rightarrow> ptr \<Rightarrow> u8_t option) \<Rightarrow> mmap_obj \<Rightarrow> 'w \<Rightarrow> u64_t \<Rightarrow> u32_t \<Rightarrow> nat \<Rightarrow> bool res" where
  "check_bytes mem m w sz i 0 = (if ucast i < sz then Inl Diverges else Inr True)"
| "check_bytes mem m w sz i (Suc k) =
     (if ucast i < sz
      then rbind (byte_at mem m w i) (\<lambda>b. if b \<noteq> 65 then Inr False else check_bytes mem m w sz (i + 1) k)
      else Inr True)"

text \<open>\<open>main\<close>: the bytes printed, the value returned, and the system after the destructor.\<close>

definition mmap_main ::
    "('n, 'w) mm_os \<Rightarrow> ('w \<Rightarrow> ptr \<Rightarrow> u8_t option) \<Rightarrow> (ptr \<Rightarrow> u8_t \<Rightarrow> 'w \<Rightarrow> 'w) \<Rightarrow> 'n \<Rightarrow> 'w \<Rightarrow> (u8_t list \<times> int \<times> 'w) res"
where
  "mmap_main os mem poke name w =
     rbind (mfile_ro_all os name mfile_new w) (\<lambda>(cp, f, w).
     let sz = mmap_get_size (mf_obj f) in rbind (print_bytes mem (mf_obj f) w sz 0 (unat sz)) (\<lambda>text.
     case mfile_close os f w of (f, w) \<Rightarrow>
     rbind (mmap_vrw os (1024 * 1024) (mf_obj f) w) (\<lambda>(p, m, w).
     let sz = mmap_get_size m in rbind (memset_bytes mem poke p 65 (unat sz) w) (\<lambda>w.
     rbind (check_bytes mem m w sz 0 (unat sz)) (\<lambda>ok.
     case mfile_close os (mf_make m (m_fd f)) w of (_, w) \<Rightarrow>
       Inr (text, if ok then 0 else -1, w))))))"

subsection \<open>Memory\<close>

text \<open>
  The documented behaviour of mapped memory: a file mapped in its full length shows its bytes
  (\<open>content\<close>), an anonymous mapping can be read and written, and a store changes one byte.
\<close>

definition mem_lawful ::
    "('n, 'w) mm_os \<Rightarrow> ('w \<Rightarrow> (ptr \<times> u64_t) set) \<Rightarrow> ('w \<Rightarrow> int set) \<Rightarrow> ('w \<Rightarrow> ptr \<Rightarrow> u8_t option)
      \<Rightarrow> (ptr \<Rightarrow> u8_t \<Rightarrow> 'w \<Rightarrow> 'w) \<Rightarrow> ('w \<Rightarrow> int \<Rightarrow> nat \<Rightarrow> u8_t) \<Rightarrow> bool"
where
  "mem_lawful os maps fds mem poke content \<longleftrightarrow>
     (\<forall>fd w n w1 p w2. filelength (os_lseek os) fd w = (n, w1) \<and> os_mmap os n False fd 0 w1 = (p, w2) \<and> p \<noteq> -1 \<longrightarrow>
        (\<forall>i < unat n. mem w2 (p + of_nat i) = Some (content w2 fd i))) \<and>
     (\<forall>n w p w1. os_mmap os n True (-1) 0 w = (p, w1) \<and> p \<noteq> -1 \<longrightarrow> (\<forall>i < unat n. mem w1 (p + of_nat i) \<noteq> None)) \<and>
     (\<forall>a b w. mem w a \<noteq> None \<longrightarrow> mem (poke a b w) = (mem w)(a \<mapsto> b) \<and> maps (poke a b w) = maps w \<and> fds (poke a b w) = fds w)"

lemma counter:
  assumes "j \<le> unat (sz :: u64_t)" "unat sz \<le> 2 ^ 31"
  shows "unat (of_nat j :: u32_t) = j" "ucast (of_nat j :: u32_t) < sz \<longleftrightarrow> j < unat sz"
proof -
  show j: "unat (of_nat j :: u32_t) = j" using assms by (simp add: unat_of_nat take_bit_nat_eq_self)
  show "ucast (of_nat j :: u32_t) < sz \<longleftrightarrow> j < unat sz" by (simp add: word_less_nat_alt unat_ucast_32_64 j)
qed

lemma byte_at_ok:
  assumes "m_ptr m \<noteq> 0" "j < 2 ^ 31" "mem w (m_ptr m + of_nat j) = Some b"
  shows "byte_at mem m w (of_nat j) = Inr b"
proof -
  have "sint (of_nat j :: u32_t) = int j"
    using assms(2) by (simp add: signed_of_nat signed_take_bit_int_eq_self)
  then show ?thesis using assms(1,3) by (simp add: byte_at_def mmap_at_def)
qed

lemma print_bytes_ok:
  assumes "m_ptr m \<noteq> 0" "unat sz \<le> 2 ^ 31" "\<forall>j < unat sz. mem w (m_ptr m + of_nat j) = Some (c j)"
  shows "j + k = unat sz \<Longrightarrow> print_bytes mem m w sz (of_nat j) k = Inr (map c [j..<unat sz])"
proof (induction k arbitrary: j)
  case 0
  then show ?case using counter [of j sz] assms(2) by simp
next
  case (Suc k)
  have "byte_at mem m w (of_nat j) = Inr (c j)" using assms Suc.prems by (intro byte_at_ok) auto
  moreover have "print_bytes mem m w sz (of_nat j + 1) k = Inr (map c [Suc j..<unat sz])"
    using Suc.IH [of "Suc j"] Suc.prems by (simp add: add.commute)
  ultimately show ?case using counter [of j sz] assms(2) Suc.prems by (simp add: upt_conv_Cons)
qed

lemma check_bytes_ok:
  assumes "m_ptr m \<noteq> 0" "unat sz \<le> 2 ^ 31" "\<forall>j < unat sz. mem w (m_ptr m + of_nat j) = Some 65"
  shows "j + k = unat sz \<Longrightarrow> check_bytes mem m w sz (of_nat j) k = Inr True"
proof (induction k arbitrary: j)
  case 0
  then show ?case using counter [of j sz] assms(2) by simp
next
  case (Suc k)
  have "byte_at mem m w (of_nat j) = Inr 65" using assms Suc.prems by (intro byte_at_ok) auto
  moreover have "check_bytes mem m w sz (of_nat j + 1) k = Inr True"
    using Suc.IH [of "Suc j"] Suc.prems by (simp add: add.commute)
  ultimately show ?case using counter [of j sz] assms(2) Suc.prems by simp
qed

lemma memset_bytes_ok:
  assumes "mem_lawful os maps fds mem poke content"
  shows "\<forall>i < k. mem w (p + of_nat i) \<noteq> None \<Longrightarrow>
    \<exists>w'. memset_bytes mem poke p c k w = Inr w' \<and> maps w' = maps w \<and> fds w' = fds w
      \<and> (\<forall>i < k. mem w' (p + of_nat i) = Some c) \<and> (\<forall>a. mem w a = Some c \<longrightarrow> mem w' a = Some c)"
proof (induction k arbitrary: p w)
  case (Suc k)
  have p: "mem w p \<noteq> None" using Suc.prems by (auto dest: spec [of _ 0])
  then have v: "mem (poke p c w) = (mem w)(p \<mapsto> c)" "maps (poke p c w) = maps w" "fds (poke p c w) = fds w"
    using assms unfolding mem_lawful_def by blast+
  have "\<forall>i < k. mem (poke p c w) (p + 1 + of_nat i) \<noteq> None"
    using Suc.prems unfolding v(1) by (auto simp: add.assoc dest: spec [of _ "Suc _"])
  from Suc.IH [OF this] obtain w' where w': "memset_bytes mem poke (p + 1) c k (poke p c w) = Inr w'"
    "maps w' = maps w" "fds w' = fds w" "\<forall>i < k. mem w' (p + 1 + of_nat i) = Some c"
    "\<forall>a. mem (poke p c w) a = Some c \<longrightarrow> mem w' a = Some c" unfolding v(2,3) by blast
  have "mem w' (p + of_nat i) = Some c" if "i < Suc k" for i
  proof (cases i)
    case 0
    then show ?thesis using w'(5) v(1) by simp
  next
    case (Suc j)
    then show ?thesis using w'(4) that by (auto simp: add.assoc)
  qed
  then show ?case using p w' v(1) by auto
qed simp

subsection \<open>The program\<close>

text \<open>What is printed: the bytes of the file if it can be opened and mapped, else nothing.\<close>

definition file_text :: "('n, 'w) mm_os \<Rightarrow> ('w \<Rightarrow> int \<Rightarrow> nat \<Rightarrow> u8_t) \<Rightarrow> 'n \<Rightarrow> 'w \<Rightarrow> u8_t list" where
  "file_text os content name w =
     (case os_open os name False w of (fd, w) \<Rightarrow>
      case filelength (os_lseek os) fd w of (n, w) \<Rightarrow>
      case os_mmap os n False fd 0 w of (p, w) \<Rightarrow>
        if fd = -1 \<or> p = -1 then [] else map (content w fd) [0..<unat n])"

lemma file_half:
  assumes "mm_lawful os maps fds" "mem_lawful os maps fds mem poke content"
    and "length (file_text os content name w) \<le> 2 ^ 31"
  obtains cp f w1 f' w2 where "mfile_ro_all os name mfile_new w = Inr (cp, f, w1)"
    "print_bytes mem (mf_obj f) w1 (mmap_get_size (mf_obj f)) 0 (unat (mmap_get_size (mf_obj f))) = Inr (file_text os content name w)"
    "mfile_close os f w1 = (f', w2)" "m_ptr f' = 0" "m_fd f' = -1" "maps w2 = maps w" "fds w2 = fds w"
proof -
  note L = mm_lawfulD [OF assms(1)]
  obtain fd v1 where o: "os_open os name False w = (fd, v1)" by fastforce
  obtain n v2 where l: "filelength (os_lseek os) fd v1 = (n, v2)" by fastforce
  obtain p v3 where m: "os_mmap os n False fd 0 v2 = (p, v3)" by fastforce
  note lo = L(6) [OF o] and ll = mm_lawful_filelength [OF assms(1) l] and lm = L(2) [OF m]
  consider (closed) "fd = -1" | (failed) "fd \<noteq> -1" "p = -1" | (mapped) "fd \<noteq> -1" "p \<noteq> -1" by blast
  then show thesis
  proof cases
    case closed
    have "mfile_ro_all os name mfile_new w = Inr (0, mfile_new, v1)"
      using closed o by (simp add: mfile_ro_all_def mfile_map_def mmap_is_valid_def mf_obj_def mfile_new_def)
    moreover have "mfile_close os mfile_new v1 = (mfile_new, v1)"
      by (simp add: mfile_close_def mmap_close_def mf_obj_def mfile_new_def mf_make_def)
    ultimately show thesis using that [of 0 mfile_new v1 mfile_new v1] closed o l m lo
      by (simp add: file_text_def mfile_new_def mf_obj_def mmap_get_size_def)
  next
    case failed
    let ?f = "\<lparr>m_hMap = 0, m_ptr = 0, m_size = 0, m_fd = fd\<rparr>"
    have "mfile_ro_all os name mfile_new w = Inr (0, ?f, v3)"
      using failed o l m by (simp add: mfile_ro_all_def mfile_map_def mmap_is_valid_def mf_obj_def mfile_new_def
        mmap_map_def mmap_length_def mmap_result_def mf_make_def)
    moreover have "mfile_close os ?f v3 = (mfile_new, os_close os fd v3)"
      using failed by (simp add: mfile_close_def mmap_close_def mf_obj_def mfile_new_def mf_make_def)
    ultimately show thesis using that [of 0 ?f v3 mfile_new "os_close os fd v3"] failed o l m lo ll lm L(7,8) [of fd v3]
      by (simp add: file_text_def mfile_new_def mf_obj_def mmap_get_size_def)
  next
    case mapped
    let ?f = "\<lparr>m_hMap = p, m_ptr = p, m_size = n, m_fd = fd\<rparr>"
    let ?w2 = "os_close os fd (os_munmap os p n v3)"
    have p0: "p \<noteq> 0" using lm mapped by simp
    have map: "mfile_ro_all os name mfile_new w = Inr (p, ?f, v3)"
      using mapped o l m by (simp add: mfile_ro_all_def mfile_map_def mmap_is_valid_def mf_obj_def mfile_new_def
        mmap_map_def mmap_length_def mmap_result_def mf_make_def)
    have close: "mfile_close os ?f v3 = (\<lparr>m_hMap = p, m_ptr = 0, m_size = 0, m_fd = -1\<rparr>, ?w2)"
      using mapped p0 by (simp add: mfile_close_def mmap_close_def mf_obj_def mf_make_def)
    have "\<forall>i < unat n. mem v3 (p + of_nat i) = Some (content v3 fd i)"
      using assms(2) l m mapped(2) unfolding mem_lawful_def by blast
    moreover have "unat n \<le> 2 ^ 31" using assms(3) mapped o l m by (simp add: file_text_def)
    ultimately have print: "print_bytes mem (mf_obj ?f) v3 n 0 (unat n) = Inr (map (content v3 fd) [0..<unat n])"
      using print_bytes_ok [of "mf_obj ?f" n mem v3 "content v3 fd" 0 "unat n"] p0 by (simp add: mf_obj_def)
    have "maps ?w2 = maps w" "fds ?w2 = fds w" using L(3,4) [of p n v3] L(7,8) [of fd "os_munmap os p n v3"] lo ll lm mapped by auto
    then show thesis using that [OF map _ close] print mapped o l m
      by (simp add: file_text_def mmap_get_size_def mf_obj_def)
  qed
qed

lemma memory_half:
  assumes "mm_lawful os maps fds" "mem_lawful os maps fds mem poke content" "m_ptr m = 0"
  obtains p m1 w1 w2 m2 w3 where "mmap_vrw os (1024 * 1024) m w = Inr (p, m1, w1)"
    "memset_bytes mem poke p 65 (unat (mmap_get_size m1)) w1 = Inr w2"
    "check_bytes mem m1 w2 (mmap_get_size m1) 0 (unat (mmap_get_size m1)) = Inr True"
    "mmap_close os m1 w2 = (m2, w3)" "maps w3 = maps w" "fds w3 = fds w"
proof -
  note L = mm_lawfulD [OF assms(1)]
  obtain p w1 where m: "os_mmap os 1048576 True (-1) 0 w = (p, w1)" by fastforce
  note lm = L(2) [OF m]
  show thesis
  proof (cases "p = -1")
    case True
    let ?m = "\<lparr>m_hMap = 0, m_ptr = 0, m_size = 0\<rparr>"
    have "mmap_vrw os (1024 * 1024) m w = Inr (0, ?m, w1)"
      using True m assms(3) by (simp add: mmap_vrw_def mmap_map_def mmap_is_valid_def mmap_length_def mmap_result_def)
    then show thesis using that [of 0 ?m w1 w1 ?m w1] True lm by (simp add: mmap_get_size_def mmap_close_def)
  next
    case False
    let ?m = "\<lparr>m_hMap = p, m_ptr = p, m_size = 1048576\<rparr>"
    have p0: "p \<noteq> 0" using lm False by simp
    have map: "mmap_vrw os (1024 * 1024) m w = Inr (p, ?m, w1)"
      using False m assms(3) by (simp add: mmap_vrw_def mmap_map_def mmap_is_valid_def mmap_length_def mmap_result_def)
    have "\<forall>i < unat (1048576 :: u64_t). mem w1 (p + of_nat i) \<noteq> None"
      using assms(2) m False unfolding mem_lawful_def by blast
    from memset_bytes_ok [OF assms(2) this, of 65] obtain w2 where w2:
      "memset_bytes mem poke p 65 (unat (1048576 :: u64_t)) w1 = Inr w2" "maps w2 = maps w1" "fds w2 = fds w1"
      "\<forall>i < unat (1048576 :: u64_t). mem w2 (p + of_nat i) = Some 65" by blast
    have "check_bytes mem ?m w2 1048576 0 (unat (1048576 :: u64_t)) = Inr True"
      using check_bytes_ok [of ?m 1048576 mem w2 0 "unat (1048576 :: u64_t)"] w2(4) p0 by simp
    moreover have "mmap_close os ?m w2 = (?m\<lparr>m_size := 0, m_ptr := 0\<rparr>, os_munmap os p 1048576 w2)"
      using p0 by (simp add: mmap_close_def)
    moreover have "maps (os_munmap os p 1048576 w2) = maps w" "fds (os_munmap os p 1048576 w2) = fds w"
      using L(3,4) [of p 1048576 w2] w2(2,3) lm False by auto
    ultimately show thesis using that [OF map] w2(1) by (simp add: mmap_get_size_def)
  qed
qed

text \<open>
  C28: Whether the file and the memory can be mapped or not, the program reads and writes mapped
  bytes only, prints the file from its first byte to its last (or nothing when it could not be
  opened or mapped), returns 0, and leaves no mapping and no descriptor behind. This is for a file
  of at most 2 GiB: the index is an \<open>int\<close>, which is negative for the bytes beyond. Nothing is
  asked of other files, nor of this one when it cannot be opened or mapped.
\<close>

theorem mmap_main_restores:
  assumes "mm_lawful os maps fds" "mem_lawful os maps fds mem poke content"
    and "length (file_text os content name w) \<le> 2 ^ 31"
  shows "\<exists>w'. mmap_main os mem poke name w = Inr (file_text os content name w, 0, w') \<and> maps w' = maps w \<and> fds w' = fds w"
proof -
  obtain cp f w1 f' w2 where a: "mfile_ro_all os name mfile_new w = Inr (cp, f, w1)"
    "print_bytes mem (mf_obj f) w1 (mmap_get_size (mf_obj f)) 0 (unat (mmap_get_size (mf_obj f))) = Inr (file_text os content name w)"
    "mfile_close os f w1 = (f', w2)" "m_ptr f' = 0" "m_fd f' = -1" "maps w2 = maps w" "fds w2 = fds w"
    by (rule file_half [where name = name and w = w, OF assms])
  have "m_ptr (mf_obj f') = 0" using a(4) by (simp add: mf_obj_def)
  then obtain p m1 v1 v2 m2 v3 where b: "mmap_vrw os (1024 * 1024) (mf_obj f') w2 = Inr (p, m1, v1)"
    "memset_bytes mem poke p 65 (unat (mmap_get_size m1)) v1 = Inr v2"
    "check_bytes mem m1 v2 (mmap_get_size m1) 0 (unat (mmap_get_size m1)) = Inr True"
    "mmap_close os m1 v2 = (m2, v3)" "maps v3 = maps w2" "fds v3 = fds w2"
    by (rule memory_half [OF assms(1,2), of "mf_obj f'" w2])
  have "mf_obj (mf_make m1 (-1)) = m1" by (cases m1) (simp add: mf_obj_def mf_make_def)
  then have "mfile_close os (mf_make m1 (m_fd f')) v2 = (mf_make m2 (-1), v3)"
    using a(5) b(4) by (simp add: mfile_close_def mf_make_def)
  then have "mmap_main os mem poke name w = Inr (file_text os content name w, 0, v3)"
    unfolding mmap_main_def a(1) rbind_Inr prod.case Let_def a(2) a(3) b(1) b(2) b(3) by simp
  then show ?thesis using a(6,7) b(5,6) by auto
qed

text \<open>A system with memory on top of one that maps: files are full of zeros, fresh mappings as well.\<close>

definition mm_with_mem :: "('n, 'w) mm_os \<Rightarrow> ('n, 'w \<times> (ptr \<Rightarrow> u8_t)) mm_os" where
  "mm_with_mem os = \<lparr>os_lseek = (\<lambda>fd off wh (w, s). case os_lseek os fd off wh w of (r, w) \<Rightarrow> (r, w, s)),
     os_mmap = (\<lambda>n wr fd off (w, s). case os_mmap os n wr fd off w of (p, w) \<Rightarrow>
        (p, w, if p = -1 then s else (\<lambda>a. if unat (a - p) < unat n then 0 else s a))),
     os_munmap = (\<lambda>p n (w, s). (os_munmap os p n w, s)),
     os_open = (\<lambda>nm wr (w, s). case os_open os nm wr w of (fd, w) \<Rightarrow> (fd, w, s)),
     os_close = (\<lambda>fd (w, s). (os_close os fd w, s)), os_pagesize = os_pagesize os\<rparr>"

lemma mm_with_mem_lawful: "mm_lawful os maps fds \<Longrightarrow> mm_lawful (mm_with_mem os) (maps \<circ> fst) (fds \<circ> fst)"
proof -
  let ?os = "mm_with_mem os"
  assume lawful: "mm_lawful os maps fds"
  note L = mm_lawfulD [OF lawful]
  have m: "os_mmap os n wr fd off (fst w) = (p, fst w')" if "os_mmap ?os n wr fd off w = (p, w')" for n wr fd off w p w'
    using that by (auto simp: mm_with_mem_def split: prod.splits)
  have l: "os_lseek os fd off wh (fst w) = (r, fst w')" if "os_lseek ?os fd off wh w = (r, w')" for fd off wh w r w'
    using that by (auto simp: mm_with_mem_def split: prod.splits)
  have o: "os_open os nm wr (fst w) = (fd, fst w')" if "os_open ?os nm wr w = (fd, w')" for nm wr w fd w'
    using that by (auto simp: mm_with_mem_def split: prod.splits)
  have u: "fst (os_munmap ?os p n w) = os_munmap os p n (fst w)" "fst (os_close ?os fd w) = os_close os fd (fst w)"
    "os_pagesize ?os = os_pagesize os" for p n fd w by (cases w; simp add: mm_with_mem_def)+
  show ?thesis
    unfolding mm_lawful_def o_apply u
  proof (intro conjI)
    show "\<forall>n wr fd off w p w'. os_mmap ?os n wr fd off w = (p, w') \<longrightarrow> fds (fst w') = fds (fst w) \<and>
        (if p = -1 then maps (fst w') = maps (fst w)
         else p \<noteq> 0 \<and> unat p + 2 ^ 31 < 2 ^ 64 \<and> (\<forall>l. (p, l) \<notin> maps (fst w)) \<and> maps (fst w') = insert (p, n) (maps (fst w)))"
      using L(2) [OF m] by blast
    show "\<forall>fd off wh w r w'. os_lseek ?os fd off wh w = (r, w') \<longrightarrow> maps (fst w') = maps (fst w) \<and> fds (fst w') = fds (fst w)"
      using L(5) [OF l] by blast
    show "\<forall>nm wr w fd w'. os_open ?os nm wr w = (fd, w') \<longrightarrow> maps (fst w') = maps (fst w) \<and>
        (if fd = -1 then fds (fst w') = fds (fst w) else fd \<notin> fds (fst w) \<and> fds (fst w') = insert fd (fds (fst w)))"
      using L(6) [OF o] by blast
  qed (use L(1,3,4,7,8,9,10) in simp_all)
qed

lemma mem_demo_lawful:
  "mem_lawful (mm_with_mem os) (maps \<circ> fst) (fds \<circ> fst) (\<lambda>w a. Some (snd w a)) (\<lambda>a b (w, s). (w, s(a := b))) (\<lambda>_ _ _. 0)"
proof -
  have "unat (of_nat i :: ptr) < unat n" if "i < unat n" for i and n :: u64_t
    using that unsigned_less [of n, where ?'a = nat] by (simp add: unat_of_nat take_bit_nat_eq_self)
  then show ?thesis by (auto simp: mem_lawful_def mm_with_mem_def fun_eq_iff split: prod.splits)
qed

lemma mmap_main_restores_witness:
  "\<exists>w'. mmap_main (mm_with_mem (mm_demo_os {})) (\<lambda>w a. Some (snd w a)) (\<lambda>a b (w, s). (w, s(a := b))) 3 (([], {}), \<lambda>_. 1)
      = Inr (replicate 5000 0, 0, w') \<and> snd (fst w') = {}"
proof -
  have shown: "file_text (mm_with_mem (mm_demo_os {})) (\<lambda>_ _ _. 0) 3 (([], {}), \<lambda>_. 1) = replicate 5000 0"
    by (simp add: file_text_def filelength_def mm_with_mem_def mm_demo_os_def mm_page_def map_replicate_const)
  let ?w = "(([], {}), \<lambda>_. 1) :: mm_world \<times> (ptr \<Rightarrow> u8_t)"
  obtain w' where "mmap_main (mm_with_mem (mm_demo_os {})) (\<lambda>w a. Some (snd w a)) (\<lambda>a b (w, s). (w, s(a := b))) 3 ?w
      = Inr (file_text (mm_with_mem (mm_demo_os {})) (\<lambda>_ _ _. 0) 3 ?w, 0, w')" "(snd \<circ> fst) w' = (snd \<circ> fst) ?w"
    using mmap_main_restores [where name = 3 and w = ?w, OF mm_with_mem_lawful [OF mm_demo_lawful [of "{}"]] mem_demo_lawful]
    unfolding shown by fastforce
  then show ?thesis unfolding shown by auto
qed

end
