(* ===== verification/GclSocketFrames.thy ===== *)
theory GclSocketFrames
  imports GclSocketProps "HOL-Library.Sublist"
begin

section \<open>V protocol: constants, replies and packets with data\<close>

text \<open>
  The constants of \<open>include/gsocket.h\<close>, the reply packet, and what a sequence of packets with data
  becomes on the way through two stream sockets: \<open>put_packets\<close> writes each with one
  \<open>writevp(vp, len)\<close>, \<open>get_packets\<close> reads the header with \<open>readvp\<close> and its \<open>dlen\<close> bytes with \<open>readn\<close>.
\<close>

subsection \<open>Constants\<close>

datatype enumVProtocolConstants =
    VPT_REQUEST | VPT_REPLY | VPT_USER
  | VPR_CONNECT | VPR_DISCONNECT | VPR_CHECK | VPR_USER
  | VPE_SUCCESS | VPE_PROTOCOL | VPE_UNKNOWNREQUEST | VPE_FAULT | VPE_FAIL | VPE_INTERNAL | VPE_PVERSION | VPE_USER
  | VNET_TIMEOUT

fun vp_const :: "enumVProtocolConstants \<Rightarrow> nat" where
  "vp_const VPT_REQUEST = 1"
| "vp_const VPT_REPLY = 2"
| "vp_const VPT_USER = 32"
| "vp_const VPR_CONNECT = 1"
| "vp_const VPR_DISCONNECT = 2"
| "vp_const VPR_CHECK = 3"
| "vp_const VPR_USER = 32"
| "vp_const VPE_SUCCESS = 0"
| "vp_const VPE_PROTOCOL = 1"
| "vp_const VPE_UNKNOWNREQUEST = 2"
| "vp_const VPE_FAULT = 3"
| "vp_const VPE_FAIL = 4"
| "vp_const VPE_INTERNAL = 5"
| "vp_const VPE_PVERSION = 6"
| "vp_const VPE_USER = 32"
| "vp_const VNET_TIMEOUT = 5000"

lemma vp_const_byte: "c \<noteq> VNET_TIMEOUT \<Longrightarrow> vp_const c < 256"
  by (cases c) simp_all

lemma unat_small_byte: "n < 256 \<Longrightarrow> unat (ucast (of_nat n :: u32_t) :: u8_t) = n"
  by (simp add: unsigned_ucast_eq unsigned_of_nat unsigned_take_bit_eq take_bit_eq_mod)

subsection \<open>Exact transfers\<close>

lemma writen_total:
  assumes "sock_stream os (sock_fd sock) rx tx" "sock_clock os now" "unat sock < 1024"
    "n = int (length buf)" "n < 2147483648" "unat timeout \<le> 536870912" "deadline timeout \<le> turns"
  obtains ok k1 c where "gsock_writen os turns sock buf n timeout k = Inr (ok, k1)" "tx k1 = tx k @ take c buf"
    "ok \<longrightarrow> tx k1 = tx k @ buf"
proof -
  have n: "0 \<le> n" "n \<le> int (length buf)" using assms(4) by simp_all
  obtain r k1 c where w: "gsock_write os turns sock buf n timeout k = Inr (r, k1)" "0 \<le> c" "c \<le> n" "r = -1 \<or> r = c"
    "tx k1 = tx k @ take (nat c) buf" "rx k1 = rx k"
    by (rule write_total [OF assms(1-3) n assms(5-7)])
  show thesis
    by (rule that [of "r = n" k1 "nat c"]) (use w assms(4) in \<open>auto simp: gsock_writen_def\<close>)
qed

lemma readn_total:
  assumes "sock_stream os (sock_fd sock) rx tx" "sock_clock os now" "unat sock < 1024"
    "n = int (length buf)" "n < 2147483648" "unat timeout \<le> 536870912" "deadline timeout \<le> turns"
  obtains ok b k1 where "gsock_readn os turns sock buf n timeout k = Inr (ok, b, k1)" "length b = length buf"
    "ok \<longrightarrow> rx k = b @ rx k1"
proof -
  have n: "0 \<le> n" "n \<le> int (length buf)" using assms(4) by simp_all
  obtain r b k1 c where w: "gsock_read os turns sock buf n timeout k = Inr (r, b, k1)" "0 \<le> c" "c \<le> n" "r = -1 \<or> r = c"
    "rx k = take (nat c) b @ rx k1" "length b = length buf" "drop (nat c) b = drop (nat c) buf" "tx k1 = tx k"
    by (rule read_total [OF assms(1-3) n assms(5-7)])
  show thesis
    by (rule that [of "r = n" b k1]) (use w assms(4) in \<open>auto simp: gsock_readn_def\<close>)
qed

subsection \<open>Packets with data\<close>

type_synonym packet = "vpacket_t \<times> u8_t list"

definition vp_frame :: "packet \<Rightarrow> u8_t list" where
  "vp_frame p = vp_bytes (fst p) @ snd p"

lemma vp_frame_pair: "vp_frame (vp, data) = vp_bytes vp @ data"
  by (simp add: vp_frame_def)

definition packet_ok :: "packet \<Rightarrow> bool" where
  "packet_ok p \<longleftrightarrow> length (snd p) = unat (vp_dlen (fst p))"

fun put_packets :: "'k sock_os \<Rightarrow> nat \<Rightarrow> u64_t \<Rightarrow> packet list \<Rightarrow> socket_obj \<Rightarrow> 'k \<Rightarrow> (bool \<times> 'k) res" where
  "put_packets os turns timeout [] s k = Inr (True, k)"
| "put_packets os turns timeout ((vp, data) # ps) s k =
     rbind (sk_writevpn os turns vp data (4 + int (length data)) timeout s k) (\<lambda>(ok, k).
       if ok then put_packets os turns timeout ps s k else Inr (False, k))"

fun get_packets :: "'k sock_os \<Rightarrow> nat \<Rightarrow> u64_t \<Rightarrow> nat \<Rightarrow> socket_obj \<Rightarrow> 'k \<Rightarrow> (packet list \<times> 'k) res" where
  "get_packets os turns timeout 0 s k = Inr ([], k)"
| "get_packets os turns timeout (Suc n) s k =
     rbind (sk_readvp os turns \<lparr>vp_type = 0, vp_code = 0, vp_dlen = 0\<rparr> timeout s k) (\<lambda>(ok, vp, k).
       if \<not> ok then Inr ([], k)
       else rbind (sk_readn os turns (replicate (unat (vp_dlen vp)) 0) (int (unat (vp_dlen vp))) timeout s k) (\<lambda>(ok, buf, k).
         if \<not> ok then Inr ([], k)
         else rbind (get_packets os turns timeout n s k) (\<lambda>(ps, k). Inr ((vp, buf) # ps, k))))"

lemma unat_u16: "unat (w :: u16_t) < 65536"
  using unsigned_less [of w, where ?'a = nat] by simp

lemma put_packets_total:
  assumes "sock_stream os (sock_fd (m_sock s)) rx tx" "sock_clock os now" "unat (m_sock s) < 1024"
    and "unat timeout \<le> 536870912" "deadline timeout \<le> turns"
  shows "list_all packet_ok ps \<Longrightarrow>
    \<exists>ok k1 c. put_packets os turns timeout ps s k = Inr (ok, k1) \<and> tx k1 = tx k @ take c (concat (map vp_frame ps))
      \<and> (ok \<longrightarrow> tx k1 = tx k @ concat (map vp_frame ps))"
proof (induction ps arbitrary: k)
  case (Cons p ps)
  obtain vp data where p: "p = (vp, data)" by (cases p)
  have d: "length data < 65536" using Cons.prems unat_u16 [of "vp_dlen vp"] by (simp add: p packet_ok_def)
  have n: "4 + int (length data) = int (length (vp_bytes vp @ data))" "4 + int (length data) < 2147483648" using d by simp_all
  obtain ok k1 c where w: "gsock_writen os turns (m_sock s) (vp_bytes vp @ data) (4 + int (length data)) timeout k = Inr (ok, k1)"
    "tx k1 = tx k @ take c (vp_bytes vp @ data)" "ok \<longrightarrow> tx k1 = tx k @ vp_bytes vp @ data"
    by (rule writen_total [OF assms(1-3) n assms(4,5)])
  have put: "put_packets os turns timeout (p # ps) s k = (if ok then put_packets os turns timeout ps s k1 else Inr (False, k1))"
    using w(1) by (simp add: p sk_writevpn_def gsock_writevpn_def)
  show ?case
  proof (cases ok)
    case True
    have ps: "list_all packet_ok ps" using Cons.prems by simp
    obtain ok2 k2 c2 where i: "put_packets os turns timeout ps s k1 = Inr (ok2, k2)"
      "tx k2 = tx k1 @ take c2 (concat (map vp_frame ps))" "ok2 \<longrightarrow> tx k2 = tx k1 @ concat (map vp_frame ps)"
      using Cons.IH [OF ps, of k1] by blast
    have "tx k2 = tx k @ take (length (vp_frame p) + c2) (concat (map vp_frame (p # ps)))"
      "ok2 \<longrightarrow> tx k2 = tx k @ concat (map vp_frame (p # ps))"
      using i(2,3) w(3) True by (simp_all add: p vp_frame_pair)
    moreover have "put_packets os turns timeout (p # ps) s k = Inr (ok2, k2)" unfolding put using True i(1) by simp
    ultimately show ?thesis by blast
  next
    case False
    have "take (min c (length (vp_frame p))) (concat (map vp_frame (p # ps))) = take c (vp_bytes vp @ data)"
      by (simp add: p vp_frame_pair min_def)
    then have "tx k1 = tx k @ take (min c (length (vp_frame p))) (concat (map vp_frame (p # ps)))" using w(2) by simp
    moreover have "put_packets os turns timeout (p # ps) s k = Inr (False, k1)" unfolding put using False by simp
    ultimately show ?thesis by blast
  qed
qed (auto intro: exI [of _ 0])

text \<open>A stream that is a part of the packets from the first on.\<close>

lemma front_of_take:
  assumes "b @ r = take c (a @ rest)" "length b = length a"
  shows "b = a" "r = take (c - length a) rest"
proof -
  have "length b \<le> c" using arg_cong [OF assms(1), of length] by simp
  then have "b @ r = a @ take (c - length a) rest" using assms by simp
  then show "b = a" "r = take (c - length a) rest" using assms(2) by simp_all
qed

lemma get_packets_prefix:
  assumes "sock_stream os (sock_fd (m_sock s)) rx tx" "sock_clock os now" "unat (m_sock s) < 1024"
    and "unat timeout \<le> 536870912" "deadline timeout \<le> turns"
  shows "list_all packet_ok ps \<Longrightarrow> rx k = take c (concat (map vp_frame ps)) \<Longrightarrow>
    \<exists>qs k'. get_packets os turns timeout n s k = Inr (qs, k') \<and> prefix qs ps"
proof (induction n arbitrary: ps c k)
  case (Suc n)
  let ?vp0 = "\<lparr>vp_type = 0, vp_code = 0, vp_dlen = 0\<rparr>"
  obtain ok b k1 where h: "gsock_readn os turns (m_sock s) (vp_bytes ?vp0) 4 timeout k = Inr (ok, b, k1)" "length b = length (vp_bytes ?vp0)"
    "ok \<longrightarrow> rx k = b @ rx k1"
    by (rule readn_total [OF assms(1-3) _ _ assms(4,5), of 4 "vp_bytes ?vp0" k]) simp_all
  show ?case
  proof (cases ok)
    case False
    then show ?thesis using h(1) by (simp add: sk_readvp_def gsock_readvp_def)
  next
    case ok: True
    show ?thesis
    proof (cases ps)
      case Nil
      then show ?thesis using ok h(2,3) Suc.prems(2) by simp
    next
      case (Cons p ps')
      obtain vp data where p: "p = (vp, data)" by (cases p)
      have "b @ rx k1 = take c (vp_bytes vp @ data @ concat (map vp_frame ps'))"
        using ok h(3) Suc.prems(2) by (simp add: Cons p vp_frame_pair del: take_append)
      from front_of_take [OF this] h(2)
      have b: "b = vp_bytes vp" "rx k1 = take (c - 4) (data @ concat (map vp_frame ps'))" by simp_all
      let ?n = "unat (vp_dlen vp)"
      have len: "length data = ?n" using Suc.prems(1) by (simp add: Cons p packet_ok_def)
      have m: "int ?n = int (length (replicate ?n 0))" "int ?n < 2147483648"
        using unat_u16 [of "vp_dlen vp"] by (simp, linarith)
      obtain ok2 b2 k2 where g: "gsock_readn os turns (m_sock s) (replicate ?n 0) (int ?n) timeout k1 = Inr (ok2, b2, k2)"
        "length b2 = length (replicate ?n (0 :: u8_t))" "ok2 \<longrightarrow> rx k1 = b2 @ rx k2"
        by (rule readn_total [OF assms(1-3) m assms(4,5)])
      have get: "get_packets os turns timeout (Suc n) s k
          = (if ok2 then rbind (get_packets os turns timeout n s k2) (\<lambda>(ps, k). Inr ((vp, b2) # ps, k)) else Inr ([], k2))"
        using ok h(1) g(1) b(1) by (simp add: sk_readvp_def gsock_readvp_def sk_readn_def vp_of_bytes_vp_bytes)
      show ?thesis
      proof (cases ok2)
        case True
        have "b2 @ rx k2 = take (c - 4) (data @ concat (map vp_frame ps'))" using True g(3) b(2) by simp
        from front_of_take [OF this] g(2) len
        have r: "b2 = data" "rx k2 = take (c - 4 - length data) (concat (map vp_frame ps'))" by simp_all
        have "list_all packet_ok ps'" using Suc.prems(1) by (simp add: Cons)
        from Suc.IH [OF this r(2)] show ?thesis using get True r(1) by (auto simp: Cons p)
      qed (use get in simp)
    qed
  qed
qed simp

text \<open>
  C25: Packets with data, written one after the other with \<open>writevp(vp, len)\<close> and read with \<open>readvp\<close> and
  \<open>readn\<close>: both sides return, and whatever the two systems make of the transfers, up to where one
  gives up the packets arrive whole, in order and with their data, and nothing else does.
\<close>

theorem vpackets_arrive:
  assumes "sock_stream os (sock_fd (m_sock s)) rx tx" "sock_clock os now" "unat (m_sock s) < 1024"
    and "sock_stream os' (sock_fd (m_sock s')) rx' tx'" "sock_clock os' now'" "unat (m_sock s') < 1024"
    and "unat timeout \<le> 536870912" "deadline timeout \<le> turns"
    and "\<forall>p \<in> set ps. length (snd p) = unat (vp_dlen (fst p))"
  shows "\<exists>ok k1. put_packets os turns timeout ps s k = Inr (ok, k1) \<and>
    (\<forall>k'. rx' k' = drop (length (tx k)) (tx k1) \<longrightarrow>
      (\<exists>qs k2. get_packets os' turns timeout n s' k' = Inr (qs, k2) \<and> prefix qs ps))"
proof -
  have ok: "list_all packet_ok ps" using assms(9) by (simp add: list_all_iff packet_ok_def)
  obtain b k1 c where w: "put_packets os turns timeout ps s k = Inr (b, k1)" "tx k1 = tx k @ take c (concat (map vp_frame ps))"
    using put_packets_total [OF assms(1-3,7,8) ok, of k] by blast
  have "\<exists>qs k2. get_packets os' turns timeout n s' k' = Inr (qs, k2) \<and> prefix qs ps"
    if "rx' k' = drop (length (tx k)) (tx k1)" for k'
    by (rule get_packets_prefix [OF assms(4-8) ok, of k' c]) (use that w(2) in simp)
  with w(1) show ?thesis by blast
qed

theorem vpackets_arrive_witness:
  "\<exists>ok k1 qs k2. put_packets mem_os 2000000 1 [(\<lparr>vp_type = 1, vp_code = 3, vp_dlen = 2\<rparr>, [7, 8]), (\<lparr>vp_type = 2, vp_code = 0, vp_dlen = 0\<rparr>, [])]
      (sk_of 3) \<lparr>mn_in = [], mn_out = [], mn_now = 0, mn_open = [3]\<rparr> = Inr (ok, k1)
    \<and> get_packets mem_os 2000000 1 2 (sk_of 3) \<lparr>mn_in = mn_tx k1, mn_out = [], mn_now = 0, mn_open = [3]\<rparr> = Inr (qs, k2)
    \<and> prefix qs [(\<lparr>vp_type = 1, vp_code = 3, vp_dlen = 2\<rparr>, [7, 8]), (\<lparr>vp_type = 2, vp_code = 0, vp_dlen = 0\<rparr>, [])]"
proof -
  let ?ps = "[(\<lparr>vp_type = 1, vp_code = 3, vp_dlen = 2\<rparr>, [7, 8]), (\<lparr>vp_type = 2, vp_code = 0, vp_dlen = 0\<rparr>, [])]"
  let ?k = "\<lparr>mn_in = [], mn_out = [], mn_now = 0, mn_open = [3]\<rparr>"
  obtain ok k1 where "put_packets mem_os 2000000 1 ?ps (sk_of 3) ?k = Inr (ok, k1)"
    and r: "\<forall>k'. mn_in k' = drop (length (mn_tx ?k)) (mn_tx k1) \<longrightarrow>
      (\<exists>qs k2. get_packets mem_os 2000000 1 2 (sk_of 3) k' = Inr (qs, k2) \<and> prefix qs ?ps)"
    using vpackets_arrive [OF mem_os_stream mem_os_clock _ mem_os_stream mem_os_clock, of "sk_of 3" "sk_of 3" 1 2000000 ?ps ?k 2]
    by (auto simp: deadline_def sk_of_def)
  moreover have "mn_in \<lparr>mn_in = mn_tx k1, mn_out = [], mn_now = 0, mn_open = [3]\<rparr> = drop (length (mn_tx ?k)) (mn_tx k1)"
    by (simp add: mn_tx_def)
  ultimately show ?thesis by blast
qed

subsection \<open>Systems that do not make the caller wait\<close>

text \<open>
  A system with room for what is sent, and that hands out what has come as far as it is asked for:
  every call of \<open>read\<close> and \<open>write\<close> is then done after its first transfer.
\<close>

definition sock_prompt :: "'k sock_os \<Rightarrow> int \<Rightarrow> ('k \<Rightarrow> u8_t list) \<Rightarrow> bool" where
  "sock_prompt os fd rx \<longleftrightarrow>
     (\<forall>len k. len \<le> length (rx k) \<longrightarrow> (\<exists>k'. so_recv os fd len False k = (Inr (take len (rx k)), k'))) \<and>
     (\<forall>data k. \<exists>k'. so_send os fd data True k = (Inr (length data), k'))"

lemma writen_prompt:
  assumes "sock_stream os (sock_fd sock) rx tx" "sock_prompt os (sock_fd sock) rx" "n = int (length buf)" "n < 2147483648"
  obtains k1 where "gsock_writen os turns sock buf n timeout k = Inr (True, k1)" "tx k1 = tx k @ buf"
proof -
  obtain k1 where k1: "so_send os (sock_fd sock) buf True k = (Inr (length buf), k1)"
    using assms(2) unfolding sock_prompt_def by metis
  have "size_of n = length buf" using size_of_nat [of n] assms(3,4) by simp
  then have "gsock_writen os turns sock buf n timeout k = Inr (True, k1)"
    using k1 assms(3) by (simp add: gsock_writen_def gsock_write_def io_timed_def send_xfer_def send_at_def)
  moreover have "tx k1 = tx k @ buf" using sock_streamD(2) [OF assms(1) k1] by simp
  ultimately show thesis by (rule that)
qed

lemma readn_prompt:
  assumes "sock_stream os (sock_fd sock) rx tx" "sock_prompt os (sock_fd sock) rx" "n = int (length buf)" "n < 2147483648"
    "rx k = bs @ rest" "length bs = length buf"
  obtains k1 where "gsock_readn os turns sock buf n timeout k = Inr (True, bs, k1)" "rx k1 = rest"
proof -
  have "length buf \<le> length (rx k)" "take (length buf) (rx k) = bs" using assms(5,6) by simp_all
  then obtain k1 where k1: "so_recv os (sock_fd sock) (length buf) False k = (Inr bs, k1)"
    using assms(2) unfolding sock_prompt_def by metis
  have "size_of n = length buf" using size_of_nat [of n] assms(3,4) by simp
  then have "gsock_readn os turns sock buf n timeout k = Inr (True, bs, k1)"
    using k1 assms(3,6) by (simp add: gsock_readn_def gsock_read_def io_timed_def recv_xfer_def recv_at_def overwrite_def)
  moreover have "rx k1 = rest" using sock_streamD(1) [OF assms(1) k1] assms(5) by simp
  ultimately show thesis by (rule that)
qed

lemma packet_bounds:
  "packet_ok (vp, data) \<Longrightarrow> 4 + int (length data) = int (length (vp_bytes vp @ data))"
  "packet_ok (vp, data) \<Longrightarrow> 4 + int (length data) < 2147483648"
  "int (unat (vp_dlen vp)) < 2147483648"
proof -
  have "unat (vp_dlen vp) < 65536" by (rule unat_u16)
  then have i: "int (unat (vp_dlen vp)) < 65536" by linarith
  then show "int (unat (vp_dlen vp)) < 2147483648" by linarith
  show "packet_ok (vp, data) \<Longrightarrow> 4 + int (length data) < 2147483648"
    using i by (simp only: packet_ok_def fst_conv snd_conv)
qed simp

lemma put_packets_prompt:
  assumes "sock_stream os (sock_fd (m_sock s)) rx tx" "sock_prompt os (sock_fd (m_sock s)) rx"
  shows "list_all packet_ok ps \<Longrightarrow>
    \<exists>k1. put_packets os turns timeout ps s k = Inr (True, k1) \<and> tx k1 = tx k @ concat (map vp_frame ps)"
proof (induction ps arbitrary: k)
  case (Cons p ps)
  obtain vp data where p: "p = (vp, data)" by (cases p)
  have ok: "packet_ok (vp, data)" "list_all packet_ok ps" using Cons.prems by (simp_all add: p)
  obtain k1 where k1: "gsock_writen os turns (m_sock s) (vp_bytes vp @ data) (4 + int (length data)) timeout k = Inr (True, k1)"
    "tx k1 = tx k @ vp_bytes vp @ data"
    by (rule writen_prompt [OF assms packet_bounds(1,2) [OF ok(1)]])
  from Cons.IH [OF ok(2), of k1] show ?case
    using k1 by (auto simp: p vp_frame_pair sk_writevpn_def gsock_writevpn_def)
qed simp

lemma get_packets_prompt:
  assumes "sock_stream os (sock_fd (m_sock s)) rx tx" "sock_prompt os (sock_fd (m_sock s)) rx"
  shows "list_all packet_ok ps \<Longrightarrow> rx k = concat (map vp_frame ps) @ rest \<Longrightarrow>
    \<exists>k'. get_packets os turns timeout (length ps) s k = Inr (ps, k') \<and> rx k' = rest"
proof (induction ps arbitrary: k)
  case (Cons p ps)
  obtain vp data where p: "p = (vp, data)" by (cases p)
  have ok: "packet_ok (vp, data)" "list_all packet_ok ps" using Cons.prems(1) by (simp_all add: p)
  let ?vp0 = "\<lparr>vp_type = 0, vp_code = 0, vp_dlen = 0\<rparr>" and ?n = "unat (vp_dlen vp)"
  have rx: "rx k = vp_bytes vp @ (data @ concat (map vp_frame ps) @ rest)" using Cons.prems(2) by (simp add: p vp_frame_pair)
  obtain k1 where k1: "gsock_readn os turns (m_sock s) (vp_bytes ?vp0) 4 timeout k = Inr (True, vp_bytes vp, k1)"
    "rx k1 = data @ concat (map vp_frame ps) @ rest"
    by (rule readn_prompt [OF assms _ _ rx, of 4 "vp_bytes ?vp0"]) simp_all
  have len: "length data = length (replicate ?n (0 :: u8_t))" using ok(1) by (simp add: packet_ok_def)
  obtain k2 where k2: "gsock_readn os turns (m_sock s) (replicate ?n 0) (int ?n) timeout k1 = Inr (True, data, k2)"
    "rx k2 = concat (map vp_frame ps) @ rest"
    by (rule readn_prompt [OF assms _ packet_bounds(3) k1(2) len]) simp
  from Cons.IH [OF ok(2) k2(2)] show ?case
    using k1(1) k2(1) by (auto simp: p sk_readvp_def gsock_readvp_def sk_readn_def vp_of_bytes_vp_bytes)
qed simp

text \<open>
  C24: Where the systems take and hand out everything at once, every packet is written, as many packets
  as were written are read, they are the same with the same data, and nothing is left of them in
  the stream; with any timeout.
\<close>

theorem vpackets_delivered:
  assumes "sock_stream os (sock_fd (m_sock s)) rx tx" "sock_prompt os (sock_fd (m_sock s)) rx"
    and "sock_stream os' (sock_fd (m_sock s')) rx' tx'" "sock_prompt os' (sock_fd (m_sock s')) rx'"
    and "\<forall>p \<in> set ps. length (snd p) = unat (vp_dlen (fst p))"
  shows "\<exists>k1. put_packets os turns timeout ps s k = Inr (True, k1) \<and>
    (\<forall>k' rest. rx' k' = drop (length (tx k)) (tx k1) @ rest \<longrightarrow>
      (\<exists>k2. get_packets os' turns timeout (length ps) s' k' = Inr (ps, k2) \<and> rx' k2 = rest))"
proof -
  have ok: "list_all packet_ok ps" using assms(5) by (simp add: list_all_iff packet_ok_def)
  obtain k1 where k1: "put_packets os turns timeout ps s k = Inr (True, k1)" "tx k1 = tx k @ concat (map vp_frame ps)"
    using put_packets_prompt [OF assms(1,2) ok] by blast
  then show ?thesis using get_packets_prompt [OF assms(3,4) ok] by auto
qed

text \<open>A connection in memory that is prompt.\<close>

definition prompt_os :: "mem_net sock_os" where
  "prompt_os = mem_os
     \<lparr>so_recv := (\<lambda>_ len peek k. (Inr (take len (mn_in k)), if peek then k else k\<lparr>mn_in := drop len (mn_in k)\<rparr>)),
      so_send := (\<lambda>_ bs _ k. (Inr (length bs), k\<lparr>mn_out := mn_out k @ bs\<rparr>))\<rparr>"

lemma prompt_os_laws: "sock_stream prompt_os fd mn_in mn_out" "sock_prompt prompt_os fd mn_in"
  by (auto simp: sock_stream_def sock_prompt_def prompt_os_def mem_os_def)

theorem vpackets_delivered_witness:
  "\<exists>k1 k2. put_packets prompt_os 0 0 [(\<lparr>vp_type = 1, vp_code = 3, vp_dlen = 2\<rparr>, [7, 8]), (\<lparr>vp_type = 2, vp_code = 0, vp_dlen = 0\<rparr>, [])]
      (sk_of 3) \<lparr>mn_in = [], mn_out = [], mn_now = 0, mn_open = [3]\<rparr> = Inr (True, k1)
    \<and> get_packets prompt_os 0 0 2 (sk_of 3) \<lparr>mn_in = mn_out k1 @ [9], mn_out = [], mn_now = 0, mn_open = [3]\<rparr>
      = Inr ([(\<lparr>vp_type = 1, vp_code = 3, vp_dlen = 2\<rparr>, [7, 8]), (\<lparr>vp_type = 2, vp_code = 0, vp_dlen = 0\<rparr>, [])], k2)"
proof -
  let ?ps = "[(\<lparr>vp_type = 1, vp_code = 3, vp_dlen = 2\<rparr>, [7, 8]), (\<lparr>vp_type = 2, vp_code = 0, vp_dlen = 0\<rparr>, [])] :: packet list"
  let ?k = "\<lparr>mn_in = [], mn_out = [], mn_now = 0, mn_open = [3]\<rparr>"
  have ok: "\<forall>p \<in> set ?ps. length (snd p) = unat (vp_dlen (fst p))" by simp
  obtain k1 where k1: "put_packets prompt_os 0 0 ?ps (sk_of 3) ?k = Inr (True, k1)"
    "\<forall>k' rest. mn_in k' = drop (length (mn_out ?k)) (mn_out k1) @ rest \<longrightarrow>
      (\<exists>k2. get_packets prompt_os 0 0 (length ?ps) (sk_of 3) k' = Inr (?ps, k2) \<and> mn_in k2 = rest)"
    using vpackets_delivered [OF prompt_os_laws prompt_os_laws ok, where s = "sk_of 3" and s' = "sk_of 3" and k = ?k and turns = 0 and timeout = 0]
    by (elim exE conjE) (rule that)
  have "mn_in \<lparr>mn_in = mn_out k1 @ [9], mn_out = [], mn_now = 0, mn_open = [3]\<rparr> = drop (length (mn_out ?k)) (mn_out k1) @ [9]"
    by simp
  with k1 show ?thesis by (metis length_Cons list.size(3) numeral_2_eq_2)
qed

subsection \<open>Replies\<close>

text \<open>
  A reply with one of the constants, written by \<open>simple_reply\<close>, is read at the other end as a packet
  of type \<open>VPT_REPLY\<close> without data whose code is the constant. \<open>VNET_TIMEOUT\<close>, which is in the same
  enumeration, is the only one that does not fit the byte.
\<close>

theorem simple_reply_arrives:
  assumes "sock_stream os (sock_fd (m_sock s)) rx tx" "sock_clock os now" "unat (m_sock s) < 1024"
    and "sock_stream os' (sock_fd (m_sock s')) rx' tx'" "sock_clock os' now'" "unat (m_sock s') < 1024"
    and "unat timeout \<le> 536870912" "deadline timeout \<le> turns" "c \<noteq> VNET_TIMEOUT"
    and "sk_simple_reply os turns (of_nat (vp_const c)) timeout s k = Inr (True, k1)"
    and "rx' k' = drop (length (tx k)) (tx k1)"
  shows "\<exists>ok vp k2. sk_readvp os' turns vp0 timeout s' k' = Inr (ok, vp, k2)
    \<and> (ok \<longrightarrow> unat (vp_type vp) = vp_const VPT_REPLY \<and> unat (vp_code vp) = vp_const c \<and> vp_dlen vp = 0 \<and> rx' k2 = [])"
proof -
  let ?vp = "\<lparr>vp_type = 2, vp_code = ucast (of_nat (vp_const c) :: u32_t), vp_dlen = 0\<rparr>"
  have n: "(4 :: int) = int (length (vp_bytes ?vp))" "(4 :: int) = int (length (vp_bytes vp0))" "(4 :: int) < 2147483648" by simp_all
  obtain ok k1' d where "gsock_writen os turns (m_sock s) (vp_bytes ?vp) 4 timeout k = Inr (ok, k1')"
    "tx k1' = tx k @ take d (vp_bytes ?vp)" "ok \<longrightarrow> tx k1' = tx k @ vp_bytes ?vp"
    by (rule writen_total [OF assms(1-3) n(1,3) assms(7,8)])
  then have sent: "rx' k' = vp_bytes ?vp"
    using assms(10,11) by (simp add: sk_simple_reply_def gsock_simple_reply_def gsock_writevp_def)
  obtain ok b k2 where g: "gsock_readn os' turns (m_sock s') (vp_bytes vp0) 4 timeout k' = Inr (ok, b, k2)"
    "length b = length (vp_bytes vp0)" "ok \<longrightarrow> rx' k' = b @ rx' k2"
    by (rule readn_total [OF assms(4-6) n(2,3) assms(7,8)])
  have "ok \<longrightarrow> b = vp_bytes ?vp \<and> rx' k2 = []"
    using g(2,3) sent by (metis append_Nil2 append_eq_append_conv length_vp_bytes)
  then show ?thesis
    using g(1) unat_small_byte [OF vp_const_byte [OF assms(9)]]
    by (auto simp: sk_readvp_def gsock_readvp_def vp_of_bytes_vp_bytes)
qed

theorem simple_reply_arrives_witness:
  "\<exists>k1 ok vp k2. sk_simple_reply mem_os 2000000 (of_nat (vp_const VPE_FAIL)) 1 (sk_of 3) \<lparr>mn_in = [], mn_out = [], mn_now = 0, mn_open = [3]\<rparr> = Inr (True, k1)
    \<and> sk_readvp mem_os 2000000 \<lparr>vp_type = 0, vp_code = 0, vp_dlen = 0\<rparr> 1 (sk_of 3)
        \<lparr>mn_in = mn_tx k1, mn_out = [], mn_now = 0, mn_open = [3]\<rparr> = Inr (ok, vp, k2)
    \<and> (ok \<longrightarrow> unat (vp_type vp) = 2 \<and> unat (vp_code vp) = 4)"
proof -
  let ?k = "\<lparr>mn_in = [], mn_out = [], mn_now = 0, mn_open = [3]\<rparr>"
  let ?k1 = "\<lparr>mn_in = [], mn_out = [2, 4, 0, 0], mn_now = 0, mn_open = [3]\<rparr>"
  have w: "sk_simple_reply mem_os 2000000 (of_nat (vp_const VPE_FAIL)) 1 (sk_of 3) ?k = Inr (True, ?k1)"
    by (simp add: sk_simple_reply_def gsock_simple_reply_def gsock_writevp_def gsock_writen_def gsock_write_def io_timed_def
      send_xfer_def send_at_def mem_os_def size_of_nat vp_bytes_def sk_of_def)
  show ?thesis
    using simple_reply_arrives [OF mem_os_stream mem_os_clock _ mem_os_stream mem_os_clock _ _ _ _ w,
      of "sk_of 3" "\<lparr>mn_in = mn_tx ?k1, mn_out = [], mn_now = 0, mn_open = [3]\<rparr>" "\<lparr>vp_type = 0, vp_code = 0, vp_dlen = 0\<rparr>"] w
    by (auto simp: deadline_def mn_tx_def sk_of_def)
qed

end
