(* ===== verification/GclSem.thy ===== *)
theory GclSem
  imports GclSync
begin

section \<open>The semaphore sample: \<open>samples/ex-sem.cpp\<close>\<close>

text \<open>
  Ten threads run \<open>foo\<close> and the main thread runs \<open>main\<close>, all around one semaphore of value 2. A
  thread is where it stands in its function; a step is one call on the semaphore, one start or one
  join. All ten threads can be started: \<open>main\<close> does not look at what \<open>start\<close> answers, and a start that
  fails is left out. A wait on the value 0 and a join with a running thread are not enabled. What is printed is
  recorded: the printing thread (the main thread is \<open>None\<close>) and the value.
\<close>

datatype foo_pc = FooWait | FooAcquired | FooPost | FooReleased | FooEnd

datatype main_pc = MainFirst | MainStart nat | MainWait | MainAcquired | MainPost | MainJoin nat | MainLast | MainEnd

record sem_world =
  sx_val :: nat
  sx_foo :: "foo_pc list"
  sx_main :: main_pc
  sx_out :: "(nat option \<times> nat) list"

definition sx_init :: sem_world where
  "sx_init = \<lparr>sx_val = sem_new 2, sx_foo = [], sx_main = MainFirst, sx_out = []\<rparr>"

abbreviation (input) TH_MAX :: nat where "TH_MAX \<equiv> 10"

text \<open>\<open>get_value\<close> and \<open>printf\<close>.\<close>

definition sx_show :: "nat option \<Rightarrow> sem_world \<Rightarrow> sem_world" where
  "sx_show who w = w\<lparr>sx_out := sx_out w @ [(who, snd (sem_get_value (sx_val w)))]\<rparr>"

definition foo_step :: "nat \<Rightarrow> sem_world \<Rightarrow> sem_world option" where
  "foo_step i w =
     (let goto = (\<lambda>pc w. w\<lparr>sx_foo := (sx_foo w)[i := pc]\<rparr>)
      in if length (sx_foo w) \<le> i then None
         else case sx_foo w ! i of
           FooWait \<Rightarrow> map_option (\<lambda>(_, v). goto FooAcquired (w\<lparr>sx_val := v\<rparr>)) (sem_wait (sx_val w))
         | FooAcquired \<Rightarrow> Some (goto FooPost (sx_show (Some i) w))
         | FooPost \<Rightarrow> Some (goto FooReleased (w\<lparr>sx_val := snd (sem_post (sx_val w))\<rparr>))
         | FooReleased \<Rightarrow> Some (goto FooEnd (sx_show (Some i) w))
         | FooEnd \<Rightarrow> None)"

definition main_step :: "sem_world \<Rightarrow> sem_world option" where
  "main_step w =
     (let goto = (\<lambda>pc w. w\<lparr>sx_main := pc\<rparr>)
      in case sx_main w of
           MainFirst \<Rightarrow> Some (goto (MainStart 0) (sx_show None w))
         | MainStart i \<Rightarrow> if i < TH_MAX then Some (goto (MainStart (i + 1)) (w\<lparr>sx_foo := sx_foo w @ [FooWait]\<rparr>))
                         else Some (goto MainWait w)
         | MainWait \<Rightarrow> map_option (\<lambda>(_, v). goto MainAcquired (w\<lparr>sx_val := v\<rparr>)) (sem_wait (sx_val w))
         | MainAcquired \<Rightarrow> Some (goto MainPost (sx_show None w))
         | MainPost \<Rightarrow> Some (goto (MainJoin 0) (w\<lparr>sx_val := snd (sem_post (sx_val w))\<rparr>))
         | MainJoin i \<Rightarrow> if i < TH_MAX
                        then (if sx_foo w ! i = FooEnd then Some (goto (MainJoin (i + 1)) w) else None)
                        else Some (goto MainLast w)
         | MainLast \<Rightarrow> Some (goto MainEnd (sx_show None w))
         | MainEnd \<Rightarrow> None)"

inductive sx_step :: "sem_world \<Rightarrow> sem_world \<Rightarrow> bool" where
  sx_foo: "foo_step i w = Some w' \<Longrightarrow> sx_step w w'"
| sx_main: "main_step w = Some w' \<Longrightarrow> sx_step w w'"

inductive sx_steps :: "nat \<Rightarrow> sem_world \<Rightarrow> bool" where
  sx_none: "sx_steps 0 sx_init"
| sx_more: "sx_steps n w \<Longrightarrow> sx_step w w' \<Longrightarrow> sx_steps (Suc n) w'"

inductive_cases sx_stepE: "sx_step w w'"

subsection \<open>The holders of the semaphore\<close>

definition foo_holds :: "foo_pc \<Rightarrow> bool" where
  "foo_holds pc \<longleftrightarrow> pc = FooAcquired \<or> pc = FooPost"

definition main_holds :: "main_pc \<Rightarrow> nat" where
  "main_holds pc = (if pc = MainAcquired \<or> pc = MainPost then 1 else 0)"

definition sx_holders :: "sem_world \<Rightarrow> nat" where
  "sx_holders w = length (filter foo_holds (sx_foo w)) + main_holds (sx_main w)"

fun started :: "main_pc \<Rightarrow> nat" where
  "started MainFirst = 0" | "started (MainStart i) = i" | "started _ = TH_MAX"

fun joined :: "main_pc \<Rightarrow> nat" where
  "joined (MainJoin i) = i" | "joined MainLast = TH_MAX" | "joined MainEnd = TH_MAX" | "joined _ = 0"

definition sx_inv :: "sem_world \<Rightarrow> bool" where
  "sx_inv w \<longleftrightarrow> sx_val w + sx_holders w = 2 \<and> length (sx_foo w) = started (sx_main w) \<and> started (sx_main w) \<le> TH_MAX
     \<and> joined (sx_main w) \<le> TH_MAX \<and> (\<forall>i < joined (sx_main w). sx_foo w ! i = FooEnd)
     \<and> (\<forall>(who, v) \<in> set (sx_out w). v \<le> 2) \<and> (sx_main w = MainEnd \<longrightarrow> last (sx_out w) = (None, 2))"

lemma holders_update: "i < length pcs \<Longrightarrow> length (filter foo_holds (pcs[i := pc])) + (if foo_holds (pcs ! i) then 1 else 0)
    = length (filter foo_holds pcs) + (if foo_holds pc then 1 else 0)"
proof (induction pcs arbitrary: i)
  case (Cons a pcs)
  then show ?case by (cases i) auto
qed simp

lemma foo_step_at:
  assumes "foo_step i w = Some w'"
  obtains pc v o' where "i < length (sx_foo w)" "w' = w\<lparr>sx_val := v, sx_foo := (sx_foo w)[i := pc], sx_out := o'\<rparr>"
    "v + (if foo_holds pc then 1 else 0) = sx_val w + (if foo_holds (sx_foo w ! i) then 1 else 0) \<or> sx_val w \<ge> 2147483647"
    "sx_foo w ! i \<noteq> FooEnd" "\<And>who x. (who, x) \<in> set o' \<Longrightarrow> (who, x) \<in> set (sx_out w) \<or> x = sx_val w"
proof -
  have i: "i < length (sx_foo w)" using assms by (simp add: foo_step_def Let_def split: if_splits)
  show thesis
  proof (cases "sx_foo w ! i")
    case FooWait
    then show ?thesis using that [where v = "sx_val w - 1" and pc = FooAcquired and o' = "sx_out w"] assms i
      by (cases w) (auto simp: foo_step_def Let_def sem_wait_def foo_holds_def split: if_splits)
  next
    case FooAcquired
    then show ?thesis using that [where v = "sx_val w" and pc = FooPost and o' = "sx_out w @ [(Some i, sx_val w)]"] assms i
      by (cases w) (auto simp: foo_step_def Let_def sx_show_def sem_get_value_def foo_holds_def)
  next
    case FooPost
    then show ?thesis using that [where v = "snd (sem_post (sx_val w))" and pc = FooReleased and o' = "sx_out w"] assms i
      by (cases w) (auto simp: foo_step_def Let_def sem_post_def foo_holds_def)
  next
    case FooReleased
    then show ?thesis using that [where v = "sx_val w" and pc = FooEnd and o' = "sx_out w @ [(Some i, sx_val w)]"] assms i
      by (cases w) (auto simp: foo_step_def Let_def sx_show_def sem_get_value_def foo_holds_def)
  next
    case FooEnd
    then show ?thesis using assms i by (simp add: foo_step_def)
  qed
qed

lemma main_holds_le: "main_holds pc \<le> 1"
  by (simp add: main_holds_def)

lemma sx_inv_step: "sx_inv w \<Longrightarrow> sx_step w w' \<Longrightarrow> sx_inv w'"
proof (erule sx_stepE)
  fix i assume inv: "sx_inv w" and "foo_step i w = Some w'"
  then obtain pc v o' where st: "i < length (sx_foo w)" "w' = w\<lparr>sx_val := v, sx_foo := (sx_foo w)[i := pc], sx_out := o'\<rparr>"
    "v + (if foo_holds pc then 1 else 0) = sx_val w + (if foo_holds (sx_foo w ! i) then 1 else 0) \<or> sx_val w \<ge> 2147483647"
    "sx_foo w ! i \<noteq> FooEnd" "\<And>who x. (who, x) \<in> set o' \<Longrightarrow> (who, x) \<in> set (sx_out w) \<or> x = sx_val w"
    by (elim foo_step_at) blast
  have low: "sx_val w \<le> 2" using inv by (simp add: sx_inv_def)
  have "\<not> i < joined (sx_main w)" using inv st(4) by (auto simp: sx_inv_def)
  moreover have "sx_main w \<noteq> MainEnd" using inv st(1) calculation by (auto simp: sx_inv_def)
  moreover have "v + sx_holders w' = 2"
    using inv st(1-3) low holders_update [OF st(1), of pc] by (auto simp: sx_inv_def sx_holders_def split: if_splits)
  moreover have "x \<le> 2" if "(who, x) \<in> set o'" for who x
    using st(5) [OF that] inv low by (auto simp: sx_inv_def)
  ultimately show "sx_inv w'" using inv st(2) by (auto simp: sx_inv_def)
next
  assume inv: "sx_inv w" and st: "main_step w = Some w'"
  have low: "sx_val w \<le> 2" using inv by (simp add: sx_inv_def)
  have ended: "length (filter foo_holds pcs) = 0" if "\<forall>i < length pcs. pcs ! i = FooEnd" for pcs
    using that by (auto simp: foo_holds_def filter_empty_conv in_set_conv_nth)
  show "sx_inv w'"
  proof (cases "sx_main w")
    case (MainJoin i)
    then show ?thesis using inv st
      by (auto simp: sx_inv_def main_step_def Let_def sx_holders_def main_holds_def less_Suc_eq split: if_splits)
  next
    case (MainStart i)
    then show ?thesis using inv st
      by (auto simp: sx_inv_def main_step_def Let_def sx_holders_def main_holds_def foo_holds_def split: if_splits)
  next
    case MainLast
    have "sx_val w = 2" using inv MainLast ended [of "sx_foo w"] by (auto simp: sx_inv_def sx_holders_def main_holds_def)
    then show ?thesis using inv st MainLast
      by (auto simp: sx_inv_def main_step_def Let_def sx_holders_def main_holds_def sx_show_def sem_get_value_def)
  qed (use inv st low in \<open>auto simp: sx_inv_def main_step_def Let_def sx_holders_def main_holds_def sx_show_def
      sem_get_value_def sem_wait_def sem_post_def split: if_splits\<close>)
qed

lemma sx_steps_inv: "sx_steps n w \<Longrightarrow> sx_inv w"
proof (induction rule: sx_steps.induct)
  case sx_none
  then show ?case by (simp add: sx_inv_def sx_init_def sem_new_def sx_holders_def main_holds_def)
qed (rule sx_inv_step)

subsection \<open>Steps to go\<close>

fun foo_todo :: "foo_pc \<Rightarrow> nat" where
  "foo_todo FooWait = 4" | "foo_todo FooAcquired = 3" | "foo_todo FooPost = 2" | "foo_todo FooReleased = 1" | "foo_todo FooEnd = 0"

fun main_todo :: "main_pc \<Rightarrow> nat" where
  "main_todo MainFirst = 67" | "main_todo (MainStart i) = 16 + 5 * (TH_MAX - i)" | "main_todo MainWait = 15"
| "main_todo MainAcquired = 14" | "main_todo MainPost = 13" | "main_todo (MainJoin i) = 2 + (TH_MAX - i)"
| "main_todo MainLast = 1" | "main_todo MainEnd = 0"

definition sx_todo :: "sem_world \<Rightarrow> nat" where
  "sx_todo w = sum_list (map foo_todo (sx_foo w)) + main_todo (sx_main w)"

lemma todo_update: "i < length pcs \<Longrightarrow> sum_list (map foo_todo (pcs[i := pc])) + foo_todo (pcs ! i)
    = sum_list (map foo_todo pcs) + foo_todo pc"
proof (induction pcs arbitrary: i)
  case (Cons a pcs)
  then show ?case by (cases i) auto
qed simp

lemma sx_todo_step: "sx_step w w' \<Longrightarrow> sx_todo w' < sx_todo w"
proof (erule sx_stepE)
  fix i assume st: "foo_step i w = Some w'"
  then have i: "i < length (sx_foo w)" by (simp add: foo_step_def Let_def split: if_splits)
  show ?thesis
    using st i todo_update [OF i, of FooAcquired] todo_update [OF i, of FooPost] todo_update [OF i, of FooReleased]
      todo_update [OF i, of FooEnd]
    by (cases "sx_foo w ! i") (auto simp: foo_step_def Let_def sx_todo_def sx_show_def)
next
  assume "main_step w = Some w'"
  then show ?thesis
    by (cases "sx_main w") (auto simp: main_step_def Let_def sx_todo_def sx_show_def split: if_splits)
qed

lemma sx_not_stuck:
  assumes inv: "sx_inv w" and "sx_main w \<noteq> MainEnd"
  shows "\<exists>w'. sx_step w w'"
proof (cases "main_step w = None")
  case False
  then show ?thesis using sx_main by blast
next
  case True
  have busy: "\<exists>w'. sx_step w w'" if i: "i < length (sx_foo w)" "sx_foo w ! i \<noteq> FooEnd" "sx_foo w ! i = FooWait \<longrightarrow> 0 < sx_val w" for i
  proof -
    have "foo_step i w \<noteq> None" using i by (cases "sx_foo w ! i") (auto simp: foo_step_def Let_def sem_wait_def)
    then show ?thesis using sx_foo by blast
  qed
  have hold: "\<exists>w'. sx_step w w'" if "sx_val w = 0" "main_holds (sx_main w) = 0"
  proof -
    have "length (filter foo_holds (sx_foo w)) = 2" using inv that by (simp add: sx_inv_def sx_holders_def)
    then have "filter foo_holds (sx_foo w) \<noteq> []" by auto
    then obtain i where "i < length (sx_foo w)" "foo_holds (sx_foo w ! i)" by (auto simp: filter_empty_conv in_set_conv_nth)
    then show ?thesis using busy [of i] by (auto simp: foo_holds_def)
  qed
  show ?thesis
  proof (cases "sx_main w")
    case MainWait
    then have "sx_val w = 0" using True by (auto simp: main_step_def Let_def sem_wait_def split: if_splits)
    then show ?thesis using hold MainWait by (simp add: main_holds_def)
  next
    case (MainJoin i)
    then have i: "i < 10" "sx_foo w ! i \<noteq> FooEnd" using True by (auto simp: main_step_def Let_def split: if_splits)
    show ?thesis
    proof (cases "sx_val w = 0")
      case True
      then show ?thesis using hold MainJoin by (simp add: main_holds_def)
    next
      case False
      then show ?thesis using busy [of i] i inv MainJoin by (simp add: sx_inv_def)
    qed
  qed (use True assms(2) in \<open>auto simp: main_step_def Let_def split: if_splits\<close>)
qed

end
