(* ===== verification/GclSemProps.thy ===== *)
theory GclSemProps
  imports GclSem
begin

section \<open>The semaphore sample: properties\<close>

text \<open>
  What the semaphore guarantees to the threads of the sample, and that the sample ends.
\<close>

text \<open>
  C12: In every interleaving of the sample at most two threads are between \<open>wait\<close> and \<open>post\<close>, the
  value and the threads inside add up to two, no printed value is above two, and when the main
  thread is at its end all threads have ended and the last value printed is two.
\<close>
theorem semaphore_admits_two:
  assumes "sx_steps n w"
  shows "sx_holders w \<le> 2 \<and> sx_val w + sx_holders w = 2 \<and> (\<forall>(who, v) \<in> set (sx_out w). v \<le> 2) \<and>
    (sx_main w = MainEnd \<longrightarrow> sx_foo w = replicate TH_MAX FooEnd \<and> last (sx_out w) = (None, 2))"
proof -
  note inv = sx_steps_inv [OF assms, unfolded sx_inv_def]
  have "sx_foo w = replicate TH_MAX FooEnd" if "sx_main w = MainEnd"
    using inv that by (auto intro!: nth_equalityI)
  then show ?thesis using inv by auto
qed

theorem semaphore_admits_two_witness:
  "\<exists>w. sx_steps 13 w \<and> sx_val w = 1 \<and> sx_holders w \<le> 2"
proof -
  let ?w = "\<lambda>k pc. \<lparr>sx_val = 2, sx_foo = replicate k FooWait, sx_main = pc, sx_out = [(None, 2)]\<rparr>"
  have started: "k \<le> 10 \<Longrightarrow> sx_steps (Suc k) (?w k (MainStart k))" for k
  proof (induction k)
    case 0
    have "main_step sx_init = Some (?w 0 (MainStart 0))"
      by (simp add: main_step_def sx_init_def sx_show_def sem_get_value_def sem_new_def)
    then show ?case using sx_more [OF sx_none sx_main] by simp
  next
    case (Suc k)
    have "main_step (?w k (MainStart k)) = Some (?w (Suc k) (MainStart (Suc k)))"
      using Suc.prems by (simp add: main_step_def replicate_append_same)
    then show ?case using sx_more [OF Suc.IH sx_main] Suc.prems by simp
  qed
  have "main_step (?w 10 (MainStart 10)) = Some (?w 10 MainWait)" by (simp add: main_step_def)
  then have "sx_steps 12 (?w 10 MainWait)" using sx_more [OF started [of 10] sx_main] by (simp add: numeral_eq_Suc)
  moreover have "foo_step 3 (?w 10 MainWait)
      = Some ((?w 10 MainWait)\<lparr>sx_val := 1, sx_foo := (replicate 10 FooWait)[3 := FooAcquired]\<rparr>)"
    by (simp add: foo_step_def sem_wait_def)
  ultimately have "sx_steps 13 ((?w 10 MainWait)\<lparr>sx_val := 1, sx_foo := (replicate 10 FooWait)[3 := FooAcquired]\<rparr>)"
    using sx_more [OF _ sx_foo [of 3]] by fastforce
  then show ?thesis by (intro exI conjI) (assumption, simp, use semaphore_admits_two in blast)
qed

text \<open>
  C34: The sample ends however its threads are scheduled: a run has at most 67 steps, and as long as
  the main thread is not at its end some thread can take a step.
\<close>
theorem semaphore_sample_ends:
  assumes "sx_steps n w"
  shows "n \<le> 67 \<and> (sx_main w \<noteq> MainEnd \<longrightarrow> (\<exists>w'. sx_step w w'))"
proof -
  have "n + sx_todo w \<le> 67"
    using assms
  proof (induction rule: sx_steps.induct)
    case sx_none
    then show ?case by (simp add: sx_todo_def sx_init_def)
  next
    case (sx_more n w w')
    then show ?case using sx_todo_step [of w w'] by simp
  qed
  then show ?thesis using sx_not_stuck [OF sx_steps_inv [OF assms]] by auto
qed

theorem semaphore_sample_ends_witness: "\<exists>w'. sx_step sx_init w'"
  using semaphore_sample_ends [OF sx_none] by (simp add: sx_init_def)

end
