(* ===== verification/GclCond.thy ===== *)
theory GclCond
  imports GclSync
begin

section \<open>Condition with a Mutex: \<open>include/gthread.h\<close>\<close>

text \<open>
  A condition is the threads that wait on it and those that were woken and have to get the mutex
  back before their \<open>wait\<close> returns. \<open>wait\<close> is two operations: releasing the mutex and waiting is
  one step, returning another. \<open>signal\<close> wakes a thread that the system chooses; the system may
  also wake a thread that nobody signalled. A call that waits is \<open>None\<close>, a call on a mutex the
  thread does not hold is a fault.
\<close>

record cond_state =
  cd_waiters :: "tid list"
  cd_woken :: "tid list"

definition cond_new :: cond_state where
  "cond_new = \<lparr>cd_waiters = [], cd_woken = []\<rparr>"

definition cond_wake :: "tid \<Rightarrow> cond_state \<Rightarrow> cond_state" where
  "cond_wake t c =
     (if t \<in> set (cd_waiters c)
      then c\<lparr>cd_waiters := remove1 t (cd_waiters c), cd_woken := cd_woken c @ [t]\<rparr> else c)"

definition cond_signal :: "tid \<Rightarrow> cond_state \<Rightarrow> bool \<times> cond_state" where
  "cond_signal chosen c = (True, cond_wake chosen c)"

definition cond_broadcast :: "cond_state \<Rightarrow> bool \<times> cond_state" where
  "cond_broadcast c = (True, c\<lparr>cd_waiters := [], cd_woken := cd_woken c @ cd_waiters c\<rparr>)"

definition cond_wait :: "tid \<Rightarrow> cond_state \<Rightarrow> mutex \<Rightarrow> (cond_state \<times> mutex) res" where
  "cond_wait self c m =
     rbind (mtx_unlock self m) (\<lambda>(_, m). Inr (c\<lparr>cd_waiters := cd_waiters c @ [self]\<rparr>, m))"

definition cond_wait_return :: "tid \<Rightarrow> cond_state \<Rightarrow> mutex \<Rightarrow> (bool \<times> cond_state \<times> mutex) option" where
  "cond_wait_return self c m =
     (if self \<in> set (cd_woken c)
      then map_option (\<lambda>(ok, m). (ok, c\<lparr>cd_woken := remove1 self (cd_woken c)\<rparr>, m)) (mtx_lock self m)
      else None)"

subsection \<open>Threads in a monitor\<close>

text \<open>Threads that lock, wait, signal, broadcast and unlock as they like.\<close>

datatype mon_pc = MonOut | MonIn | MonWaits

record mon_world =
  mn_cond :: cond_state
  mn_mtx :: mutex
  mn_pc :: "tid \<Rightarrow> mon_pc"

definition mon_init :: mon_world where
  "mon_init = \<lparr>mn_cond = cond_new, mn_mtx = None, mn_pc = (\<lambda>_. MonOut)\<rparr>"

inductive mon_step :: "tid \<Rightarrow> mon_world \<Rightarrow> mon_world \<Rightarrow> bool" where
  mon_lock: "mn_pc w t = MonOut \<Longrightarrow> mtx_lock t (mn_mtx w) = Some (ok, m) \<Longrightarrow>
    mon_step t w (w\<lparr>mn_mtx := m, mn_pc := (mn_pc w)(t := MonIn)\<rparr>)"
| mon_wait: "mn_pc w t = MonIn \<Longrightarrow> cond_wait t (mn_cond w) (mn_mtx w) = Inr (c, m) \<Longrightarrow>
    mon_step t w (w\<lparr>mn_cond := c, mn_mtx := m, mn_pc := (mn_pc w)(t := MonWaits)\<rparr>)"
| mon_signal: "cond_signal u (mn_cond w) = (ok, c) \<Longrightarrow> cd_waiters (mn_cond w) = [] \<or> u \<in> set (cd_waiters (mn_cond w)) \<Longrightarrow>
    mon_step t w (w\<lparr>mn_cond := c\<rparr>)"
| mon_broadcast: "cond_broadcast (mn_cond w) = (ok, c) \<Longrightarrow> mon_step t w (w\<lparr>mn_cond := c\<rparr>)"
| mon_spurious: "mon_step t w (w\<lparr>mn_cond := cond_wake t (mn_cond w)\<rparr>)"
| mon_return: "mn_pc w t = MonWaits \<Longrightarrow> cond_wait_return t (mn_cond w) (mn_mtx w) = Some (ok, c, m) \<Longrightarrow>
    mon_step t w (w\<lparr>mn_cond := c, mn_mtx := m, mn_pc := (mn_pc w)(t := MonIn)\<rparr>)"
| mon_unlock: "mn_pc w t = MonIn \<Longrightarrow> mtx_unlock t (mn_mtx w) = Inr (ok, m) \<Longrightarrow>
    mon_step t w (w\<lparr>mn_mtx := m, mn_pc := (mn_pc w)(t := MonOut)\<rparr>)"

inductive mon_reach :: "mon_world \<Rightarrow> bool" where
  mon_first: "mon_reach mon_init"
| mon_next: "mon_reach w \<Longrightarrow> mon_step t w w' \<Longrightarrow> mon_reach w'"

definition mon_ok :: "mon_world \<Rightarrow> bool" where
  "mon_ok w \<longleftrightarrow> (\<forall>t. mn_mtx w = Some t \<longleftrightarrow> mn_pc w t = MonIn)
     \<and> distinct (cd_waiters (mn_cond w) @ cd_woken (mn_cond w))
     \<and> (\<forall>t. t \<in> set (cd_waiters (mn_cond w) @ cd_woken (mn_cond w)) \<longleftrightarrow> mn_pc w t = MonWaits)"

lemma cond_wake_facts:
  "set (cd_waiters (cond_wake t c) @ cd_woken (cond_wake t c)) = set (cd_waiters c @ cd_woken c)"
  "distinct (cd_waiters c @ cd_woken c) \<Longrightarrow> distinct (cd_waiters (cond_wake t c) @ cd_woken (cond_wake t c))"
proof -
  show "set (cd_waiters (cond_wake t c) @ cd_woken (cond_wake t c)) = set (cd_waiters c @ cd_woken c)"
    by (auto simp: cond_wake_def dest: in_set_remove1 [THEN iffD1, rotated] notin_set_remove1)
  show "distinct (cd_waiters c @ cd_woken c) \<Longrightarrow> distinct (cd_waiters (cond_wake t c) @ cd_woken (cond_wake t c))"
    by (auto simp: cond_wake_def distinct_remove1 dest: notin_set_remove1)
qed

lemma mon_ok_step:
  assumes "mon_ok w" "mon_step t w w'"
  shows "mon_ok w'"
  using assms(2)
proof cases
  case (mon_lock ok m)
  then show ?thesis using assms(1) by (auto simp: mon_ok_def mtx_lock_def split: option.splits)
next
  case (mon_wait c m)
  have m: "mn_mtx w = Some t" "m = None" "c = (mn_cond w)\<lparr>cd_waiters := cd_waiters (mn_cond w) @ [t]\<rparr>"
    using mon_wait(3) by (auto simp: cond_wait_def mtx_unlock_def split: if_splits)
  have "mn_pc w u \<noteq> MonIn" if "u \<noteq> t" for u using assms(1) m(1) that by (auto simp: mon_ok_def)
  moreover have "t \<notin> set (cd_waiters (mn_cond w) @ cd_woken (mn_cond w))" using assms(1) mon_wait(2) by (auto simp: mon_ok_def)
  ultimately show ?thesis using assms(1) mon_wait(1) m(2,3) by (auto simp: mon_ok_def)
next
  case (mon_signal u ok c)
  then show ?thesis using assms(1) cond_wake_facts [where t = u and c = "mn_cond w"] by (auto simp: mon_ok_def cond_signal_def)
next
  case (mon_broadcast ok c)
  then show ?thesis using assms(1) by (auto simp: mon_ok_def cond_broadcast_def)
next
  case mon_spurious
  then show ?thesis using assms(1) cond_wake_facts [where t = t and c = "mn_cond w"] by (auto simp: mon_ok_def)
next
  case (mon_return ok c m)
  then show ?thesis using assms(1)
    by (auto simp: mon_ok_def cond_wait_return_def mtx_lock_def distinct_remove1 dest: notin_set_remove1 split: option.splits if_splits)
next
  case (mon_unlock ok m)
  then have m: "mn_mtx w = Some t" "m = None" by (auto simp: mtx_unlock_def split: if_splits)
  have "mn_pc w u \<noteq> MonIn" if "u \<noteq> t" for u using assms(1) m(1) that by (auto simp: mon_ok_def)
  then show ?thesis using assms(1) mon_unlock(1,2) m(2) by (auto simp: mon_ok_def)
qed

lemma mon_reach_ok: "mon_reach w \<Longrightarrow> mon_ok w"
proof (induction rule: mon_reach.induct)
  case mon_first
  show ?case by (simp add: mon_ok_def mon_init_def cond_new_def)
next
  case (mon_next w t w')
  then show ?case using mon_ok_step by blast
qed

text \<open>
  In every interleaving at most one thread is in the monitor, the one that holds the mutex;
  a thread that waits is either waiting or woken, never both or twice; a broadcast leaves nobody
  waiting, and when the monitor is empty every woken thread can return from its \<open>wait\<close>.
\<close>

theorem condition_monitor_safe:
  assumes "mon_reach w"
  shows "(mn_pc w t = MonIn \<and> mn_pc w u = MonIn \<longrightarrow> t = u) \<and>
    (mn_pc w t = MonWaits \<longleftrightarrow> (t \<in> set (cd_waiters (mn_cond w))) \<noteq> (t \<in> set (cd_woken (mn_cond w)))) \<and>
    (mn_pc w t = MonWaits \<longrightarrow> t \<in> set (cd_woken (snd (cond_broadcast (mn_cond w))))) \<and>
    (t \<in> set (cd_woken (mn_cond w)) \<and> (\<forall>v. mn_pc w v \<noteq> MonIn) \<longrightarrow>
      (\<exists>w'. mon_step t w w' \<and> mn_pc w' t = MonIn \<and> mn_mtx w' = Some t))"
proof -
  have ok: "mon_ok w" by (rule mon_reach_ok [OF assms])
  have ret: "\<exists>w'. mon_step t w w' \<and> mn_pc w' t = MonIn \<and> mn_mtx w' = Some t"
    if "t \<in> set (cd_woken (mn_cond w))" "\<forall>v. mn_pc w v \<noteq> MonIn"
  proof -
    have "mn_mtx w = None" using ok that(2) by (cases "mn_mtx w") (auto simp: mon_ok_def)
    then have "cond_wait_return t (mn_cond w) (mn_mtx w)
        = Some (True, (mn_cond w)\<lparr>cd_woken := remove1 t (cd_woken (mn_cond w))\<rparr>, Some t)"
      using that(1) by (simp add: cond_wait_return_def mtx_lock_def)
    moreover have "mn_pc w t = MonWaits" using ok that(1) by (auto simp: mon_ok_def)
    ultimately show ?thesis using mon_return by fastforce
  qed
  have "mn_pc w t = MonIn \<and> mn_pc w u = MonIn \<longrightarrow> t = u" using ok unfolding mon_ok_def by (metis option.inject)
  moreover have "mn_pc w t = MonWaits \<longleftrightarrow> (t \<in> set (cd_waiters (mn_cond w))) \<noteq> (t \<in> set (cd_woken (mn_cond w)))"
    using ok by (auto simp: mon_ok_def)
  moreover have "mn_pc w t = MonWaits \<longrightarrow> t \<in> set (cd_woken (snd (cond_broadcast (mn_cond w))))"
    using ok by (auto simp: mon_ok_def cond_broadcast_def)
  ultimately show ?thesis using ret by blast
qed

lemma condition_monitor_safe_witness:
  "\<exists>w. mon_reach w \<and> mn_pc w 1 = MonWaits \<and> 1 \<in> set (cd_woken (snd (cond_broadcast (mn_cond w))))"
proof -
  let ?w1 = "mon_init\<lparr>mn_mtx := Some 1, mn_pc := (mn_pc mon_init)(1 := MonIn)\<rparr>"
  have 1: "mon_reach ?w1" by (rule mon_next [OF mon_first mon_lock]) (simp_all add: mon_init_def mtx_lock_def)
  let ?w2 = "?w1\<lparr>mn_cond := cond_new\<lparr>cd_waiters := [1]\<rparr>, mn_mtx := None, mn_pc := (mn_pc ?w1)(1 := MonWaits)\<rparr>"
  have 2: "mon_reach ?w2" by (rule mon_next [OF 1 mon_wait]) (simp_all add: mon_init_def cond_wait_def mtx_unlock_def cond_new_def)
  show ?thesis using condition_monitor_safe [OF 2, of 1] 2 by (intro exI [of _ ?w2]) simp
qed

end
