(* ===== verification/GclMailbox.thy ===== *)
theory GclMailbox
  imports GclQueMT
begin

section \<open>The mailbox sample: \<open>samples/ex-mbox.cpp\<close>\<close>

text \<open>
  Putting and getting threads around one \<open>QueueMT\<close> of messages of 128 bytes. A thread loops: the
  putting ones number their messages, and after a successful call a thread asks for the length
  for its line of output. Calls run in the steps of \<open>QueueMT\<close>, so they interleave; a cancelled thread,
  which can only be cancelled outside of a call, is one that takes no further steps. A message is
  written over what the array held before, \<open>junk\<close>. The counter of a thread is an \<open>int\<close>: a run
  lasts until one would overflow.
\<close>

definition mbox_text :: "nat \<Rightarrow> nat \<Rightarrow> u8_t list" where
  "mbox_text tid count = [105, 100, 61] @ decimal tid @ [32, 99, 111, 117, 110, 116, 61] @ decimal count"

definition mbox_msg :: "nat \<Rightarrow> nat \<Rightarrow> u8_t list \<Rightarrow> u8_t list" where
  "mbox_msg tid count junk = overwrite 0 (mbox_text tid count @ [0]) junk"

text \<open>The next call of a thread and its counter, from its last call and what that returned.\<close>

definition foo_put :: "nat \<Rightarrow> u8_t list \<Rightarrow> (mt_op \<times> mt_out) option \<Rightarrow> nat \<Rightarrow> mt_op \<times> nat" where
  "foo_put tid junk prev count =
     (case prev of
        Some (MtPut _, Flag True) \<Rightarrow> (MtLength, count)
      | _ \<Rightarrow> (MtPut (Some (mbox_msg tid count junk)), count + 1))"

definition foo_get :: "(mt_op \<times> mt_out) option \<Rightarrow> nat \<Rightarrow> mt_op \<times> nat" where
  "foo_get prev count =
     (case prev of
        Some (MtGet _, Item True _) \<Rightarrow> (MtLength, count)
      | _ \<Rightarrow> (MtGet True, count + 1))"

definition last_call :: "tid \<Rightarrow> (tid \<times> mt_op \<times> mt_out) list \<Rightarrow> (mt_op \<times> mt_out) option" where
  "last_call t hist =
     (case filter (\<lambda>(u, _). u = t) hist of [] \<Rightarrow> None | c # cs \<Rightarrow> Some (snd (last (c # cs))))"

record mb_world =
  mb_sys :: mt_sys
  mb_count :: "tid \<Rightarrow> nat"

definition mb_init :: "cqueue \<Rightarrow> mb_world" where
  "mb_init q = \<lparr>mb_sys = mt_init q, mb_count = (\<lambda>_. 0)\<rparr>"

inductive mb_step :: "(tid \<Rightarrow> bool) \<Rightarrow> (tid \<Rightarrow> nat) \<Rightarrow> tid \<Rightarrow> mb_world \<Rightarrow> mb_world \<Rightarrow> bool" for putter ident where
  mb_call: "mt_pc (mb_sys w) t = Outside \<Longrightarrow> mb_count w t < 2147483647 \<Longrightarrow> length junk = 128 \<Longrightarrow>
    (op, c) = (if putter t then foo_put (ident t) junk else foo_get) (last_call t (mt_hist (mb_sys w))) (mb_count w t) \<Longrightarrow>
    mb_step putter ident t w (w\<lparr>mb_sys := mt_at t (Calling op) (mb_sys w), mb_count := (mb_count w)(t := c)\<rparr>)"
| mb_move: "mt_pc (mb_sys w) t \<noteq> Outside \<Longrightarrow> mt_step (\<lambda>_. False) t (mb_sys w) s \<Longrightarrow>
    mb_step putter ident t w (w\<lparr>mb_sys := s\<rparr>)"

inductive mb_reach :: "(tid \<Rightarrow> bool) \<Rightarrow> (tid \<Rightarrow> nat) \<Rightarrow> cqueue \<Rightarrow> mb_world \<Rightarrow> bool" for putter ident q0 where
  mb_start: "mb_reach putter ident q0 (mb_init q0)"
| mb_next: "mb_reach putter ident q0 w \<Longrightarrow> mb_step putter ident t w w' \<Longrightarrow> mb_reach putter ident q0 w'"

subsection \<open>Messages\<close>

lemma mbox_text_no_0: "0 \<notin> set (mbox_text tid count)"
  by (simp add: mbox_text_def decimal_no_0)

lemma length_mbox_text: "tid < 10000000000 \<Longrightarrow> count < 10000000000 \<Longrightarrow> length (mbox_text tid count) < 128"
  using length_decimal [of tid 9] length_decimal [of count 9] by (simp add: mbox_text_def)

lemma mbox_msg_128:
  assumes "tid < 10000000000" "count < 10000000000" "length junk = 128"
  shows "length (mbox_msg tid count junk) = 128"
    "takeWhile (\<lambda>b. b \<noteq> 0) (mbox_msg tid count junk) = mbox_text tid count"
proof -
  have "length (mbox_text tid count @ [0]) \<le> length junk" using length_mbox_text [OF assms(1,2)] assms(3) by simp
  then show "length (mbox_msg tid count junk) = 128" using assms(3) by (simp add: mbox_msg_def)
  show "takeWhile (\<lambda>b. b \<noteq> 0) (mbox_msg tid count junk) = mbox_text tid count"
    using mbox_text_no_0 [of tid count] by (auto simp: mbox_msg_def overwrite_def takeWhile_tail takeWhile_eq_all_conv)
qed

subsection \<open>What is offered, accepted and handed out\<close>

fun offered1 :: "tid \<times> mt_op \<times> mt_out \<Rightarrow> (tid \<times> u8_t list) list" where
  "offered1 (t, MtPut (Some bs), _) = [(t, bs)]" | "offered1 _ = []"

fun accepted1 :: "tid \<times> mt_op \<times> mt_out \<Rightarrow> (tid \<times> u8_t list) list" where
  "accepted1 (t, MtPut (Some bs), Flag True) = [(t, bs)]" | "accepted1 _ = []"

fun handed1 :: "tid \<times> mt_op \<times> mt_out \<Rightarrow> u8_t list list" where
  "handed1 (_, MtGet _, Item True (Some bs)) = [bs]" | "handed1 _ = []"

definition by_thread :: "tid \<Rightarrow> (tid \<times> 'a) list \<Rightarrow> 'a list" where
  "by_thread t xs = map snd (filter (\<lambda>(u, _). u = t) xs)"

abbreviation (input) offered :: "(tid \<times> mt_op \<times> mt_out) list \<Rightarrow> (tid \<times> u8_t list) list" where
  "offered hist \<equiv> concat (map offered1 hist)"

abbreviation (input) accepted :: "(tid \<times> mt_op \<times> mt_out) list \<Rightarrow> (tid \<times> u8_t list) list" where
  "accepted hist \<equiv> concat (map accepted1 hist)"

abbreviation (input) handed :: "(tid \<times> mt_op \<times> mt_out) list \<Rightarrow> u8_t list list" where
  "handed hist \<equiv> concat (map handed1 hist)"

lemma by_thread_append [simp]: "by_thread t (xs @ ys) = by_thread t xs @ by_thread t ys"
  by (simp add: by_thread_def)

text \<open>The message a thread is about to put, and the numbering of the messages of a thread.\<close>

fun pending :: "mt_pc \<Rightarrow> u8_t list list" where
  "pending (Calling (MtPut (Some bs))) = [bs]" | "pending (Inside (MtPut (Some bs)) _) = [bs]" | "pending _ = []"

definition mb_numbered :: "(tid \<Rightarrow> nat) \<Rightarrow> tid \<Rightarrow> mb_world \<Rightarrow> bool" where
  "mb_numbered ident t w \<longleftrightarrow>
     map (takeWhile (\<lambda>b. b \<noteq> 0)) (by_thread t (offered (mt_hist (mb_sys w))) @ pending (mt_pc (mb_sys w) t))
     = map (mbox_text (ident t)) [0..<mb_count w t]"

definition mb_calls :: "mt_op \<Rightarrow> bool" where
  "mb_calls op \<longleftrightarrow> (\<exists>bs. op = MtPut (Some bs) \<and> length bs = 128) \<or> op = MtGet True \<or> op = MtLength"

lemma foo_put_cases:
  assumes "(op, c) = foo_put tid junk l count"
  obtains "op = MtLength" "c = count" | "op = MtPut (Some (mbox_msg tid count junk))" "c = count + 1"
  using assms by (auto simp: foo_put_def split: option.splits prod.splits mt_op.splits mt_out.splits bool.splits)

lemma foo_get_cases:
  assumes "(op, c) = foo_get l count"
  obtains "op = MtLength" | "op = MtGet True"
  using assms by (auto simp: foo_get_def split: option.splits prod.splits mt_op.splits mt_out.splits bool.splits)

lemma offered_by_other: "u \<noteq> t \<Longrightarrow> by_thread t (offered1 (u, op, out)) = []"
  by (cases "(u, op, out)" rule: offered1.cases) (auto simp: by_thread_def)

lemma offered_by_self: "by_thread t (offered1 (t, op, out)) = pending (Inside op l)"
  by (cases "(t, op, out)" rule: offered1.cases) (auto simp: by_thread_def)

lemma pending_calling: "pending (Calling op) = pending (Inside op l)"
  by (cases op; cases "case op of MtPut x \<Rightarrow> x | _ \<Rightarrow> None") auto

lemma mb_numbered_step:
  assumes "mb_step putter ident u w w'" "putter t" "ident t < 10000000000" "mb_numbered ident t w"
  shows "mb_numbered ident t w'"
  using assms(1)
proof cases
  case (mb_call junk op c)
  show ?thesis
  proof (cases "u = t")
    case False
    then show ?thesis using assms(4) mb_call by (simp add: mb_numbered_def)
  next
    case True
    then have "(op, c) = foo_put (ident t) junk (last_call t (mt_hist (mb_sys w))) (mb_count w t)"
      using mb_call assms(2) by simp
    then show ?thesis
      using assms(3,4) mb_call True mbox_msg_128(2) [of "ident t" "mb_count w t" junk]
      by (auto simp: mb_numbered_def elim!: foo_put_cases)
  qed
next
  case (mb_move s)
  from mb_move(3) show ?thesis
  proof cases
    case (mt_enter op l)
    then show ?thesis using assms(4) mb_move pending_calling [of op "Entry op"] by (auto simp: mb_numbered_def)
  next
    case (mt_body op l l' q')
    have "pending (Inside op l') = pending (Inside op l)" using pending_calling by metis
    then show ?thesis using assms(4) mb_move mt_body by (auto simp: mb_numbered_def)
  next
    case (mt_leave op out r l)
    then show ?thesis
      using assms(4) mb_move offered_by_other [of u t op out] offered_by_self [of t op out "Result out"]
      by (cases "u = t") (auto simp: mb_numbered_def)
  qed simp
qed

lemma mb_reach_numbered: "mb_reach putter ident q0 w \<Longrightarrow> putter t \<Longrightarrow> ident t < 10000000000 \<Longrightarrow> mb_numbered ident t w"
proof (induction rule: mb_reach.induct)
  case mb_start
  then show ?case by (simp add: mb_numbered_def mb_init_def mt_init_def by_thread_def)
next
  case (mb_next w u w')
  then show ?case using mb_numbered_step by blast
qed

subsection \<open>A run of the sample is a run of the queue\<close>

lemma mb_reach_mt:
  assumes "\<And>t. ident t < 10000000000"
  shows "mb_reach putter ident q0 w \<Longrightarrow> mt_reach mb_calls q0 (mb_sys w)"
proof (induction rule: mb_reach.induct)
  case mb_start
  then show ?case by (simp add: mb_init_def mt_reach_init)
next
  case (mb_next w t w')
  from mb_next(2) show ?case
  proof cases
    case (mb_call junk op c)
    have "mb_calls op"
    proof (cases "putter t")
      case True
      then show ?thesis
        using mb_call mbox_msg_128(1) [OF assms, of "mb_count w t" junk t] by (auto simp: mb_calls_def elim!: foo_put_cases)
    next
      case False
      then show ?thesis using mb_call by (auto simp: mb_calls_def elim!: foo_get_cases)
    qed
    then show ?thesis using mt_reach_step [OF mb_next(3) mt_step.mt_call [OF mb_call(2)]] mb_call(1) by simp
  next
    case (mb_move s)
    have "mt_step mb_calls t (mb_sys w) s"
      using mb_move(3) by cases (use mt_step.intros in \<open>auto\<close>)
    then show ?thesis using mt_reach_step [OF mb_next(3)] mb_move(1) by simp
  qed
qed

lemma mt_step_mono: "mt_step A t s s' \<Longrightarrow> (\<And>op. A op \<Longrightarrow> B op) \<Longrightarrow> mt_step B t s s'"
  by (erule mt_step.cases) (auto intro: mt_step.intros)

lemma mt_reach_mono: "mt_reach A q0 s \<Longrightarrow> (\<And>op. A op \<Longrightarrow> B op) \<Longrightarrow> mt_reach B q0 s"
  by (induction rule: mt_reach.induct) (auto intro: mt_reach.intros mt_step_mono)

end
