(* ===== verification/GclMailboxProps.thy ===== *)
theory GclMailboxProps
  imports GclMailbox GclQueMTProps "HOL-Library.Sublist"
begin

section \<open>The mailbox sample: properties\<close>

text \<open>
  The mailbox as a bounded list (\<open>mt_spec_run\<close>) delivers every accepted message once and in order.
\<close>

lemma spec_run_fifo:
  assumes "\<forall>(t, op, out) \<in> set hist. mb_calls op"
  shows "mt_spec_run c sz hist xs = Some ys \<Longrightarrow> length xs \<le> c \<Longrightarrow>
    xs @ map snd (accepted hist) = handed hist @ ys \<and> length ys \<le> c"
  using assms
proof (induction c sz hist xs rule: mt_spec_run.induct)
  case (2 c sz t op out h xs)
  obtain out' xs' where sp: "mt_spec c sz op xs = (out', xs')" by fastforce
  have ok: "out' = out" "mt_spec_run c sz h xs' = Some ys" using "2.prems"(1) sp by (auto split: if_splits)
  note IH = "2.IH" [OF sp [symmetric] ok(1) ok(2)]
  consider (put) bs where "op = MtPut (Some bs)" | (get) "op = MtGet True" | (len) "op = MtLength"
    using "2.prems"(3) by (auto simp: mb_calls_def)
  then show ?case
  proof cases
    case put
    then show ?thesis using IH "2.prems"(2,3) ok sp by (auto split: if_splits)
  next
    case get
    then show ?thesis using IH "2.prems"(2,3) ok sp by (auto split: list.splits)
  next
    case len
    then show ?thesis using IH "2.prems"(2,3) ok sp by auto
  qed
qed simp

lemma accepted_subseq: "subseq (by_thread t (accepted hist)) (by_thread t (offered hist))"
proof (induction hist)
  case (Cons c hist)
  have "subseq (by_thread t (accepted1 c)) (by_thread t (offered1 c))"
    by (cases c rule: accepted1.cases) (auto simp: by_thread_def)
  then show ?case using Cons by (simp add: list_emb_append_mono)
qed (simp add: by_thread_def)

lemma mailbox_delivery:
  assumes "a \<noteq> 0" "unat a + (20 + 201 * 128) < 2 ^ 64" "\<And>t. ident t < 2147483648"
    and "queue_init 128 200 (a, junk) cq_new allocated = Inr (True, q0, allocated')"
    and "mb_reach putter ident q0 w"
  shows "(\<forall>t op e. mt_pc (mb_sys w) t \<noteq> Inside op (Failed e)) \<and>
    (\<exists>xs. map snd (accepted (mt_hist (mb_sys w))) = handed (mt_hist (mb_sys w)) @ xs \<and> length xs \<le> 200 \<and>
      (rw_writer (mt_lock (mb_sys w)) = None \<longrightarrow> cq_items (mt_q (mb_sys w)) = xs)) \<and>
    (\<forall>t. putter t \<longrightarrow> subseq (map (takeWhile (\<lambda>b. b \<noteq> 0)) (by_thread t (accepted (mt_hist (mb_sys w)))))
      (map (mbox_text (ident t)) [0..<mb_count w t]))"
proof -
  let ?s = "mb_sys w" and ?txt = "takeWhile (\<lambda>b. b \<noteq> (0 :: u8_t))"
  have id: "ident t < 10000000000" for t using assms(3) [of t] by simp
  have init: "cq_init 200 128 (a, junk) cq_new allocated = Inr (True, q0, allocated')" using assms(4) by (simp add: queue_init_def)
  obtain q1 where "cq_init 200 128 (a, junk) cq_new allocated = Inr (True, q1, insert a allocated)" "cq_rep q1 128 201 0 0"
    by (rule cq_rep_init [of cq_new 200 128 a junk allocated]) (use assms(1,2) in \<open>simp_all add: cq_new_def\<close>)
  then have rep: "cq_rep q0 128 201 0 0" using init by simp
  have run: "mt_reach mb_calls q0 ?s" by (rule mb_reach_mt [OF id assms(5)])
  then have proper: "mt_reach (mt_proper 128) q0 ?s" by (rule mt_reach_mono) (auto simp: mb_calls_def)
  obtain qb where qb: "mt_bound qb ?s" "mt_spec_run 200 128 (mt_hist ?s) [] = Some (cq_items qb)"
    "\<And>t op l. mt_pc ?s t = Inside op l \<Longrightarrow> \<exists>z. mt_outcome (l, mt_q ?s) = Inr z"
    by (rule mt_mailbox [OF rep proper]) simp
  note fifo = spec_run_fifo [OF mt_reach_hist [OF run] qb(2), simplified]
  have sub: "subseq (map ?txt (by_thread t (accepted (mt_hist ?s)))) (map (mbox_text (ident t)) [0..<mb_count w t])"
    if "putter t" for t
  proof -
    have "map ?txt (by_thread t (offered (mt_hist ?s))) @ map ?txt (pending (mt_pc ?s t)) = map (mbox_text (ident t)) [0..<mb_count w t]"
      using mb_reach_numbered [OF assms(5) that id] by (simp add: mb_numbered_def)
    then show ?thesis
      using list_emb_prefix [OF subseq_map [OF accepted_subseq [of t "mt_hist ?s"], of ?txt], of "map ?txt (pending (mt_pc ?s t))"]
      by simp
  qed
  have "mt_pc ?s t \<noteq> Inside op (Failed e)" for t op e using qb(3) [of t op "Failed e"] by auto
  then show ?thesis using fifo sub mt_boundD(1) [OF qb(1)] by auto
qed

text \<open>
  C8: Any number of threads run the loops of the sample around a mailbox for 200 messages, in any
  interleaving, some of them stopped at any time between calls: no call fails, the messages handed
  out and those still in the box are the accepted ones in the order in which they were accepted,
  never more than 200 waiting, and the accepted ones of one putting thread carry its identity and
  strictly growing numbers.
\<close>
theorem mailbox_delivers_in_order:
  assumes "a \<noteq> 0" "unat a + (20 + 201 * 128) < 2 ^ 64" "\<And>t. ident t < 2147483648"
    and "queue_init 128 200 (a, junk) cq_new allocated = Inr (True, q0, allocated')"
    and "mb_reach putter ident q0 w"
  shows "(\<forall>t op e. mt_pc (mb_sys w) t \<noteq> Inside op (Failed e)) \<and>
    (\<exists>xs. map snd (accepted (mt_hist (mb_sys w))) = handed (mt_hist (mb_sys w)) @ xs \<and> length xs \<le> 200 \<and>
      (rw_writer (mt_lock (mb_sys w)) = None \<longrightarrow> cq_items (mt_q (mb_sys w)) = xs)) \<and>
    (\<forall>t. putter t \<longrightarrow> subseq (map (takeWhile (\<lambda>b. b \<noteq> 0)) (by_thread t (accepted (mt_hist (mb_sys w)))))
      (map (mbox_text (ident t)) [0..<mb_count w t]))"
  by (rule mailbox_delivery [OF assms])

theorem mailbox_delivers_in_order_witness:
  "\<exists>q0 w. mb_reach (\<lambda>t. t = 1) (\<lambda>t. 1) q0 w \<and> mb_count w 1 = 1 \<and>
    (\<exists>xs. map snd (accepted (mt_hist (mb_sys w))) = handed (mt_hist (mb_sys w)) @ xs \<and> length xs \<le> 200)"
proof -
  obtain q0 where q0: "queue_init 128 200 (4096, \<lambda>_. 0) cq_new {} = Inr (True, q0, {4096})"
    using cq_rep_init [of cq_new 200 128 4096 "\<lambda>_. 0" "{}"] by (auto simp: queue_init_def cq_new_def)
  let ?ident = "\<lambda>t :: tid. 1 :: nat"
  let ?w = "(mb_init q0)\<lparr>mb_sys := mt_at 1 (Calling (MtPut (Some (mbox_msg 1 0 (replicate 128 0))))) (mt_init q0),
    mb_count := (\<lambda>_. 0)(1 := 1)\<rparr>"
  have "mb_step (\<lambda>t. t = 1) ?ident 1 (mb_init q0) ?w"
    using mb_call [of "mb_init q0" 1 "replicate 128 0" "MtPut (Some (mbox_msg 1 0 (replicate 128 0)))" 1 "\<lambda>t. t = 1" ?ident]
    by (simp add: mb_init_def mt_init_def foo_put_def last_call_def)
  then have w: "mb_reach (\<lambda>t. t = 1) ?ident q0 ?w" by (rule mb_next [OF mb_start])
  have "(4096 :: ptr) \<noteq> 0" "unat (4096 :: ptr) + (20 + 201 * 128) < 2 ^ 64" "(1 :: nat) < 2147483648" by simp_all
  note delivered = mailbox_delivers_in_order [OF this(1,2) _ q0 w, OF this(3), THEN conjunct2, THEN conjunct1]
  have "mb_count ?w 1 = 1" by simp
  then show ?thesis using w delivered by blast
qed

end
