(* ===== verification/GclMailboxMain.thy ===== *)
theory GclMailboxMain
  imports GclMailboxProps
begin

section \<open>The program around the mailbox: \<open>main\<close> of \<open>samples/ex-mbox.cpp\<close>\<close>

text \<open>
  Main starts ten putting and ten getting threads in turn, sleeps, cancels them all and joins
  them all. Thread \<open>2 * i\<close> is \<open>putters[i]\<close>, thread \<open>2 * i + 1\<close> is \<open>getters[i]\<close>. Cancellation is
  deferred: a thread that was cancelled ends in \<open>msleep\<close>, the cancellation point of its loop, or in
  the \<open>printf\<close> right before it, which is outside of every call of the mailbox as well. \<open>errs t\<close> is the error code of starting thread \<open>t\<close>;
  \<open>cancel\<close> and \<open>join\<close> of an object whose thread does not run return at once. The calls of the
  mailbox are the steps of \<open>GclMailbox\<close>.
\<close>

datatype mb_phase = AtTop | AtWork | Asleep

datatype mb_thread = NotStarted | Refused | Loop bool mb_phase | Ended

datatype mb_main = MbStart nat | MbSleep | MbCancel nat | MbJoin nat | MbDone

record mbm_world =
  mm_box :: mb_world
  mm_threads :: "tid \<Rightarrow> mb_thread"
  mm_main :: mb_main

definition mbm_init :: "cqueue \<Rightarrow> mbm_world" where
  "mbm_init q = \<lparr>mm_box = mb_init q, mm_threads = (\<lambda>_. NotStarted), mm_main = MbStart 0\<rparr>"

abbreviation (input) MB_THREADS :: nat where "MB_THREADS \<equiv> 20"

fun mb_cancel :: "mb_thread \<Rightarrow> mb_thread" where
  "mb_cancel (Loop _ ph) = Loop True ph"
| "mb_cancel th = th"

fun mb_over :: "mb_thread \<Rightarrow> bool" where
  "mb_over NotStarted = True" | "mb_over Refused = True" | "mb_over Ended = True" | "mb_over (Loop _ _) = False"

text \<open>The steps of main; a join with a running thread is not enabled.\<close>

definition mbm_main_step :: "(nat \<Rightarrow> int) \<Rightarrow> mbm_world \<Rightarrow> mbm_world option" where
  "mbm_main_step errs w =
     (case mm_main w of
        MbStart j \<Rightarrow>
          if j < MB_THREADS
          then Some (w\<lparr>mm_threads := (mm_threads w)(j := (if errs j = 0 then Loop False AtTop else Refused)), mm_main := MbStart (j + 1)\<rparr>)
          else Some (w\<lparr>mm_main := MbSleep\<rparr>)
      | MbSleep \<Rightarrow> Some (w\<lparr>mm_main := MbCancel 0\<rparr>)
      | MbCancel j \<Rightarrow>
          if j < MB_THREADS
          then Some (w\<lparr>mm_threads := (mm_threads w)(j := mb_cancel (mm_threads w j)), mm_main := MbCancel (j + 1)\<rparr>)
          else Some (w\<lparr>mm_main := MbJoin 0\<rparr>)
      | MbJoin j \<Rightarrow>
          if j < MB_THREADS
          then (if mb_over (mm_threads w j) then Some (w\<lparr>mm_main := MbJoin (j + 1)\<rparr>) else None)
          else Some (w\<lparr>mm_main := MbDone\<rparr>)
      | MbDone \<Rightarrow> None)"

text \<open>After a successful call the thread asks for the length before it sleeps.\<close>

fun wants_length :: "bool \<Rightarrow> (mt_op \<times> mt_out) option \<Rightarrow> bool" where
  "wants_length True (Some (MtPut _, Flag True)) = True"
| "wants_length False (Some (MtGet _, Item True _)) = True"
| "wants_length _ _ = False"

abbreviation (input) mb_putter :: "tid \<Rightarrow> bool" where "mb_putter t \<equiv> even t"

inductive mbm_step :: "(nat \<Rightarrow> int) \<Rightarrow> (tid \<Rightarrow> nat) \<Rightarrow> mbm_world \<Rightarrow> mbm_world \<Rightarrow> bool" for errs ident where
  mbm_main: "mbm_main_step errs w = Some w' \<Longrightarrow> mbm_step errs ident w w'"
| mbm_call: "mm_threads w t = Loop c ph \<Longrightarrow> mt_pc (mb_sys (mm_box w)) t = Outside \<Longrightarrow>
    ph = AtTop \<or> ph = AtWork \<and> wants_length (mb_putter t) (last_call t (mt_hist (mb_sys (mm_box w)))) \<Longrightarrow>
    mb_step mb_putter ident t (mm_box w) b \<Longrightarrow>
    mbm_step errs ident w (w\<lparr>mm_box := b, mm_threads := (mm_threads w)(t := Loop c AtWork)\<rparr>)"
| mbm_move: "mm_threads w t = Loop c AtWork \<Longrightarrow> mt_pc (mb_sys (mm_box w)) t \<noteq> Outside \<Longrightarrow>
    mb_step mb_putter ident t (mm_box w) b \<Longrightarrow> mbm_step errs ident w (w\<lparr>mm_box := b\<rparr>)"
| mbm_sleep: "mm_threads w t = Loop c AtWork \<Longrightarrow> mt_pc (mb_sys (mm_box w)) t = Outside \<Longrightarrow>
    \<not> wants_length (mb_putter t) (last_call t (mt_hist (mb_sys (mm_box w)))) \<Longrightarrow>
    mbm_step errs ident w (w\<lparr>mm_threads := (mm_threads w)(t := Loop c Asleep)\<rparr>)"
| mbm_wake: "mm_threads w t = Loop False Asleep \<Longrightarrow>
    mbm_step errs ident w (w\<lparr>mm_threads := (mm_threads w)(t := Loop False AtTop)\<rparr>)"
| mbm_end: "mm_threads w t = Loop True Asleep \<Longrightarrow>
    mbm_step errs ident w (w\<lparr>mm_threads := (mm_threads w)(t := Ended)\<rparr>)"

inductive mbm_reach :: "(nat \<Rightarrow> int) \<Rightarrow> (tid \<Rightarrow> nat) \<Rightarrow> cqueue \<Rightarrow> mbm_world \<Rightarrow> bool" for errs ident q0 where
  mbm_start: "mbm_reach errs ident q0 (mbm_init q0)"
| mbm_next: "mbm_reach errs ident q0 w \<Longrightarrow> mbm_step errs ident w w' \<Longrightarrow> mbm_reach errs ident q0 w'"

subsection \<open>What holds in every state\<close>

text \<open>Threads are inside a call only at work, and the stage of main says what the threads can be.\<close>

fun mb_cancelled :: "mb_thread \<Rightarrow> bool" where
  "mb_cancelled (Loop c _) = c" | "mb_cancelled _ = True"

fun mb_working :: "mb_thread \<Rightarrow> bool" where
  "mb_working (Loop _ ph) \<longleftrightarrow> ph = AtWork" | "mb_working _ \<longleftrightarrow> False"

fun at_stage :: "mb_main \<Rightarrow> tid \<Rightarrow> mb_thread \<Rightarrow> bool" where
  "at_stage (MbStart j) t th \<longleftrightarrow> (j \<le> t \<longrightarrow> th = NotStarted)"
| "at_stage MbSleep t th \<longleftrightarrow> True"
| "at_stage (MbCancel j) t th \<longleftrightarrow> (t < j \<longrightarrow> mb_cancelled th)"
| "at_stage (MbJoin j) t th \<longleftrightarrow> mb_cancelled th \<and> (t < j \<longrightarrow> mb_over th)"
| "at_stage MbDone t th \<longleftrightarrow> mb_over th"

definition thread_ok :: "mbm_world \<Rightarrow> tid \<Rightarrow> bool" where
  "thread_ok w t \<longleftrightarrow> (mt_pc (mb_sys (mm_box w)) t \<noteq> Outside \<longrightarrow> mb_working (mm_threads w t))
     \<and> (MB_THREADS \<le> t \<longrightarrow> mm_threads w t = NotStarted) \<and> at_stage (mm_main w) t (mm_threads w t)"

lemma mb_step_pc:
  assumes "mb_step putter ident t w w'" "u \<noteq> t"
  shows "mt_pc (mb_sys w') u = mt_pc (mb_sys w) u"
  using assms by (cases rule: mb_step.cases) (auto elim!: mt_stepE)

lemma mb_over_cancelled: "mb_over th \<Longrightarrow> mb_cancelled th"
  by (cases th) simp_all

lemma mb_cancel_facts:
  "mb_cancelled (mb_cancel th)" "mb_working (mb_cancel th) = mb_working th" "mb_cancel NotStarted = NotStarted"
  by (cases th; simp)+

text \<open>A thread that goes on in its loop, or ends after it was cancelled, stays in its stage.\<close>

lemma at_stage_loop:
  "at_stage m t (Loop c ph) \<Longrightarrow> at_stage m t (Loop c ph')" "at_stage m t (Loop True ph) \<Longrightarrow> at_stage m t Ended"
  by (cases m; auto)+

lemma mbm_main_box: "mbm_main_step errs w = Some w' \<Longrightarrow> mm_box w' = mm_box w"
  by (auto simp: mbm_main_step_def split: mb_main.splits if_splits)

lemma mbm_main_ok:
  assumes "\<forall>t. thread_ok w t" "mbm_main_step errs w = Some w'"
  shows "thread_ok w' t"
proof (cases "mm_main w")
  case (MbStart j)
  have "thread_ok w t" using assms(1) by blast
  then show ?thesis using assms(2) MbStart by (auto simp: thread_ok_def mbm_main_step_def split: if_splits)
next
  case MbSleep
  have "thread_ok w t" using assms(1) by blast
  then show ?thesis using assms(2) MbSleep by (auto simp: thread_ok_def mbm_main_step_def)
next
  case (MbCancel j)
  have "thread_ok w t" using assms(1) by blast
  then show ?thesis using assms(2) MbCancel
    by (auto simp: thread_ok_def mbm_main_step_def mb_cancel_facts less_Suc_eq not_less split: if_splits)
next
  case (MbJoin j)
  have "thread_ok w t" using assms(1) by blast
  then show ?thesis using assms(2) MbJoin
    by (auto simp: thread_ok_def mbm_main_step_def less_Suc_eq not_less split: if_splits)
qed (use assms in \<open>simp add: mbm_main_step_def\<close>)

lemma thread_ok_step:
  assumes "\<forall>t. thread_ok w t" "mbm_step errs ident w w'"
  shows "thread_ok w' u"
  using assms(2)
proof cases
  case mbm_main
  then show ?thesis using mbm_main_ok assms(1) by blast
next
  case (mbm_call t c ph b)
  have "thread_ok w u" "thread_ok w t" using assms(1) by blast+
  then show ?thesis using mbm_call mb_step_pc [OF mbm_call(5), of u] at_stage_loop(1) [of "mm_main w" t c ph AtWork]
    by (cases "u = t") (auto simp: thread_ok_def)
next
  case (mbm_move t c b)
  have "thread_ok w u" using assms(1) by blast
  then show ?thesis using mbm_move mb_step_pc [OF mbm_move(4), of u] by (cases "u = t") (auto simp: thread_ok_def)
next
  case (mbm_sleep t c)
  have "thread_ok w u" using assms(1) by blast
  then show ?thesis using mbm_sleep at_stage_loop(1) [of "mm_main w" t c AtWork Asleep]
    by (cases "u = t") (auto simp: thread_ok_def)
next
  case (mbm_wake t)
  have "thread_ok w u" using assms(1) by blast
  then show ?thesis using mbm_wake at_stage_loop(1) [of "mm_main w" t False Asleep AtTop]
    by (cases "u = t") (auto simp: thread_ok_def)
next
  case (mbm_end t)
  have "thread_ok w u" using assms(1) by blast
  then show ?thesis using mbm_end at_stage_loop(2) [of "mm_main w" t Asleep]
    by (cases "u = t") (auto simp: thread_ok_def)
qed

lemma mbm_reach_ok: "mbm_reach errs ident q0 w \<Longrightarrow> \<forall>t. thread_ok w t"
proof (induction rule: mbm_reach.induct)
  case mbm_start
  show ?case by (simp add: mbm_init_def mb_init_def mt_init_def thread_ok_def)
next
  case (mbm_next w w')
  then show ?case using thread_ok_step by blast
qed

text \<open>What the threads do to the mailbox is a run of \<open>GclMailbox\<close>.\<close>

lemma mbm_step_box:
  assumes "mbm_step errs ident w w'"
  shows "mm_box w' = mm_box w \<or> (\<exists>t. mb_step mb_putter ident t (mm_box w) (mm_box w'))"
  using assms by cases (auto simp: mbm_main_box)

lemma mbm_reach_box: "mbm_reach errs ident q0 w \<Longrightarrow> mb_reach mb_putter ident q0 (mm_box w)"
proof (induction rule: mbm_reach.induct)
  case mbm_start
  show ?case by (simp add: mbm_init_def mb_reach.mb_start)
next
  case (mbm_next w w')
  then show ?case using mbm_step_box [OF mbm_next(2)] by (auto intro: mb_reach.mb_next)
qed

end
