(* ===== verification/GclMailboxEnd.thy ===== *)
theory GclMailboxEnd
  imports GclMailboxMain
begin

section \<open>The mailbox program ends\<close>

text \<open>
  Once main joins, every thread was cancelled: it finishes the call it is in, asks for the length
  if the call was successful, and ends when it sleeps. \<open>mbm_todo\<close> bounds the steps that are left.
\<close>

subsection \<open>The steps that are left\<close>

definition pc_todo :: "bool \<Rightarrow> (mt_op \<times> mt_out) option \<Rightarrow> mt_pc \<Rightarrow> nat" where
  "pc_todo putter prev pc =
     (case pc of Outside \<Rightarrow> if wants_length putter prev then 8 else 2
      | Calling op \<Rightarrow> (if op = MtLength then 2 else 8) + mt_work pc
      | Inside op l \<Rightarrow> (if op = MtLength then 2 else 8) + mt_work pc)"

definition mb_todo :: "mbm_world \<Rightarrow> tid \<Rightarrow> nat" where
  "mb_todo w t =
     (case mm_threads w t of
        Loop c ph \<Rightarrow>
          (case ph of AtTop \<Rightarrow> 14 | Asleep \<Rightarrow> 1
           | AtWork \<Rightarrow> pc_todo (mb_putter t) (last_call t (mt_hist (mb_sys (mm_box w)))) (mt_pc (mb_sys (mm_box w)) t))
      | _ \<Rightarrow> 0)"

fun main_todo :: "mb_main \<Rightarrow> nat" where
  "main_todo (MbJoin j) = Suc (MB_THREADS - j)" | "main_todo _ = 0"

definition mbm_todo :: "mbm_world \<Rightarrow> nat" where
  "mbm_todo w = main_todo (mm_main w) + (\<Sum>t < MB_THREADS. mb_todo w t)"

lemma last_call_snoc: "last_call u (hist @ [(t, op, out)]) = (if u = t then Some (op, out) else last_call u hist)"
proof -
  have "last_call u hist = (let cs = filter (\<lambda>(v, _). v = u) hist in if cs = [] then None else Some (snd (last cs)))" for hist
    by (simp add: last_call_def Let_def split: list.split)
  then show ?thesis by (simp add: Let_def)
qed

lemma mt_work_le: "mt_work pc \<le> 5"
proof -
  have "mt_rank l \<le> 4" for l by (cases l) simp_all
  then show ?thesis by (cases pc) simp_all
qed

lemma pc_todo_le: "pc_todo putter prev pc \<le> 13"
  using mt_work_le [of pc] by (auto simp: pc_todo_def split: mt_pc.split)

lemma mb_todo_le: "mb_todo w t \<le> 14"
  using pc_todo_le [of "mb_putter t" "last_call t (mt_hist (mb_sys (mm_box w)))" "mt_pc (mb_sys (mm_box w)) t"]
  by (simp add: mb_todo_def split: mb_thread.split mb_phase.split)

lemma mbm_todo_le: "mbm_todo w \<le> 301"
proof -
  have "(\<Sum>t < MB_THREADS. mb_todo w t) \<le> (\<Sum>t < MB_THREADS. 14)" by (rule sum_mono) (rule mb_todo_le)
  moreover have "main_todo (mm_main w) \<le> 21" by (cases "mm_main w") simp_all
  ultimately show ?thesis by (simp add: mbm_todo_def)
qed

text \<open>A step of a call.\<close>

lemma wants_length_len [simp]: "\<not> wants_length putter (Some (MtLength, out))"
  by (cases putter; cases out) simp_all

lemma mt_step_todo:
  assumes "mt_step (\<lambda>_. False) t s s'"
  shows "pc_todo putter (last_call t (mt_hist s')) (mt_pc s' t) < pc_todo putter (last_call t (mt_hist s)) (mt_pc s t)
    \<and> (\<forall>u. u \<noteq> t \<longrightarrow> mt_pc s' u = mt_pc s u \<and> last_call u (mt_hist s') = last_call u (mt_hist s))"
  using assms
proof cases
  case (mt_body op l l' q')
  have "mt_rank l' < mt_rank l" using mt_micro_rank [of "(l, mt_q s)"] mt_body by simp
  then show ?thesis using mt_body by (simp add: pc_todo_def)
qed (auto simp: pc_todo_def last_call_snoc)

lemma next_call_length:
  assumes "(op, c) = (if putter then foo_put i junk else foo_get) prev count"
  shows "wants_length putter prev \<Longrightarrow> op = MtLength \<and> c = count" "c \<le> count + 1"
  using assms by (cases "(putter, prev)" rule: wants_length.cases;
      auto simp: foo_put_def foo_get_def split: option.splits prod.splits mt_op.splits mt_out.splits bool.splits if_splits)+

text \<open>A step of the program from a state in which main joins.\<close>

definition joining :: "mbm_world \<Rightarrow> bool" where
  "joining w \<longleftrightarrow> (\<forall>t. thread_ok w t) \<and> (\<exists>j. mm_main w = MbJoin j)"

lemma joining_cancelled: "joining w \<Longrightarrow> mb_cancelled (mm_threads w t)"
  by (auto simp: joining_def thread_ok_def)

lemma mb_todo_other:
  assumes "mm_threads w' u = mm_threads w u" "mt_pc (mb_sys (mm_box w')) u = mt_pc (mb_sys (mm_box w)) u"
    and "last_call u (mt_hist (mb_sys (mm_box w'))) = last_call u (mt_hist (mb_sys (mm_box w)))"
  shows "mb_todo w' u = mb_todo w u"
  unfolding mb_todo_def assms ..

lemma sum_todo_less:
  assumes "mm_main w' = mm_main w" "t < MB_THREADS" "mb_todo w' t < mb_todo w t" "\<And>u. u \<noteq> t \<Longrightarrow> mb_todo w' u = mb_todo w u"
  shows "mbm_todo w' < mbm_todo w"
proof -
  have "mb_todo w' u \<le> mb_todo w u" for u using assms(3,4) by (cases "u = t") simp_all
  then have "(\<Sum>t < MB_THREADS. mb_todo w' t) < (\<Sum>t < MB_THREADS. mb_todo w t)"
    using assms(2,3) by (intro sum_strict_mono_ex1) auto
  then show ?thesis using assms(1) by (simp add: mbm_todo_def)
qed

lemma mb_step_todo:
  assumes "mb_step putter ident t b b'"
  shows "\<forall>u. u \<noteq> t \<longrightarrow> mt_pc (mb_sys b') u = mt_pc (mb_sys b) u
      \<and> last_call u (mt_hist (mb_sys b')) = last_call u (mt_hist (mb_sys b))"
    and "mt_pc (mb_sys b) t \<noteq> Outside \<or> wants_length (putter t) (last_call t (mt_hist (mb_sys b))) \<Longrightarrow>
      pc_todo (putter t) (last_call t (mt_hist (mb_sys b'))) (mt_pc (mb_sys b') t)
        < pc_todo (putter t) (last_call t (mt_hist (mb_sys b))) (mt_pc (mb_sys b) t)"
  using assms
proof (atomize (full), cases)
  case (mb_call junk op c)
  show "(\<forall>u. u \<noteq> t \<longrightarrow> mt_pc (mb_sys b') u = mt_pc (mb_sys b) u \<and> last_call u (mt_hist (mb_sys b')) = last_call u (mt_hist (mb_sys b)))
    \<and> (mt_pc (mb_sys b) t \<noteq> Outside \<or> wants_length (putter t) (last_call t (mt_hist (mb_sys b))) \<longrightarrow>
      pc_todo (putter t) (last_call t (mt_hist (mb_sys b'))) (mt_pc (mb_sys b') t)
        < pc_todo (putter t) (last_call t (mt_hist (mb_sys b))) (mt_pc (mb_sys b) t))"
    using mb_call next_call_length(1) [OF mb_call(5)] by (auto simp: pc_todo_def)
next
  case (mb_move s)
  show "(\<forall>u. u \<noteq> t \<longrightarrow> mt_pc (mb_sys b') u = mt_pc (mb_sys b) u \<and> last_call u (mt_hist (mb_sys b')) = last_call u (mt_hist (mb_sys b)))
    \<and> (mt_pc (mb_sys b) t \<noteq> Outside \<or> wants_length (putter t) (last_call t (mt_hist (mb_sys b))) \<longrightarrow>
      pc_todo (putter t) (last_call t (mt_hist (mb_sys b'))) (mt_pc (mb_sys b') t)
        < pc_todo (putter t) (last_call t (mt_hist (mb_sys b))) (mt_pc (mb_sys b) t))"
    using mb_move(1) mt_step_todo [OF mb_move(3), of "putter t"] by simp
qed

lemma mbm_todo_step:
  assumes "joining w" "mbm_step errs ident w w'"
  shows "mbm_todo w' < mbm_todo w \<and> (joining w' \<or> mm_main w' = MbDone)"
proof -
  obtain j where j: "mm_main w = MbJoin j" and ok: "\<forall>t. thread_ok w t" using assms(1) by (auto simp: joining_def)
  have ok': "\<forall>t. thread_ok w' t" using thread_ok_step [OF ok assms(2)] by blast
  have few: "t < MB_THREADS" if "mm_threads w t = Loop c ph" for t c ph
  proof (rule ccontr)
    assume "\<not> t < MB_THREADS"
    moreover have "thread_ok w t" using ok by blast
    ultimately show False using that by (simp add: thread_ok_def)
  qed
  from assms(2) show ?thesis
  proof cases
    case mbm_main
    then have w': "w' = w\<lparr>mm_main := if j < MB_THREADS then MbJoin (j + 1) else MbDone\<rparr>"
      using j by (auto simp: mbm_main_step_def split: if_splits)
    then have "mb_todo w' = mb_todo w" by (intro ext mb_todo_other) simp_all
    then show ?thesis using ok' w' j by (auto simp: mbm_todo_def joining_def)
  next
    case (mbm_call t c ph b)
    note b = mb_step_todo [OF mbm_call(5)]
    have "mb_todo w' t = pc_todo (mb_putter t) (last_call t (mt_hist (mb_sys b))) (mt_pc (mb_sys b) t)"
      using mbm_call(1) by (simp add: mb_todo_def)
    then have "mb_todo w' t < mb_todo w t"
      using mbm_call(2,4) b(2) pc_todo_le [of "mb_putter t" "last_call t (mt_hist (mb_sys b))" "mt_pc (mb_sys b) t"]
      by (auto simp: mb_todo_def)
    moreover have "mb_todo w' u = mb_todo w u" if "u \<noteq> t" for u
      by (rule mb_todo_other) (use mbm_call(1) b(1) that in auto)
    ultimately have "mbm_todo w' < mbm_todo w" using mbm_call(1) few [OF mbm_call(2)] by (intro sum_todo_less [of w' w t]) auto
    then show ?thesis using ok' j mbm_call(1) by (auto simp: joining_def)
  next
    case (mbm_move t c b)
    note b = mb_step_todo [OF mbm_move(4)]
    have "mb_todo w' t < mb_todo w t" using mbm_move(1,2,3) b(2) by (simp add: mb_todo_def)
    moreover have "mb_todo w' u = mb_todo w u" if "u \<noteq> t" for u
      by (rule mb_todo_other) (use mbm_move(1) b(1) that in auto)
    ultimately have "mbm_todo w' < mbm_todo w" using mbm_move(1) few [OF mbm_move(2)] by (intro sum_todo_less [of w' w t]) auto
    then show ?thesis using ok' j mbm_move(1) by (auto simp: joining_def)
  next
    case (mbm_sleep t c)
    have "mb_todo w' t < mb_todo w t" using mbm_sleep by (simp add: mb_todo_def pc_todo_def)
    moreover have "mb_todo w' u = mb_todo w u" if "u \<noteq> t" for u
      by (rule mb_todo_other) (use mbm_sleep(1) that in auto)
    ultimately have "mbm_todo w' < mbm_todo w" using mbm_sleep(1) few [OF mbm_sleep(2)] by (intro sum_todo_less [of w' w t]) auto
    then show ?thesis using ok' j mbm_sleep(1) by (auto simp: joining_def)
  next
    case (mbm_wake t)
    then show ?thesis using joining_cancelled [OF assms(1), of t] by simp
  next
    case (mbm_end t)
    have "mb_todo w' t < mb_todo w t" using mbm_end by (simp add: mb_todo_def)
    moreover have "mb_todo w' u = mb_todo w u" if "u \<noteq> t" for u
      by (rule mb_todo_other) (use mbm_end(1) that in auto)
    ultimately have "mbm_todo w' < mbm_todo w" using mbm_end(1) few [OF mbm_end(2)] by (intro sum_todo_less [of w' w t]) auto
    then show ?thesis using ok' j mbm_end(1) by (auto simp: joining_def)
  qed
qed

subsection \<open>Nothing gets stuck\<close>

text \<open>Room below the largest \<open>int\<close> for the message a thread may still number.\<close>

definition headroom :: "mbm_world \<Rightarrow> bool" where
  "headroom w \<longleftrightarrow> (\<forall>t. mb_count (mm_box w) t + (case mm_threads w t of Loop _ AtTop \<Rightarrow> 1 | _ \<Rightarrow> 0) < 2147483647)"

lemma headroomD: "headroom w \<Longrightarrow> mb_count (mm_box w) t < 2147483647"
  "headroom w \<Longrightarrow> mm_threads w t = Loop c AtTop \<Longrightarrow> mb_count (mm_box w) t + 1 < 2147483647"
  by (auto simp: headroom_def dest: spec [of _ t])

lemma headroomI:
  assumes "\<And>t. mb_count (mm_box w) t < 2147483647"
    and "\<And>t c. mm_threads w t = Loop c AtTop \<Longrightarrow> mb_count (mm_box w) t + 1 < 2147483647"
  shows "headroom w"
  unfolding headroom_def using assms by (auto split: mb_thread.split mb_phase.split)

lemma mb_step_count:
  assumes "mb_step putter ident t b b'"
  shows "mb_count b' u \<le> mb_count b u + (if u = t \<and> mt_pc (mb_sys b) t = Outside then 1 else 0)"
    "wants_length (putter t) (last_call t (mt_hist (mb_sys b))) \<Longrightarrow> mb_count b' u = mb_count b u"
  using assms by (auto elim!: mb_step.cases dest: next_call_length)

lemma headroom_step:
  assumes "joining w" "mbm_step errs ident w w'" "headroom w"
  shows "headroom w'"
  using assms(2)
proof cases
  case mbm_main
  then obtain m where "w' = w\<lparr>mm_main := m\<rparr>"
    using assms(1) by (auto simp: joining_def mbm_main_step_def split: if_splits)
  then show ?thesis using assms(3) by (simp add: headroom_def)
next
  case (mbm_call t c ph b)
  show ?thesis
  proof (rule headroomI)
    fix u
    show "mb_count (mm_box w') u < 2147483647"
      using mbm_call(1,2,4) headroomD [OF assms(3), of u] mb_step_count [OF mbm_call(5), of u] by (auto split: if_splits)
  next
    fix u c' assume "mm_threads w' u = Loop c' AtTop"
    then have u: "u \<noteq> t" "mm_threads w u = Loop c' AtTop" using mbm_call(1) by (auto split: if_splits)
    then show "mb_count (mm_box w') u + 1 < 2147483647"
      using mbm_call(1) headroomD(2) [OF assms(3) u(2)] mb_step_count(1) [OF mbm_call(5), of u] by simp
  qed
next
  case (mbm_move t c b)
  have "mb_count b u \<le> mb_count (mm_box w) u" for u using mb_step_count(1) [OF mbm_move(4), of u] mbm_move(3) by simp
  note le = this
  show ?thesis
  proof (rule headroomI)
    fix u
    show "mb_count (mm_box w') u < 2147483647" using le [of u] headroomD(1) [OF assms(3), of u] mbm_move(1) by simp
  next
    fix u c' assume "mm_threads w' u = Loop c' AtTop"
    then show "mb_count (mm_box w') u + 1 < 2147483647" using le [of u] headroomD(2) [OF assms(3), of u c'] mbm_move(1) by simp
  qed
next
  case (mbm_sleep t c)
  then show ?thesis using headroomD [OF assms(3)] by (intro headroomI) (auto split: if_splits)
next
  case (mbm_wake t)
  then show ?thesis using joining_cancelled [OF assms(1), of t] by simp
next
  case (mbm_end t)
  then show ?thesis using headroomD [OF assms(3)] by (intro headroomI) (auto split: if_splits)
qed

lemma mb_call_enabled:
  assumes "mt_pc (mb_sys b) t = Outside" "mb_count b t < 2147483647"
  shows "\<exists>b'. mb_step putter ident t b b'"
proof -
  obtain op c where "(op, c) = (if putter t then foo_put (ident t) (replicate 128 0) else foo_get)
      (last_call t (mt_hist (mb_sys b))) (mb_count b t)" by (metis surj_pair)
  from mb_step.mb_call [where junk = "replicate 128 0" and putter = putter and ident = ident, OF assms _ this]
  show ?thesis by auto
qed

lemma mbm_progress:
  assumes "joining w" "headroom w" "cq_rep q0 128 n 0 0" "mt_reach (mt_proper 128) q0 (mb_sys (mm_box w))"
  shows "\<exists>w'. mbm_step errs ident w w'"
proof -
  obtain j where j: "mm_main w = MbJoin j" and ok: "\<And>t. thread_ok w t" using assms(1) by (auto simp: joining_def)
  show ?thesis
  proof (cases "\<exists>w'. mbm_main_step errs w = Some w'")
    case True
    then show ?thesis by (blast intro: mbm_step.mbm_main)
  next
    case False
    then have "\<not> mb_over (mm_threads w j)" using j by (auto simp: mbm_main_step_def split: if_splits)
    then obtain c ph where "mm_threads w j = Loop c ph" by (cases "mm_threads w j") auto
    then have th: "mm_threads w j = Loop True ph" using joining_cancelled [OF assms(1), of j] by simp
    note call = mb_call_enabled [OF _ headroomD(1) [OF assms(2)], of j mb_putter ident]
    have working: "mb_working (mm_threads w t)" if "mt_pc (mb_sys (mm_box w)) t \<noteq> Outside" for t
      using ok [of t] that by (simp add: thread_ok_def)
    show ?thesis
    proof (cases "mt_pc (mb_sys (mm_box w)) j = Outside")
      case out: True
      obtain b where b: "mb_step mb_putter ident j (mm_box w) b" using call [OF out] by blast
      show ?thesis
      proof (cases ph)
        case AtTop
        then show ?thesis using mbm_step.mbm_call [OF th out _ b] by blast
      next
        case AtWork
        show ?thesis
        proof (cases "wants_length (mb_putter j) (last_call j (mt_hist (mb_sys (mm_box w))))")
          case True
          then show ?thesis using mbm_step.mbm_call [OF th out _ b] AtWork by blast
        next
          case False
          then show ?thesis using mbm_step.mbm_sleep [OF th [unfolded AtWork] out] by blast
        qed
      next
        case Asleep
        then show ?thesis using mbm_step.mbm_end [OF th [unfolded Asleep]] by blast
      qed
    next
      case False
      obtain u s' where u: "mt_step (\<lambda>_. False) u (mb_sys (mm_box w)) s'"
        using mt_some_moves [OF assms(3,4) False] by blast
      then have inside: "mt_pc (mb_sys (mm_box w)) u \<noteq> Outside" by (auto elim: mt_stepE)
      then obtain c where "mm_threads w u = Loop c AtWork" using working [OF inside] by (cases "mm_threads w u") auto
      from mbm_step.mbm_move [OF this inside mb_step.mb_move [OF inside u]] show ?thesis by blast
    qed
  qed
qed

end
