(* ===== verification/GclMailboxMainProps.thy ===== *)
theory GclMailboxMainProps
  imports GclMailboxEnd
begin

section \<open>The mailbox program: properties\<close>

text \<open>
  Main with its twenty threads: what holds throughout and at the end, and that the end is reached.
\<close>

lemma mbm_reach_proper:
  assumes "a \<noteq> 0" "unat a + (20 + 201 * 128) < 2 ^ 64" "\<And>t. ident t < 2147483648"
    and "queue_init 128 200 (a, junk) cq_new allocated = Inr (True, q0, allocated')" "mbm_reach errs ident q0 w"
  shows "cq_rep q0 128 201 0 0" "mt_reach (mt_proper 128) q0 (mb_sys (mm_box w))"
proof -
  have id: "ident t < 10000000000" for t using assms(3) [of t] by simp
  have init: "cq_init 200 128 (a, junk) cq_new allocated = Inr (True, q0, allocated')" using assms(4) by (simp add: queue_init_def)
  obtain q1 where "cq_init 200 128 (a, junk) cq_new allocated = Inr (True, q1, insert a allocated)" "cq_rep q1 128 201 0 0"
    by (rule cq_rep_init [of cq_new 200 128 a junk allocated]) (use assms(1,2) in \<open>simp_all add: cq_new_def\<close>)
  then show "cq_rep q0 128 201 0 0" using init by simp
  show "mt_reach (mt_proper 128) q0 (mb_sys (mm_box w))"
    by (rule mt_reach_mono [OF mb_reach_mt [OF id mbm_reach_box [OF assms(5)]]]) (auto simp: mb_calls_def)
qed

lemma mt_outside_free:
  assumes "mt_reach allowed q0 s" "\<And>t. mt_pc s t = Outside"
  shows "rw_free (mt_lock s)"
proof -
  obtain qb where qb: "mt_holds s" by (rule mt_reach_inv [OF assms(1)])
  have "\<not> mt_inside s wr t" for wr t using assms(2) by (simp add: mt_inside_def)
  then have "rw_writer (mt_lock s) \<noteq> Some t" "t \<notin> set (rw_readers (mt_lock s))" for t
    using mt_holdsD(1,2) [OF qb, of t] by simp_all
  then show ?thesis unfolding rw_free_def by (metis list.set_intros(1) neq_Nil_conv not_Some_eq)
qed

text \<open>
  C9: The program of the mailbox sample, whatever the interleaving and whichever threads could not
  be started: no call of the mailbox fails, and when main ends, every thread has ended outside of
  the mailbox, the lock is free, and the accepted messages are those handed out followed by those
  still in the box: cancelling the threads loses no message and leaves no half-made call.
\<close>

theorem mailbox_program_safe:
  assumes "a \<noteq> 0" "unat a + (20 + 201 * 128) < 2 ^ 64" "\<And>t. ident t < 2147483648"
    and "queue_init 128 200 (a, junk) cq_new allocated = Inr (True, q0, allocated')"
    and "mbm_reach errs ident q0 w"
  shows "(\<forall>t op e. mt_pc (mb_sys (mm_box w)) t \<noteq> Inside op (Failed e)) \<and>
    (mm_main w = MbDone \<longrightarrow>
      (\<forall>t. mb_over (mm_threads w t) \<and> mt_pc (mb_sys (mm_box w)) t = Outside) \<and>
      rw_free (mt_lock (mb_sys (mm_box w))) \<and>
      map snd (accepted (mt_hist (mb_sys (mm_box w)))) = handed (mt_hist (mb_sys (mm_box w))) @ cq_items (mt_q (mb_sys (mm_box w))))"
proof -
  let ?s = "mb_sys (mm_box w)"
  note del = mailbox_delivery [OF assms(1-4) mbm_reach_box [OF assms(5)]]
  have ended: "mb_over (mm_threads w t) \<and> mt_pc ?s t = Outside" if "mm_main w = MbDone" for t
  proof -
    have "thread_ok w t" using mbm_reach_ok [OF assms(5)] by blast
    then show ?thesis using that by (cases "mm_threads w t") (auto simp: thread_ok_def)
  qed
  have free: "rw_free (mt_lock ?s)" if "mm_main w = MbDone"
    by (rule mt_outside_free [OF mbm_reach_proper(2) [OF assms]]) (simp add: ended that)
  show ?thesis using del ended free by (fastforce simp: rw_free_def)
qed

lemma mbm_done_stays:
  assumes "\<forall>t. thread_ok w t" "mm_main w = MbDone"
  shows "\<not> mbm_step errs ident w w'"
proof
  have over: "mb_over (mm_threads w t)" for t using assms by (auto simp: thread_ok_def dest: spec [of _ t])
  have no: "mm_threads w t \<noteq> Loop c ph" for t c ph using over [of t] by auto
  assume "mbm_step errs ident w w'"
  then show False by cases (use assms(2) no in \<open>auto simp: mbm_main_step_def\<close>)
qed

lemma mbm_run:
  assumes "(mbm_step errs ident ^^ n) w w'" "mbm_reach errs ident q0 w" "joining w" "headroom w"
  shows "mbm_reach errs ident q0 w' \<and> n + mbm_todo w' \<le> mbm_todo w \<and> (joining w' \<and> headroom w' \<or> mm_main w' = MbDone)"
  using assms(1)
proof (induction n arbitrary: w')
  case 0
  then show ?case using assms by simp
next
  case (Suc n)
  from Suc.prems obtain v where v: "(mbm_step errs ident ^^ n) w v" "mbm_step errs ident v w'" by auto
  note IH = Suc.IH [OF v(1)]
  have "joining v \<and> headroom v" using IH mbm_done_stays [OF mbm_reach_ok] v(2) by blast
  then show ?case
    using IH mbm_todo_step [OF _ v(2)] headroom_step [OF _ v(2)] mbm_next [OF _ v(2)] by fastforce
qed

lemma joiningI: "mbm_reach errs ident q0 w \<Longrightarrow> mm_main w = MbJoin j \<Longrightarrow> joining w"
  using mbm_reach_ok by (auto simp: joining_def)

lemma mbm_end_lemma:
  assumes "a \<noteq> 0" "unat a + (20 + 201 * 128) < 2 ^ 64" "\<And>t. ident t < 2147483648"
    and "queue_init 128 200 (a, junk) cq_new allocated = Inr (True, q0, allocated')"
    and "mbm_reach errs ident q0 w" "mm_main w = MbJoin j" "\<And>t. mb_count (mm_box w) t < 2147483646"
    and "(mbm_step errs ident ^^ n) w w'"
  shows "n \<le> 301 \<and> (mm_main w' = MbDone \<or> (\<exists>w''. mbm_step errs ident w' w''))"
proof -
  have "headroom w" using assms(7) by (intro headroomI) (auto simp: less_Suc_eq_le dest: spec intro: le_less_trans less_imp_le)
  note run = mbm_run [OF assms(8,5) joiningI [OF assms(5,6)] this]
  have "n \<le> 301" using run mbm_todo_le [of w] by linarith
  moreover have "\<exists>w''. mbm_step errs ident w' w''" if "mm_main w' \<noteq> MbDone"
  proof (rule mbm_progress)
    show "joining w'" "headroom w'" using run that by auto
    have r: "mbm_reach errs ident q0 w'" using run by blast
    show "cq_rep q0 128 201 0 0" "mt_reach (mt_proper 128) q0 (mb_sys (mm_box w'))"
      using mbm_reach_proper [where ident = ident, OF assms(1-4) r] by simp_all
  qed
  ultimately show ?thesis by blast
qed

text \<open>
  C10: Once main has cancelled the threads and joins them, the program ends: every further run has
  at most 301 steps, and none gets stuck before main is done. The putting threads must not have
  used up the numbers of an \<open>int\<close>.
\<close>

theorem mailbox_program_ends:
  assumes "a \<noteq> 0" "unat a + (20 + 201 * 128) < 2 ^ 64" "\<And>t. ident t < 2147483648"
    and "queue_init 128 200 (a, junk) cq_new allocated = Inr (True, q0, allocated')"
    and "mbm_reach errs ident q0 w" "mm_main w = MbJoin j" "\<And>t. mb_count (mm_box w) t < 2147483646"
    and "(mbm_step errs ident ^^ n) w w'"
  shows "n \<le> 301 \<and> (mm_main w' = MbDone \<or> (\<exists>w''. mbm_step errs ident w' w''))"
  by (rule mbm_end_lemma [OF assms])

subsection \<open>A run to the end\<close>

lemma mbm_started:
  "n \<le> 20 \<Longrightarrow> mbm_reach (\<lambda>_. 0) ident q0
     \<lparr>mm_box = mb_init q0, mm_threads = (\<lambda>t. if t < n then Loop False AtTop else NotStarted), mm_main = MbStart n\<rparr>"
proof (induction n)
  case 0
  then show ?case using mbm_start [of "\<lambda>_. 0" ident q0] by (simp add: mbm_init_def)
next
  case (Suc n)
  then show ?case by (intro mbm_next [OF Suc.IH mbm_main]) (auto simp: mbm_main_step_def fun_eq_iff)
qed

lemma mbm_cancelled:
  "n \<le> 20 \<Longrightarrow> mbm_reach (\<lambda>_. 0) ident q0
     \<lparr>mm_box = mb_init q0, mm_threads = (\<lambda>t. if t < 20 then Loop (t < n) AtTop else NotStarted), mm_main = MbCancel n\<rparr>"
proof (induction n)
  case 0
  have "mbm_reach (\<lambda>_. 0) ident q0
     \<lparr>mm_box = mb_init q0, mm_threads = (\<lambda>t. if t < 20 then Loop False AtTop else NotStarted), mm_main = MbSleep\<rparr>"
    by (rule mbm_next [OF mbm_started [of 20] mbm_main]) (simp_all add: mbm_main_step_def)
  then show ?case by (rule mbm_next [OF _ mbm_main]) (auto simp: mbm_main_step_def fun_eq_iff)
next
  case (Suc n)
  then show ?case by (intro mbm_next [OF Suc.IH mbm_main]) (auto simp: mbm_main_step_def fun_eq_iff less_Suc_eq)
qed

definition mbm_joins :: "cqueue \<Rightarrow> mbm_world" where
  "mbm_joins q0 = \<lparr>mm_box = mb_init q0, mm_threads = (\<lambda>t. if t < 20 then Loop True AtTop else NotStarted), mm_main = MbJoin 0\<rparr>"

lemma mbm_joins_reach: "mbm_reach (\<lambda>_. 0) ident q0 (mbm_joins q0)"
  by (rule mbm_next [OF mbm_cancelled [of 20] mbm_main]) (auto simp: mbm_main_step_def mbm_joins_def fun_eq_iff)

lemma mailbox_program_ends_witness:
  "\<exists>q0 w. mbm_reach (\<lambda>_. 0) (\<lambda>_. 1) q0 w \<and> mm_threads w 19 = Loop True AtTop \<and> (\<exists>w'. mbm_step (\<lambda>_. 0) (\<lambda>_. 1) w w')"
proof -
  obtain q0 where q0: "queue_init 128 200 (4096, \<lambda>_. 0) cq_new {} = Inr (True, q0, {4096})"
    using cq_rep_init [of cq_new 200 128 4096 "\<lambda>_. 0" "{}"] by (auto simp: queue_init_def cq_new_def)
  have a: "(4096 :: ptr) \<noteq> 0" "unat (4096 :: ptr) + (20 + 201 * 128) < 2 ^ 64" by simp_all
  have "\<exists>w'. mbm_step (\<lambda>_. 0) (\<lambda>_. 1) (mbm_joins q0) w'"
    using mailbox_program_ends [OF a _ q0 mbm_joins_reach [of "\<lambda>_. 1"], of 0 0 "mbm_joins q0"]
    by (simp add: mbm_joins_def mb_init_def)
  then show ?thesis using mbm_joins_reach [of "\<lambda>_. 1" q0] by (intro exI [of _ q0] exI [of _ "mbm_joins q0"]) (simp add: mbm_joins_def)
qed

lemma mbm_reaches_end:
  assumes "a \<noteq> 0" "unat a + (20 + 201 * 128) < 2 ^ 64" "\<And>t. ident t < 2147483648"
    and "queue_init 128 200 (a, junk) cq_new allocated = Inr (True, q0, allocated')"
  shows "mbm_reach errs ident q0 w \<Longrightarrow> joining w \<Longrightarrow> headroom w \<Longrightarrow> \<exists>w'. mbm_reach errs ident q0 w' \<and> mm_main w' = MbDone"
proof (induction "mbm_todo w" arbitrary: w rule: less_induct)
  case less
  obtain w' where w': "mbm_step errs ident w w'"
    using mbm_progress [OF less.prems(2,3) mbm_reach_proper [where ident = ident, OF assms less.prems(1)]] by blast
  have r: "mbm_reach errs ident q0 w'" by (rule mbm_next [OF less.prems(1) w'])
  show ?case
    using mbm_todo_step [OF less.prems(2) w'] less.hyps [OF _ r] headroom_step [OF less.prems(2) w' less.prems(3)] r by blast
qed

lemma mailbox_program_safe_witness:
  "\<exists>q0 w. mbm_reach (\<lambda>_. 0) (\<lambda>_. 1) q0 w \<and> mm_main w = MbDone \<and> (\<forall>t. mb_over (mm_threads w t))
    \<and> rw_free (mt_lock (mb_sys (mm_box w)))"
proof -
  obtain q0 where q0: "queue_init 128 200 (4096, \<lambda>_. 0) cq_new {} = Inr (True, q0, {4096})"
    using cq_rep_init [of cq_new 200 128 4096 "\<lambda>_. 0" "{}"] by (auto simp: queue_init_def cq_new_def)
  have a: "(4096 :: ptr) \<noteq> 0" "unat (4096 :: ptr) + (20 + 201 * 128) < 2 ^ 64" "(1 :: nat) < 2147483648" by simp_all
  have "joining (mbm_joins q0)" by (rule joiningI [OF mbm_joins_reach]) (simp add: mbm_joins_def)
  moreover have "headroom (mbm_joins q0)" by (intro headroomI) (simp_all add: mbm_joins_def mb_init_def)
  ultimately obtain w where w: "mbm_reach (\<lambda>_. 0) (\<lambda>_. 1) q0 w" "mm_main w = MbDone"
    using mbm_reaches_end [OF a(1,2) _ q0 mbm_joins_reach [of "\<lambda>_. 1"]] a(3) by blast
  show ?thesis using mailbox_program_safe [OF a(1,2) _ q0 w(1)] a(3) w by blast
qed

end
