(* ===== verification/Spec2Isabelle.thy ===== *)
theory Spec2Isabelle
  imports GclQueProps GclSampleMains GclListProps GclListSample GclTokProps GclUtilProps GclTimeProps GclTimeSample GclEventNestProps
    GclQueMTProps GclEventMTProps GclThreadProps GclThreadSample GclThreadCtor GclCounterProps GclMMapProps GclMMapWin GclMMapSample
    GclSocketFrames GclSemProps GclCond GclMailboxProps GclMailboxMainProps
begin

text \<open>
  OpenGCL, a verification library beside the code of \<open>include/\<close>, \<open>src/\<close> and \<open>samples/\<close>.

  The program is a C++ class library: a circular queue on a raw block of bytes and its typed and
  thread-safe wrappers (\<open>gque\<close>), an intrusive ring list (\<open>glist\<close>), a tokenizer (\<open>gtockenizer\<close>),
  threads and locks over pthreads (\<open>gthread\<close>, \<open>gsemaphore\<close>), an event emitter (\<open>gevent\<close>) that
  keeps its names and listeners in two queues under a lock, time (\<open>gtime\<close>), memory mappings
  (\<open>gmmap\<close>), sockets (\<open>gsocket\<close>) and hexadecimal utilities (\<open>gutil\<close>).

  Conventions. Unsigned integers are words of their width, so that sums and offsets wrap as in
  C; signed sums that C leaves undefined on overflow are checked (\<open>signed_fit\<close>). An operation
  that can go wrong beyond its return value answers \<open>fault + 'a\<close>: reads and writes outside of a
  block, a null pointer, a division by zero, an uninitialised value, an overflow, a handle or
  object used after its end, a lock misuse, and \<open>Diverges\<close> for a loop that used up its turns.
  Objects are records with the members of the class, methods take and return them. What the
  operating system and the C library do is a record or function argument of the definitions; what
  is relied on is a named hypothesis (\<open>sock_stream\<close>, \<open>sock_clock\<close>, \<open>sock_fds\<close>, \<open>mm_lawful\<close>,
  \<open>wn_lawful\<close>, \<open>mem_lawful\<close>, \<open>clock_lawful\<close>), each with a system in memory for which it is proved.

  Theories, in the order of the imports:

  \<^item> \<open>GclPrelude\<close>: faults and their sequencing, words, little-endian bytes, blocks of bytes, ring
    indices, decimal digits. \<open>GclInterfaces\<close>: the locales of queues and what follows from their
    laws; they are interpreted on the code's queue in \<open>GclQueIter\<close> and on its list in \<open>GclListFacts\<close>.
  \<^item> \<open>GclQue\<close>, \<open>GclQueFacts\<close>, \<open>GclQueIter\<close>, \<open>GclQueProps\<close>: \<open>include/gque.h\<close>, \<open>src/gque.cpp\<close>. The control
    block with 32-bit offsets and the item bytes; \<open>cq_rep\<close> relates them to ring indices and so to a
    list. Refinement of a bounded list, traversals, the operations at the other end and where they
    leave the ring. \<open>GclQueTyped\<close>, \<open>GclQueSample\<close>, \<open>GclQueSampleProps\<close>: the typed interface with
    references and the tests of \<open>samples/ex-que.cpp\<close> with the lines they print. \<open>GclSampleMains\<close>: its main
    and the main of \<open>samples/ex-socket.cpp\<close>.
  \<^item> \<open>GclList\<close>, \<open>GclListFacts\<close>, \<open>GclListProps\<close>: \<open>include/glist.h\<close>, \<open>src/glist.cpp\<close>. Links in a heap of
    addresses; rings, their length, removal and deletion, stale nodes. \<open>GclListSample\<close>: the tests of
    \<open>samples/ex-list.cpp\<close>, with the items that are alive.
  \<^item> \<open>GclTok\<close>, \<open>GclTokFacts\<close>, \<open>GclTokProps\<close>: \<open>include/gtockenizer.h\<close>, \<open>src/gtockenizer.cpp\<close>. Tokens against
    splitting the string, the sample loop, the caller's buffer.
  \<^item> \<open>GclUtil\<close>, \<open>GclUtilProps\<close>: \<open>src/util/gutil.cpp\<close>, \<open>src/util/filelength.cpp\<close>.
  \<^item> \<open>GclTime\<close>, \<open>GclTimeProps\<close>: \<open>include/gtime.h\<close>, \<open>src/gtime.cpp\<close>, \<open>src/gtime_sleep.cpp\<close>, on POSIX and on
    Windows, with the width of \<open>long\<close> as a type parameter. \<open>GclTimeSample\<close>: the precision test of
    \<open>samples/ex-time.cpp\<close> against a lawful clock.
  \<^item> \<open>GclSync\<close>: the locks of \<open>include/gthread.h\<close> and the semaphore; a call that waits is \<open>None\<close>.
    \<open>GclCond\<close>: \<open>Condition\<close> with a mutex, waiting and woken threads, and threads around such a monitor.
    \<open>GclSem\<close>, \<open>GclSemProps\<close>: \<open>samples/ex-sem.cpp\<close> as a step relation, its invariant and a measure.
  \<^item> \<open>GclQueMT\<close>, \<open>GclQueMTProps\<close>: the class \<open>QueueMT\<close>. Every method is broken into the steps between
    which other threads run; mutual exclusion, linearizability, progress, and the bounded list
    again as the abstract mailbox. \<open>GclMailbox\<close>, \<open>GclMailboxProps\<close>: the loops of
    \<open>samples/ex-mbox.cpp\<close> on top of it. \<open>GclMailboxMain\<close>, \<open>GclMailboxEnd\<close>, \<open>GclMailboxMainProps\<close>: its main,
    which starts, cancels and joins the threads; what is left at the end, and a measure that ends it.
  \<^item> \<open>GclEvent\<close>, \<open>GclEventFacts\<close>, \<open>GclEventOps\<close>, \<open>GclEventSqueeze\<close>, \<open>GclEventRun\<close>, \<open>GclEventProps\<close>:
    \<open>include/gevent.h\<close>, \<open>src/gevent.cpp\<close>. Names and listeners as bytes in two queues of \<open>GclQue\<close>, the
    lock of \<open>GclSync\<close>; refinement of a registry of events. \<open>GclGuarded\<close> is the locale of an object
    whose every operation runs under a write lock: linearizability and progress follow from the
    sequential contract. \<open>GclEventMT\<close>, \<open>GclEventMTProps\<close> interpret it on the emitter and replay
    the program of \<open>samples/ex-event.cpp\<close>. \<open>GclEventNest\<close>, \<open>GclEventNestProps\<close>: \<open>emit\<close> with listeners
    that call the emitter from inside, as scripts of calls; the same as before for listeners that do
    not call, and never a proper return for those that do.
  \<^item> \<open>GclThread\<close>, \<open>GclThreadFacts\<close>, \<open>GclThreadProps\<close>: the class \<open>Thread\<close>, \<open>src/gthread.cpp\<close>. Objects, the
    static counter and key, thread-specific values; an invariant over all admissible programs.
    \<open>GclThreadRace\<close>: wrapper and cleanup handler cut where they load and store the counter.
    \<open>GclThreadCtor\<close>: the constructors that start. \<open>GclThreadSample\<close>: the self-deleting class of
    \<open>samples/ex-thread.cpp\<close>. \<open>GclCounter\<close>, \<open>GclCounterProps\<close>: the 512 threads of \<open>samples/ex-thread.cpp\<close> and \<open>samples/ex-pthread.cpp\<close> around
    one counter, as a step relation.
  \<^item> \<open>GclMMap\<close>, \<open>GclMMapProps\<close>: \<open>include/gmmap.h\<close>, \<open>src/gmmap.cpp\<close>. Ownership of the mapping, the window at
    aligned and unaligned offsets, failures. \<open>GclMMapWin\<close>: the branch for Windows, where a mapping
    is a handle and a view. \<open>GclMMapSample\<close>: \<open>samples/ex-mmap.cpp\<close>, with the bytes in memory.
  \<^item> \<open>GclSocket\<close>, \<open>GclSocketIO\<close>, \<open>GclSocketFacts\<close>, \<open>GclSocketRun\<close>, \<open>GclSocketSample\<close>, \<open>GclSocketFds\<close>,
    \<open>GclSocketProps\<close>: \<open>include/gsocket.h\<close>, \<open>src/gsocket.cpp\<close>, \<open>samples/ex-socket.cpp\<close>. The loop that
    \<open>gsock_read\<close> and \<open>gsock_write\<close> share is one definition with the transfer and the readiness check
    as arguments; one lemma on what it moves and one on its return serve both. Ownership of
    descriptors by the class, the sample's accept loop and its messages from server to client.
    \<open>GclSocketFrames\<close>: the V packets, their constants, replies, and sequences of packets with data.

  Turns and bounds. The calls of \<open>GclEventNest\<close> have one number for turns and depth, as many as the queue
  has bytes when no listener calls. Loops that the code bounds by data are recursive on it or on the number of
  slots of a queue. The loops with a deadline take turns as fuel: reading the clock takes at
  least a nanosecond, so \<open>deadline timeout\<close> turns (the nanoseconds of the timeout plus one
  millisecond) are enough, for timeouts up to 2 to the 29 milliseconds and calls that take no longer than that,
  which keeps the elapsed time within the 32 bits of the code. The loops of the socket sample need as many
  turns as the connection carries bytes, the semaphore sample ends within 67 steps, a call of \<open>QueueMT\<close>
  within five, the mailbox sample within 301 steps of the first join.

  Not modelled: \<open>src/gdmsg.cpp\<close> (debug output), \<open>src/win32/opengcl_dll.cpp\<close>, the umbrella headers, the
  build files; the steps other threads can take when a nested call has released the lock of an \<open>emit\<close>;
  a thread of \<open>samples/ex-sem.cpp\<close> that cannot be started; the deletion of the thread object
  at the end of \<open>_serv_d\<close> in \<open>samples/ex-socket.cpp\<close>; the
  outcome of a timed wait, which is an argument; clock readings and floating point columns in
  what samples print. \<open>init\<close> and \<open>clear\<close> of \<open>QueueMT\<close> do not compile when used, and \<open>Mutex(int)\<close> has no
  definition. What is left besides are declarations, comments and platform switches.
\<close>

end
